(* ===== verification/DuckPrelude.thy ===== *)
theory DuckPrelude
  imports Main
begin

text \<open>
  The prelude of the development: the machine index type of the engine, the
  exceptions the modelled code throws, the result type of fallible code, and
  the generic list lemmas that the component theories share.

  \<^verbatim>\<open>idx_t\<close> is the 64-bit unsigned integer of the engine. It is modelled by natural
  numbers; where the code adds or subtracts two values that are not bounded by
  a chunk size, the wrap-around is written out with \<open>idx_add\<close> and \<open>idx_sub\<close>.
\<close>

section \<open>Machine indexes\<close>

type_synonym idx_t = nat

abbreviation idx_mod :: nat where
  "idx_mod \<equiv> 18446744073709551616"

definition invalid_index :: idx_t where
  "invalid_index = idx_mod - 1"

definition idx_add :: "idx_t \<Rightarrow> idx_t \<Rightarrow> idx_t" where
  "idx_add a b = (a + b) mod idx_mod"

definition idx_sub :: "idx_t \<Rightarrow> idx_t \<Rightarrow> idx_t" where
  "idx_sub a b = (if b \<le> a then a - b else (a + idx_mod - b) mod idx_mod)"

definition standard_vector_size :: nat where
  "standard_vector_size = 2048"

lemma standard_vector_size_pos [simp]: "0 < standard_vector_size"
  by (simp add: standard_vector_size_def)

lemma idx_add_small [simp]: "a + b < idx_mod \<Longrightarrow> idx_add a b = a + b"
  by (simp add: idx_add_def)

lemma idx_sub_le [simp]: "b \<le> a \<Longrightarrow> idx_sub a b = a - b"
  by (simp add: idx_sub_def)

lemma idx_add_bound: "idx_add a b < idx_mod"
  by (simp add: idx_add_def)

section \<open>Exceptions and results\<close>

datatype duck_error =
    BinderException string
  | CatalogException string
  | InternalException string
  | ParserException string
  | IOException string
  | TransactionException string
  | SerializationException string
  | OutOfRangeException string
  | FatalException string
  | InvalidInputException string
  | InterruptException
  | StdException string
  | UndefinedBehavior string

type_synonym 'a result = "duck_error + 'a"

text \<open>Sequencing of fallible steps: the first exception stops the run.\<close>

definition result_bind :: "'a result \<Rightarrow> ('a \<Rightarrow> 'b result) \<Rightarrow> 'b result" where
  "result_bind r f = (case r of Inl e \<Rightarrow> Inl e | Inr x \<Rightarrow> f x)"

lemma result_bind_simps [simp]:
  "result_bind (Inl e) f = Inl e"
  "result_bind (Inr x) f = f x"
  by (simp_all add: result_bind_def)

lemma result_bind_eq_Inr:
  "result_bind r f = Inr y \<longleftrightarrow> (\<exists>x. r = Inr x \<and> f x = Inr y)"
  by (cases r) auto

fun traverse :: "('a \<Rightarrow> 'b result) \<Rightarrow> 'a list \<Rightarrow> 'b list result" where
  "traverse f [] = Inr []"
| "traverse f (x # xs) = result_bind (f x) (\<lambda>y. result_bind (traverse f xs) (\<lambda>ys. Inr (y # ys)))"

lemma traverse_length: "traverse f xs = Inr ys \<Longrightarrow> length ys = length xs"
  by (induction xs arbitrary: ys) (auto simp: result_bind_eq_Inr)

lemma traverse_nth:
  "traverse f xs = Inr ys \<Longrightarrow> i < length xs \<Longrightarrow> f (xs ! i) = Inr (ys ! i)"
  by (induction xs arbitrary: ys i) (auto simp: result_bind_eq_Inr nth_Cons split: nat.splits)

lemma traverse_Inl: "traverse f xs = Inl e \<Longrightarrow> \<exists>x \<in> set xs. f x = Inl e"
  by (induction xs) (auto simp: result_bind_def split: sum.splits)

lemma traverse_total:
  "\<forall>x \<in> set xs. \<exists>y. f x = Inr y \<and> R y x \<Longrightarrow> \<exists>ys. traverse f xs = Inr ys \<and> list_all2 R ys xs"
proof (induction xs)
  case (Cons x xs)
  then obtain y ys where "f x = Inr y" "R y x" "traverse f xs = Inr ys" "list_all2 R ys xs" by auto
  then show ?case by simp
qed simp

fun result_fold :: "('a \<Rightarrow> 's \<Rightarrow> 's result) \<Rightarrow> 'a list \<Rightarrow> 's \<Rightarrow> 's result" where
  "result_fold f [] s = Inr s"
| "result_fold f (x # xs) s = result_bind (f x s) (result_fold f xs)"

lemma result_fold_append: "result_fold f (xs @ ys) s = result_bind (result_fold f xs s) (result_fold f ys)"
  by (induction xs arbitrary: s) (auto simp: result_bind_def split: sum.splits)

lemma result_fold_invariant:
  assumes "P s" and "\<And>x s. x \<in> set xs \<Longrightarrow> P s \<Longrightarrow> \<exists>s'. f x s = Inr s' \<and> P s'"
  shows "\<exists>s'. result_fold f xs s = Inr s' \<and> P s'"
  using assms
proof (induction xs arbitrary: s)
  case (Cons x xs)
  then obtain s' where "f x s = Inr s'" "P s'" by (metis list.set_intros(1))
  moreover have "\<exists>s''. result_fold f xs s' = Inr s'' \<and> P s''" using Cons \<open>P s'\<close> by (intro Cons.IH) auto
  ultimately show ?case by simp
qed simp

text \<open>An element of a bounds-checked \<^verbatim>\<open>vector\<close>.\<close>

definition vector_at :: "'a list \<Rightarrow> idx_t \<Rightarrow> 'a result" where
  "vector_at xs i = (if i < length xs then Inr (xs ! i)
     else Inl (InternalException ''Attempted to access index outside of vector''))"

section \<open>Numbers as text\<close>

text \<open>\<^verbatim>\<open>to_string\<close> of an unsigned number.\<close>

function to_string :: "nat \<Rightarrow> string" where
  "to_string n = (if n < 10 then [char_of (48 + n)] else to_string (n div 10) @ [char_of (48 + n mod 10)])"
  by pat_completeness auto
termination by (relation "measure (\<lambda>n. n)") auto

declare to_string.simps [simp del]

section \<open>Lists\<close>

text \<open>
  Overwriting a run of cells of a vector: the cells from \<open>pos\<close> on are replaced
  by \<open>new\<close>, the cells before and after are kept.
\<close>

definition write_at :: "nat \<Rightarrow> 'a list \<Rightarrow> 'a list \<Rightarrow> 'a list" where
  "write_at pos new xs = take pos xs @ new @ drop (pos + length new) xs"

lemma take_write_at [simp]:
  "pos \<le> length xs \<Longrightarrow> take (pos + length new) (write_at pos new xs) = take pos xs @ new"
  by (simp add: write_at_def)

lemma nth_write_at:
  "pos \<le> length xs \<Longrightarrow> i < pos + length new \<Longrightarrow>
   write_at pos new xs ! i = (if i < pos then xs ! i else new ! (i - pos))"
  by (auto simp: write_at_def nth_append)

lemma length_write_at_ge:
  "pos \<le> length xs \<Longrightarrow> pos + length new \<le> length (write_at pos new xs)"
  by (simp add: write_at_def)

lemma filter_upt_split:
  "a \<le> b \<Longrightarrow> filter P [0..<a] @ filter P [a..<b] = filter P [0..<b]"
  by (metis filter_append le_add_diff_inverse upt_add_eq_append zero_le)

lemma map_nth_upt_take: "n \<le> length xs \<Longrightarrow> map ((!) xs) [0..<n] = take n xs"
  by (rule nth_equalityI) auto

lemma map_nth_upt_drop:
  "a \<le> b \<Longrightarrow> b \<le> length xs \<Longrightarrow> map ((!) xs) [a..<b] = drop a (take b xs)"
  by (rule nth_equalityI) auto

lemma map_filter_upt_nth:
  "n \<le> length xs \<Longrightarrow> map ((!) xs) (filter (\<lambda>i. P (xs ! i)) [0..<n]) = filter P (take n xs)"
proof (induction n)
  case 0
  then show ?case by simp
next
  case (Suc n)
  then show ?case by (simp add: take_Suc_conv_app_nth)
qed

lemma take_append_ge: "n \<le> length xs \<Longrightarrow> take n (xs @ ys) = take n xs"
  by simp

end
