(* ===== verification/PowerOfTwo.thy ===== *)
theory PowerOfTwo
  imports DuckPrelude "HOL-Library.Word"
begin

text \<open>
  \<^verbatim>\<open>NextPowerOfTwo\<close> and \<^verbatim>\<open>PreviousPowerOfTwo\<close> of \<^verbatim>\<open>src/common/constants.cpp\<close>, on
  64-bit words as in the source, and the proof that the bit smearing computes
  the least power of two that is not below its argument.
\<close>

unbundle bit_operations_syntax

definition smear_step :: "nat \<Rightarrow> 64 word \<Rightarrow> 64 word" where
  "smear_step k v = v OR drop_bit k v"

definition next_power_of_two :: "64 word \<Rightarrow> 64 word result" where
  "next_power_of_two v_in =
     (if v_in < 1 then Inr 2
      else let v = v_in - 1;
               v = smear_step 1 v;
               v = smear_step 2 v;
               v = smear_step 4 v;
               v = smear_step 8 v;
               v = smear_step 16 v;
               v = smear_step 32 v;
               v = v + 1
           in if v = 0 then Inl (OutOfRangeException ''Can't find next power of 2'') else Inr v)"

definition previous_power_of_two :: "64 word \<Rightarrow> 64 word result" where
  "previous_power_of_two v = next_power_of_two (v div 2 + 1)"

section \<open>Smearing copies the highest bit downwards\<close>

definition smeared :: "nat \<Rightarrow> 64 word \<Rightarrow> 64 word \<Rightarrow> bool" where
  "smeared k v w \<longleftrightarrow> (\<forall>n. bit w n \<longleftrightarrow> (\<exists>j < k. bit v (n + j)))"

lemma smeared_refl: "smeared 1 v v"
  by (simp add: smeared_def)

lemma smeared_step:
  assumes "smeared k v w"
  shows "smeared (k + k) v (smear_step k w)"
proof -
  have "bit (smear_step k w) n \<longleftrightarrow> (\<exists>j < k + k. bit v (n + j))" for n
  proof -
    have "bit (smear_step k w) n \<longleftrightarrow> bit w n \<or> bit w (k + n)"
      by (simp add: smear_step_def bit_or_iff bit_drop_bit_eq)
    also have "\<dots> \<longleftrightarrow> (\<exists>j < k. bit v (n + j)) \<or> (\<exists>j < k. bit v (k + n + j))"
      using assms by (simp add: smeared_def)
    also have "\<dots> \<longleftrightarrow> (\<exists>j < k + k. bit v (n + j))"
    proof
      assume "(\<exists>j < k. bit v (n + j)) \<or> (\<exists>j < k. bit v (k + n + j))"
      then show "\<exists>j < k + k. bit v (n + j)"
      proof
        assume "\<exists>j < k. bit v (k + n + j)"
        then obtain j where "j < k" "bit v (n + (k + j))"
          by (auto simp: ac_simps)
        then show ?thesis by (intro exI [of _ "k + j"]) simp
      next
        assume "\<exists>j < k. bit v (n + j)"
        then show ?thesis by (meson trans_less_add1)
      qed
    next
      assume "\<exists>j < k + k. bit v (n + j)"
      then obtain j where j: "j < k + k" "bit v (n + j)" by blast
      show "(\<exists>j < k. bit v (n + j)) \<or> (\<exists>j < k. bit v (k + n + j))"
      proof (cases "j < k")
        case False
        then have "j - k < k" "bit v (k + n + (j - k))"
          using j by (simp_all add: ac_simps)
        then show ?thesis by blast
      qed (use j in blast)
    qed
    finally show ?thesis .
  qed
  then show ?thesis by (simp add: smeared_def)
qed

definition smear_all :: "64 word \<Rightarrow> 64 word" where
  "smear_all v = smear_step 32 (smear_step 16 (smear_step 8 (smear_step 4 (smear_step 2 (smear_step 1 v)))))"

lemma smeared_all: "smeared 64 v (smear_all v)"
proof -
  have "smeared 2 v (smear_step 1 v)"
    using smeared_step [OF smeared_refl [of v]] by (simp add: numeral_2_eq_2)
  from smeared_step [OF this] have "smeared 4 v (smear_step 2 (smear_step 1 v))" by simp
  from smeared_step [OF this] have "smeared 8 v (smear_step 4 (smear_step 2 (smear_step 1 v)))" by simp
  from smeared_step [OF this]
  have "smeared 16 v (smear_step 8 (smear_step 4 (smear_step 2 (smear_step 1 v))))" by simp
  from smeared_step [OF this]
  have "smeared 32 v (smear_step 16 (smear_step 8 (smear_step 4 (smear_step 2 (smear_step 1 v)))))" by simp
  from smeared_step [OF this] show ?thesis by (simp add: smear_all_def)
qed

lemma bit_smear_all: "bit (smear_all v) n \<longleftrightarrow> (\<exists>m \<ge> n. bit v m)"
proof -
  have "bit (smear_all v) n \<longleftrightarrow> (\<exists>j < 64. bit v (n + j))"
    using smeared_all [of v] by (simp add: smeared_def)
  also have "\<dots> \<longleftrightarrow> (\<exists>m \<ge> n. bit v m)"
  proof
    assume "\<exists>m \<ge> n. bit v m"
    then obtain m where m: "n \<le> m" "bit v m" by blast
    then have "m < 64" using bit_imp_le_length [of v m] by simp
    with m show "\<exists>j < 64. bit v (n + j)"
      by (intro exI [of _ "m - n"]) auto
  qed (meson le_add1)
  finally show ?thesis .
qed

section \<open>The result is the least power of two above the argument\<close>

text \<open>The number of significant bits of a word.\<close>

definition bit_width :: "64 word \<Rightarrow> nat" where
  "bit_width v = (LEAST k. unat v < 2 ^ k)"

lemma bit_width_bounds:
  "unat v < 2 ^ bit_width v"
  "j < bit_width v \<Longrightarrow> 2 ^ j \<le> unat v"
proof -
  have ex: "unat v < 2 ^ 64" using unsigned_less [of v] by simp
  show "unat v < 2 ^ bit_width v"
    unfolding bit_width_def by (rule LeastI [of "\<lambda>k. unat v < 2 ^ k", OF ex])
  show "2 ^ j \<le> unat v" if "j < bit_width v"
    using that not_less_Least [of j "\<lambda>k. unat v < 2 ^ k"] unfolding bit_width_def by (meson not_le)
qed

lemma bit_width_le_64: "bit_width v \<le> 64"
  unfolding bit_width_def using unsigned_less [of v] by (intro Least_le) simp

lemma bit_below_width: "(\<exists>m \<ge> j. bit v m) \<longleftrightarrow> j < bit_width v"
proof
  assume "\<exists>m \<ge> j. bit v m"
  then obtain m where m: "j \<le> m" "bit (unat v) m" by (auto simp: bit_unsigned_iff dest: bit_imp_le_length)
  then have "odd (unat v div 2 ^ m)" by (simp add: bit_iff_odd)
  then have "2 ^ m \<le> unat v" by (metis div_less even_zero not_le)
  with bit_width_bounds(1) [of v] have "m < bit_width v"
    by (meson le_less_trans nat_power_less_imp_less zero_less_numeral)
  with m show "j < bit_width v" by simp
next
  assume j: "j < bit_width v"
  define k where "k = bit_width v - 1"
  have k: "bit_width v = Suc k" "j \<le> k" using j by (auto simp: k_def)
  have "2 ^ k \<le> unat v" "unat v < 2 * 2 ^ k"
    using bit_width_bounds(1) [of v] bit_width_bounds(2) [of k v] by (simp_all add: k)
  then have "unat v div 2 ^ k = 1" by (simp add: div_nat_eqI)
  then have "bit (unat v) k" by (simp add: bit_iff_odd)
  then have "bit v k" by (simp add: bit_unsigned_iff)
  with k show "\<exists>m \<ge> j. bit v m" by blast
qed

lemma smear_all_mask: "smear_all v = mask (bit_width v)"
proof (rule bit_word_eqI)
  fix n assume "n < LENGTH(64)"
  then show "bit (smear_all v) n \<longleftrightarrow> bit (mask (bit_width v) :: 64 word) n"
    by (simp add: bit_smear_all bit_below_width bit_mask_iff)
qed

lemma next_power_of_two_width:
  "0 < v \<Longrightarrow> next_power_of_two v =
     (if bit_width (v - 1) = 64 then Inl (OutOfRangeException ''Can't find next power of 2'')
      else Inr (2 ^ bit_width (v - 1)))"
proof -
  assume v: "0 < v"
  define k where "k = bit_width (v - 1)"
  have "smear_all (v - 1) + 1 = 2 ^ k"
    by (simp add: smear_all_mask mask_eq_exp_minus_1 k_def)
  moreover have "(2 :: 64 word) ^ k = 0 \<longleftrightarrow> k = 64"
    using bit_width_le_64 [of "v - 1"] by (auto simp: k_def exp_eq_zero_iff)
  ultimately show ?thesis
    using v by (simp add: next_power_of_two_def smear_all_def Let_def k_def [symmetric]
        word_less_1 word_gt_0)
qed


text \<open>
  \<^verbatim>\<open>NextPowerOfTwo(v)\<close> for \<open>v > 0\<close>: when \<open>v\<close> is at most \<open>2 ^ 63\<close> it returns the
  least power of two that is not below \<open>v\<close>, and otherwise, and only then, it throws.
\<close>

theorem next_power_of_two_least:
  assumes "0 < v"
  shows "case next_power_of_two v of
           Inl _ \<Rightarrow> 2 ^ 63 < unat v
         | Inr w \<Rightarrow> \<exists>k < 64. unat w = 2 ^ k \<and> unat v \<le> 2 ^ k \<and> (\<forall>j. unat v \<le> 2 ^ j \<longrightarrow> k \<le> j)"
proof -
  define k where "k = bit_width (v - 1)"
  have pred: "unat (v - 1) = unat v - 1" and pos: "0 < unat v"
    using assms by (simp_all add: unat_minus_one word_gt_0 unat_gt_0)
  have up: "unat v \<le> 2 ^ k"
    using bit_width_bounds(1) [of "v - 1"] by (simp add: k_def pred)
  have least: "k \<le> j" if "unat v \<le> 2 ^ j" for j
    using bit_width_bounds(2) [of j "v - 1"] that pos by (force simp: k_def pred)
  show ?thesis
  proof (cases "k = 64")
    case True
    then have "\<not> unat v \<le> 2 ^ 63" using least [of 63] by auto
    with True assms show ?thesis by (simp add: next_power_of_two_width k_def)
  next
    case False
    then have "k < 64" using bit_width_le_64 [of "v - 1"] by (simp add: k_def)
    have "(2 :: 64 word) ^ k = of_nat (2 ^ k)" by simp
    then have "unat ((2 :: 64 word) ^ k) = 2 ^ k mod 2 ^ 64"
      by (simp only: unat_of_nat) simp
    also have "\<dots> = 2 ^ k" using \<open>k < 64\<close> by (intro mod_less power_strict_increasing) simp_all
    finally have "unat ((2 :: 64 word) ^ k) = 2 ^ k" .
    with False \<open>k < 64\<close> up least assms show ?thesis
      by (auto simp: next_power_of_two_width k_def [symmetric])
  qed
qed

theorem next_power_of_two_least_witness:
  "0 < (5 :: 64 word) \<and> (\<exists>w. next_power_of_two 5 = Inr w \<and> unat w = 8)"
proof -
  have "next_power_of_two 5 = Inr 8"
    by (simp add: next_power_of_two_def smear_step_def Let_def)
  with next_power_of_two_least [of 5] show ?thesis by simp
qed

end
