(* ===== verification/DataChunk.thy ===== *)
theory DataChunk
  imports DuckPrelude PowerOfTwo
begin

text \<open>
  The data chunk of the engine (\<^verbatim>\<open>src/common/types/data_chunk.cpp\<close>) and the
  selection vectors of \<^verbatim>\<open>selection_vector.hpp\<close>.

  A chunk is a list of column vectors, a row count and a capacity. A vector is
  modelled by the list of its logical cell values, whatever its physical
  encoding (flat, constant, dictionary) is; cells past the row count may exist
  and hold whatever was written there. A chunk is well formed when every column
  has at least the chunk's row count of cells. The abstraction \<open>chunk_rows\<close>
  reads a chunk as the list of its rows; each operation is related to it.
\<close>

type_synonym 'v vector = "'v list"
type_synonym selection_vector = "idx_t list"

record 'v data_chunk =
  chunk_data :: "'v vector list"
  chunk_count :: idx_t
  chunk_capacity :: idx_t

definition column_count :: "'v data_chunk \<Rightarrow> nat" where
  "column_count c = length (chunk_data c)"

definition chunk_row :: "'v data_chunk \<Rightarrow> nat \<Rightarrow> 'v list" where
  "chunk_row c i = map (\<lambda>col. col ! i) (chunk_data c)"

definition chunk_rows :: "'v data_chunk \<Rightarrow> 'v list list" where
  "chunk_rows c = map (chunk_row c) [0..<chunk_count c]"

definition wf_chunk :: "'v data_chunk \<Rightarrow> bool" where
  "wf_chunk c \<longleftrightarrow> (\<forall>col \<in> set (chunk_data c). chunk_count c \<le> length col)"

lemma length_chunk_rows [simp]: "length (chunk_rows c) = chunk_count c"
  by (simp add: chunk_rows_def)

lemma nth_chunk_rows [simp]: "i < chunk_count c \<Longrightarrow> chunk_rows c ! i = chunk_row c i"
  by (simp add: chunk_rows_def)

section \<open>Operations\<close>

text \<open>\<^verbatim>\<open>DataChunk::SetCardinality\<close>\<close>

definition set_cardinality :: "idx_t \<Rightarrow> 'v data_chunk \<Rightarrow> 'v data_chunk" where
  "set_cardinality n c = c\<lparr>chunk_count := n\<rparr>"

text \<open>\<^verbatim>\<open>DataChunk::Reference\<close>: the leading columns become those of the other chunk.\<close>

definition chunk_reference :: "'v data_chunk \<Rightarrow> 'v data_chunk \<Rightarrow> 'v data_chunk" where
  "chunk_reference this other =
     this\<lparr>chunk_data := chunk_data other @ drop (column_count other) (chunk_data this),
          chunk_count := chunk_count other, chunk_capacity := chunk_capacity other\<rparr>"

text \<open>\<^verbatim>\<open>DataChunk::Copy(other, offset)\<close>: writes this chunk's rows from \<open>offset\<close> on
  at the start of the other chunk and returns the other chunk.\<close>

definition chunk_copy :: "'v data_chunk \<Rightarrow> 'v data_chunk \<Rightarrow> idx_t \<Rightarrow> 'v data_chunk" where
  "chunk_copy this other offset =
     other\<lparr>chunk_data := map2 (\<lambda>src dst. write_at 0 (drop offset (take (chunk_count this) src)) dst)
                            (chunk_data this) (chunk_data other),
           chunk_count := chunk_count this - offset\<rparr>"

text \<open>\<^verbatim>\<open>DataChunk::Split\<close>: this chunk keeps the first columns, the other gets the rest.\<close>

definition chunk_split :: "'v data_chunk \<Rightarrow> nat \<Rightarrow> 'v data_chunk \<times> 'v data_chunk" where
  "chunk_split this split_idx =
     (this\<lparr>chunk_data := take split_idx (chunk_data this)\<rparr>,
      \<lparr>chunk_data = drop split_idx (chunk_data this), chunk_count = chunk_count this,
       chunk_capacity = chunk_capacity this\<rparr>)"

text \<open>\<^verbatim>\<open>DataChunk::Fuse\<close>: the other chunk's columns are moved behind this chunk's.\<close>

definition chunk_fuse :: "'v data_chunk \<Rightarrow> 'v data_chunk \<Rightarrow> 'v data_chunk" where
  "chunk_fuse this other = this\<lparr>chunk_data := chunk_data this @ chunk_data other\<rparr>"

text \<open>\<^verbatim>\<open>DataChunk::Append(other, resize, sel, sel_count)\<close>\<close>

definition append_source :: "'v data_chunk \<Rightarrow> selection_vector option \<Rightarrow> nat \<Rightarrow> 'v vector \<Rightarrow> 'v vector" where
  "append_source other sel sel_count col =
     (case sel of None \<Rightarrow> take (chunk_count other) col
      | Some s \<Rightarrow> map ((!) col) (take sel_count s))"

definition chunk_append ::
  "'v data_chunk \<Rightarrow> 'v data_chunk \<Rightarrow> bool \<Rightarrow> selection_vector option \<Rightarrow> nat \<Rightarrow> 'v data_chunk result" where
  "chunk_append this other resize sel sel_count =
     (let new_size = (case sel of Some _ \<Rightarrow> chunk_count this + sel_count
                      | None \<Rightarrow> chunk_count this + chunk_count other) in
      if chunk_count other = 0 then Inr this
      else if column_count this \<noteq> column_count other
      then Inl (InternalException ''Column counts of appending chunk doesn't match!'')
      else if new_size > chunk_capacity this \<and> \<not> resize
      then Inl (InternalException ''Can't append chunk to other chunk without resizing'')
      else result_bind
        (if new_size > chunk_capacity this
         then result_bind (next_power_of_two (of_nat new_size)) (\<lambda>cap. Inr (unat cap))
         else Inr (chunk_capacity this))
        (\<lambda>cap. Inr (this\<lparr>chunk_data := map2 (\<lambda>src dst. write_at (chunk_count this)
                                              (append_source other sel sel_count src) dst)
                                          (chunk_data other) (chunk_data this),
                          chunk_count := new_size, chunk_capacity := cap\<rparr>)))"

text \<open>\<^verbatim>\<open>DataChunk::Slice(other, sel, count_p)\<close> with column offset 0.\<close>

definition chunk_slice :: "'v data_chunk \<Rightarrow> 'v data_chunk \<Rightarrow> selection_vector \<Rightarrow> nat \<Rightarrow> 'v data_chunk" where
  "chunk_slice this other sel count_p =
     this\<lparr>chunk_data := map (\<lambda>col. map ((!) col) (take count_p sel)) (chunk_data other)
                        @ drop (column_count other) (chunk_data this),
          chunk_count := count_p\<rparr>"


section \<open>What the operations do to the rows\<close>

lemma wf_chunkD: "wf_chunk c \<Longrightarrow> j < column_count c \<Longrightarrow> chunk_count c \<le> length (chunk_data c ! j)"
  by (simp add: wf_chunk_def column_count_def)

lemma chunk_rows_eqI:
  assumes "chunk_count c = length rs" and "\<And>i. i < length rs \<Longrightarrow> chunk_row c i = rs ! i"
  shows "chunk_rows c = rs"
  using assms by (intro nth_equalityI) simp_all

lemma rows_set_cardinality:
  "n \<le> chunk_count c \<Longrightarrow> chunk_rows (set_cardinality n c) = take n (chunk_rows c)"
  by (rule chunk_rows_eqI) (simp_all add: set_cardinality_def chunk_row_def)

lemma wf_set_cardinality: "wf_chunk c \<Longrightarrow> n \<le> chunk_count c \<Longrightarrow> wf_chunk (set_cardinality n c)"
  by (auto simp: wf_chunk_def set_cardinality_def)

lemma rows_reference:
  "column_count this = column_count other \<Longrightarrow> chunk_rows (chunk_reference this other) = chunk_rows other"
  by (rule chunk_rows_eqI) (simp_all add: chunk_reference_def chunk_row_def column_count_def)

lemma wf_reference:
  "column_count this = column_count other \<Longrightarrow> wf_chunk other \<Longrightarrow> wf_chunk (chunk_reference this other)"
  by (auto simp: wf_chunk_def chunk_reference_def column_count_def)

lemma column_count_reference [simp]:
  "column_count this = column_count other \<Longrightarrow> column_count (chunk_reference this other) = column_count other"
  by (simp add: column_count_def chunk_reference_def)

lemma rows_slice:
  assumes "column_count this = column_count other" and "n \<le> length sel"
    and "\<forall>i \<in> set (take n sel). i < chunk_count other"
  shows "chunk_rows (chunk_slice this other sel n) = map ((!) (chunk_rows other)) (take n sel)"
proof (rule chunk_rows_eqI)
  fix i assume "i < length (map ((!) (chunk_rows other)) (take n sel))"
  then have i: "i < n" "i < length sel" by auto
  then have "sel ! i \<in> set (take n sel)" by (metis in_set_conv_nth length_take min_less_iff_conj nth_take)
  then have "sel ! i < chunk_count other" using assms(3) by blast
  with i assms(1) show "chunk_row (chunk_slice this other sel n) i = map ((!) (chunk_rows other)) (take n sel) ! i"
    by (simp add: chunk_slice_def chunk_row_def column_count_def)
qed (use assms in \<open>simp add: chunk_slice_def\<close>)

lemma wf_slice:
  "column_count this = column_count other \<Longrightarrow> n \<le> length sel \<Longrightarrow> wf_chunk (chunk_slice this other sel n)"
  by (auto simp: wf_chunk_def chunk_slice_def column_count_def)

lemma column_count_slice [simp]:
  "column_count this = column_count other \<Longrightarrow> column_count (chunk_slice this other sel n) = column_count other"
  by (simp add: column_count_def chunk_slice_def)

lemma slice_self_rows:
  assumes "wf_chunk c" and "a + n \<le> chunk_count c"
  shows "chunk_rows (chunk_slice c c (map ((+) a) [0..<n]) n) = take n (drop a (chunk_rows c))"
proof -
  have "chunk_rows (chunk_slice c c (map ((+) a) [0..<n]) n)
        = map ((!) (chunk_rows c)) (map ((+) a) [0..<n])"
    by (subst rows_slice) (use assms in auto)
  also have "\<dots> = take n (drop a (chunk_rows c))"
    using assms by (intro nth_equalityI) simp_all
  finally show ?thesis .
qed

text \<open>
  An append is admissible when the selection, if there is one, points at rows of
  the appended chunk and \<open>k\<close> is the number of rows appended.
\<close>

definition append_ok :: "'v data_chunk \<Rightarrow> selection_vector option \<Rightarrow> nat \<Rightarrow> bool" where
  "append_ok other sel k \<longleftrightarrow>
     (case sel of None \<Rightarrow> k = chunk_count other
      | Some s \<Rightarrow> k \<le> length s \<and> (\<forall>i \<in> set (take k s). i < chunk_count other))"

definition appended_rows :: "'v data_chunk \<Rightarrow> selection_vector option \<Rightarrow> nat \<Rightarrow> 'v list list" where
  "appended_rows other sel k =
     (case sel of None \<Rightarrow> chunk_rows other | Some s \<Rightarrow> map ((!) (chunk_rows other)) (take k s))"

lemma append_source_nth:
  assumes "append_ok other sel k" and "wf_chunk other" and "col \<in> set (chunk_data other)" and "i < k"
  shows "length (append_source other sel k col) = k"
    and "append_source other sel k col ! i = col ! (case sel of None \<Rightarrow> i | Some s \<Rightarrow> s ! i)"
  using assms by (auto simp: append_source_def append_ok_def wf_chunk_def split: option.splits)

lemma appended_rows_nth:
  assumes "append_ok other sel k" and "i < k"
  shows "length (appended_rows other sel k) = k"
    and "appended_rows other sel k ! i = chunk_row other (case sel of None \<Rightarrow> i | Some s \<Rightarrow> s ! i)"
proof -
  show "length (appended_rows other sel k) = k"
    using assms by (auto simp: append_ok_def appended_rows_def split: option.splits)
  show "appended_rows other sel k ! i = chunk_row other (case sel of None \<Rightarrow> i | Some s \<Rightarrow> s ! i)"
  proof (cases sel)
    case (Some s)
    with assms have "i < length (take k s)" by (simp add: append_ok_def)
    then have "take k s ! i < chunk_count other"
      using assms Some nth_mem [of i "take k s"] by (simp add: append_ok_def)
    with Some assms show ?thesis by (simp add: appended_rows_def append_ok_def)
  qed (use assms in \<open>simp add: append_ok_def appended_rows_def\<close>)
qed

lemma append_result:
  assumes "chunk_append this other resize sel k = Inr c" and "chunk_count other \<noteq> 0"
    and "append_ok other sel k"
  shows "column_count this = column_count other" and "chunk_count c = chunk_count this + k"
    and "chunk_data c = map2 (\<lambda>src dst. write_at (chunk_count this) (append_source other sel k src) dst)
                             (chunk_data other) (chunk_data this)"
  using assms
  by (auto simp: chunk_append_def append_ok_def Let_def result_bind_eq_Inr split: option.splits if_splits)

lemma append_nothing:
  "chunk_append this other resize sel k = Inr c \<Longrightarrow> chunk_count other = 0 \<Longrightarrow> c = this"
  by (simp add: chunk_append_def Let_def)

lemma append_ok_empty: "append_ok other sel k \<Longrightarrow> chunk_count other = 0 \<Longrightarrow> k = 0"
  by (auto simp: append_ok_def split: option.splits)

lemma appended_rows_0: "append_ok other sel 0 \<Longrightarrow> appended_rows other sel 0 = []"
  by (auto simp: append_ok_def appended_rows_def chunk_rows_def split: option.splits)

lemma append_row:
  assumes "chunk_append this other resize sel k = Inr c" and "chunk_count other \<noteq> 0"
    and ok: "append_ok other sel k" and wf: "wf_chunk this" "wf_chunk other"
    and i: "i < chunk_count this + k"
  shows "chunk_row c i = (chunk_rows this @ appended_rows other sel k) ! i"
proof -
  note c = append_result [OF assms(1-3)]
  let ?n = "chunk_count this"
  have cell: "write_at ?n (append_source other sel k src) dst ! i =
                (if i < ?n then dst ! i
                 else src ! (case sel of None \<Rightarrow> i - ?n | Some s \<Rightarrow> s ! (i - ?n)))"
    if "(src, dst) \<in> set (zip (chunk_data other) (chunk_data this))" for src dst
  proof -
    have m: "src \<in> set (chunk_data other)" "?n \<le> length dst"
      using that wf by (auto simp: wf_chunk_def dest: set_zip_leftD set_zip_rightD)
    show ?thesis
      using i m append_source_nth [OF ok wf(2) m(1), of "i - ?n"]
        append_source_nth(1) [OF ok wf(2) m(1), of 0]
      by (cases "k = 0") (auto simp: nth_write_at write_at_def nth_append)
  qed
  show ?thesis
  proof (cases "i < ?n")
    case True
    then have "chunk_row c i = map snd (zip (map (\<lambda>src. src ! i) (chunk_data other)) (map (\<lambda>dst. dst ! i) (chunk_data this)))"
      using cell c by (auto simp: chunk_row_def zip_map_map intro!: map_cong)
    with True c(1) show ?thesis by (simp add: chunk_row_def nth_append column_count_def)
  next
    case False
    let ?m = "case sel of None \<Rightarrow> i - ?n | Some s \<Rightarrow> s ! (i - ?n)"
    from False have "chunk_row c i = map fst (zip (map (\<lambda>src. src ! ?m) (chunk_data other)) (map (\<lambda>dst. dst ! i) (chunk_data this)))"
      using cell c by (auto simp: chunk_row_def zip_map_map intro!: map_cong)
    with c(1) have "chunk_row c i = chunk_row other ?m" by (simp add: chunk_row_def column_count_def)
    with False i show ?thesis by (simp add: nth_append appended_rows_nth [OF ok])
  qed
qed

lemma rows_append:
  assumes "chunk_append this other resize sel k = Inr c"
    and "append_ok other sel k" and "wf_chunk this" and "wf_chunk other"
  shows "chunk_rows c = chunk_rows this @ appended_rows other sel k"
proof (cases "chunk_count other = 0")
  case True
  with assms show ?thesis
    using append_nothing append_ok_empty appended_rows_0 by fastforce
next
  case False
  have "length (appended_rows other sel k) = k"
    using assms(2) by (auto simp: append_ok_def appended_rows_def split: option.splits)
  with False assms show ?thesis
    by (intro chunk_rows_eqI) (simp_all add: append_result append_row)
qed

lemma wf_append:
  assumes "chunk_append this other resize sel k = Inr c"
    and "append_ok other sel k" and "wf_chunk this" and "wf_chunk other"
  shows "wf_chunk c"
proof (cases "chunk_count other = 0")
  case True
  with assms show ?thesis using append_nothing by blast
next
  case False
  note c = append_result [OF assms(1) False assms(2)]
  show ?thesis
    unfolding wf_chunk_def
  proof
    fix col assume "col \<in> set (chunk_data c)"
    then obtain src dst where m: "src \<in> set (chunk_data other)" "dst \<in> set (chunk_data this)"
      and col: "col = write_at (chunk_count this) (append_source other sel k src) dst"
      unfolding c(3) by (auto dest: set_zip_leftD set_zip_rightD)
    have "chunk_count this \<le> length dst" using assms(3) m by (simp add: wf_chunk_def)
    moreover have "k \<le> length (append_source other sel k src)"
      using append_source_nth(1) [OF assms(2,4) m(1)] by (cases "k = 0") auto
    ultimately show "chunk_count c \<le> length col"
      using length_write_at_ge [of "chunk_count this" dst "append_source other sel k src"] c(2) col by simp
  qed
qed

lemma column_count_append:
  assumes "chunk_append this other resize sel k = Inr c" and "append_ok other sel k"
  shows "column_count c = column_count this"
proof (cases "chunk_count other = 0")
  case True
  with assms show ?thesis using append_nothing by blast
next
  case False
  from append_result [OF assms(1) False assms(2)] show ?thesis by (simp add: column_count_def)
qed


section \<open>Chunks made from rows\<close>

text \<open>The chunk with the given number of columns that holds the given rows, as a
  collection scan returns it.\<close>

definition chunk_of_rows :: "nat \<Rightarrow> 'v list list \<Rightarrow> 'v data_chunk" where
  "chunk_of_rows ncols rs =
     \<lparr>chunk_data = map (\<lambda>j. map (\<lambda>r. r ! j) rs) [0..<ncols],
      chunk_count = length rs, chunk_capacity = standard_vector_size\<rparr>"

lemma rows_chunk_of_rows:
  "\<forall>r \<in> set rs. length r = ncols \<Longrightarrow> chunk_rows (chunk_of_rows ncols rs) = rs"
  by (rule chunk_rows_eqI) (auto simp: chunk_of_rows_def chunk_row_def intro!: nth_equalityI)

lemma chunk_of_rows_simps [simp]:
  "wf_chunk (chunk_of_rows ncols rs)"
  "chunk_count (chunk_of_rows ncols rs) = length rs"
  "column_count (chunk_of_rows ncols rs) = ncols"
  by (simp_all add: chunk_of_rows_def wf_chunk_def column_count_def)

text \<open>A chunk as \<^verbatim>\<open>DataChunk::Initialize\<close> leaves it.\<close>

definition empty_chunk :: "nat \<Rightarrow> 'v data_chunk" where
  "empty_chunk ncols = \<lparr>chunk_data = replicate ncols [], chunk_count = 0, chunk_capacity = standard_vector_size\<rparr>"

lemma column_count_empty_chunk [simp]: "column_count (empty_chunk n) = n"
  by (simp add: empty_chunk_def column_count_def)

lemma empty_chunk_simps [simp]:
  "chunk_count (empty_chunk n) = 0" "chunk_rows (empty_chunk n) = []"
  by (simp_all add: empty_chunk_def chunk_rows_def)

end
