(* ===== verification/StreamingLimit.thy ===== *)
theory StreamingLimit
  imports DataChunk
begin

text \<open>
  LIMIT and OFFSET: the bound limit nodes (\<^verbatim>\<open>src/planner/bound_result_modifier.cpp\<close>),
  the helpers of \<^verbatim>\<open>src/execution/operator/helper/physical_limit.cpp\<close> that the
  limit operators share, and the streaming limit operator
  (\<^verbatim>\<open>physical_streaming_limit.cpp\<close>).

  The evaluation of a LIMIT or OFFSET expression on the first row of a chunk is
  a parameter \<open>ev\<close> of the definitions: \<open>None\<close> is the SQL NULL. The main result is that
  a run of the streaming operator over a sequence of chunks returns the rows
  \<open>take limit (drop offset rows)\<close>, whatever the chunk boundaries are.
\<close>

section \<open>Limit nodes\<close>

datatype 'e bound_limit_node =
    UNSET
  | CONSTANT_VALUE idx_t
  | CONSTANT_PERCENTAGE "64 word" \<comment> \<open>the bits of the double\<close>
  | EXPRESSION_VALUE 'e
  | EXPRESSION_PERCENTAGE 'e

definition max_limit_value :: idx_t where
  "max_limit_value = 2 ^ 62"

fun get_constant_value :: "'e bound_limit_node \<Rightarrow> idx_t result" where
  "get_constant_value (CONSTANT_VALUE n) = Inr n"
| "get_constant_value _ =
     Inl (InternalException ''BoundLimitNode::GetConstantValue called but limit is not a constant value'')"

fun get_value_expression :: "'e bound_limit_node \<Rightarrow> 'e result" where
  "get_value_expression (EXPRESSION_VALUE e) = Inr e"
| "get_value_expression _ =
     Inl (InternalException ''BoundLimitNode::GetValueExpression called but limit is not an expression value'')"

text \<open>\<^verbatim>\<open>PhysicalLimit::SetInitialLimits\<close>; an unset \<^verbatim>\<open>optional_idx\<close> is \<open>None\<close>.\<close>

fun initial_limit :: "'e bound_limit_node \<Rightarrow> idx_t option" where
  "initial_limit (CONSTANT_VALUE n) = Some n"
| "initial_limit UNSET = Some max_limit_value"
| "initial_limit _ = None"

fun initial_offset :: "'e bound_limit_node \<Rightarrow> idx_t option" where
  "initial_offset (CONSTANT_VALUE n) = Some n"
| "initial_offset UNSET = Some 0"
| "initial_offset _ = None"

definition set_initial_limits ::
  "'e bound_limit_node \<Rightarrow> 'e bound_limit_node \<Rightarrow> idx_t option \<times> idx_t option" where
  "set_initial_limits limit_val offset_val = (initial_limit limit_val, initial_offset offset_val)"

section \<open>Computing the offset\<close>

text \<open>
  One delimiter of \<^verbatim>\<open>PhysicalLimit::ComputeOffset\<close>: an invalid \<^verbatim>\<open>optional_idx\<close> is set from
  the value of the node's expression on the chunk, NULL meaning the default.
\<close>

definition resolve_delimiter ::
  "('v data_chunk \<Rightarrow> 'e \<Rightarrow> idx_t option) \<Rightarrow> 'v data_chunk \<Rightarrow> idx_t \<Rightarrow> 'e bound_limit_node \<Rightarrow>
   idx_t option \<Rightarrow> idx_t result" where
  "resolve_delimiter ev input dflt node cur =
     (case cur of
        Some n \<Rightarrow> Inr n
      | None \<Rightarrow>
          result_bind (get_value_expression node) (\<lambda>e.
            let v = (case ev input e of Some n \<Rightarrow> n | None \<Rightarrow> dflt) in
            if v > max_limit_value
            then Inl (BinderException ''Max value for LIMIT/OFFSET exceeded'')
            else Inr v))"

text \<open>
  \<^verbatim>\<open>PhysicalLimit::ComputeOffset\<close>: the flag, the limit and offset as they are set
  afterwards, and \<^verbatim>\<open>max_element\<close>.
\<close>

definition compute_offset ::
  "('v data_chunk \<Rightarrow> 'e \<Rightarrow> idx_t option) \<Rightarrow> 'v data_chunk \<Rightarrow> idx_t option \<Rightarrow> idx_t option \<Rightarrow> idx_t \<Rightarrow>
   'e bound_limit_node \<Rightarrow> 'e bound_limit_node \<Rightarrow> (bool \<times> idx_t \<times> idx_t \<times> idx_t) result" where
  "compute_offset ev input limit offset current_offset limit_val offset_val =
     result_bind (resolve_delimiter ev input max_limit_value limit_val limit) (\<lambda>lim.
     result_bind (resolve_delimiter ev input 0 offset_val offset) (\<lambda>off.
       let max_element = idx_add lim off in
       if lim = 0 \<or> current_offset \<ge> max_element
       then Inr (False, lim, off, max_element)
       else Inr (True, lim, off, max_element)))"

section \<open>Handling the offset\<close>

text \<open>
  \<^verbatim>\<open>PhysicalLimit::HandleOffset\<close>: the flag, the chunk after slicing and the new
  \<^verbatim>\<open>current_offset\<close>.
\<close>

definition handle_offset ::
  "'v data_chunk \<Rightarrow> idx_t \<Rightarrow> idx_t \<Rightarrow> idx_t \<Rightarrow> bool \<times> 'v data_chunk \<times> idx_t" where
  "handle_offset input current_offset offset limit =
     (let max_element = (if limit = invalid_index then invalid_index else idx_add limit offset);
          input_size = chunk_count input in
      if current_offset < offset
      then if idx_add current_offset input_size > offset
           then let start_position = offset - current_offset;
                    chunk_count' = min limit (input_size - start_position);
                    sel = map ((+) start_position) [0..<chunk_count']
                in (True, chunk_slice input input sel chunk_count', idx_add current_offset input_size)
           else (False, input, idx_add current_offset input_size)
      else let chunk_count' = (if idx_add current_offset input_size \<ge> max_element
                               then idx_sub max_element current_offset else input_size)
           in (True, set_cardinality chunk_count' input, idx_add current_offset input_size))"

section \<open>The streaming limit operator\<close>

datatype operator_result_type = NEED_MORE_INPUT | HAVE_MORE_OUTPUT | FINISHED

record streaming_limit_state =
  sl_limit :: "idx_t option"
  sl_offset :: "idx_t option"
  sl_current_offset :: idx_t

definition streaming_limit_init :: "'e bound_limit_node \<Rightarrow> 'e bound_limit_node \<Rightarrow> streaming_limit_state" where
  "streaming_limit_init limit_val offset_val =
     (case set_initial_limits limit_val offset_val of
        (lim, off) \<Rightarrow> \<lparr>sl_limit = lim, sl_offset = off, sl_current_offset = 0\<rparr>)"

text \<open>
  \<^verbatim>\<open>PhysicalStreamingLimit::Execute\<close>: the result type, the output chunk when the code
  references the input into it (no output chunk otherwise), and the new state.
\<close>

definition streaming_limit_execute ::
  "('v data_chunk \<Rightarrow> 'e \<Rightarrow> idx_t option) \<Rightarrow> 'e bound_limit_node \<Rightarrow> 'e bound_limit_node \<Rightarrow>
   'v data_chunk \<Rightarrow> streaming_limit_state \<Rightarrow>
   (operator_result_type \<times> 'v data_chunk option \<times> streaming_limit_state) result" where
  "streaming_limit_execute ev limit_val offset_val input state =
     (let current_offset = sl_current_offset state;
          state1 = state\<lparr>sl_current_offset := idx_add current_offset (chunk_count input)\<rparr> in
      result_bind (compute_offset ev input (sl_limit state) (sl_offset state) current_offset limit_val offset_val)
        (\<lambda>(go, lim, off, _).
           let state2 = state1\<lparr>sl_limit := Some lim, sl_offset := Some off\<rparr> in
           if \<not> go then Inr (FINISHED, None, state2)
           else case handle_offset input current_offset off lim of
                  (True, out, _) \<Rightarrow> Inr (NEED_MORE_INPUT, Some out, state2)
                | (False, _, _) \<Rightarrow> Inr (NEED_MORE_INPUT, None, state2)))"

text \<open>
  A run of the operator over the chunks of its child: the output rows up to the
  call that answers \<^verbatim>\<open>FINISHED\<close>, after which the pipeline asks no more.
\<close>

fun streaming_limit_run ::
  "('v data_chunk \<Rightarrow> 'e \<Rightarrow> idx_t option) \<Rightarrow> 'e bound_limit_node \<Rightarrow> 'e bound_limit_node \<Rightarrow>
   streaming_limit_state \<Rightarrow> 'v data_chunk list \<Rightarrow> 'v list list result" where
  "streaming_limit_run ev limit_val offset_val state [] = Inr []"
| "streaming_limit_run ev limit_val offset_val state (c # cs) =
     result_bind (streaming_limit_execute ev limit_val offset_val c state)
       (\<lambda>(res, out, state').
          if res = FINISHED then Inr []
          else result_bind (streaming_limit_run ev limit_val offset_val state' cs)
                 (\<lambda>rest. Inr ((case out of None \<Rightarrow> [] | Some o' \<Rightarrow> chunk_rows o') @ rest)))"

section \<open>Correctness\<close>

text \<open>The rows a window \<open>[offset, offset + limit)\<close> keeps of a piece that starts at \<open>pos\<close>.\<close>

definition window_rows :: "nat \<Rightarrow> nat \<Rightarrow> nat \<Rightarrow> 'a list \<Rightarrow> 'a list" where
  "window_rows pos off lim xs = take (off + lim - max pos off) (drop (off - pos) xs)"

lemma window_rows_split:
  "window_rows pos off lim (xs @ ys) = window_rows pos off lim xs @ window_rows (pos + length xs) off lim ys"
proof (cases "off \<le> pos + length xs")
  case True
  then show ?thesis
    by (cases "pos \<le> off") (simp_all add: window_rows_def max_def add.commute)
next
  case False
  then show ?thesis by (simp add: window_rows_def max_def)
qed

lemma window_rows_Nil_iff_done: "off + lim \<le> pos \<Longrightarrow> window_rows pos off lim xs = []"
  by (simp add: window_rows_def)

lemma window_rows_0: "window_rows pos off 0 xs = []"
  by (simp add: window_rows_def)

lemma window_rows_start: "window_rows 0 off lim xs = take lim (drop off xs)"
  by (simp add: window_rows_def)

text \<open>
  \<^verbatim>\<open>HandleOffset\<close> on a piece that starts inside the window's range keeps exactly the
  window's rows of the piece.
\<close>

lemma handle_offset_rows:
  assumes wf: "wf_chunk input" and lim: "lim \<noteq> invalid_index"
    and le: "off + lim < idx_mod" "pos + chunk_count input < idx_mod" and inside: "pos < off + lim"
  shows "case handle_offset input pos off lim of
           (emit, out, pos') \<Rightarrow> pos' = pos + chunk_count input \<and>
             (if emit then chunk_rows out else []) = window_rows pos off lim (chunk_rows input)"
proof (cases "pos < off")
  case True
  show ?thesis
  proof (cases "pos + chunk_count input > off")
    case reach: True
    let ?n = "min lim (chunk_count input - (off - pos))"
    have "chunk_rows (chunk_slice input input (map ((+) (off - pos)) [0..<?n]) ?n)
          = take ?n (drop (off - pos) (chunk_rows input))"
      using True reach by (intro slice_self_rows [OF wf]) auto
    also have "\<dots> = take lim (drop (off - pos) (chunk_rows input))"
      by (simp add: min_def take_all_iff)
    finally show ?thesis
      using True reach le by (simp add: handle_offset_def Let_def window_rows_def max_def)
  next
    case False
    with True le show ?thesis by (simp add: handle_offset_def Let_def window_rows_def)
  qed
next
  case False
  with lim le inside have "handle_offset input pos off lim =
      (True, set_cardinality (if pos + chunk_count input \<ge> lim + off then lim + off - pos else chunk_count input) input,
       pos + chunk_count input)"
    by (simp add: handle_offset_def Let_def add.commute)
  with False show ?thesis
    by (auto simp: rows_set_cardinality window_rows_def max_def add.commute)
qed


lemma compute_offset_set:
  "l + off < idx_mod \<Longrightarrow>
   compute_offset ev input (Some l) (Some off) pos lv ov = Inr (l \<noteq> 0 \<and> pos < l + off, l, off, l + off)"
  by (auto simp: compute_offset_def resolve_delimiter_def Let_def)

lemma streaming_limit_run_window:
  assumes "\<forall>c \<in> set cs. wf_chunk c"
    and "off + l < idx_mod" and "l \<noteq> invalid_index"
    and "pos + sum_list (map chunk_count cs) < idx_mod"
  shows "streaming_limit_run ev lv ov \<lparr>sl_limit = Some l, sl_offset = Some off, sl_current_offset = pos\<rparr> cs
         = Inr (window_rows pos off l (concat (map chunk_rows cs)))"
  using assms
proof (induction cs arbitrary: pos)
  case Nil
  then show ?case by (simp add: window_rows_def)
next
  case (Cons c cs)
  from Cons.prems have le: "pos + chunk_count c < idx_mod" and wf: "wf_chunk c" by simp_all
  show ?case
  proof (cases "l \<noteq> 0 \<and> pos < l + off")
    case False
    with Cons.prems le show ?thesis
      by (auto simp: streaming_limit_execute_def compute_offset_set Let_def
          window_rows_Nil_iff_done window_rows_0 add.commute not_less)
  next
    case True
    then have inside: "pos < off + l" by simp
    obtain emit out pos' where h: "handle_offset c pos off l = (emit, out, pos')"
      by (metis prod_cases3)
    with handle_offset_rows [OF wf Cons.prems(3,2) le inside]
    have out: "(if emit then chunk_rows out else []) = window_rows pos off l (chunk_rows c)" by simp
    have exec: "streaming_limit_execute ev lv ov c \<lparr>sl_limit = Some l, sl_offset = Some off, sl_current_offset = pos\<rparr>
        = Inr (NEED_MORE_INPUT, if emit then Some out else None,
               \<lparr>sl_limit = Some l, sl_offset = Some off, sl_current_offset = pos + chunk_count c\<rparr>)"
      using True Cons.prems(2) le h
      by (auto simp: streaming_limit_execute_def compute_offset_set Let_def add.commute split: bool.splits)
    have "streaming_limit_run ev lv ov
            \<lparr>sl_limit = Some l, sl_offset = Some off, sl_current_offset = pos + chunk_count c\<rparr> cs
          = Inr (window_rows (pos + chunk_count c) off l (concat (map chunk_rows cs)))"
      using Cons.prems by (intro Cons.IH) (simp_all add: add.assoc)
    with exec out show ?thesis
      by (auto simp: window_rows_split split: if_splits)
  qed
qed

text \<open>
  C26. The streaming LIMIT operator with constant (or absent) LIMIT and OFFSET returns,
  over any sequence of well-formed input chunks, exactly the rows
  \<open>take limit (drop offset rows)\<close>, independently of the chunk boundaries. The bounds
  say that the counters stay below 64 bits, which constants below \<open>2 ^ 63\<close> guarantee.
\<close>

theorem streaming_limit_correct:
  assumes "\<forall>c \<in> set cs. wf_chunk c"
    and "initial_limit lv = Some l" and "initial_offset ov = Some off"
    and "l < 2 ^ 63" and "off < 2 ^ 63"
    and "sum_list (map chunk_count cs) < idx_mod"
  shows "streaming_limit_run ev lv ov (streaming_limit_init lv ov) cs
         = Inr (take l (drop off (concat (map chunk_rows cs))))"
proof -
  have "streaming_limit_init lv ov = \<lparr>sl_limit = Some l, sl_offset = Some off, sl_current_offset = 0\<rparr>"
    using assms by (simp add: streaming_limit_init_def set_initial_limits_def)
  moreover have "off + l < idx_mod" "l \<noteq> invalid_index"
    using assms by (simp_all add: invalid_index_def)
  ultimately show ?thesis
    using assms streaming_limit_run_window [of cs off l 0 ev lv ov] by (simp add: window_rows_start)
qed

theorem streaming_limit_correct_witness:
  "streaming_limit_run (\<lambda>_ _. None) (CONSTANT_VALUE 2) (CONSTANT_VALUE 1 :: nat bound_limit_node)
     (streaming_limit_init (CONSTANT_VALUE 2) (CONSTANT_VALUE 1 :: nat bound_limit_node))
     [chunk_of_rows 1 [[10], [20 :: nat]], chunk_of_rows 1 [[30], [40]]] = Inr [[20], [30]]"
  (is "streaming_limit_run ?ev ?l ?o ?st ?cs = _")
proof -
  have "streaming_limit_run ?ev ?l ?o ?st ?cs = Inr (take 2 (drop 1 (concat (map chunk_rows ?cs))))"
    by (rule streaming_limit_correct) simp_all
  also have "\<dots> = Inr [[20], [30]]" by (simp add: rows_chunk_of_rows)
  finally show ?thesis .
qed

end
