(* ===== verification/PhysicalFilter.thy ===== *)
theory PhysicalFilter
  imports StreamingLimit
begin

text \<open>
  The filter operator with the limit that iPDB propagates into it
  (\<^verbatim>\<open>src/execution/operator/filter/physical_filter.cpp\<close>).

  The row predicate \<open>p\<close> stands for the filter expression as the expression
  executor evaluates it on one row (for a semantic filter, the answer of the
  predictor). With a limit, the operator evaluates a chunk in batches of
  doubling size and stops as soon as enough rows qualify; a shared flag stops the
  other calls. Running out of batches without progress would be the value \<open>None\<close>
  of the loop; the loop is shown to return.
\<close>

section \<open>Definitions\<close>

text \<open>\<^verbatim>\<open>ExpressionExecutor::SelectExpression(input, sel, nullptr, count)\<close>: the indexes
  below \<open>count\<close> of the rows that satisfy the expression, in increasing order.\<close>

definition select_expression :: "('v list \<Rightarrow> bool) \<Rightarrow> 'v data_chunk \<Rightarrow> nat \<Rightarrow> selection_vector" where
  "select_expression p input cnt = filter (\<lambda>i. p (chunk_row input i)) [0..<cnt]"

text \<open>The construction of the filter: several expressions become one conjunction.\<close>

definition conjunction_and :: "('v list \<Rightarrow> bool) list \<Rightarrow> 'v list \<Rightarrow> bool" where
  "conjunction_and children row = list_all (\<lambda>c. c row) children"

definition filter_expression :: "('v list \<Rightarrow> bool) list \<Rightarrow> 'v list \<Rightarrow> bool" where
  "filter_expression select_list =
     (case select_list of [e] \<Rightarrow> e | _ \<Rightarrow> conjunction_and select_list)"

record filter_global_state =
  limit_reached :: bool

text \<open>
  The batch loop of \<^verbatim>\<open>PhysicalFilter::ExecuteInternal\<close>. The counter
  \<^verbatim>\<open>tuples_processed\<close> of the local state is read by the guard and never written.
\<close>

partial_function (option) filter_limit_loop ::
  "('v list \<Rightarrow> bool) \<Rightarrow> 'v data_chunk \<Rightarrow> idx_t \<Rightarrow> idx_t \<Rightarrow> idx_t \<Rightarrow> idx_t \<Rightarrow> 'v data_chunk \<Rightarrow>
   'v data_chunk result option" where
  "filter_limit_loop p input LIMIT tuples_processed BATCH_SIZE offset chunk =
     (if offset < chunk_count input \<and> chunk_count chunk < LIMIT \<and> tuples_processed < LIMIT
      then let cnt = min BATCH_SIZE (chunk_count input - offset);
               sel = select_expression p input (offset + cnt);
               batch_sel = filter (\<lambda>i. offset \<le> i \<and> i < offset + cnt) sel;
               appended = (if length batch_sel > 0
                           then chunk_append chunk input True (Some batch_sel)
                                  (min (length batch_sel) (standard_vector_size - chunk_count chunk))
                           else Inr chunk);
               offset' = offset + cnt;
               BATCH_SIZE' = (if BATCH_SIZE < chunk_count input - offset' then BATCH_SIZE * 2 else BATCH_SIZE)
           in (case appended of
                 Inl e \<Rightarrow> Some (Inl e)
               | Inr chunk' \<Rightarrow> filter_limit_loop p input LIMIT tuples_processed BATCH_SIZE' offset' chunk')
      else Some (Inr chunk))"

text \<open>The cast of a signed 64-bit integer to an unsigned one.\<close>

definition idx_cast :: "int \<Rightarrow> idx_t" where
  "idx_cast n = nat (if n < 0 then n + 2 ^ 64 else n)"

lemma idx_cast_nonneg [simp]: "0 \<le> n \<Longrightarrow> idx_cast n = nat n"
  by (simp add: idx_cast_def)

text \<open>\<^verbatim>\<open>PhysicalFilter::ExecuteInternal\<close>; a limit of -1 means no limit.\<close>

definition filter_execute ::
  "('v list \<Rightarrow> bool) \<Rightarrow> int \<Rightarrow> 'v data_chunk \<Rightarrow> 'v data_chunk \<Rightarrow> filter_global_state \<Rightarrow>
   (operator_result_type \<times> 'v data_chunk \<times> filter_global_state) result option" where
  "filter_execute p limit input chunk gstate =
     (if limit \<noteq> -1 \<and> limit_reached gstate then Some (Inr (FINISHED, chunk, gstate))
      else if limit \<noteq> -1 \<and> idx_cast limit < chunk_count input
      then let LIMIT = idx_cast limit in
           (case filter_limit_loop p input LIMIT 0 (LIMIT * 2) 0 chunk of
              None \<Rightarrow> None
            | Some (Inl e) \<Rightarrow> Some (Inl e)
            | Some (Inr chunk') \<Rightarrow>
                Some (Inr (NEED_MORE_INPUT, chunk',
                  (if chunk_count chunk' \<ge> LIMIT then gstate\<lparr>limit_reached := True\<rparr> else gstate))))
      else let sel = select_expression p input (chunk_count input);
               result_count = length sel in
           Some (Inr (NEED_MORE_INPUT,
             (if result_count = chunk_count input then chunk_reference chunk input
              else chunk_slice chunk input sel result_count), gstate)))"

text \<open>
  The operator in a pipeline: each input chunk is executed into a fresh output
  chunk; \<^verbatim>\<open>FINISHED\<close> ends the run. The result is the list of output chunks.
\<close>

fun filter_run ::
  "('v list \<Rightarrow> bool) \<Rightarrow> int \<Rightarrow> filter_global_state \<Rightarrow> 'v data_chunk list \<Rightarrow> 'v data_chunk list result option" where
  "filter_run p limit gstate [] = Some (Inr [])"
| "filter_run p limit gstate (c # cs) =
     (case filter_execute p limit c (empty_chunk (column_count c)) gstate of
        None \<Rightarrow> None
      | Some (Inl e) \<Rightarrow> Some (Inl e)
      | Some (Inr (res, out, gstate')) \<Rightarrow>
          if res = FINISHED then Some (Inr [])
          else (case filter_run p limit gstate' cs of
                  None \<Rightarrow> None
                | Some (Inl e) \<Rightarrow> Some (Inl e)
                | Some (Inr outs) \<Rightarrow> Some (Inr (out # outs))))"

section \<open>One batch\<close>

lemma select_batch:
  "filter (\<lambda>i. offset \<le> i \<and> i < offset + cnt) (select_expression p input (offset + cnt))
   = filter (\<lambda>i. p (chunk_row input i)) [offset..<offset + cnt]"
proof -
  let ?in = "\<lambda>i. offset \<le> i \<and> i < offset + cnt" and ?q = "\<lambda>i. p (chunk_row input i)"
  have split: "[0..<offset + cnt] = [0..<offset] @ [offset..<offset + cnt]"
    by (rule upt_add_eq_append) simp
  have before: "filter ?in (filter ?q [0..<offset]) = []"
    by (subst filter_empty_conv) auto
  have inside: "filter ?in (filter ?q [offset..<offset + cnt]) = filter ?q [offset..<offset + cnt]"
    by (rule filter_True) auto
  show ?thesis
    unfolding select_expression_def split filter_append before inside by simp
qed

lemma rows_of_selection:
  "b \<le> chunk_count input \<Longrightarrow>
   map ((!) (chunk_rows input)) (filter (\<lambda>i. p (chunk_row input i)) [a..<b])
   = filter p (drop a (take b (chunk_rows input)))"
proof -
  assume b: "b \<le> chunk_count input"
  have "filter p (map ((!) (chunk_rows input)) [a..<b])
        = map ((!) (chunk_rows input)) (filter (p \<circ> (!) (chunk_rows input)) [a..<b])"
    by (simp add: filter_map)
  also have "filter (p \<circ> (!) (chunk_rows input)) [a..<b] = filter (\<lambda>i. p (chunk_row input i)) [a..<b]"
    using b by (intro filter_cong) auto
  finally have "map ((!) (chunk_rows input)) (filter (\<lambda>i. p (chunk_row input i)) [a..<b])
                = filter p (map ((!) (chunk_rows input)) [a..<b])" by simp
  also have "map ((!) (chunk_rows input)) [a..<b] = drop a (take b (chunk_rows input))"
    using b by (cases "a \<le> b") (simp_all add: map_nth_upt_drop)
  finally show ?thesis .
qed

text \<open>The state of the output chunk while the loop runs: it holds the qualifying rows
  of the part of the input that has been scanned.\<close>

definition scanned :: "('v list \<Rightarrow> bool) \<Rightarrow> 'v data_chunk \<Rightarrow> nat \<Rightarrow> 'v data_chunk \<Rightarrow> bool" where
  "scanned p input offset chunk \<longleftrightarrow>
     wf_chunk chunk \<and> column_count chunk = column_count input \<and>
     chunk_capacity chunk = standard_vector_size \<and>
     chunk_rows chunk = filter p (take offset (chunk_rows input))"

lemma scanned_count:
  "scanned p input offset chunk \<Longrightarrow> chunk_count chunk \<le> offset"
proof -
  assume "scanned p input offset chunk"
  then have "chunk_count chunk = length (filter p (take offset (chunk_rows input)))"
    unfolding scanned_def by (metis length_chunk_rows)
  also have "\<dots> \<le> offset" by (metis le_trans length_filter_le length_take min.cobounded2)
  finally show ?thesis .
qed

lemma scanned_empty: "scanned p input 0 (empty_chunk (column_count input))"
  by (simp add: scanned_def empty_chunk_def wf_chunk_def column_count_def chunk_rows_def)

lemma chunk_append_in_capacity:
  assumes "column_count this = column_count other" and "chunk_count this + k \<le> chunk_capacity this"
    and "chunk_count other \<noteq> 0"
  shows "\<exists>c. chunk_append this other True (Some s) k = Inr c \<and> chunk_capacity c = chunk_capacity this"
  using assms by (simp add: chunk_append_def Let_def)

lemma scanned_batch:
  assumes inv: "scanned p input offset chunk" and wf: "wf_chunk input"
    and size: "chunk_count input \<le> standard_vector_size"
    and next_batch: "offset + cnt \<le> chunk_count input"
    and sel: "sel = filter (\<lambda>i. p (chunk_row input i)) [offset..<offset + cnt]"
  shows "\<exists>chunk'. (if length sel > 0
            then chunk_append chunk input True (Some sel)
                   (min (length sel) (standard_vector_size - chunk_count chunk))
            else Inr chunk) = Inr chunk' \<and> scanned p input (offset + cnt) chunk'"
proof -
  have len: "length sel \<le> cnt" unfolding sel by (metis add_diff_cancel_left' length_filter_le length_upt)
  have k: "min (length sel) (standard_vector_size - chunk_count chunk) = length sel"
    using len next_batch size scanned_count [OF inv] by simp
  have split: "filter p (take (offset + cnt) (chunk_rows input))
      = filter p (take offset (chunk_rows input)) @ map ((!) (chunk_rows input)) sel"
    unfolding sel rows_of_selection [OF next_batch]
    by (metis add.commute drop_take add_diff_cancel_right' filter_append take_add)
  show ?thesis
  proof (cases "sel = []")
    case True
    with inv split show ?thesis by (simp add: scanned_def)
  next
    case False
    have ok: "append_ok input (Some sel) (length sel)"
      using next_batch by (auto simp: append_ok_def sel)
    have "cnt \<noteq> 0" using False len by (metis le_zero_eq length_0_conv)
    then have ne: "chunk_count input \<noteq> 0" using next_batch by simp
    have cc: "column_count chunk = column_count input" "wf_chunk chunk"
      "chunk_capacity chunk = standard_vector_size"
      using inv by (simp_all add: scanned_def)
    have cap: "chunk_count chunk + length sel \<le> chunk_capacity chunk"
      using len next_batch size scanned_count [OF inv] cc by simp
    from chunk_append_in_capacity [OF cc(1) cap ne]
    obtain c where c: "chunk_append chunk input True (Some sel) (length sel) = Inr c"
      and cap': "chunk_capacity c = chunk_capacity chunk" by blast
    have "chunk_rows c = chunk_rows chunk @ map ((!) (chunk_rows input)) sel"
      using rows_append [OF c ok cc(2) wf] by (simp add: appended_rows_def)
    with inv split wf_append [OF c ok cc(2) wf] column_count_append [OF c ok] cc cap'
    have "scanned p input (offset + cnt) c" by (simp add: scanned_def)
    with c False k show ?thesis by auto
  qed
qed


section \<open>The batch loop returns\<close>

lemma filter_limit_loop_scans:
  assumes "wf_chunk input" and "chunk_count input \<le> standard_vector_size"
    and "scanned p input offset chunk" and "offset \<le> chunk_count input" and "0 < BATCH_SIZE"
    and "tuples_processed < LIMIT"
  shows "\<exists>c offset'. filter_limit_loop p input LIMIT tuples_processed BATCH_SIZE offset chunk = Some (Inr c) \<and>
           scanned p input offset' c \<and> (chunk_count input \<le> offset' \<or> LIMIT \<le> chunk_count c)"
  using assms(3-5)
proof (induction "chunk_count input - offset" arbitrary: offset chunk BATCH_SIZE rule: less_induct)
  case less
  show ?case
  proof (cases "offset < chunk_count input \<and> chunk_count chunk < LIMIT")
    case False
    with less.prems show ?thesis
      by (subst filter_limit_loop.simps) (auto simp: not_less)
  next
    case True
    define cnt where "cnt = min BATCH_SIZE (chunk_count input - offset)"
    define next_size where "next_size =
      (if BATCH_SIZE < chunk_count input - (offset + cnt) then BATCH_SIZE * 2 else BATCH_SIZE)"
    define sel where "sel = filter (\<lambda>i. p (chunk_row input i)) [offset..<offset + cnt]"
    have cnt: "0 < cnt" "offset + cnt \<le> chunk_count input"
      using True less.prems by (auto simp: cnt_def)
    from scanned_batch [OF less.prems(1) assms(1,2) cnt(2) sel_def]
    obtain chunk' where app: "(if length sel > 0
            then chunk_append chunk input True (Some sel)
                   (min (length sel) (standard_vector_size - chunk_count chunk))
            else Inr chunk) = Inr chunk'" and inv: "scanned p input (offset + cnt) chunk'" by blast
    have "filter_limit_loop p input LIMIT tuples_processed BATCH_SIZE offset chunk
        = filter_limit_loop p input LIMIT tuples_processed next_size (offset + cnt) chunk'"
      using True assms(6) app
      by (subst filter_limit_loop.simps)
        (simp only: cnt_def [symmetric] Let_def select_batch sel_def [symmetric] next_size_def [symmetric]
          simp_thms if_True sum.case)
    moreover have "chunk_count input - (offset + cnt) < chunk_count input - offset"
      using cnt by linarith
    moreover have "0 < next_size" using less.prems(3) by (simp add: next_size_def)
    ultimately show ?thesis
      using less.hyps [OF _ inv cnt(2)] by presburger
  qed
qed

text \<open>What one call of the operator returns, on every branch.\<close>

lemma filter_execute_rows:
  assumes wf: "wf_chunk c" "chunk_count c \<le> standard_vector_size"
    and limit: "limit = -1 \<or> 0 \<le> limit" and reach: "limit = -1 \<or> \<not> limit_reached g"
  shows "\<exists>out g' rest. filter_execute p limit c (empty_chunk (column_count c)) g
            = Some (Inr (NEED_MORE_INPUT, out, g')) \<and>
           filter p (chunk_rows c) = chunk_rows out @ rest \<and> wf_chunk out \<and>
           (rest \<noteq> [] \<longrightarrow> limit_reached g') \<and>
           (limit_reached g' \<longrightarrow> limit_reached g \<or> (0 \<le> limit \<and> nat limit \<le> length (chunk_rows out)))"
proof (cases "limit \<noteq> -1 \<and> nat limit < chunk_count c")
  case False
  define sel where "sel = select_expression p c (chunk_count c)"
  have sel_rows: "map ((!) (chunk_rows c)) sel = filter p (chunk_rows c)"
    using rows_of_selection [of "chunk_count c" c p 0] by (simp add: sel_def select_expression_def)
  define out where "out = (if length sel = chunk_count c then chunk_reference (empty_chunk (column_count c)) c
     else chunk_slice (empty_chunk (column_count c)) c sel (length sel))"
  have "filter_execute p limit c (empty_chunk (column_count c)) g = Some (Inr (NEED_MORE_INPUT, out, g))"
    using False reach limit by (auto simp: filter_execute_def sel_def out_def Let_def)
  moreover have "wf_chunk out"
    using wf by (simp add: out_def wf_reference wf_slice)
  moreover have "chunk_rows out = filter p (chunk_rows c)"
  proof (cases "length sel = chunk_count c")
    case True
    then have "length (filter p (chunk_rows c)) = length (chunk_rows c)"
      using arg_cong [OF sel_rows, of length] by simp
    then have "filter p (chunk_rows c) = chunk_rows c"
      by (metis filter_True length_filter_less less_irrefl)
    with True show ?thesis by (simp add: out_def rows_reference)
  next
    case neq: False
    have "\<forall>i \<in> set (take (length sel) sel). i < chunk_count c"
      by (simp add: sel_def select_expression_def)
    with neq sel_rows show ?thesis by (simp add: out_def rows_slice)
  qed
  ultimately show ?thesis by auto
next
  case True
  define LIMIT where "LIMIT = nat limit"
  have "\<exists>d offset'. filter_limit_loop p c LIMIT 0 (LIMIT * 2) 0 (empty_chunk (column_count c)) = Some (Inr d) \<and>
          scanned p c offset' d \<and> (chunk_count c \<le> offset' \<or> LIMIT \<le> chunk_count d)"
  proof (cases "LIMIT = 0")
    case True
    then show ?thesis
      by (subst filter_limit_loop.simps) (use scanned_empty in auto)
  next
    case False
    then show ?thesis
      using filter_limit_loop_scans [OF wf scanned_empty, where p = p and BATCH_SIZE = "LIMIT * 2"
          and tuples_processed = 0 and LIMIT = LIMIT] by auto
  qed
  then obtain d offset' where loop: "filter_limit_loop p c LIMIT 0 (LIMIT * 2) 0 (empty_chunk (column_count c)) = Some (Inr d)"
    and sc: "scanned p c offset' d" and stop: "chunk_count c \<le> offset' \<or> LIMIT \<le> chunk_count d" by blast
  define g' where "g' = (if chunk_count d \<ge> LIMIT then g\<lparr>limit_reached := True\<rparr> else g)"
  have exec: "filter_execute p limit c (empty_chunk (column_count c)) g = Some (Inr (NEED_MORE_INPUT, d, g'))"
    using True reach limit loop by (auto simp: filter_execute_def LIMIT_def g'_def Let_def)
  have rows: "filter p (chunk_rows c) = chunk_rows d @ filter p (drop offset' (chunk_rows c))"
    using sc by (metis append_take_drop_id filter_append scanned_def)
  have "filter p (drop offset' (chunk_rows c)) \<noteq> [] \<longrightarrow> limit_reached g'"
    using stop by (auto simp: g'_def)
  moreover have "limit_reached g' \<longrightarrow> limit_reached g \<or> (0 \<le> limit \<and> nat limit \<le> length (chunk_rows d))"
    using True limit by (auto simp: g'_def LIMIT_def)
  ultimately show ?thesis
    using exec rows sc unfolding scanned_def by blast
qed

section \<open>Correctness of the operator\<close>

lemma filter_run_prefix:
  assumes "\<forall>c \<in> set cs. wf_chunk c \<and> chunk_count c \<le> standard_vector_size"
    and "limit = -1 \<or> 0 \<le> limit" and "\<not> limit_reached g"
  shows "\<exists>outs rest. filter_run p limit g cs = Some (Inr outs) \<and>
           filter p (concat (map chunk_rows cs)) = concat (map chunk_rows outs) @ rest \<and>
           (\<forall>c \<in> set outs. wf_chunk c) \<and>
           (rest = [] \<or> (0 \<le> limit \<and> nat limit \<le> length (concat (map chunk_rows outs))))"
  using assms
proof (induction cs arbitrary: g)
  case Nil
  then show ?case by simp
next
  case (Cons c cs)
  then have wf: "wf_chunk c" "chunk_count c \<le> standard_vector_size" by auto
  from filter_execute_rows [OF wf Cons.prems(2)] Cons.prems(3)
  obtain out g' rest where ex: "filter_execute p limit c (empty_chunk (column_count c)) g
            = Some (Inr (NEED_MORE_INPUT, out, g'))"
    and rows: "filter p (chunk_rows c) = chunk_rows out @ rest" and wo: "wf_chunk out"
    and more: "rest \<noteq> [] \<longrightarrow> limit_reached g'"
    and full: "limit_reached g' \<longrightarrow> 0 \<le> limit \<and> nat limit \<le> length (chunk_rows out)" by blast
  show ?case
  proof (cases "limit_reached g'")
    case True
    then have "filter_run p limit g' cs = Some (Inr [])"
      using full by (cases cs) (auto simp: filter_execute_def)
    with ex rows wo full True show ?thesis by auto
  next
    case False
    with Cons.IH [of g'] Cons.prems obtain outs rest' where
      run: "filter_run p limit g' cs = Some (Inr outs)"
      and tl: "filter p (concat (map chunk_rows cs)) = concat (map chunk_rows outs) @ rest'"
        "\<forall>c \<in> set outs. wf_chunk c"
        "rest' = [] \<or> (0 \<le> limit \<and> nat limit \<le> length (concat (map chunk_rows outs)))" by auto
    have "filter_run p limit g (c # cs) = Some (Inr (out # outs))"
      using ex run by simp
    moreover have "rest = []" using False more by blast
    ultimately show ?thesis
      using rows wo tl by (intro exI [of _ "out # outs"] exI [of _ rest']) auto
  qed
qed

text \<open>
  C11. The filter operator with a propagated limit returns on every input: over any
  sequence of chunks its output is a prefix of the qualifying rows in input order, and
  the prefix is everything when there is no limit (-1) and otherwise has at least the
  limit's number of rows unless it is everything. A limit of at most that number of rows
  above the filter therefore sees the same rows as over the unlimited filter.
\<close>

theorem filter_run_correct:
  assumes "\<forall>c \<in> set cs. wf_chunk c \<and> chunk_count c \<le> standard_vector_size"
    and "limit = -1 \<or> 0 \<le> limit"
  shows "\<exists>outs rest. filter_run p limit \<lparr>limit_reached = False\<rparr> cs = Some (Inr outs) \<and>
           filter p (concat (map chunk_rows cs)) = concat (map chunk_rows outs) @ rest \<and>
           (limit = -1 \<longrightarrow> rest = []) \<and>
           (\<forall>n \<le> nat limit. take n (concat (map chunk_rows outs)) = take n (filter p (concat (map chunk_rows cs))))"
proof -
  obtain outs rest where run: "filter_run p limit \<lparr>limit_reached = False\<rparr> cs = Some (Inr outs)"
    and rows: "filter p (concat (map chunk_rows cs)) = concat (map chunk_rows outs) @ rest"
    and stop: "rest = [] \<or> (0 \<le> limit \<and> nat limit \<le> length (concat (map chunk_rows outs)))"
    using filter_run_prefix [OF assms, of "\<lparr>limit_reached = False\<rparr>" p] by auto
  have "\<forall>n \<le> nat limit. take n (concat (map chunk_rows outs)) = take n (filter p (concat (map chunk_rows cs)))"
    using stop unfolding rows by auto
  moreover have "limit = -1 \<longrightarrow> rest = []" using stop by auto
  ultimately show ?thesis using run rows by blast
qed

theorem filter_run_correct_witness:
  "\<exists>outs. filter_run (\<lambda>r. hd r > (15 :: nat)) 1 \<lparr>limit_reached = False\<rparr>
            [chunk_of_rows 1 [[10], [20], [30]], chunk_of_rows 1 [[40]]] = Some (Inr outs) \<and>
          take 1 (concat (map chunk_rows outs)) = [[20]]"
proof -
  let ?cs = "[chunk_of_rows 1 [[10], [20], [30]], chunk_of_rows 1 [[40 :: nat]]]"
  have "\<exists>outs rest. filter_run (\<lambda>r. hd r > 15) 1 \<lparr>limit_reached = False\<rparr> ?cs = Some (Inr outs) \<and>
           filter (\<lambda>r. hd r > 15) (concat (map chunk_rows ?cs)) = concat (map chunk_rows outs) @ rest \<and>
           ((1 :: int) = -1 \<longrightarrow> rest = []) \<and>
           (\<forall>n \<le> nat 1. take n (concat (map chunk_rows outs))
                         = take n (filter (\<lambda>r. hd r > 15) (concat (map chunk_rows ?cs))))"
    by (rule filter_run_correct) (simp_all add: standard_vector_size_def)
  moreover have "filter (\<lambda>r. hd r > 15) (concat (map chunk_rows ?cs)) = [[20], [30], [40]]"
    by (simp add: rows_chunk_of_rows)
  ultimately show ?thesis by (metis nat_1 order_refl take0 take_Suc_Cons One_nat_def)
qed

end
