(* ===== verification/BatchLimit.thy ===== *)
theory BatchLimit
  imports StreamingLimit "HOL-Library.Sublist"
begin

text \<open>
  The parallel LIMIT operator (\<^verbatim>\<open>src/execution/operator/helper/physical_limit.cpp\<close>) and
  the batched collections it gathers its rows in
  (\<^verbatim>\<open>src/common/types/batched_data_collection.cpp\<close>).

  A column data collection is the list of the rows appended to it; a scan hands them out
  in chunks of the standard vector size. A batched collection keeps one collection per
  batch index, in the order of the index (a \<^verbatim>\<open>std::map\<close>). Every thread sinks the chunks
  of its own batches into a local collection until it has enough rows, the collections
  are merged, and the source scans the merged collection in batch order. A debug assertion
  whose violation would be undefined in a release build is the exception it throws.
\<close>

section \<open>Batched collections\<close>

type_synonym 'v rows = "'v list list"

record 'v batched_data_collection =
  bdc_data :: "(idx_t \<times> 'v rows) list"
  last_batch_index :: "idx_t option"

definition bdc_empty :: "'v batched_data_collection" where
  "bdc_empty = \<lparr>bdc_data = [], last_batch_index = None\<rparr>"

text \<open>Insertion of a new key into the ordered map, and update of a present one.\<close>

fun batch_insert :: "idx_t \<Rightarrow> 'a \<Rightarrow> (idx_t \<times> 'a) list \<Rightarrow> (idx_t \<times> 'a) list" where
  "batch_insert b v [] = [(b, v)]"
| "batch_insert b v ((b', v') # es) =
     (if b < b' then (b, v) # (b', v') # es else (b', v') # batch_insert b v es)"

fun batch_update :: "idx_t \<Rightarrow> ('a \<Rightarrow> 'a) \<Rightarrow> (idx_t \<times> 'a) list \<Rightarrow> (idx_t \<times> 'a) list" where
  "batch_update b f [] = []"
| "batch_update b f ((b', v') # es) =
     (if b' = b then (b', f v') # es else (b', v') # batch_update b f es)"

text \<open>\<^verbatim>\<open>BatchedDataCollection::Append\<close>\<close>

definition bdc_append :: "'v batched_data_collection \<Rightarrow> 'v data_chunk \<Rightarrow> idx_t \<Rightarrow> 'v batched_data_collection result" where
  "bdc_append this input batch_index =
     (if last_batch_index this = Some batch_index
      then Inr (this\<lparr>bdc_data := batch_update batch_index (\<lambda>rs. rs @ chunk_rows input) (bdc_data this)\<rparr>)
      else if map_of (bdc_data this) batch_index \<noteq> None
      then Inl (InternalException ''Assertion triggered: data.find(batch_index) == data.end()'')
      else Inr (this\<lparr>bdc_data := batch_insert batch_index (chunk_rows input) (bdc_data this),
                     last_batch_index := Some batch_index\<rparr>))"

text \<open>\<^verbatim>\<open>BatchedDataCollection::Merge\<close>\<close>

fun bdc_merge_entries :: "(idx_t \<times> 'v rows) list \<Rightarrow> (idx_t \<times> 'v rows) list \<Rightarrow> (idx_t \<times> 'v rows) list result" where
  "bdc_merge_entries data [] = Inr data"
| "bdc_merge_entries data ((b, rs) # es) =
     (if map_of data b \<noteq> None
      then Inl (InternalException ''BatchedDataCollection::Merge error - batch index is present in both collections'')
      else bdc_merge_entries (batch_insert b rs data) es)"

definition bdc_merge :: "'v batched_data_collection \<Rightarrow> 'v batched_data_collection \<Rightarrow> 'v batched_data_collection result" where
  "bdc_merge this other =
     result_bind (bdc_merge_entries (bdc_data this) (bdc_data other)) (\<lambda>d. Inr (this\<lparr>bdc_data := d\<rparr>))"

text \<open>
  A scan state: the collections from the current one on and the position in the current
  one. \<^verbatim>\<open>BatchedDataCollection::Scan\<close> leaves the output chunk as it is at the end.
\<close>

type_synonym 'v batched_scan_state = "(idx_t \<times> 'v rows) list \<times> nat"

definition bdc_initialize_scan :: "'v batched_data_collection \<Rightarrow> 'v batched_scan_state" where
  "bdc_initialize_scan c = (bdc_data c, 0)"

definition collection_scan :: "nat \<Rightarrow> 'v rows \<Rightarrow> nat \<Rightarrow> 'v data_chunk" where
  "collection_scan ncols rs pos = chunk_of_rows ncols (take standard_vector_size (drop pos rs))"

fun bdc_scan_from :: "nat \<Rightarrow> (idx_t \<times> 'v rows) list \<Rightarrow> nat \<Rightarrow> 'v data_chunk \<Rightarrow> 'v data_chunk \<times> 'v batched_scan_state" where
  "bdc_scan_from ncols [] pos output = (output, ([], pos))"
| "bdc_scan_from ncols ((b, rs) # rest) pos output =
     (let out = collection_scan ncols rs pos in
      if chunk_count out > 0 then (out, ((b, rs) # rest, pos + chunk_count out))
      else if rest = [] then (out, ([], 0))
      else bdc_scan_from ncols rest 0 out)"

definition bdc_scan :: "nat \<Rightarrow> 'v batched_scan_state \<Rightarrow> 'v data_chunk \<Rightarrow> 'v data_chunk \<times> 'v batched_scan_state" where
  "bdc_scan ncols st output = bdc_scan_from ncols (fst st) (snd st) output"

text \<open>\<^verbatim>\<open>FetchCollection\<close>, \<^verbatim>\<open>Count\<close>, \<^verbatim>\<open>BatchCount\<close>, \<^verbatim>\<open>IndexToBatchIndex\<close>, \<^verbatim>\<open>Batch\<close>, \<^verbatim>\<open>BatchSize\<close>\<close>

definition bdc_fetch_collection :: "'v batched_data_collection \<Rightarrow> 'v rows \<times> 'v batched_data_collection" where
  "bdc_fetch_collection c = (concat (map snd (bdc_data c)), c\<lparr>bdc_data := []\<rparr>)"

definition bdc_count :: "'v batched_data_collection \<Rightarrow> nat" where
  "bdc_count c = sum_list (map (length \<circ> snd) (bdc_data c))"

definition bdc_batch_count :: "'v batched_data_collection \<Rightarrow> nat" where
  "bdc_batch_count c = length (bdc_data c)"

definition bdc_index_to_batch_index :: "'v batched_data_collection \<Rightarrow> nat \<Rightarrow> idx_t result" where
  "bdc_index_to_batch_index c index =
     (if index \<ge> length (bdc_data c) then Inl (InternalException ''Index is out of range for this collection'')
      else Inr (fst (bdc_data c ! index)))"

definition bdc_batch :: "'v batched_data_collection \<Rightarrow> idx_t \<Rightarrow> 'v rows result" where
  "bdc_batch c batch_index =
     (case map_of (bdc_data c) batch_index of
        None \<Rightarrow> Inl (InternalException ''This batched data collection does not contain a collection for batch_index'')
      | Some rs \<Rightarrow> Inr rs)"

definition bdc_batch_size :: "'v batched_data_collection \<Rightarrow> idx_t \<Rightarrow> nat result" where
  "bdc_batch_size c batch_index = result_bind (bdc_batch c batch_index) (\<lambda>rs. Inr (length rs))"

section \<open>The parallel limit operator\<close>

datatype sink_result_type = SINK_NEED_MORE_INPUT | SINK_FINISHED
datatype source_result_type = SOURCE_HAVE_MORE_OUTPUT | SOURCE_FINISHED

record 'v limit_global_state =
  lg_limit :: idx_t
  lg_offset :: idx_t
  lg_data :: "'v batched_data_collection"

record 'v limit_local_state =
  ll_current_offset :: idx_t
  ll_limit :: "idx_t option"
  ll_offset :: "idx_t option"
  ll_data :: "'v batched_data_collection"

definition limit_global_init :: "'v limit_global_state" where
  "limit_global_init = \<lparr>lg_limit = 0, lg_offset = 0, lg_data = bdc_empty\<rparr>"

definition limit_local_init :: "'e bound_limit_node \<Rightarrow> 'e bound_limit_node \<Rightarrow> 'v limit_local_state" where
  "limit_local_init limit_val offset_val =
     (case set_initial_limits limit_val offset_val of
        (lim, off) \<Rightarrow> \<lparr>ll_current_offset = 0, ll_limit = lim, ll_offset = off, ll_data = bdc_empty\<rparr>)"

text \<open>\<^verbatim>\<open>PhysicalLimit::Sink\<close> for a chunk of the batch \<open>batch_index\<close>\<close>

definition limit_sink ::
  "('v data_chunk \<Rightarrow> 'e \<Rightarrow> idx_t option) \<Rightarrow> 'e bound_limit_node \<Rightarrow> 'e bound_limit_node \<Rightarrow>
   'v data_chunk \<Rightarrow> idx_t \<Rightarrow> 'v limit_local_state \<Rightarrow> (sink_result_type \<times> 'v limit_local_state) result" where
  "limit_sink ev limit_val offset_val chunk batch_index state =
     result_bind (compute_offset ev chunk (ll_limit state) (ll_offset state) (ll_current_offset state) limit_val offset_val)
       (\<lambda>(go, lim, off, max_element).
          let state1 = state\<lparr>ll_limit := Some lim, ll_offset := Some off\<rparr> in
          if \<not> go then Inr (SINK_FINISHED, state1)
          else let max_cardinality = idx_sub max_element (ll_current_offset state);
                   chunk' = (if max_cardinality < chunk_count chunk then set_cardinality max_cardinality chunk else chunk)
               in result_bind (bdc_append (ll_data state1) chunk' batch_index) (\<lambda>d.
                    let state2 = state1\<lparr>ll_data := d,
                                        ll_current_offset := idx_add (ll_current_offset state) (chunk_count chunk')\<rparr>
                    in Inr (if ll_current_offset state2 = max_element then SINK_FINISHED else SINK_NEED_MORE_INPUT, state2)))"

text \<open>\<^verbatim>\<open>PhysicalLimit::Combine\<close>\<close>

definition limit_combine :: "'v limit_global_state \<Rightarrow> 'v limit_local_state \<Rightarrow> 'v limit_global_state result" where
  "limit_combine gstate state =
     (let g1 = (case ll_limit state of Some l \<Rightarrow> gstate\<lparr>lg_limit := l\<rparr> | None \<Rightarrow> gstate);
          g2 = (case ll_offset state of Some off \<Rightarrow> g1\<lparr>lg_offset := off\<rparr> | None \<Rightarrow> g1)
      in result_bind (bdc_merge (lg_data g2) (ll_data state)) (\<lambda>d. Inr (g2\<lparr>lg_data := d\<rparr>)))"

record 'v limit_source_state =
  ls_scan :: "'v batched_scan_state option"
  ls_current_offset :: idx_t

definition limit_source_init :: "'v limit_source_state" where
  "limit_source_init = \<lparr>ls_scan = None, ls_current_offset = 0\<rparr>"

text \<open>\<^verbatim>\<open>PhysicalLimit::GetData\<close>: the loop over scanned chunks until one is to be emitted.\<close>

partial_function (option) limit_get_data ::
  "nat \<Rightarrow> 'v limit_global_state \<Rightarrow> 'v limit_source_state \<Rightarrow> 'v data_chunk \<Rightarrow>
   (source_result_type \<times> 'v data_chunk \<times> 'v limit_source_state) option" where
  "limit_get_data ncols gstate state chunk =
     (if ls_current_offset state < idx_add (lg_limit gstate) (lg_offset gstate)
      then let scan_state = (case ls_scan state of None \<Rightarrow> bdc_initialize_scan (lg_data gstate) | Some s \<Rightarrow> s) in
           case bdc_scan ncols scan_state chunk of (chunk', scan_state') \<Rightarrow>
             if chunk_count chunk' = 0
             then Some (SOURCE_FINISHED, chunk', state\<lparr>ls_scan := Some scan_state'\<rparr>)
             else case handle_offset chunk' (ls_current_offset state) (lg_offset gstate) (lg_limit gstate) of
                    (emit, out, current_offset') \<Rightarrow>
                      let state' = state\<lparr>ls_scan := Some scan_state', ls_current_offset := current_offset'\<rparr> in
                      if emit
                      then Some (if chunk_count out > 0 then SOURCE_HAVE_MORE_OUTPUT else SOURCE_FINISHED, out, state')
                      else limit_get_data ncols gstate state' out
      else Some (if chunk_count chunk > 0 then SOURCE_HAVE_MORE_OUTPUT else SOURCE_FINISHED, chunk, state))"

section \<open>The operator in a parallel pipeline\<close>

text \<open>
  A thread sinks its chunks, each with its batch index, until \<^verbatim>\<open>FINISHED\<close>; the local states
  are combined one after the other; the source is drained into fresh chunks.
\<close>

fun limit_sink_run ::
  "('v data_chunk \<Rightarrow> 'e \<Rightarrow> idx_t option) \<Rightarrow> 'e bound_limit_node \<Rightarrow> 'e bound_limit_node \<Rightarrow>
   'v limit_local_state \<Rightarrow> (idx_t \<times> 'v data_chunk) list \<Rightarrow> 'v limit_local_state result" where
  "limit_sink_run ev lv ov state [] = Inr state"
| "limit_sink_run ev lv ov state ((b, c) # cs) =
     result_bind (limit_sink ev lv ov c b state) (\<lambda>(res, state').
       if res = SINK_FINISHED then Inr state' else limit_sink_run ev lv ov state' cs)"

fun limit_combine_all :: "'v limit_global_state \<Rightarrow> 'v limit_local_state list \<Rightarrow> 'v limit_global_state result" where
  "limit_combine_all g [] = Inr g"
| "limit_combine_all g (s # ss) = result_bind (limit_combine g s) (\<lambda>g'. limit_combine_all g' ss)"

partial_function (option) limit_drain ::
  "nat \<Rightarrow> 'v limit_global_state \<Rightarrow> 'v limit_source_state \<Rightarrow> 'v rows option" where
  "limit_drain ncols gstate state =
     Option.bind (limit_get_data ncols gstate state (empty_chunk ncols))
       (\<lambda>(res, out, state').
          if res = SOURCE_FINISHED then Some (chunk_rows out)
          else Option.bind (limit_drain ncols gstate state') (\<lambda>rest. Some (chunk_rows out @ rest)))"

definition limit_run ::
  "('v data_chunk \<Rightarrow> 'e \<Rightarrow> idx_t option) \<Rightarrow> 'e bound_limit_node \<Rightarrow> 'e bound_limit_node \<Rightarrow> nat \<Rightarrow>
   (idx_t \<times> 'v data_chunk) list list \<Rightarrow> 'v rows option result" where
  "limit_run ev lv ov ncols threads =
     result_bind (traverse (limit_sink_run ev lv ov (limit_local_init lv ov)) threads) (\<lambda>locals.
     result_bind (limit_combine_all limit_global_init locals) (\<lambda>g.
       Inr (limit_drain ncols g limit_source_init)))"

section \<open>Draining the source\<close>

definition scan_rest :: "'v batched_scan_state \<Rightarrow> 'v rows" where
  "scan_rest st = (case fst st of [] \<Rightarrow> [] | e # es \<Rightarrow> drop (snd st) (snd e) @ concat (map snd es))"

definition entries_ok :: "nat \<Rightarrow> (idx_t \<times> 'v rows) list \<Rightarrow> bool" where
  "entries_ok ncols es \<longleftrightarrow> (\<forall>e \<in> set es. \<forall>r \<in> set (snd e). length r = ncols)"

lemma rows_collection_scan:
  "\<forall>r \<in> set rs. length r = ncols \<Longrightarrow>
   chunk_rows (collection_scan ncols rs pos) = take standard_vector_size (drop pos rs)"
  unfolding collection_scan_def
  by (rule rows_chunk_of_rows) (meson in_set_dropD in_set_takeD)

lemma collection_scan_simps [simp]:
  "wf_chunk (collection_scan ncols rs pos)"
  "chunk_count (collection_scan ncols rs pos) = min standard_vector_size (length rs - pos)"
  by (simp_all add: collection_scan_def min.commute)

lemma bdc_scan_from_rows:
  assumes "entries_ok ncols es" and "es = [] \<Longrightarrow> chunk_rows output = [] \<and> wf_chunk output"
    and "bdc_scan_from ncols es pos output = (out, st')"
  shows "wf_chunk out \<and> chunk_rows out @ scan_rest st' = scan_rest (es, pos) \<and>
         (chunk_count out = 0 \<longleftrightarrow> scan_rest (es, pos) = []) \<and> entries_ok ncols (fst st') \<and>
         (chunk_count out \<noteq> 0 \<longrightarrow> fst st' \<noteq> [])"
  using assms
proof (induction ncols es pos "output" rule: bdc_scan_from.induct)
  case (1 ncols pos chunk)
  then show ?case by (auto simp: scan_rest_def simp flip: length_chunk_rows)
next
  case (2 ncols b rs rest pos chunk)
  from 2(2) have rs: "\<forall>r \<in> set rs. length r = ncols" and rest: "entries_ok ncols rest"
    by (auto simp: entries_ok_def)
  have scan_rows: "chunk_rows (collection_scan ncols rs pos) = take standard_vector_size (drop pos rs)"
    using rows_collection_scan [OF rs] .
  show ?case
  proof (cases "pos < length rs")
    case True
    with 2(4) have out: "out = collection_scan ncols rs pos"
      and st': "st' = ((b, rs) # rest, pos + min standard_vector_size (length rs - pos))"
      by (auto simp: Let_def)
    have "drop (pos + min standard_vector_size (length rs - pos)) rs
          = drop standard_vector_size (drop pos rs)" by (simp add: min_def add.commute)
    then have "chunk_rows out @ drop (pos + min standard_vector_size (length rs - pos)) rs = drop pos rs"
      unfolding out scan_rows by (metis append_take_drop_id)
    then have "chunk_rows out @ scan_rest st' = scan_rest ((b, rs) # rest, pos)"
      by (simp add: st' scan_rest_def flip: append.assoc)
    with True 2(2) show ?thesis by (simp add: out st' scan_rest_def)
  next
    case past: False
    then have empty: "chunk_count (collection_scan ncols rs pos) = 0" by simp
    then have emptyr: "chunk_rows (collection_scan ncols rs pos) = []" by (metis length_0_conv length_chunk_rows)
    have tail: "scan_rest ((b, rs) # rest, pos) = scan_rest (rest, 0)"
      using past by (cases rest) (auto simp: scan_rest_def)
    show ?thesis
    proof (cases "rest = []")
      case True
      with 2(4) past have "out = collection_scan ncols rs pos" "st' = ([], 0)" by (auto simp: Let_def)
      with True empty emptyr tail show ?thesis by (simp add: scan_rest_def entries_ok_def)
    next
      case ne: False
      with 2(4) past have "bdc_scan_from ncols rest 0 (collection_scan ncols rs pos) = (out, st')"
        by (simp add: Let_def)
      with 2(1) [OF refl _ ne] past rest emptyr tail show ?thesis by fastforce
    qed
  qed
qed

lemma bdc_scan_rows:
  assumes "entries_ok ncols (fst st)" and "fst st = [] \<Longrightarrow> chunk_rows output = [] \<and> wf_chunk output"
    and "bdc_scan ncols st output = (out, st')"
  shows "wf_chunk out" "chunk_rows out @ scan_rest st' = scan_rest st"
    "chunk_count out = 0 \<longleftrightarrow> scan_rest st = []" "entries_ok ncols (fst st')"
    "chunk_count out \<noteq> 0 \<longrightarrow> fst st' \<noteq> []"
  using bdc_scan_from_rows [OF assms(1,2), of "snd st" out st'] assms(3) by (auto simp: bdc_scan_def)

text \<open>What the source has yet to scan.\<close>

definition source_todo :: "'v limit_global_state \<Rightarrow> 'v limit_source_state \<Rightarrow> 'v batched_scan_state" where
  "source_todo g s = (case ls_scan s of None \<Rightarrow> bdc_initialize_scan (lg_data g) | Some sc \<Rightarrow> sc)"

definition source_window :: "'v limit_global_state \<Rightarrow> 'v limit_source_state \<Rightarrow> 'v rows" where
  "source_window g s = window_rows (ls_current_offset s) (lg_offset g) (lg_limit g) (scan_rest (source_todo g s))"

lemma handle_offset_nonempty:
  assumes "handle_offset input pos off lim = (True, out, pos')" and "0 < lim" and "0 < chunk_count input"
    and "pos < off + lim" and "off + lim < idx_mod" and "lim \<noteq> invalid_index"
    and "pos + chunk_count input < idx_mod"
  shows "0 < chunk_count out"
  using assms by (auto simp: handle_offset_def Let_def set_cardinality_def chunk_slice_def add.commute split: if_splits)

lemma handle_offset_skip:
  assumes "handle_offset input pos off lim = (False, out, pos')" and "pos + chunk_count input < idx_mod"
  shows "pos' \<le> off"
  using assms by (auto simp: handle_offset_def Let_def split: if_splits)

lemma limit_get_data_window:
  assumes lim: "0 < lg_limit g" "lg_limit g \<noteq> invalid_index" "lg_offset g + lg_limit g < idx_mod"
    and "entries_ok ncols (fst (source_todo g s))"
    and "ls_current_offset s < lg_offset g + lg_limit g \<and> fst (source_todo g s) \<noteq> [] \<or>
         chunk_rows chunk = [] \<and> wf_chunk chunk"
    and "ls_current_offset s + length (scan_rest (source_todo g s)) < idx_mod"
  shows "\<exists>res out s'. limit_get_data ncols g s chunk = Some (res, out, s') \<and>
           chunk_rows out @ source_window g s' = source_window g s \<and>
           entries_ok ncols (fst (source_todo g s')) \<and>
           ls_current_offset s' + length (scan_rest (source_todo g s'))
             = ls_current_offset s + length (scan_rest (source_todo g s)) \<and>
           (if res = SOURCE_FINISHED then source_window g s = [] \<and> chunk_rows out = []
            else length (scan_rest (source_todo g s')) < length (scan_rest (source_todo g s)))"
  using assms(4-6)
proof (induction "length (scan_rest (source_todo g s))" arbitrary: s chunk rule: less_induct)
  case less
  let ?pos = "ls_current_offset s"
  show ?case
  proof (cases "?pos < lg_offset g + lg_limit g")
    case False
    then have "limit_get_data ncols g s chunk = Some (SOURCE_FINISHED, chunk, s)"
      using lim less.prems(2) by (subst limit_get_data.simps) (auto simp: add.commute simp flip: length_chunk_rows)
    with False less.prems show ?thesis by (auto simp: source_window_def window_rows_Nil_iff_done)
  next
    case inside: True
    obtain out st' where scan: "bdc_scan ncols (source_todo g s) chunk = (out, st')"
      by (cases "bdc_scan ncols (source_todo g s) chunk")
    have "fst (source_todo g s) = [] \<Longrightarrow> chunk_rows chunk = [] \<and> wf_chunk chunk"
      using less.prems(2) by blast
    note rows = bdc_scan_rows [OF less.prems(1) this scan]
    have len: "chunk_count out + length (scan_rest st') = length (scan_rest (source_todo g s))"
      using arg_cong [OF rows(2), of length] by simp
    have step: "limit_get_data ncols g s chunk =
        (if chunk_count out = 0 then Some (SOURCE_FINISHED, out, s\<lparr>ls_scan := Some st'\<rparr>)
         else case handle_offset out ?pos (lg_offset g) (lg_limit g) of (emit, out', pos') \<Rightarrow>
           let s' = s\<lparr>ls_scan := Some st', ls_current_offset := pos'\<rparr> in
           if emit then Some (if chunk_count out' > 0 then SOURCE_HAVE_MORE_OUTPUT else SOURCE_FINISHED, out', s')
           else limit_get_data ncols g s' out')"
      using inside lim scan
      by (subst limit_get_data.simps) (simp add: add.commute source_todo_def Let_def)
    show ?thesis
    proof (cases "chunk_count out = 0")
      case True
      with step rows len have "scan_rest (source_todo g s) = []" "scan_rest st' = []" "chunk_rows out = []"
        by (auto simp flip: length_chunk_rows)
      with True step rows show ?thesis
        by (simp add: source_window_def source_todo_def window_rows_def)
    next
      case False
      obtain emit out' pos' where h: "handle_offset out ?pos (lg_offset g) (lg_limit g) = (emit, out', pos')"
        by (metis prod_cases3)
      have bound: "?pos + chunk_count out < idx_mod" using len less.prems(3) by linarith
      from handle_offset_rows [OF rows(1) lim(2,3) bound inside] h
      have pos': "pos' = ?pos + chunk_count out"
        and emitted: "(if emit then chunk_rows out' else []) = window_rows ?pos (lg_offset g) (lg_limit g) (chunk_rows out)"
        by auto
      define s' where "s' = s\<lparr>ls_scan := Some st', ls_current_offset := pos'\<rparr>"
      have todo': "source_todo g s' = st'" "ls_current_offset s' = pos'"
        by (simp_all add: s'_def source_todo_def)
      have shrink: "length (scan_rest (source_todo g s')) < length (scan_rest (source_todo g s))"
        "ls_current_offset s' + length (scan_rest (source_todo g s')) = ?pos + length (scan_rest (source_todo g s))"
        using False len unfolding todo' pos' by simp_all
      have window: "source_window g s = (if emit then chunk_rows out' else []) @ source_window g s'"
        unfolding source_window_def todo' pos' emitted
        by (metis length_chunk_rows rows(2) window_rows_split)
      show ?thesis
      proof (cases emit)
        case True
        then have "0 < chunk_count out'"
          using handle_offset_nonempty [OF _ lim(1) _ inside lim(3,2) bound, of out' pos'] h False by simp
        with True step h False window shrink rows todo' show ?thesis
          by (simp add: s'_def Let_def)
      next
        case skip: False
        then have "pos' < lg_offset g + lg_limit g"
          using handle_offset_skip [of out ?pos "lg_offset g" "lg_limit g" out' pos'] h bound lim(1) by simp
        then have "ls_current_offset s' < lg_offset g + lg_limit g \<and> fst (source_todo g s') \<noteq> [] \<or>
            chunk_rows out' = [] \<and> wf_chunk out'"
          using rows(5) False todo' by simp
        moreover have "limit_get_data ncols g s chunk = limit_get_data ncols g s' out'"
          using step False h skip by (simp add: s'_def Let_def)
        ultimately show ?thesis
          using less.hyps [of s' out'] shrink window skip rows(4) todo' less.prems(3)
          by (fastforce split: if_splits)
      qed
    qed
  qed
qed

lemma limit_drain_window:
  assumes lim: "0 < lg_limit g" "lg_limit g \<noteq> invalid_index" "lg_offset g + lg_limit g < idx_mod"
    and "entries_ok ncols (fst (source_todo g s))"
    and "ls_current_offset s + length (scan_rest (source_todo g s)) < idx_mod"
  shows "limit_drain ncols g s = Some (source_window g s)"
  using assms(4,5)
proof (induction "length (scan_rest (source_todo g s))" arbitrary: s rule: less_induct)
  case less
  have "wf_chunk (empty_chunk ncols :: 'a data_chunk)" by (simp add: wf_chunk_def)
  from limit_get_data_window [OF lim less.prems(1) _ less.prems(2), of "empty_chunk ncols"] this
  obtain res out s' where get: "limit_get_data ncols g s (empty_chunk ncols) = Some (res, out, s')"
    and win: "chunk_rows out @ source_window g s' = source_window g s"
    and ok: "entries_ok ncols (fst (source_todo g s'))"
      "ls_current_offset s' + length (scan_rest (source_todo g s'))
         = ls_current_offset s + length (scan_rest (source_todo g s))"
    and fin: "if res = SOURCE_FINISHED then source_window g s = [] \<and> chunk_rows out = []
              else length (scan_rest (source_todo g s')) < length (scan_rest (source_todo g s))"
    by auto
  show ?case
  proof (cases "res = SOURCE_FINISHED")
    case True
    with get fin show ?thesis by (subst limit_drain.simps) simp
  next
    case False
    with fin less.hyps [of s'] ok less.prems have "limit_drain ncols g s' = Some (source_window g s')" by simp
    with False get win show ?thesis by (subst limit_drain.simps) simp
  qed
qed

section \<open>Batched collections as functions of the batch index\<close>

abbreviation batches :: "(idx_t \<times> 'a) list \<Rightarrow> idx_t set" where
  "batches d \<equiv> fst ` set d"

definition bdc_rows :: "(idx_t \<times> 'v rows) list \<Rightarrow> idx_t \<Rightarrow> 'v rows" where
  "bdc_rows d b = (case map_of d b of None \<Rightarrow> [] | Some rs \<Rightarrow> rs)"

definition sorted_batches :: "(idx_t \<times> 'a) list \<Rightarrow> bool" where
  "sorted_batches d \<longleftrightarrow> sorted_wrt (<) (map fst d)"

definition rows_total :: "(idx_t \<times> 'v rows) list \<Rightarrow> nat" where
  "rows_total d = sum_list (map (length \<circ> snd) d)"

definition rows_upto :: "(idx_t \<times> 'v rows) list \<Rightarrow> idx_t \<Rightarrow> nat" where
  "rows_upto d b = (\<Sum>b' \<in> {b' \<in> batches d. b' \<le> b}. length (bdc_rows d b'))"

lemma sorted_batches_distinct: "sorted_batches d \<Longrightarrow> distinct (map fst d)"
  by (simp add: sorted_batches_def strict_sorted_iff)

lemma batches_insert [simp]: "batches (batch_insert b v d) = insert b (batches d)"
  by (induction b v d rule: batch_insert.induct) auto

lemma sorted_batch_insert:
  "sorted_batches d \<Longrightarrow> b \<notin> batches d \<Longrightarrow> sorted_batches (batch_insert b v d)"
proof (induction b v d rule: batch_insert.induct)
  case (2 b v b' v' es)
  then have "sorted_batches es" "b \<notin> batches es" "b \<noteq> b'" "\<forall>x \<in> batches es. b' < x"
    by (auto simp: sorted_batches_def)
  moreover have "set (map fst (batch_insert b v es)) = insert b (batches es)" by simp
  ultimately show ?case
    using 2 by (auto simp: sorted_batches_def)
qed (simp add: sorted_batches_def)

lemma map_of_batch_insert:
  "b \<notin> batches d \<Longrightarrow> map_of (batch_insert b v d) = (map_of d)(b \<mapsto> v)"
  by (induction b v d rule: batch_insert.induct) (auto simp: fun_eq_iff)

lemma keys_batch_update [simp]: "map fst (batch_update b f d) = map fst d"
  by (induction b f d rule: batch_update.induct) auto

lemma batches_update [simp]: "batches (batch_update b f d) = batches d"
  by (metis keys_batch_update list.set_map)

lemma map_of_batch_update:
  "map_of (batch_update b f d) = (case map_of d b of None \<Rightarrow> map_of d | Some v \<Rightarrow> (map_of d)(b \<mapsto> f v))"
  by (induction b f d rule: batch_update.induct) (auto simp: fun_eq_iff split: option.splits)

lemma bdc_rows_outside: "b \<notin> batches d \<Longrightarrow> bdc_rows d b = []"
  by (simp add: bdc_rows_def map_of_eq_None_iff [THEN iffD2])

lemma bdc_rows_insert:
  "b \<notin> batches d \<Longrightarrow> bdc_rows (batch_insert b v d) b' = (if b' = b then v else bdc_rows d b')"
  by (simp add: bdc_rows_def map_of_batch_insert)

lemma bdc_rows_update:
  "b \<in> batches d \<Longrightarrow>
   bdc_rows (batch_update b (\<lambda>rs. rs @ new) d) b' = (if b' = b then bdc_rows d b @ new else bdc_rows d b')"
  by (cases "map_of d b") (auto simp: bdc_rows_def map_of_batch_update map_of_eq_None_iff)

lemma rows_total_insert: "rows_total (batch_insert b v d) = length v + rows_total d"
  by (induction b v d rule: batch_insert.induct) (auto simp: rows_total_def)

lemma rows_total_update:
  "b \<in> batches d \<Longrightarrow> rows_total (batch_update b (\<lambda>rs. rs @ new) d) = length new + rows_total d"
  by (induction b "\<lambda>rs. rs @ new" d rule: batch_update.induct) (auto simp: rows_total_def)

lemma rows_upto_total:
  assumes "distinct (map fst d)" and "\<forall>b' \<in> batches d. b' \<le> b"
  shows "rows_upto d b = rows_total d"
proof -
  have "{b' \<in> batches d. b' \<le> b} = set (map fst d)" using assms(2) by auto
  then have "rows_upto d b = sum_list (map (\<lambda>b'. length (bdc_rows d b')) (map fst d))"
    using assms(1) by (simp only: rows_upto_def sum_list_distinct_conv_sum_set)
  also have "map (\<lambda>b'. length (bdc_rows d b')) (map fst d) = map (length \<circ> snd) d"
    using assms(1) by (auto simp: bdc_rows_def map_of_eq_Some_iff)
  finally show ?thesis by (simp add: rows_total_def)
qed

text \<open>The rows of an ordered collection, read over any ordered list of batch indexes that
  has all of its own.\<close>

lemma concat_sorted_batches:
  assumes "sorted_batches d" and "sorted_wrt (<) ks" and "batches d \<subseteq> set ks"
  shows "concat (map snd d) = concat (map (bdc_rows d) ks)"
  using assms
proof (induction ks arbitrary: d)
  case Nil
  then show ?case by simp
next
  case (Cons k ks)
  show ?case
  proof (cases "k \<in> batches d")
    case False
    then have "concat (map snd d) = concat (map (bdc_rows d) ks)"
      using Cons by (intro Cons.IH) auto
    with False show ?thesis by (simp add: bdc_rows_outside)
  next
    case True
    then obtain k' rs es where d: "d = (k', rs) # es" by (cases d) auto
    have "\<forall>x \<in> batches es. k' < x" using Cons.prems(1) by (auto simp: d sorted_batches_def)
    moreover have "\<forall>x \<in> set ks. k < x" using Cons.prems(2) by simp
    ultimately have k': "k' = k" "batches es \<subseteq> set ks"
      using True Cons.prems(3) by (auto simp: d) force+
    have first: "bdc_rows ((k, rs) # es) k = rs" by (simp add: bdc_rows_def)
    have "concat (map snd es) = concat (map (bdc_rows es) ks)"
      using Cons.prems k' by (intro Cons.IH) (auto simp: d sorted_batches_def)
    also have "map (bdc_rows es) ks = map (bdc_rows d) ks"
      using Cons.prems(2) by (auto simp: d k' bdc_rows_def)
    finally show ?thesis by (simp add: d k' first)
  qed
qed

section \<open>Sinking and combining\<close>

text \<open>The rows of one batch in arrival order, and all rows in batch order.\<close>

definition batch_rows :: "(idx_t \<times> 'v data_chunk) list \<Rightarrow> idx_t \<Rightarrow> 'v rows" where
  "batch_rows ps b = concat (map (\<lambda>p. chunk_rows (snd p)) (filter (\<lambda>p. fst p = b) ps))"

definition rows_in_batch_order :: "(idx_t \<times> 'v data_chunk) list \<Rightarrow> 'v rows" where
  "rows_in_batch_order ps = concat (map (batch_rows ps) (sorted_list_of_set (batches ps)))"

fun disjoint_batches :: "(idx_t \<times> 'a) list list \<Rightarrow> bool" where
  "disjoint_batches [] = True"
| "disjoint_batches (t # ts) = (batches t \<inter> batches (concat ts) = {} \<and> disjoint_batches ts)"

text \<open>
  A collection truncates the full rows \<open>F\<close> of the batches at \<open>M\<close>: it has a prefix of each
  batch, and where it misses rows of a batch it has \<open>M\<close> rows up to that batch.
\<close>

definition truncates :: "nat \<Rightarrow> (idx_t \<times> 'v rows) list \<Rightarrow> (idx_t \<Rightarrow> 'v rows) \<Rightarrow> bool" where
  "truncates M d F \<longleftrightarrow> sorted_batches d \<and> (\<forall>b. prefix (bdc_rows d b) (F b)) \<and>
     (\<forall>b. bdc_rows d b \<noteq> F b \<longrightarrow> M \<le> rows_upto d b)"

lemma rows_upto_sorted:
  assumes "sorted_wrt (<) ks" and "batches d \<subseteq> set ks" and "ks = xs @ b # ys"
  shows "rows_upto d b = length (concat (map (bdc_rows d) (xs @ [b])))"
proof -
  have lt: "\<forall>x \<in> set xs. x < b" "\<forall>y \<in> set ys. b < y" and dist: "distinct (xs @ [b])"
    using assms(1,3) by (auto simp: sorted_wrt_append strict_sorted_iff)
  have "rows_upto d b = (\<Sum>b' \<in> set (xs @ [b]). length (bdc_rows d b'))"
    unfolding rows_upto_def
  proof (rule sum.mono_neutral_left)
    show "{b' \<in> batches d. b' \<le> b} \<subseteq> set (xs @ [b])"
      using assms(2,3) lt by fastforce
    show "\<forall>i \<in> set (xs @ [b]) - {b' \<in> batches d. b' \<le> b}. length (bdc_rows d i) = 0"
    proof
      fix i assume i: "i \<in> set (xs @ [b]) - {b' \<in> batches d. b' \<le> b}"
      then have "i \<le> b" using lt by auto
      with i have "i \<notin> batches d" by blast
      then show "length (bdc_rows d i) = 0" by (simp add: bdc_rows_outside)
    qed
  qed simp
  also have "\<dots> = sum_list (map (\<lambda>b'. length (bdc_rows d b')) (xs @ [b]))"
    using dist by (simp only: sum_list_distinct_conv_sum_set)
  finally show ?thesis by (simp add: length_concat comp_def)
qed

lemma truncates_take:
  assumes "truncates M d F" and "sorted_wrt (<) ks" and "batches d \<subseteq> set ks"
  shows "take M (concat (map snd d)) = take M (concat (map F ks))"
proof (cases "\<exists>b \<in> set ks. bdc_rows d b \<noteq> F b")
  case False
  then have "map (bdc_rows d) ks = map F ks" by simp
  with concat_sorted_batches [OF _ assms(2,3)] assms(1) show ?thesis by (simp add: truncates_def)
next
  case True
  then obtain xs b ys where ks: "ks = xs @ b # ys" and b: "bdc_rows d b \<noteq> F b"
    and xs: "\<forall>x \<in> set xs. bdc_rows d x = F x"
    using split_list_first_prop [of ks "\<lambda>b. bdc_rows d b \<noteq> F b"] by auto
  let ?front = "concat (map (bdc_rows d) (xs @ [b]))"
  obtain z where z: "F b = bdc_rows d b @ z" using assms(1) by (auto simp: truncates_def prefix_def)
  have front: "map F xs = map (bdc_rows d) xs" using xs by simp
  have full: "concat (map F ks) = ?front @ z @ concat (map F ys)"
    unfolding ks map_append list.map concat_append concat.simps front z by simp
  have "concat (map snd d) = ?front @ concat (map (bdc_rows d) ys)"
    using concat_sorted_batches [OF _ assms(2,3)] assms(1) by (simp add: truncates_def ks)
  moreover have "M \<le> length ?front"
    using assms(1) b unfolding truncates_def rows_upto_sorted [OF assms(2,3) ks, symmetric] by blast
  ultimately show ?thesis using full by simp
qed

text \<open>Appending to the local collection of a thread.\<close>

lemma bdc_append_rows:
  assumes "sorted_batches (bdc_data d)" and "last_batch_index d = Some b \<longleftrightarrow> b \<in> batches (bdc_data d)"
  obtains d' where "bdc_append d c b = Inr d'" and "sorted_batches (bdc_data d')"
    and "batches (bdc_data d') = insert b (batches (bdc_data d))" and "last_batch_index d' = Some b"
    and "\<And>b'. bdc_rows (bdc_data d') b' = (if b' = b then bdc_rows (bdc_data d) b @ chunk_rows c else bdc_rows (bdc_data d) b')"
    and "rows_total (bdc_data d') = chunk_count c + rows_total (bdc_data d)"
proof (cases "b \<in> batches (bdc_data d)")
  case True
  then show ?thesis
    using assms that [of "d\<lparr>bdc_data := batch_update b (\<lambda>rs. rs @ chunk_rows c) (bdc_data d)\<rparr>"]
    by (simp add: bdc_append_def sorted_batches_def bdc_rows_update rows_total_update insert_absorb)
next
  case False
  then have "map_of (bdc_data d) b = None" by (simp add: map_of_eq_None_iff)
  with False assms show ?thesis
    using that [of "d\<lparr>bdc_data := batch_insert b (chunk_rows c) (bdc_data d), last_batch_index := Some b\<rparr>"]
    by (simp add: bdc_append_def sorted_batch_insert bdc_rows_insert rows_total_insert bdc_rows_outside)
qed

text \<open>The local state of a thread that has sunk the chunks \<open>sunk\<close> and is not finished.\<close>

definition sink_inv :: "idx_t \<Rightarrow> idx_t \<Rightarrow> 'v limit_local_state \<Rightarrow> (idx_t \<times> 'v data_chunk) list \<Rightarrow> bool" where
  "sink_inv l off st sunk \<longleftrightarrow>
     ll_limit st = Some l \<and> ll_offset st = Some off \<and>
     ll_current_offset st = rows_total (bdc_data (ll_data st)) \<and>
     sorted_batches (bdc_data (ll_data st)) \<and> batches (bdc_data (ll_data st)) = batches sunk \<and>
     (\<forall>b. bdc_rows (bdc_data (ll_data st)) b = batch_rows sunk b) \<and>
     last_batch_index (ll_data st) = (if sunk = [] then None else Some (fst (last sunk)))"

lemma batch_rows_append: "batch_rows (ps @ qs) b = batch_rows ps b @ batch_rows qs b"
  by (simp add: batch_rows_def)

lemma batch_rows_Cons: "batch_rows (p # ps) b = (if fst p = b then chunk_rows (snd p) else []) @ batch_rows ps b"
  by (simp add: batch_rows_def)

lemma batch_rows_outside: "b \<notin> batches ps \<Longrightarrow> batch_rows ps b = []"
  by (force simp: batch_rows_def)

lemma sink_last_batch:
  assumes "sink_inv l off st sunk" and "sorted (map fst (sunk @ [(b, c)]))"
  shows "last_batch_index (ll_data st) = Some b \<longleftrightarrow> b \<in> batches (bdc_data (ll_data st))"
proof (cases "sunk = []")
  case True
  with assms show ?thesis by (simp add: sink_inv_def)
next
  case False
  have "\<forall>x \<in> batches sunk. x \<le> fst (last sunk)"
    using assms(2) False by (cases sunk rule: rev_cases) (auto simp: sorted_append)
  moreover have "fst (last sunk) \<le> b" "fst (last sunk) \<in> batches sunk"
    using assms(2) False by (auto simp: sorted_append)
  ultimately show ?thesis using assms(1) False by (auto simp: sink_inv_def)
qed

text \<open>One call of the sink: it goes on with the whole chunk, or it finishes with exactly
  \<open>l + off\<close> rows.\<close>

lemma limit_sink_step:
  assumes inv: "sink_inv l off st sunk" and srt: "sorted (map fst (sunk @ [(b, c)]))"
    and lim: "0 < l" "l + off < idx_mod" and cur: "ll_current_offset st < l + off"
    and bound: "ll_current_offset st + chunk_count c < idx_mod"
  shows "\<exists>res st'. limit_sink ev lv ov c b st = Inr (res, st') \<and>
           (if res = SINK_FINISHED
            then ll_limit st' = Some l \<and> ll_offset st' = Some off \<and> batches (bdc_data (ll_data st')) \<subseteq> batches (sunk @ [(b, c)]) \<and>
                 truncates (l + off) (bdc_data (ll_data st')) (batch_rows (sunk @ [(b, c)])) \<and>
                 rows_total (bdc_data (ll_data st')) = l + off
            else sink_inv l off st' (sunk @ [(b, c)]) \<and> ll_current_offset st' < l + off \<and>
                 ll_current_offset st' = ll_current_offset st + chunk_count c)"
proof -
  define k where "k = l + off - ll_current_offset st"
  define c' where "c' = (if k < chunk_count c then set_cardinality k c else c)"
  have rows_c': "chunk_rows c' = take k (chunk_rows c)" and count_c': "chunk_count c' = min k (chunk_count c)"
    by (auto simp: c'_def rows_set_cardinality) (simp add: set_cardinality_def)
  from inv have sb: "sorted_batches (bdc_data (ll_data st))" by (simp add: sink_inv_def)
  obtain d where app: "bdc_append (ll_data st) c' b = Inr d"
    and d: "sorted_batches (bdc_data d)" "batches (bdc_data d) = insert b (batches (bdc_data (ll_data st)))"
      "last_batch_index d = Some b"
    and rows: "\<And>b'. bdc_rows (bdc_data d) b' = (if b' = b then bdc_rows (bdc_data (ll_data st)) b @ chunk_rows c'
                                             else bdc_rows (bdc_data (ll_data st)) b')"
    and total: "rows_total (bdc_data d) = chunk_count c' + rows_total (bdc_data (ll_data st))"
    using bdc_append_rows [OF sb sink_last_batch [OF inv srt], of c'] by blast
  define st' where "st' = st\<lparr>ll_limit := Some l, ll_offset := Some off, ll_data := d,
                             ll_current_offset := ll_current_offset st + chunk_count c'\<rparr>"
  have co: "compute_offset ev c (ll_limit st) (ll_offset st) (ll_current_offset st) lv ov = Inr (True, l, off, l + off)"
    using inv lim cur by (simp add: sink_inv_def compute_offset_set)
  have sub: "idx_sub (l + off) (ll_current_offset st) = k" using cur by (simp add: k_def)
  have add: "idx_add (ll_current_offset st) (chunk_count c') = ll_current_offset st + chunk_count c'"
    using bound count_c' by simp
  have sink: "limit_sink ev lv ov c b st =
      Inr (if ll_current_offset st' = l + off then SINK_FINISHED else SINK_NEED_MORE_INPUT, st')"
    unfolding limit_sink_def co result_bind_simps prod.case Let_def sub c'_def [symmetric]
    by (simp add: app add st'_def)
  have brows: "bdc_rows (bdc_data d) b' = batch_rows sunk b' @ (if b' = b then take k (chunk_rows c) else [])" for b'
    using inv by (simp add: rows rows_c' sink_inv_def)
  have full: "batch_rows (sunk @ [(b, c)]) b' = batch_rows sunk b' @ (if b' = b then chunk_rows c else [])" for b'
    by (simp add: batch_rows_append batch_rows_Cons) (simp add: batch_rows_def)
  have tot: "ll_current_offset st' = rows_total (bdc_data d)"
    using inv total by (simp add: st'_def sink_inv_def)
  have keys: "batches (bdc_data d) = batches (sunk @ [(b, c)])" using inv d(2) by (simp add: sink_inv_def)
  show ?thesis
  proof (cases "ll_current_offset st' = l + off")
    case True
    have le: "\<forall>x \<in> batches (bdc_data d). x \<le> b" using srt keys by (auto simp: sorted_append)
    have "truncates (l + off) (bdc_data d) (batch_rows (sunk @ [(b, c)]))"
      unfolding truncates_def brows full
      using d(1) rows_upto_total [OF sorted_batches_distinct [OF d(1)] le] True tot
      by (auto simp: take_is_prefix)
    with True sink keys tot show ?thesis by (auto simp: st'_def)
  next
    case False
    then have "chunk_count c < k" using cur count_c' by (auto simp: st'_def k_def min_def split: if_splits)
    with False sink keys tot d brows full show ?thesis
      using cur count_c' by (auto simp: st'_def sink_inv_def k_def)
  qed
qed

abbreviation chunk_total :: "(idx_t \<times> 'v data_chunk) list \<Rightarrow> nat" where
  "chunk_total ps \<equiv> sum_list (map (\<lambda>p. chunk_count (snd p)) ps)"

lemma truncates_more:
  assumes "truncates M d F" and "\<forall>x \<in> batches d. x \<le> b" and "M \<le> rows_total d"
    and "\<And>b'. b' < b \<Longrightarrow> G b' = []"
  shows "truncates M d (\<lambda>b'. F b' @ G b')"
proof -
  have "M \<le> rows_upto d b'" if "bdc_rows d b' \<noteq> F b' @ G b'" for b'
  proof (cases "b' < b")
    case True
    with assms that show ?thesis by (auto simp: truncates_def)
  next
    case False
    then have "rows_upto d b' = rows_total d"
      using assms(1,2) sorted_batches_distinct by (intro rows_upto_total) (auto simp: truncates_def)
    with assms(3) show ?thesis by simp
  qed
  then show ?thesis using assms(1) by (auto simp: truncates_def)
qed

lemma limit_sink_run_truncates:
  assumes "sink_inv l off st sunk" and "sorted (map fst (sunk @ ps))"
    and lim: "0 < l" "l + off < idx_mod" and "ll_current_offset st < l + off"
    and "ll_current_offset st + chunk_total ps < idx_mod"
  shows "\<exists>st'. limit_sink_run ev lv ov st ps = Inr st' \<and> ll_limit st' = Some l \<and> ll_offset st' = Some off \<and>
           batches (bdc_data (ll_data st')) \<subseteq> batches (sunk @ ps) \<and>
           truncates (l + off) (bdc_data (ll_data st')) (batch_rows (sunk @ ps))"
  using assms(1,2,5,6)
proof (induction ps arbitrary: st sunk)
  case Nil
  then show ?case by (auto simp: sink_inv_def truncates_def)
next
  case (Cons p ps)
  obtain b c where p: "p = (b, c)" by fastforce
  have srt: "sorted (map fst (sunk @ [(b, c)]))" using Cons.prems(2) by (auto simp: p sorted_append)
  have "ll_current_offset st + chunk_count c < idx_mod" using Cons.prems(4) by (simp add: p)
  from limit_sink_step [OF Cons.prems(1) srt lim Cons.prems(3) this]
  obtain res st1 where sink: "limit_sink ev lv ov c b st = Inr (res, st1)"
    and after: "if res = SINK_FINISHED
            then ll_limit st1 = Some l \<and> ll_offset st1 = Some off \<and> batches (bdc_data (ll_data st1)) \<subseteq> batches (sunk @ [(b, c)]) \<and>
                 truncates (l + off) (bdc_data (ll_data st1)) (batch_rows (sunk @ [(b, c)])) \<and>
                 rows_total (bdc_data (ll_data st1)) = l + off
            else sink_inv l off st1 (sunk @ [(b, c)]) \<and> ll_current_offset st1 < l + off \<and>
                 ll_current_offset st1 = ll_current_offset st + chunk_count c" by blast
  show ?case
  proof (cases "res = SINK_FINISHED")
    case True
    with after have keys: "batches (bdc_data (ll_data st1)) \<subseteq> batches (sunk @ [(b, c)])" by simp
    have le: "\<forall>x \<in> batches (sunk @ [(b, c)]). x \<le> b" using srt by (auto simp: sorted_append)
    have "truncates (l + off) (bdc_data (ll_data st1)) (\<lambda>b'. batch_rows (sunk @ [(b, c)]) b' @ batch_rows ps b')"
    proof (rule truncates_more [where b = b])
      show "\<forall>x \<in> batches (bdc_data (ll_data st1)). x \<le> b"
        using keys le by blast
      show "batch_rows ps b' = []" if "b' < b" for b'
        using that Cons.prems(2) by (intro batch_rows_outside) (auto simp: p sorted_append)
    qed (use True after in auto)
    then have "truncates (l + off) (bdc_data (ll_data st1)) (batch_rows (sunk @ p # ps))"
      unfolding batch_rows_append [symmetric] p by simp
    with True sink after show ?thesis by (auto simp: p)
  next
    case False
    with Cons.IH [of st1 "sunk @ [p]"] Cons.prems after sink show ?thesis
      by (simp add: p)
  qed
qed

lemma limit_sink_run_zero:
  "ll_limit st = Some 0 \<Longrightarrow> ll_offset st = Some off \<Longrightarrow> off < idx_mod \<Longrightarrow> limit_sink_run ev lv ov st ps = Inr st"
  by (cases "(ev, lv, ov, st, ps)" rule: limit_sink_run.cases)
    (simp_all add: limit_sink_def compute_offset_def resolve_delimiter_def Let_def)

section \<open>Merging the threads\<close>

lemma bdc_merge_entries_rows:
  assumes "sorted_batches d" and "distinct (map fst es)" and "batches d \<inter> batches es = {}"
  shows "\<exists>d'. bdc_merge_entries d es = Inr d' \<and> sorted_batches d' \<and> batches d' = batches d \<union> batches es \<and>
           (\<forall>b. bdc_rows d' b = bdc_rows d b @ bdc_rows es b)"
  using assms
proof (induction d es rule: bdc_merge_entries.induct)
  case (1 data)
  then show ?case by (simp add: bdc_rows_def)
next
  case (2 data b rs es)
  from 2(4) have out: "b \<notin> batches data" by auto
  then have none: "map_of data b = None" by (simp add: map_of_eq_None_iff)
  with 2(1) 2(2,3,4) out sorted_batch_insert [OF 2(2) out, of rs]
  obtain d' where d': "bdc_merge_entries (batch_insert b rs data) es = Inr d'" "sorted_batches d'"
    "batches d' = insert b (batches data) \<union> batches es"
    "\<forall>x. bdc_rows d' x = bdc_rows (batch_insert b rs data) x @ bdc_rows es x"
    by (auto simp: sorted_batches_distinct)
  moreover have "bdc_rows d' x = bdc_rows data x @ bdc_rows ((b, rs) # es) x" for x
    using d'(4) 2(3) out by (auto simp: bdc_rows_insert bdc_rows_outside) (simp_all add: bdc_rows_def)
  ultimately show ?case using none by simp
qed

lemma rows_upto_mono:
  assumes "batches d \<subseteq> batches d'" and "\<And>b. length (bdc_rows d b) \<le> length (bdc_rows d' b)"
  shows "rows_upto d b \<le> rows_upto d' b"
proof -
  have "rows_upto d b \<le> (\<Sum>b' \<in> {b' \<in> batches d. b' \<le> b}. length (bdc_rows d' b'))"
    unfolding rows_upto_def by (intro sum_mono assms)
  also have "\<dots> \<le> rows_upto d' b"
    unfolding rows_upto_def using assms(1) by (intro sum_mono2) auto
  finally show ?thesis .
qed

lemma truncates_merge:
  assumes d: "truncates M d F" and e: "truncates M e G"
    and merged: "sorted_batches d'" "batches d' = batches d \<union> batches e" "\<forall>b. bdc_rows d' b = bdc_rows d b @ bdc_rows e b"
    and apart: "\<And>b. F b = [] \<or> G b = []"
  shows "truncates M d' (\<lambda>b. F b @ G b)"
proof -
  have "rows_upto d b \<le> rows_upto d' b" "rows_upto e b \<le> rows_upto d' b" for b
    using merged by (auto intro!: rows_upto_mono)
  moreover have "prefix (bdc_rows d' b) (F b @ G b)" for b
    using apart [of b] d e merged(3) by (auto simp: truncates_def) (metis append_Nil2 prefix_bot.extremum_unique self_append_conv2)+
  ultimately show ?thesis
    using d e merged unfolding truncates_def by (metis le_trans)
qed

text \<open>What a finished thread hands to \<^verbatim>\<open>Combine\<close>.\<close>

definition thread_result :: "idx_t \<Rightarrow> idx_t \<Rightarrow> nat \<Rightarrow> (idx_t \<times> 'v data_chunk) list \<Rightarrow> 'v limit_local_state \<Rightarrow> bool" where
  "thread_result l off M ps st \<longleftrightarrow>
     ll_limit st = Some l \<and> ll_offset st = Some off \<and> batches (bdc_data (ll_data st)) \<subseteq> batches ps \<and>
     truncates M (bdc_data (ll_data st)) (batch_rows ps)"

lemma limit_combine_step:
  assumes th: "thread_result l off M ps st" and g: "truncates M (bdc_data (lg_data g)) F"
    and apart: "batches (bdc_data (lg_data g)) \<inter> batches ps = {}" "\<And>b. b \<in> batches ps \<Longrightarrow> F b = []"
  shows "\<exists>g'. limit_combine g st = Inr g' \<and> lg_limit g' = l \<and> lg_offset g' = off \<and>
           truncates M (bdc_data (lg_data g')) (\<lambda>b. F b @ batch_rows ps b) \<and>
           batches (bdc_data (lg_data g')) \<subseteq> batches (bdc_data (lg_data g)) \<union> batches ps"
proof -
  let ?d = "bdc_data (lg_data g)" and ?e = "bdc_data (ll_data st)"
  have th': "ll_limit st = Some l" "ll_offset st = Some off" "batches ?e \<subseteq> batches ps"
    "truncates M ?e (batch_rows ps)" using th by (simp_all add: thread_result_def)
  have sorted: "sorted_batches ?d" "distinct (map fst ?e)"
    using g th' by (simp_all add: truncates_def sorted_batches_distinct)
  have "batches ?d \<inter> batches ?e = {}" using apart(1) th'(3) by blast
  from bdc_merge_entries_rows [OF sorted this] obtain d' where d': "bdc_merge_entries ?d ?e = Inr d'" "sorted_batches d'"
    "batches d' = batches ?d \<union> batches ?e" "\<forall>b. bdc_rows d' b = bdc_rows ?d b @ bdc_rows ?e b" by blast
  have "F b = [] \<or> batch_rows ps b = []" for b
    using apart(2) batch_rows_outside by blast
  with truncates_merge [OF g th'(4) d'(2-4)] have "truncates M d' (\<lambda>b. F b @ batch_rows ps b)" by blast
  moreover have "limit_combine g st = Inr (g\<lparr>lg_limit := l, lg_offset := off, lg_data := (lg_data g)\<lparr>bdc_data := d'\<rparr>\<rparr>)"
    using d'(1) th'(1,2) by (simp add: limit_combine_def bdc_merge_def)
  moreover have "batches d' \<subseteq> batches ?d \<union> batches ps" using d'(3) th'(3) by blast
  ultimately show ?thesis
    by (intro exI [of _ "g\<lparr>lg_limit := l, lg_offset := off, lg_data := (lg_data g)\<lparr>bdc_data := d'\<rparr>\<rparr>"]) simp
qed

lemma limit_combine_all_truncates:
  assumes "list_all2 (thread_result l off M) ts locals" and "truncates M (bdc_data (lg_data g)) F"
    and "batches (bdc_data (lg_data g)) \<inter> batches (concat ts) = {}"
    and "\<forall>b \<in> batches (concat ts). F b = []" and "disjoint_batches ts"
  shows "\<exists>g'. limit_combine_all g locals = Inr g' \<and>
           lg_limit g' = (if ts = [] then lg_limit g else l) \<and> lg_offset g' = (if ts = [] then lg_offset g else off) \<and>
           truncates M (bdc_data (lg_data g')) (\<lambda>b. F b @ batch_rows (concat ts) b) \<and>
           batches (bdc_data (lg_data g')) \<subseteq> batches (bdc_data (lg_data g)) \<union> batches (concat ts)"
  using assms
proof (induction ts locals arbitrary: g F rule: list_all2_induct)
  case Nil
  then show ?case by (simp add: batch_rows_def)
next
  case (Cons t ts st locals)
  from Cons.prems have apart: "batches (bdc_data (lg_data g)) \<inter> batches t = {}" "\<And>b. b \<in> batches t \<Longrightarrow> F b = []"
    by auto
  from limit_combine_step [OF Cons.hyps(1) Cons.prems(1) apart]
  obtain g1 where g1: "limit_combine g st = Inr g1" "lg_limit g1 = l" "lg_offset g1 = off"
    "truncates M (bdc_data (lg_data g1)) (\<lambda>b. F b @ batch_rows t b)"
    "batches (bdc_data (lg_data g1)) \<subseteq> batches (bdc_data (lg_data g)) \<union> batches t" by blast
  have disj: "batches t \<inter> batches (concat ts) = {}" "disjoint_batches ts" using Cons.prems(4) by simp_all
  have "batches (bdc_data (lg_data g)) \<inter> batches (concat ts) = {}" using Cons.prems(2) by auto
  with disj g1(5) have "batches (bdc_data (lg_data g1)) \<inter> batches (concat ts) = {}" by blast
  moreover have "\<forall>b \<in> batches (concat ts). F b @ batch_rows t b = []"
  proof
    fix b assume b: "b \<in> batches (concat ts)"
    then have "b \<notin> batches t" using disj(1) by blast
    with b Cons.prems(3) show "F b @ batch_rows t b = []" by (auto simp: batch_rows_outside)
  qed
  ultimately obtain g' where g': "limit_combine_all g1 locals = Inr g'" "lg_limit g' = l" "lg_offset g' = off"
    "truncates M (bdc_data (lg_data g')) (\<lambda>b. (F b @ batch_rows t b) @ batch_rows (concat ts) b)"
    "batches (bdc_data (lg_data g')) \<subseteq> batches (bdc_data (lg_data g1)) \<union> batches (concat ts)"
    using Cons.IH [OF g1(4) _ _ disj(2)] g1(2,3) by (metis (no_types, lifting))
  have "batches (bdc_data (lg_data g')) \<subseteq> batches (bdc_data (lg_data g)) \<union> batches (concat (t # ts))"
    using g'(5) g1(5) unfolding concat.simps set_append image_Un by blast
  with g1(1) g' show ?case by (simp add: batch_rows_append)
qed

section \<open>Correctness of the operator\<close>

lemma length_batch_rows_sum:
  assumes "finite K" and "batches ps \<subseteq> K"
  shows "(\<Sum>b \<in> K. length (batch_rows ps b)) = chunk_total ps"
  using assms(2)
proof (induction ps)
  case Nil
  then show ?case by (simp add: batch_rows_def)
next
  case (Cons p ps)
  have "(\<Sum>b \<in> K. length (batch_rows (p # ps) b))
      = (\<Sum>b \<in> K. if fst p = b then chunk_count (snd p) else 0) + (\<Sum>b \<in> K. length (batch_rows ps b))"
    unfolding sum.distrib [symmetric] by (rule sum.cong) (auto simp: batch_rows_Cons)
  also have "\<dots> = chunk_count (snd p) + chunk_total ps"
    using Cons assms(1) by (simp add: sum.delta')
  finally show ?case by simp
qed

lemma length_chunk_row: "r \<in> set (chunk_rows c) \<Longrightarrow> length r = column_count c"
  by (auto simp: chunk_rows_def chunk_row_def column_count_def)

lemma truncated_entries:
  assumes "truncates M d (batch_rows ps)" and "batches d \<subseteq> batches ps"
    and "\<forall>p \<in> set ps. column_count (snd p) = ncols"
  shows "entries_ok ncols d" and "length (concat (map snd d)) \<le> chunk_total ps"
proof -
  have srt: "sorted_batches d" using assms(1) by (simp add: truncates_def)
  have "bdc_rows d (fst e) = snd e" if "e \<in> set d" for e
    using that map_of_is_SomeI [OF sorted_batches_distinct [OF srt], of "fst e" "snd e"] by (simp add: bdc_rows_def)
  then have "set (snd e) \<subseteq> set (batch_rows ps (fst e))" if "e \<in> set d" for e
    using that assms(1) set_mono_prefix unfolding truncates_def by metis
  then show "entries_ok ncols d"
    using assms(3) by (fastforce simp: entries_ok_def batch_rows_def dest: length_chunk_row)
  let ?ks = "sorted_list_of_set (batches ps)"
  have "length (concat (map snd d)) = (\<Sum>b \<leftarrow> ?ks. length (bdc_rows d b))"
    using concat_sorted_batches [OF srt, of ?ks] assms(2) by (simp add: length_concat comp_def)
  also have "\<dots> \<le> (\<Sum>b \<leftarrow> ?ks. length (batch_rows ps b))"
    using assms(1) by (intro sum_list_mono prefix_length_le) (simp add: truncates_def)
  also have "\<dots> = (\<Sum>b \<in> batches ps. length (batch_rows ps b))"
    by (simp add: sum_list_distinct_conv_sum_set)
  finally show "length (concat (map snd d)) \<le> chunk_total ps"
    using length_batch_rows_sum [of "batches ps" ps] by simp
qed

lemma traverse_list_all2:
  "(\<And>x. x \<in> set xs \<Longrightarrow> \<exists>y. f x = Inr y \<and> R x y) \<Longrightarrow> \<exists>ys. traverse f xs = Inr ys \<and> list_all2 R xs ys"
proof (induction xs)
  case (Cons x xs)
  then obtain y ys where "f x = Inr y" "R x y" "traverse f xs = Inr ys" "list_all2 R xs ys"
    by (metis list.set_intros(1,2))
  then show ?case by simp
qed simp

lemma source_init_offset [simp]: "ls_current_offset limit_source_init = 0"
  by (simp add: limit_source_init_def)

lemma limit_drain_empty:
  "bdc_data (lg_data g) = [] \<Longrightarrow> limit_drain ncols g limit_source_init = Some []"
  by (subst limit_drain.simps, subst limit_get_data.simps)
    (simp add: limit_source_init_def bdc_initialize_scan_def bdc_scan_def)

lemma limit_combine_all_empty:
  "\<forall>st \<in> set locals. bdc_data (ll_data st) = [] \<Longrightarrow> bdc_data (lg_data g) = [] \<Longrightarrow>
   \<exists>g'. limit_combine_all g locals = Inr g' \<and> bdc_data (lg_data g') = []"
  by (induction locals arbitrary: g)
    (auto simp: limit_combine_def bdc_merge_def Let_def split: option.splits)

lemma limit_sink_runs:
  assumes init: "ll_limit st0 = Some l" "ll_offset st0 = Some off" "ll_current_offset st0 = 0" "ll_data st0 = bdc_empty"
    and lim: "0 < l" "l + off < idx_mod"
    and threads: "\<forall>t \<in> set threads. sorted (map fst t)" "chunk_total (concat threads) < idx_mod"
  shows "\<exists>locals. traverse (limit_sink_run ev lv ov st0) threads = Inr locals \<and>
                  list_all2 (thread_result l off (l + off)) threads locals"
proof (rule traverse_list_all2)
  fix t assume t: "t \<in> set threads"
  then have "chunk_total t \<le> chunk_total (concat threads)" by (auto simp: in_set_conv_decomp)
  then have "chunk_total t < idx_mod" using threads(2) by linarith
  moreover have "sink_inv l off st0 []"
    using init by (simp add: sink_inv_def bdc_empty_def rows_total_def sorted_batches_def bdc_rows_def batch_rows_def)
  ultimately show "\<exists>st. limit_sink_run ev lv ov st0 t = Inr st \<and> thread_result l off (l + off) t st"
    using limit_sink_run_truncates [of l off st0 "[]" t ev lv ov] lim threads(1) t init
    by (auto simp: thread_result_def)
qed

lemma limit_drain_combined:
  assumes "truncates (l + off) (bdc_data (lg_data g)) (batch_rows ps)" and "batches (bdc_data (lg_data g)) \<subseteq> batches ps"
    and "\<forall>p \<in> set ps. column_count (snd p) = ncols" and "chunk_total ps < idx_mod"
    and "lg_limit g = l" and "lg_offset g = off" and "0 < l" and "l \<noteq> invalid_index" and "l + off < idx_mod"
  shows "limit_drain ncols g limit_source_init = Some (take l (drop off (rows_in_batch_order ps)))"
proof -
  let ?d = "bdc_data (lg_data g)"
  note entries = truncated_entries [OF assms(1-3)]
  have todo: "source_todo g limit_source_init = (?d, 0)"
    by (simp add: source_todo_def limit_source_init_def bdc_initialize_scan_def)
  have rest: "scan_rest (?d, 0) = concat (map snd ?d)" by (cases ?d) (simp_all add: scan_rest_def)
  have "limit_drain ncols g limit_source_init = Some (source_window g limit_source_init)"
    using assms entries todo rest by (intro limit_drain_window) (auto simp: add.commute)
  also have "source_window g limit_source_init = take l (drop off (concat (map snd ?d)))"
    using assms(5,6) by (simp add: source_window_def todo rest window_rows_start)
  also have "\<dots> = drop off (take (l + off) (concat (map snd ?d)))" by (simp add: take_drop)
  also have "take (l + off) (concat (map snd ?d)) = take (l + off) (rows_in_batch_order ps)"
    unfolding rows_in_batch_order_def using assms(2) by (intro truncates_take [OF assms(1)]) simp_all
  finally show ?thesis by (simp add: take_drop)
qed

text \<open>
  C5. The parallel LIMIT operator with constant (or absent) LIMIT and OFFSET: however the
  batches are distributed over threads (each thread sees its own batches in increasing
  order and no batch is shared), the operator returns, without an exception, exactly
  \<open>take limit (drop offset rows)\<close> of the rows in batch order, although every thread stops
  as soon as it has enough rows of its own.
\<close>

theorem limit_run_correct:
  fixes threads :: "(idx_t \<times> 'v data_chunk) list list"
  assumes "initial_limit lv = Some l" and "initial_offset ov = Some off" and "l < 2 ^ 63" and "off < 2 ^ 63"
    and "\<forall>t \<in> set threads. sorted (map fst t)" and "disjoint_batches threads"
    and "\<forall>p \<in> set (concat threads). column_count (snd p) = ncols"
    and "sum_list (map (\<lambda>p. chunk_count (snd p)) (concat threads)) < idx_mod"
  shows "limit_run ev lv ov ncols threads
         = Inr (Some (take l (drop off (rows_in_batch_order (concat threads)))))"
proof -
  define st0 :: "'v limit_local_state" where "st0 = limit_local_init lv ov"
  have st0: "st0 = limit_local_init lv ov"
    "ll_limit st0 = Some l" "ll_offset st0 = Some off" "ll_current_offset st0 = 0" "ll_data st0 = bdc_empty"
    unfolding st0_def using assms(1,2) by (simp_all add: limit_local_init_def set_initial_limits_def)
  have lim: "l + off < idx_mod" "l \<noteq> invalid_index" using assms(3,4) by (simp_all add: invalid_index_def)
  show ?thesis
  proof (cases "l = 0 \<or> threads = []")
    case True
    have "\<exists>locals. traverse (limit_sink_run ev lv ov st0) threads = Inr locals \<and> list_all2 (\<lambda>_ st. st = st0) threads locals"
      using True st0 lim by (intro traverse_list_all2) (auto simp: limit_sink_run_zero)
    then obtain locals where run: "traverse (limit_sink_run ev lv ov st0) threads = Inr locals"
      and same: "list_all2 (\<lambda>_ st. st = st0) threads locals" by blast
    from same have "\<forall>st \<in> set locals. bdc_data (ll_data st) = []"
      by (induction rule: list_all2_induct) (simp_all add: st0(5) bdc_empty_def)
    then obtain g where "limit_combine_all limit_global_init locals = Inr g" "bdc_data (lg_data g) = []"
      using limit_combine_all_empty [of locals limit_global_init]
      by (auto simp: limit_global_init_def bdc_empty_def)
    with run True show ?thesis
      by (auto simp: limit_run_def st0(1) limit_drain_empty rows_in_batch_order_def)
  next
    case False
    then obtain locals where run: "traverse (limit_sink_run ev lv ov st0) threads = Inr locals"
      and res: "list_all2 (thread_result l off (l + off)) threads locals"
      using limit_sink_runs [OF st0(2-5), of threads ev lv ov] lim assms(5,8) by auto
    have "truncates (l + off) (bdc_data (lg_data limit_global_init)) (\<lambda>_. [])"
      by (simp add: limit_global_init_def bdc_empty_def truncates_def sorted_batches_def bdc_rows_def)
    from limit_combine_all_truncates [OF res this _ _ assms(6)] False
    obtain g where g: "limit_combine_all limit_global_init locals = Inr g" "lg_limit g = l" "lg_offset g = off"
      "truncates (l + off) (bdc_data (lg_data g)) (batch_rows (concat threads))"
      "batches (bdc_data (lg_data g)) \<subseteq> batches (concat threads)"
      by (auto simp: limit_global_init_def bdc_empty_def)
    have "limit_drain ncols g limit_source_init = Some (take l (drop off (rows_in_batch_order (concat threads))))"
      using False lim by (intro limit_drain_combined [OF g(4,5) assms(7,8) g(2,3)]) simp_all
    with run g(1) show ?thesis by (simp add: limit_run_def st0(1))
  qed
qed

theorem limit_run_correct_witness:
  "limit_run (\<lambda>_ _. None) (CONSTANT_VALUE 2) (CONSTANT_VALUE 1 :: nat bound_limit_node) 1
     [[(1, chunk_of_rows 1 [[30], [40]])], [(0, chunk_of_rows 1 [[10 :: nat]]), (2, chunk_of_rows 1 [[50]])]]
   = Inr (Some [[30], [40]])"
  (is "limit_run ?ev ?l ?o 1 ?ts = _")
proof -
  have "limit_run ?ev ?l ?o 1 ?ts = Inr (Some (take 2 (drop 1 (rows_in_batch_order (concat ?ts)))))"
    by (rule limit_run_correct) simp_all
  also have "rows_in_batch_order (concat ?ts) = [[10], [30], [40], [50]]"
    by (simp add: rows_in_batch_order_def batch_rows_def rows_chunk_of_rows)
  finally show ?thesis by simp
qed

end
