(* ===== verification/ExpressionTypes.thy ===== *)
theory ExpressionTypes
  imports DuckPrelude
begin

text \<open>
  The expression types and classes of the engine and their string forms
  (\<^verbatim>\<open>src/common/enums/expression_type.cpp\<close>, \<^verbatim>\<open>expression_type.hpp\<close>), with the negation
  and flipping of comparisons. The two enumerations are \<^verbatim>\<open>uint8_t\<close> with explicit values;
  they are modelled by these values, and a switch by the table of its cases in source
  order. The three-valued meaning of a comparison is given here, NULL being \<open>None\<close>; the
  optimizer theories use it.
\<close>

section \<open>The enumerations\<close>

type_synonym expression_type = nat
type_synonym expression_class = nat

abbreviation (input) ET_INVALID :: expression_type where "ET_INVALID \<equiv> 0"
abbreviation (input) ET_OPERATOR_CAST :: expression_type where "ET_OPERATOR_CAST \<equiv> 12"
abbreviation (input) ET_OPERATOR_NOT :: expression_type where "ET_OPERATOR_NOT \<equiv> 13"
abbreviation (input) ET_OPERATOR_IS_NULL :: expression_type where "ET_OPERATOR_IS_NULL \<equiv> 14"
abbreviation (input) ET_OPERATOR_IS_NOT_NULL :: expression_type where "ET_OPERATOR_IS_NOT_NULL \<equiv> 15"
abbreviation (input) ET_OPERATOR_UNPACK :: expression_type where "ET_OPERATOR_UNPACK \<equiv> 16"
abbreviation (input) ET_COMPARE_EQUAL :: expression_type where "ET_COMPARE_EQUAL \<equiv> 25"
abbreviation (input) ET_COMPARE_NOTEQUAL :: expression_type where "ET_COMPARE_NOTEQUAL \<equiv> 26"
abbreviation (input) ET_COMPARE_LESSTHAN :: expression_type where "ET_COMPARE_LESSTHAN \<equiv> 27"
abbreviation (input) ET_COMPARE_GREATERTHAN :: expression_type where "ET_COMPARE_GREATERTHAN \<equiv> 28"
abbreviation (input) ET_COMPARE_LESSTHANOREQUALTO :: expression_type where "ET_COMPARE_LESSTHANOREQUALTO \<equiv> 29"
abbreviation (input) ET_COMPARE_GREATERTHANOREQUALTO :: expression_type where "ET_COMPARE_GREATERTHANOREQUALTO \<equiv> 30"
abbreviation (input) ET_COMPARE_IN :: expression_type where "ET_COMPARE_IN \<equiv> 35"
abbreviation (input) ET_COMPARE_NOT_IN :: expression_type where "ET_COMPARE_NOT_IN \<equiv> 36"
abbreviation (input) ET_COMPARE_DISTINCT_FROM :: expression_type where "ET_COMPARE_DISTINCT_FROM \<equiv> 37"
abbreviation (input) ET_COMPARE_BETWEEN :: expression_type where "ET_COMPARE_BETWEEN \<equiv> 38"
abbreviation (input) ET_COMPARE_NOT_BETWEEN :: expression_type where "ET_COMPARE_NOT_BETWEEN \<equiv> 39"
abbreviation (input) ET_COMPARE_NOT_DISTINCT_FROM :: expression_type where "ET_COMPARE_NOT_DISTINCT_FROM \<equiv> 40"
abbreviation (input) ET_CONJUNCTION_AND :: expression_type where "ET_CONJUNCTION_AND \<equiv> 50"
abbreviation (input) ET_CONJUNCTION_OR :: expression_type where "ET_CONJUNCTION_OR \<equiv> 51"
abbreviation (input) ET_VALUE_CONSTANT :: expression_type where "ET_VALUE_CONSTANT \<equiv> 75"
abbreviation (input) ET_VALUE_PARAMETER :: expression_type where "ET_VALUE_PARAMETER \<equiv> 76"
abbreviation (input) ET_VALUE_TUPLE :: expression_type where "ET_VALUE_TUPLE \<equiv> 77"
abbreviation (input) ET_VALUE_TUPLE_ADDRESS :: expression_type where "ET_VALUE_TUPLE_ADDRESS \<equiv> 78"
abbreviation (input) ET_VALUE_NULL :: expression_type where "ET_VALUE_NULL \<equiv> 79"
abbreviation (input) ET_VALUE_VECTOR :: expression_type where "ET_VALUE_VECTOR \<equiv> 80"
abbreviation (input) ET_VALUE_SCALAR :: expression_type where "ET_VALUE_SCALAR \<equiv> 81"
abbreviation (input) ET_VALUE_DEFAULT :: expression_type where "ET_VALUE_DEFAULT \<equiv> 82"
abbreviation (input) ET_AGGREGATE :: expression_type where "ET_AGGREGATE \<equiv> 100"
abbreviation (input) ET_BOUND_AGGREGATE :: expression_type where "ET_BOUND_AGGREGATE \<equiv> 101"
abbreviation (input) ET_GROUPING_FUNCTION :: expression_type where "ET_GROUPING_FUNCTION \<equiv> 102"
abbreviation (input) ET_WINDOW_AGGREGATE :: expression_type where "ET_WINDOW_AGGREGATE \<equiv> 110"
abbreviation (input) ET_WINDOW_RANK :: expression_type where "ET_WINDOW_RANK \<equiv> 120"
abbreviation (input) ET_WINDOW_RANK_DENSE :: expression_type where "ET_WINDOW_RANK_DENSE \<equiv> 121"
abbreviation (input) ET_WINDOW_NTILE :: expression_type where "ET_WINDOW_NTILE \<equiv> 122"
abbreviation (input) ET_WINDOW_PERCENT_RANK :: expression_type where "ET_WINDOW_PERCENT_RANK \<equiv> 123"
abbreviation (input) ET_WINDOW_CUME_DIST :: expression_type where "ET_WINDOW_CUME_DIST \<equiv> 124"
abbreviation (input) ET_WINDOW_ROW_NUMBER :: expression_type where "ET_WINDOW_ROW_NUMBER \<equiv> 125"
abbreviation (input) ET_WINDOW_FIRST_VALUE :: expression_type where "ET_WINDOW_FIRST_VALUE \<equiv> 130"
abbreviation (input) ET_WINDOW_LAST_VALUE :: expression_type where "ET_WINDOW_LAST_VALUE \<equiv> 131"
abbreviation (input) ET_WINDOW_LEAD :: expression_type where "ET_WINDOW_LEAD \<equiv> 132"
abbreviation (input) ET_WINDOW_LAG :: expression_type where "ET_WINDOW_LAG \<equiv> 133"
abbreviation (input) ET_WINDOW_NTH_VALUE :: expression_type where "ET_WINDOW_NTH_VALUE \<equiv> 134"
abbreviation (input) ET_WINDOW_FILL :: expression_type where "ET_WINDOW_FILL \<equiv> 135"
abbreviation (input) ET_FUNCTION :: expression_type where "ET_FUNCTION \<equiv> 140"
abbreviation (input) ET_BOUND_FUNCTION :: expression_type where "ET_BOUND_FUNCTION \<equiv> 141"
abbreviation (input) ET_CASE_EXPR :: expression_type where "ET_CASE_EXPR \<equiv> 150"
abbreviation (input) ET_OPERATOR_NULLIF :: expression_type where "ET_OPERATOR_NULLIF \<equiv> 151"
abbreviation (input) ET_OPERATOR_COALESCE :: expression_type where "ET_OPERATOR_COALESCE \<equiv> 152"
abbreviation (input) ET_ARRAY_EXTRACT :: expression_type where "ET_ARRAY_EXTRACT \<equiv> 153"
abbreviation (input) ET_ARRAY_SLICE :: expression_type where "ET_ARRAY_SLICE \<equiv> 154"
abbreviation (input) ET_STRUCT_EXTRACT :: expression_type where "ET_STRUCT_EXTRACT \<equiv> 155"
abbreviation (input) ET_ARRAY_CONSTRUCTOR :: expression_type where "ET_ARRAY_CONSTRUCTOR \<equiv> 156"
abbreviation (input) ET_ARROW :: expression_type where "ET_ARROW \<equiv> 157"
abbreviation (input) ET_OPERATOR_TRY :: expression_type where "ET_OPERATOR_TRY \<equiv> 158"
abbreviation (input) ET_SUBQUERY :: expression_type where "ET_SUBQUERY \<equiv> 175"
abbreviation (input) ET_STAR :: expression_type where "ET_STAR \<equiv> 200"
abbreviation (input) ET_TABLE_STAR :: expression_type where "ET_TABLE_STAR \<equiv> 201"
abbreviation (input) ET_PLACEHOLDER :: expression_type where "ET_PLACEHOLDER \<equiv> 202"
abbreviation (input) ET_COLUMN_REF :: expression_type where "ET_COLUMN_REF \<equiv> 203"
abbreviation (input) ET_FUNCTION_REF :: expression_type where "ET_FUNCTION_REF \<equiv> 204"
abbreviation (input) ET_TABLE_REF :: expression_type where "ET_TABLE_REF \<equiv> 205"
abbreviation (input) ET_LAMBDA_REF :: expression_type where "ET_LAMBDA_REF \<equiv> 206"
abbreviation (input) ET_CAST :: expression_type where "ET_CAST \<equiv> 225"
abbreviation (input) ET_BOUND_REF :: expression_type where "ET_BOUND_REF \<equiv> 227"
abbreviation (input) ET_BOUND_COLUMN_REF :: expression_type where "ET_BOUND_COLUMN_REF \<equiv> 228"
abbreviation (input) ET_BOUND_UNNEST :: expression_type where "ET_BOUND_UNNEST \<equiv> 229"
abbreviation (input) ET_COLLATE :: expression_type where "ET_COLLATE \<equiv> 230"
abbreviation (input) ET_LAMBDA :: expression_type where "ET_LAMBDA \<equiv> 231"
abbreviation (input) ET_POSITIONAL_REFERENCE :: expression_type where "ET_POSITIONAL_REFERENCE \<equiv> 232"
abbreviation (input) ET_BOUND_LAMBDA_REF :: expression_type where "ET_BOUND_LAMBDA_REF \<equiv> 233"
abbreviation (input) ET_BOUND_EXPANDED :: expression_type where "ET_BOUND_EXPANDED \<equiv> 234"
abbreviation (input) ET_PREDICT :: expression_type where "ET_PREDICT \<equiv> 235"

abbreviation (input) EC_INVALID :: expression_class where "EC_INVALID \<equiv> 0"
abbreviation (input) EC_AGGREGATE :: expression_class where "EC_AGGREGATE \<equiv> 1"
abbreviation (input) EC_CASE :: expression_class where "EC_CASE \<equiv> 2"
abbreviation (input) EC_CAST :: expression_class where "EC_CAST \<equiv> 3"
abbreviation (input) EC_COLUMN_REF :: expression_class where "EC_COLUMN_REF \<equiv> 4"
abbreviation (input) EC_COMPARISON :: expression_class where "EC_COMPARISON \<equiv> 5"
abbreviation (input) EC_CONJUNCTION :: expression_class where "EC_CONJUNCTION \<equiv> 6"
abbreviation (input) EC_CONSTANT :: expression_class where "EC_CONSTANT \<equiv> 7"
abbreviation (input) EC_DEFAULT :: expression_class where "EC_DEFAULT \<equiv> 8"
abbreviation (input) EC_FUNCTION :: expression_class where "EC_FUNCTION \<equiv> 9"
abbreviation (input) EC_OPERATOR :: expression_class where "EC_OPERATOR \<equiv> 10"
abbreviation (input) EC_STAR :: expression_class where "EC_STAR \<equiv> 11"
abbreviation (input) EC_SUBQUERY :: expression_class where "EC_SUBQUERY \<equiv> 13"
abbreviation (input) EC_WINDOW :: expression_class where "EC_WINDOW \<equiv> 14"
abbreviation (input) EC_PARAMETER :: expression_class where "EC_PARAMETER \<equiv> 15"
abbreviation (input) EC_COLLATE :: expression_class where "EC_COLLATE \<equiv> 16"
abbreviation (input) EC_LAMBDA :: expression_class where "EC_LAMBDA \<equiv> 17"
abbreviation (input) EC_POSITIONAL_REFERENCE :: expression_class where "EC_POSITIONAL_REFERENCE \<equiv> 18"
abbreviation (input) EC_BETWEEN :: expression_class where "EC_BETWEEN \<equiv> 19"
abbreviation (input) EC_LAMBDA_REF :: expression_class where "EC_LAMBDA_REF \<equiv> 20"
abbreviation (input) EC_BOUND_AGGREGATE :: expression_class where "EC_BOUND_AGGREGATE \<equiv> 25"
abbreviation (input) EC_BOUND_CASE :: expression_class where "EC_BOUND_CASE \<equiv> 26"
abbreviation (input) EC_BOUND_CAST :: expression_class where "EC_BOUND_CAST \<equiv> 27"
abbreviation (input) EC_BOUND_COLUMN_REF :: expression_class where "EC_BOUND_COLUMN_REF \<equiv> 28"
abbreviation (input) EC_BOUND_COMPARISON :: expression_class where "EC_BOUND_COMPARISON \<equiv> 29"
abbreviation (input) EC_BOUND_CONJUNCTION :: expression_class where "EC_BOUND_CONJUNCTION \<equiv> 30"
abbreviation (input) EC_BOUND_CONSTANT :: expression_class where "EC_BOUND_CONSTANT \<equiv> 31"
abbreviation (input) EC_BOUND_DEFAULT :: expression_class where "EC_BOUND_DEFAULT \<equiv> 32"
abbreviation (input) EC_BOUND_FUNCTION :: expression_class where "EC_BOUND_FUNCTION \<equiv> 33"
abbreviation (input) EC_BOUND_OPERATOR :: expression_class where "EC_BOUND_OPERATOR \<equiv> 34"
abbreviation (input) EC_BOUND_PARAMETER :: expression_class where "EC_BOUND_PARAMETER \<equiv> 35"
abbreviation (input) EC_BOUND_REF :: expression_class where "EC_BOUND_REF \<equiv> 36"
abbreviation (input) EC_BOUND_SUBQUERY :: expression_class where "EC_BOUND_SUBQUERY \<equiv> 37"
abbreviation (input) EC_BOUND_WINDOW :: expression_class where "EC_BOUND_WINDOW \<equiv> 38"
abbreviation (input) EC_BOUND_BETWEEN :: expression_class where "EC_BOUND_BETWEEN \<equiv> 39"
abbreviation (input) EC_BOUND_UNNEST :: expression_class where "EC_BOUND_UNNEST \<equiv> 40"
abbreviation (input) EC_BOUND_LAMBDA :: expression_class where "EC_BOUND_LAMBDA \<equiv> 41"
abbreviation (input) EC_BOUND_LAMBDA_REF :: expression_class where "EC_BOUND_LAMBDA_REF \<equiv> 42"
abbreviation (input) EC_BOUND_EXPRESSION :: expression_class where "EC_BOUND_EXPRESSION \<equiv> 50"
abbreviation (input) EC_BOUND_EXPANDED :: expression_class where "EC_BOUND_EXPANDED \<equiv> 51"
abbreviation (input) EC_PREDICT :: expression_class where "EC_PREDICT \<equiv> 52"

section \<open>String forms\<close>

definition expression_type_names :: "(expression_type \<times> string) list" where
  "expression_type_names =
    [(ET_OPERATOR_CAST, ''CAST''),
     (ET_OPERATOR_NOT, ''NOT''),
     (ET_OPERATOR_IS_NULL, ''IS_NULL''),
     (ET_OPERATOR_IS_NOT_NULL, ''IS_NOT_NULL''),
     (ET_OPERATOR_UNPACK, ''UNPACK''),
     (ET_COMPARE_EQUAL, ''EQUAL''),
     (ET_COMPARE_NOTEQUAL, ''NOTEQUAL''),
     (ET_COMPARE_LESSTHAN, ''LESSTHAN''),
     (ET_COMPARE_GREATERTHAN, ''GREATERTHAN''),
     (ET_COMPARE_LESSTHANOREQUALTO, ''LESSTHANOREQUALTO''),
     (ET_COMPARE_GREATERTHANOREQUALTO, ''GREATERTHANOREQUALTO''),
     (ET_COMPARE_IN, ''IN''),
     (ET_COMPARE_DISTINCT_FROM, ''DISTINCT_FROM''),
     (ET_COMPARE_NOT_DISTINCT_FROM, ''NOT_DISTINCT_FROM''),
     (ET_CONJUNCTION_AND, ''AND''),
     (ET_CONJUNCTION_OR, ''OR''),
     (ET_VALUE_CONSTANT, ''CONSTANT''),
     (ET_VALUE_PARAMETER, ''PARAMETER''),
     (ET_VALUE_TUPLE, ''TUPLE''),
     (ET_VALUE_TUPLE_ADDRESS, ''TUPLE_ADDRESS''),
     (ET_VALUE_NULL, ''NULL''),
     (ET_VALUE_VECTOR, ''VECTOR''),
     (ET_VALUE_SCALAR, ''SCALAR''),
     (ET_AGGREGATE, ''AGGREGATE''),
     (ET_WINDOW_AGGREGATE, ''WINDOW_AGGREGATE''),
     (ET_WINDOW_RANK, ''RANK''),
     (ET_WINDOW_RANK_DENSE, ''RANK_DENSE''),
     (ET_WINDOW_PERCENT_RANK, ''PERCENT_RANK''),
     (ET_WINDOW_ROW_NUMBER, ''ROW_NUMBER''),
     (ET_WINDOW_FIRST_VALUE, ''FIRST_VALUE''),
     (ET_WINDOW_LAST_VALUE, ''LAST_VALUE''),
     (ET_WINDOW_NTH_VALUE, ''NTH_VALUE''),
     (ET_WINDOW_CUME_DIST, ''CUME_DIST''),
     (ET_WINDOW_LEAD, ''LEAD''),
     (ET_WINDOW_LAG, ''LAG''),
     (ET_WINDOW_NTILE, ''NTILE''),
     (ET_WINDOW_FILL, ''FILL''),
     (ET_FUNCTION, ''FUNCTION''),
     (ET_CASE_EXPR, ''CASE''),
     (ET_OPERATOR_NULLIF, ''NULLIF''),
     (ET_OPERATOR_COALESCE, ''COALESCE''),
     (ET_OPERATOR_TRY, ''TRY''),
     (ET_ARRAY_EXTRACT, ''ARRAY_EXTRACT''),
     (ET_ARRAY_SLICE, ''ARRAY_SLICE''),
     (ET_STRUCT_EXTRACT, ''STRUCT_EXTRACT''),
     (ET_SUBQUERY, ''SUBQUERY''),
     (ET_STAR, ''STAR''),
     (ET_PLACEHOLDER, ''PLACEHOLDER''),
     (ET_COLUMN_REF, ''COLUMN_REF''),
     (ET_LAMBDA_REF, ''LAMBDA_REF''),
     (ET_FUNCTION_REF, ''FUNCTION_REF''),
     (ET_TABLE_REF, ''TABLE_REF''),
     (ET_CAST, ''CAST''),
     (ET_COMPARE_NOT_IN, ''COMPARE_NOT_IN''),
     (ET_COMPARE_BETWEEN, ''COMPARE_BETWEEN''),
     (ET_COMPARE_NOT_BETWEEN, ''COMPARE_NOT_BETWEEN''),
     (ET_VALUE_DEFAULT, ''VALUE_DEFAULT''),
     (ET_BOUND_REF, ''BOUND_REF''),
     (ET_BOUND_COLUMN_REF, ''BOUND_COLUMN_REF''),
     (ET_BOUND_FUNCTION, ''BOUND_FUNCTION''),
     (ET_BOUND_AGGREGATE, ''BOUND_AGGREGATE''),
     (ET_GROUPING_FUNCTION, ''GROUPING''),
     (ET_ARRAY_CONSTRUCTOR, ''ARRAY_CONSTRUCTOR''),
     (ET_TABLE_STAR, ''TABLE_STAR''),
     (ET_BOUND_UNNEST, ''BOUND_UNNEST''),
     (ET_COLLATE, ''COLLATE''),
     (ET_POSITIONAL_REFERENCE, ''POSITIONAL_REFERENCE''),
     (ET_BOUND_LAMBDA_REF, ''BOUND_LAMBDA_REF''),
     (ET_LAMBDA, ''LAMBDA''),
     (ET_ARROW, ''ARROW''),
     (ET_BOUND_EXPANDED, ''BOUND_EXPANDED''),
     (ET_PREDICT, ''PREDICT'')]"

definition expression_type_to_string :: "expression_type \<Rightarrow> string" where
  "expression_type_to_string type =
     (case map_of expression_type_names type of Some s \<Rightarrow> s | None \<Rightarrow> ''INVALID'')"

definition expression_class_names :: "(expression_class \<times> string) list" where
  "expression_class_names =
    [(EC_INVALID, ''INVALID''),
     (EC_AGGREGATE, ''AGGREGATE''),
     (EC_CASE, ''CASE''),
     (EC_CAST, ''CAST''),
     (EC_COLUMN_REF, ''COLUMN_REF''),
     (EC_LAMBDA_REF, ''LAMBDA_REF''),
     (EC_COMPARISON, ''COMPARISON''),
     (EC_CONJUNCTION, ''CONJUNCTION''),
     (EC_CONSTANT, ''CONSTANT''),
     (EC_DEFAULT, ''DEFAULT''),
     (EC_FUNCTION, ''FUNCTION''),
     (EC_OPERATOR, ''OPERATOR''),
     (EC_STAR, ''STAR''),
     (EC_SUBQUERY, ''SUBQUERY''),
     (EC_WINDOW, ''WINDOW''),
     (EC_PARAMETER, ''PARAMETER''),
     (EC_COLLATE, ''COLLATE''),
     (EC_LAMBDA, ''LAMBDA''),
     (EC_POSITIONAL_REFERENCE, ''POSITIONAL_REFERENCE''),
     (EC_BETWEEN, ''BETWEEN''),
     (EC_BOUND_AGGREGATE, ''BOUND_AGGREGATE''),
     (EC_BOUND_CASE, ''BOUND_CASE''),
     (EC_BOUND_CAST, ''BOUND_CAST''),
     (EC_BOUND_COLUMN_REF, ''BOUND_COLUMN_REF''),
     (EC_BOUND_COMPARISON, ''BOUND_COMPARISON''),
     (EC_BOUND_CONJUNCTION, ''BOUND_CONJUNCTION''),
     (EC_BOUND_CONSTANT, ''BOUND_CONSTANT''),
     (EC_BOUND_DEFAULT, ''BOUND_DEFAULT''),
     (EC_BOUND_FUNCTION, ''BOUND_FUNCTION''),
     (EC_BOUND_OPERATOR, ''BOUND_OPERATOR''),
     (EC_BOUND_PARAMETER, ''BOUND_PARAMETER''),
     (EC_BOUND_REF, ''BOUND_REF''),
     (EC_BOUND_SUBQUERY, ''BOUND_SUBQUERY''),
     (EC_BOUND_WINDOW, ''BOUND_WINDOW''),
     (EC_BOUND_BETWEEN, ''BOUND_BETWEEN''),
     (EC_BOUND_UNNEST, ''BOUND_UNNEST''),
     (EC_BOUND_LAMBDA, ''BOUND_LAMBDA''),
     (EC_BOUND_EXPRESSION, ''BOUND_EXPRESSION''),
     (EC_BOUND_EXPANDED, ''BOUND_EXPANDED''),
     (EC_PREDICT, ''PREDICT'')]"

definition expression_class_to_string :: "expression_class \<Rightarrow> string" where
  "expression_class_to_string type =
     (case map_of expression_class_names type of
        Some s \<Rightarrow> s | None \<Rightarrow> ''ExpressionClass::!!UNIMPLEMENTED_CASE!!'')"

definition expression_operators :: "(expression_type \<times> string) list" where
  "expression_operators =
    [(ET_COMPARE_EQUAL, ''=''),
     (ET_COMPARE_NOTEQUAL, ''!=''),
     (ET_COMPARE_LESSTHAN, ''<''),
     (ET_COMPARE_GREATERTHAN, ''>''),
     (ET_COMPARE_LESSTHANOREQUALTO, ''<=''),
     (ET_COMPARE_GREATERTHANOREQUALTO, ''>=''),
     (ET_COMPARE_DISTINCT_FROM, ''IS DISTINCT FROM''),
     (ET_COMPARE_NOT_DISTINCT_FROM, ''IS NOT DISTINCT FROM''),
     (ET_CONJUNCTION_AND, ''AND''),
     (ET_CONJUNCTION_OR, ''OR'')]"

definition expression_type_to_operator :: "expression_type \<Rightarrow> string" where
  "expression_type_to_operator type = (case map_of expression_operators type of Some s \<Rightarrow> s | None \<Rightarrow> [])"

section \<open>Comparisons\<close>

definition negate_comparison_expression :: "expression_type \<Rightarrow> expression_type result" where
  "negate_comparison_expression type =
     (if type = ET_COMPARE_EQUAL then Inr ET_COMPARE_NOTEQUAL
      else if type = ET_COMPARE_NOTEQUAL then Inr ET_COMPARE_EQUAL
      else if type = ET_COMPARE_LESSTHAN then Inr ET_COMPARE_GREATERTHANOREQUALTO
      else if type = ET_COMPARE_GREATERTHAN then Inr ET_COMPARE_LESSTHANOREQUALTO
      else if type = ET_COMPARE_LESSTHANOREQUALTO then Inr ET_COMPARE_GREATERTHAN
      else if type = ET_COMPARE_GREATERTHANOREQUALTO then Inr ET_COMPARE_LESSTHAN
      else Inl (InternalException ''Unsupported comparison type in negation''))"

definition flip_comparison_expression :: "expression_type \<Rightarrow> expression_type result" where
  "flip_comparison_expression type =
     (if type = ET_COMPARE_NOT_DISTINCT_FROM \<or> type = ET_COMPARE_DISTINCT_FROM
        \<or> type = ET_COMPARE_NOTEQUAL \<or> type = ET_COMPARE_EQUAL then Inr type
      else if type = ET_COMPARE_LESSTHAN then Inr ET_COMPARE_GREATERTHAN
      else if type = ET_COMPARE_GREATERTHAN then Inr ET_COMPARE_LESSTHAN
      else if type = ET_COMPARE_LESSTHANOREQUALTO then Inr ET_COMPARE_GREATERTHANOREQUALTO
      else if type = ET_COMPARE_GREATERTHANOREQUALTO then Inr ET_COMPARE_LESSTHANOREQUALTO
      else Inl (InternalException ''Unsupported comparison type in flip''))"

definition operator_to_expression_type :: "string \<Rightarrow> expression_type" where
  "operator_to_expression_type op =
     (if op = ''='' \<or> op = ''=='' then ET_COMPARE_EQUAL
      else if op = ''!='' \<or> op = ''<>'' then ET_COMPARE_NOTEQUAL
      else if op = ''<'' then ET_COMPARE_LESSTHAN
      else if op = ''>'' then ET_COMPARE_GREATERTHAN
      else if op = ''<='' then ET_COMPARE_LESSTHANOREQUALTO
      else if op = ''>='' then ET_COMPARE_GREATERTHANOREQUALTO
      else ET_INVALID)"

section \<open>The meaning of a comparison\<close>

text \<open>
  SQL semantics over a linearly ordered type: a comparison with NULL is NULL, except
  (NOT) DISTINCT FROM, which treats NULL as a value.
\<close>

definition compare_values :: "expression_type \<Rightarrow> 'v :: linorder option \<Rightarrow> 'v option \<Rightarrow> bool option" where
  "compare_values type l r =
     (if type = ET_COMPARE_DISTINCT_FROM then Some (l \<noteq> r)
      else if type = ET_COMPARE_NOT_DISTINCT_FROM then Some (l = r)
      else case (l, r) of
             (Some a, Some b) \<Rightarrow>
               (if type = ET_COMPARE_EQUAL then Some (a = b)
                else if type = ET_COMPARE_NOTEQUAL then Some (a \<noteq> b)
                else if type = ET_COMPARE_LESSTHAN then Some (a < b)
                else if type = ET_COMPARE_GREATERTHAN then Some (a > b)
                else if type = ET_COMPARE_LESSTHANOREQUALTO then Some (a \<le> b)
                else if type = ET_COMPARE_GREATERTHANOREQUALTO then Some (a \<ge> b)
                else None)
           | _ \<Rightarrow> None)"

lemma negate_cases:
  "negate_comparison_expression type = Inr type' \<Longrightarrow>
   (type, type') \<in> {(ET_COMPARE_EQUAL, ET_COMPARE_NOTEQUAL), (ET_COMPARE_NOTEQUAL, ET_COMPARE_EQUAL),
     (ET_COMPARE_LESSTHAN, ET_COMPARE_GREATERTHANOREQUALTO), (ET_COMPARE_GREATERTHAN, ET_COMPARE_LESSTHANOREQUALTO),
     (ET_COMPARE_LESSTHANOREQUALTO, ET_COMPARE_GREATERTHAN), (ET_COMPARE_GREATERTHANOREQUALTO, ET_COMPARE_LESSTHAN)}"
  by (simp add: negate_comparison_expression_def split: if_splits)

text \<open>
  Negating a comparison type negates its three-valued meaning (NULL stays NULL) and is
  undone by negating again; flipping it is the comparison with the sides exchanged.
\<close>

theorem negate_flip_meaning:
  "(negate_comparison_expression type = Inr type' \<longrightarrow>
      compare_values type' l r = map_option Not (compare_values type l (r :: 'v :: linorder option)) \<and>
      negate_comparison_expression type' = Inr type) \<and>
   (flip_comparison_expression type = Inr type'' \<longrightarrow> compare_values type'' r l = compare_values type l r)"
proof (intro conjI impI)
  assume "negate_comparison_expression type = Inr type'"
  note cases = negate_cases [OF this]
  from cases show "compare_values type' l r = map_option Not (compare_values type l r)"
    by (auto simp: compare_values_def split: option.splits)
  from cases show "negate_comparison_expression type' = Inr type"
    by (auto simp: negate_comparison_expression_def)
next
  assume "flip_comparison_expression type = Inr type''"
  then show "compare_values type'' r l = compare_values type l r"
    by (auto simp: flip_comparison_expression_def compare_values_def split: if_splits option.splits)
qed

theorem negate_flip_meaning_witness:
  "compare_values ET_COMPARE_GREATERTHANOREQUALTO (Some (3 :: nat)) (Some 5) = Some False \<and>
   compare_values ET_COMPARE_GREATERTHAN (Some (5 :: nat)) (Some 3) = Some True"
proof -
  have "compare_values ET_COMPARE_GREATERTHANOREQUALTO (Some (3 :: nat)) (Some 5)
        = map_option Not (compare_values ET_COMPARE_LESSTHAN (Some 3) (Some (5 :: nat)))"
    using negate_flip_meaning [of ET_COMPARE_LESSTHAN ET_COMPARE_GREATERTHANOREQUALTO "Some (3 :: nat)" "Some 5" ET_INVALID]
    by (simp add: negate_comparison_expression_def)
  moreover have "compare_values ET_COMPARE_GREATERTHAN (Some (5 :: nat)) (Some 3)
        = compare_values ET_COMPARE_LESSTHAN (Some 3) (Some (5 :: nat))"
    using negate_flip_meaning [of ET_COMPARE_LESSTHAN ET_INVALID "Some (3 :: nat)" "Some 5" ET_COMPARE_GREATERTHAN]
    by (simp add: flip_comparison_expression_def)
  ultimately show ?thesis by (simp add: compare_values_def)
qed

section \<open>Names are unambiguous\<close>

lemma operator_names_distinct: "distinct (map snd expression_operators)"
  by code_simp

text \<open>The one name that two expression types share is that of the two casts.\<close>

lemma type_names_distinct:
  "distinct (map snd (filter (\<lambda>(t, s). t \<noteq> ET_CAST) expression_type_names)) \<and>
   distinct (map fst expression_type_names) \<and> ''INVALID'' \<notin> snd ` set expression_type_names"
  by code_simp

lemma distinct_snd_unique:
  "distinct (map snd xs) \<Longrightarrow> (a, s) \<in> set xs \<Longrightarrow> (b, s) \<in> set xs \<Longrightarrow> a = b"
  by (metis distinct_map inj_onD prod.inject snd_conv)

lemma type_name_entry:
  "a \<in> fst ` set expression_type_names \<Longrightarrow> (a, expression_type_to_string a) \<in> set expression_type_names"
  using type_names_distinct by (auto simp: expression_type_to_string_def)

lemma cast_entries:
  "(ET_OPERATOR_CAST, ''CAST'') \<in> set expression_type_names" "expression_type_to_string ET_CAST = ''CAST''"
  by code_simp+

lemma type_names_collision:
  assumes "expression_type_to_string a = expression_type_to_string b"
    and "a \<in> fst ` set expression_type_names" and "b \<in> fst ` set expression_type_names" and "b \<noteq> ET_CAST"
  shows "a = b \<or> (a = ET_CAST \<and> b = ET_OPERATOR_CAST)"
proof -
  let ?names = "filter (\<lambda>(t, s). t \<noteq> ET_CAST) expression_type_names"
  have dist: "distinct (map snd ?names)" using type_names_distinct by blast
  have b: "(b, expression_type_to_string b) \<in> set ?names" using type_name_entry assms(3,4) by simp
  show ?thesis
  proof (cases "a = ET_CAST")
    case True
    then have "(ET_OPERATOR_CAST, expression_type_to_string b) \<in> set ?names"
      using assms(1) cast_entries by simp
    with True b distinct_snd_unique [OF dist] show ?thesis by blast
  next
    case False
    then have "(a, expression_type_to_string b) \<in> set ?names" using type_name_entry assms(1,2) by fastforce
    with b distinct_snd_unique [OF dist] show ?thesis by blast
  qed
qed

lemma comparison_operator_roundtrip:
  "\<forall>type \<in> set [ET_COMPARE_EQUAL, ET_COMPARE_NOTEQUAL, ET_COMPARE_LESSTHAN, ET_COMPARE_GREATERTHAN,
                 ET_COMPARE_LESSTHANOREQUALTO, ET_COMPARE_GREATERTHANOREQUALTO].
     operator_to_expression_type (expression_type_to_operator type) = type"
  by code_simp

text \<open>
  The name of an expression type determines it, the only two types with one name
  being OPERATOR_CAST and CAST; and printing a comparison operator and reading it back
  gives the comparison.
\<close>

theorem expression_type_names_unambiguous:
  "(expression_type_to_string a = expression_type_to_string b \<and>
    a \<in> fst ` set expression_type_names \<and> b \<in> fst ` set expression_type_names \<longrightarrow>
      a = b \<or> {a, b} = {ET_CAST, ET_OPERATOR_CAST}) \<and>
   (type \<in> {ET_COMPARE_EQUAL, ET_COMPARE_NOTEQUAL, ET_COMPARE_LESSTHAN, ET_COMPARE_GREATERTHAN,
             ET_COMPARE_LESSTHANOREQUALTO, ET_COMPARE_GREATERTHANOREQUALTO} \<longrightarrow>
      operator_to_expression_type (expression_type_to_operator type) = type)"
proof (intro conjI impI)
  assume "expression_type_to_string a = expression_type_to_string b \<and>
    a \<in> fst ` set expression_type_names \<and> b \<in> fst ` set expression_type_names"
  then show "a = b \<or> {a, b} = {ET_CAST, ET_OPERATOR_CAST}"
    using type_names_collision [of a b] type_names_collision [of b a]
    by (cases "b = ET_CAST"; cases "a = ET_CAST") auto
next
  assume "type \<in> {ET_COMPARE_EQUAL, ET_COMPARE_NOTEQUAL, ET_COMPARE_LESSTHAN, ET_COMPARE_GREATERTHAN,
             ET_COMPARE_LESSTHANOREQUALTO, ET_COMPARE_GREATERTHANOREQUALTO}"
  then show "operator_to_expression_type (expression_type_to_operator type) = type"
    using comparison_operator_roundtrip by auto
qed

theorem expression_type_names_unambiguous_witness:
  "operator_to_expression_type (expression_type_to_operator ET_COMPARE_LESSTHANOREQUALTO) = ET_COMPARE_LESSTHANOREQUALTO \<and>
   expression_type_to_string ET_PREDICT \<noteq> expression_type_to_string ET_COLUMN_REF"
proof -
  have "ET_PREDICT \<in> fst ` set expression_type_names" "ET_COLUMN_REF \<in> fst ` set expression_type_names"
    by code_simp+
  with expression_type_names_unambiguous [of ET_PREDICT ET_COLUMN_REF ET_COMPARE_LESSTHANOREQUALTO]
  show ?thesis by (auto simp: doubleton_eq_iff)
qed

end
