(* ===== verification/LogicalPlan.thy ===== *)
theory LogicalPlan
  imports ExpressionTypes StreamingLimit
begin

text \<open>
  Logical plans: bound expressions, operators with their children, and what a plan
  computes.

  An operator is its node (type and members), its estimated cardinality and its children,
  as in \<^verbatim>\<open>LogicalOperator\<close>. A row is a partial function from column bindings to values, so
  that a plan's meaning does not depend on column positions; NULL is \<open>None\<close>. The functions
  a plan calls (scalar functions, predictors, base tables, the operators that the rewrites
  do not look into) are the members of the record \<open>plan_interp\<close>. A filter that carries
  a limit may stop early, so the meaning of a plan is a relation: \<open>results I op rows\<close> says
  that \<open>rows\<close> is a possible result.
\<close>

section \<open>Expressions\<close>

type_synonym column_binding = "idx_t \<times> idx_t"

datatype model_type = TABULAR | LM | GNN | LLM | EMBED

record bound_predict_info =
  bp_model_type :: model_type
  bp_model_name :: string
  bp_model_path :: string
  bp_prompt :: string
  bp_base_api :: string
  bp_secret :: string
  bp_types :: "string list"
  bp_input_mask :: "idx_t list"
  bp_opt_mask :: "idx_t list"
  bp_input_set_names :: "string list"
  bp_result_set_names :: "string list"
  bp_input_set_types :: "string list"
  bp_result_set_types :: "string list"
  bp_options :: "(string \<times> string) list"
  bp_embedding_column_map :: "(string \<times> string) list"

text \<open>A default-constructed \<^verbatim>\<open>BoundPredictInfo\<close>; the model type has no default.\<close>

definition new_predict_info :: "model_type \<Rightarrow> bound_predict_info" where
  "new_predict_info mt =
     \<lparr>bp_model_type = mt, bp_model_name = [], bp_model_path = [], bp_prompt = [], bp_base_api = [], bp_secret = [],
      bp_types = [], bp_input_mask = [], bp_opt_mask = [], bp_input_set_names = [], bp_result_set_names = [],
      bp_input_set_types = [], bp_result_set_types = [], bp_options = [], bp_embedding_column_map = []\<rparr>"

datatype 'v expression =
    BoundColumnRef column_binding
  | BoundConstant "'v option"
  | BoundComparison expression_type "'v expression" "'v expression"
  | BoundConjunction expression_type "'v expression list"
  | BoundPredict bound_predict_info "'v expression list"
  | BoundFunction string "'v expression list"

text \<open>\<^verbatim>\<open>ExpressionIterator::EnumerateChildren\<close>, the class and the type of an expression.\<close>

fun expr_children :: "'v expression \<Rightarrow> 'v expression list" where
  "expr_children (BoundComparison t l r) = [l, r]"
| "expr_children (BoundConjunction t es) = es"
| "expr_children (BoundPredict info es) = es"
| "expr_children (BoundFunction f es) = es"
| "expr_children _ = []"

fun expr_class :: "'v expression \<Rightarrow> expression_class" where
  "expr_class (BoundColumnRef b) = EC_BOUND_COLUMN_REF"
| "expr_class (BoundConstant v) = EC_BOUND_CONSTANT"
| "expr_class (BoundComparison t l r) = EC_BOUND_COMPARISON"
| "expr_class (BoundConjunction t es) = EC_BOUND_CONJUNCTION"
| "expr_class (BoundPredict info es) = EC_PREDICT"
| "expr_class (BoundFunction f es) = EC_BOUND_FUNCTION"

fun expr_type :: "'v expression \<Rightarrow> expression_type" where
  "expr_type (BoundColumnRef b) = ET_BOUND_COLUMN_REF"
| "expr_type (BoundConstant v) = ET_VALUE_CONSTANT"
| "expr_type (BoundComparison t l r) = t"
| "expr_type (BoundConjunction t es) = t"
| "expr_type (BoundPredict info es) = ET_PREDICT"
| "expr_type (BoundFunction f es) = ET_BOUND_FUNCTION"

section \<open>Operators\<close>

datatype join_type =
    JOIN_INVALID | JOIN_LEFT | JOIN_RIGHT | JOIN_INNER | JOIN_OUTER | JOIN_SEMI | JOIN_ANTI | JOIN_MARK | JOIN_SINGLE
  | JOIN_RIGHT_SEMI | JOIN_RIGHT_ANTI

text \<open>The fields of a \<^verbatim>\<open>LogicalJoin\<close> beside its conditions.\<close>

record join_layout =
  jl_type :: join_type
  jl_mark_index :: idx_t
  jl_left_projection_map :: "idx_t list"
  jl_right_projection_map :: "idx_t list"

text \<open>
  A \<^verbatim>\<open>LOGICAL_GET\<close> has its table index, its name, the column names of the table, the column ids and
  the projection ids; a table function with an input plan is an \<open>LOGICAL_OTHER\<close> node. A
  \<^verbatim>\<open>LOGICAL_DELIM_JOIN\<close> has its duplicate-eliminated columns. \<open>LOGICAL_OTHER\<close> stands for the other
  operator types, by the name of the type: its expressions are those that
  \<^verbatim>\<open>LogicalOperatorVisitor::EnumerateExpressions\<close> visits, its bindings a list of its own or, for
  \<open>None\<close>, those of its first child.
\<close>

datatype 'v op_node =
    LOGICAL_LIMIT "'v expression bound_limit_node" "'v expression bound_limit_node"
  | LOGICAL_PROJECTION idx_t "'v expression list"
  | LOGICAL_PREDICT idx_t bound_predict_info
  | LOGICAL_FILTER "'v expression list" int "idx_t list"
  | LOGICAL_GET idx_t string "string list" "idx_t list" "idx_t list"
  | LOGICAL_CROSS_PRODUCT
  | LOGICAL_COMPARISON_JOIN join_layout "('v expression \<times> expression_type \<times> 'v expression) list"
  | LOGICAL_EMPTY_RESULT "column_binding list"
  | LOGICAL_DELIM_JOIN join_layout "'v expression list" "('v expression \<times> expression_type \<times> 'v expression) list"
  | LOGICAL_ASOF_JOIN join_layout "('v expression \<times> expression_type \<times> 'v expression) list"
  | LOGICAL_ANY_JOIN join_layout "'v expression"
  | LOGICAL_OTHER string "column_binding list option" "'v expression list"

datatype 'v lop = LOp (op_node: "'v op_node") (op_estimate: idx_t) (op_children: "'v lop list")

text \<open>\<^verbatim>\<open>LogicalOperator::MapBindings\<close> and the \<^verbatim>\<open>GetColumnBindings\<close> of the operators.\<close>

definition generate_column_bindings :: "idx_t \<Rightarrow> nat \<Rightarrow> column_binding list" where
  "generate_column_bindings table_idx cnt = map (Pair table_idx) [0..<cnt]"

definition map_bindings :: "column_binding list \<Rightarrow> idx_t list \<Rightarrow> column_binding list" where
  "map_bindings bindings projection_map =
     (if projection_map = [] then bindings else map ((!) bindings) projection_map)"

definition get_bindings :: "idx_t \<Rightarrow> idx_t list \<Rightarrow> idx_t list \<Rightarrow> column_binding list" where
  "get_bindings table_index column_ids projection_ids =
     (if column_ids = [] then [(table_index, 0)]
      else if projection_ids = [] then generate_column_bindings table_index (length column_ids)
      else map (Pair table_index) projection_ids)"

definition logical_join_bindings :: "join_layout \<Rightarrow> column_binding list \<Rightarrow> column_binding list \<Rightarrow> column_binding list" where
  "logical_join_bindings jl left right =
     (let left_bindings = map_bindings left (jl_left_projection_map jl);
          right_bindings = map_bindings right (jl_right_projection_map jl) in
      if jl_type jl = JOIN_SEMI \<or> jl_type jl = JOIN_ANTI then left_bindings
      else if jl_type jl = JOIN_MARK then left_bindings @ [(jl_mark_index jl, 0)]
      else if jl_type jl = JOIN_RIGHT_SEMI \<or> jl_type jl = JOIN_RIGHT_ANTI then right_bindings
      else left_bindings @ right_bindings)"

fun get_column_bindings :: "'v lop \<Rightarrow> column_binding list" where
  "get_column_bindings (LOp node est children) =
     (case node of
        LOGICAL_PROJECTION ti es \<Rightarrow> generate_column_bindings ti (length es)
      | LOGICAL_PREDICT pi info \<Rightarrow> generate_column_bindings pi (length (bp_types info))
      | LOGICAL_GET ti nm names cids pids \<Rightarrow> get_bindings ti cids pids
      | LOGICAL_FILTER es lim pm \<Rightarrow> (case children of [] \<Rightarrow> [] | c # _ \<Rightarrow> map_bindings (get_column_bindings c) pm)
      | LOGICAL_LIMIT l off \<Rightarrow> (case children of [] \<Rightarrow> [] | c # _ \<Rightarrow> get_column_bindings c)
      | LOGICAL_CROSS_PRODUCT \<Rightarrow> concat (map get_column_bindings children)
      | LOGICAL_COMPARISON_JOIN jl conds \<Rightarrow>
          (case map get_column_bindings children of [left, right] \<Rightarrow> logical_join_bindings jl left right | _ \<Rightarrow> [])
      | LOGICAL_DELIM_JOIN jl dups conds \<Rightarrow>
          (case map get_column_bindings children of [left, right] \<Rightarrow> logical_join_bindings jl left right | _ \<Rightarrow> [])
      | LOGICAL_ASOF_JOIN jl conds \<Rightarrow>
          (case map get_column_bindings children of [left, right] \<Rightarrow> logical_join_bindings jl left right | _ \<Rightarrow> [])
      | LOGICAL_ANY_JOIN jl cond \<Rightarrow>
          (case map get_column_bindings children of [left, right] \<Rightarrow> logical_join_bindings jl left right | _ \<Rightarrow> [])
      | LOGICAL_EMPTY_RESULT bs \<Rightarrow> bs
      | LOGICAL_OTHER tag bs es \<Rightarrow>
          (case bs of Some b \<Rightarrow> b | None \<Rightarrow> (case children of [] \<Rightarrow> [] | c # _ \<Rightarrow> get_column_bindings c)))"

section \<open>What a plan computes\<close>

type_synonym 'v tuple = "column_binding \<Rightarrow> 'v option"

record 'v plan_interp =
  pi_truth :: "'v option \<Rightarrow> bool option"
  pi_of_bool :: "bool option \<Rightarrow> 'v option"
  pi_function :: "string \<Rightarrow> 'v option list \<Rightarrow> 'v option"
  pi_predict :: "bound_predict_info \<Rightarrow> 'v option list \<Rightarrow> 'v option"
  pi_predict_table :: "bound_predict_info \<Rightarrow> 'v option list \<Rightarrow> 'v option list"
  pi_predict_scan :: "idx_t \<Rightarrow> bound_predict_info \<Rightarrow> 'v tuple list"
  pi_table :: "idx_t \<Rightarrow> 'v tuple list"
  pi_percentage :: "64 word \<Rightarrow> nat \<Rightarrow> nat"
  pi_delimiter :: "'v expression \<Rightarrow> 'v tuple list \<Rightarrow> nat option"
  pi_join :: "join_layout \<Rightarrow> ('v expression \<times> expression_type \<times> 'v expression) list \<Rightarrow>
              'v tuple list \<Rightarrow> 'v tuple list \<Rightarrow> 'v tuple list"
  pi_delim_join :: "join_layout \<Rightarrow> 'v expression list \<Rightarrow> ('v expression \<times> expression_type \<times> 'v expression) list \<Rightarrow>
              'v tuple list \<Rightarrow> 'v tuple list \<Rightarrow> 'v tuple list"
  pi_asof_join :: "join_layout \<Rightarrow> ('v expression \<times> expression_type \<times> 'v expression) list \<Rightarrow>
              'v tuple list \<Rightarrow> 'v tuple list \<Rightarrow> 'v tuple list"
  pi_any_join :: "join_layout \<Rightarrow> 'v expression \<Rightarrow> 'v tuple list \<Rightarrow> 'v tuple list \<Rightarrow> 'v tuple list"
  pi_other :: "string \<Rightarrow> 'v expression list \<Rightarrow> 'v tuple list list \<Rightarrow> 'v tuple list"

text \<open>An interpretation in which every function returns NULL and every table is empty.\<close>

definition null_interp :: "'v plan_interp" where
  "null_interp = \<lparr>pi_truth = \<lambda>_. None, pi_of_bool = \<lambda>_. None, pi_function = \<lambda>_ _. None,
     pi_predict = \<lambda>_ _. None, pi_predict_table = \<lambda>_ _. [], pi_predict_scan = \<lambda>_ _. [], pi_table = \<lambda>_. [],
     pi_percentage = \<lambda>_ _. 0, pi_delimiter = \<lambda>_ _. None, pi_join = \<lambda>_ _ _ _. [],
     pi_delim_join = \<lambda>_ _ _ _ _. [], pi_asof_join = \<lambda>_ _ _ _. [], pi_any_join = \<lambda>_ _ _ _. [], pi_other = \<lambda>_ _ _. []\<rparr>"

definition and3 :: "bool option list \<Rightarrow> bool option" where
  "and3 bs = (if Some False \<in> set bs then Some False else if None \<in> set bs then None else Some True)"

definition or3 :: "bool option list \<Rightarrow> bool option" where
  "or3 bs = (if Some True \<in> set bs then Some True else if None \<in> set bs then None else Some False)"

fun eval_expr :: "'v :: linorder plan_interp \<Rightarrow> 'v tuple \<Rightarrow> 'v expression \<Rightarrow> 'v option" where
  "eval_expr I row (BoundColumnRef b) = row b"
| "eval_expr I row (BoundConstant v) = v"
| "eval_expr I row (BoundComparison t l r) = pi_of_bool I (compare_values t (eval_expr I row l) (eval_expr I row r))"
| "eval_expr I row (BoundConjunction t es) =
     pi_of_bool I ((if t = ET_CONJUNCTION_AND then and3 else or3) (map (\<lambda>e. pi_truth I (eval_expr I row e)) es))"
| "eval_expr I row (BoundPredict info es) = pi_predict I info (map (eval_expr I row) es)"
| "eval_expr I row (BoundFunction f es) = pi_function I f (map (eval_expr I row) es)"

definition passes :: "'v :: linorder plan_interp \<Rightarrow> 'v expression list \<Rightarrow> 'v tuple \<Rightarrow> bool" where
  "passes I es row = list_all (\<lambda>e. pi_truth I (eval_expr I row e) = Some True) es"

definition tuple_of :: "idx_t \<Rightarrow> 'v option list \<Rightarrow> 'v tuple" where
  "tuple_of ti vs = (\<lambda>(t, i). if t = ti \<and> i < length vs then vs ! i else None)"

definition project_tuple :: "'v :: linorder plan_interp \<Rightarrow> idx_t \<Rightarrow> 'v expression list \<Rightarrow> 'v tuple \<Rightarrow> 'v tuple" where
  "project_tuple I ti es row = tuple_of ti (map (eval_expr I row) es)"

definition predict_tuple ::
  "'v plan_interp \<Rightarrow> idx_t \<Rightarrow> bound_predict_info \<Rightarrow> column_binding list \<Rightarrow> 'v tuple \<Rightarrow> 'v tuple" where
  "predict_tuple I pi info bs row =
     (let vs = map row bs in tuple_of pi (vs @ pi_predict_table I info vs))"

fun delimiter_count :: "'v plan_interp \<Rightarrow> nat \<Rightarrow> 'v expression bound_limit_node \<Rightarrow> 'v tuple list \<Rightarrow> nat" where
  "delimiter_count I dflt UNSET rs = dflt"
| "delimiter_count I dflt (CONSTANT_VALUE n) rs = n"
| "delimiter_count I dflt (CONSTANT_PERCENTAGE p) rs = pi_percentage I p (length rs)"
| "delimiter_count I dflt (EXPRESSION_VALUE e) rs = (case pi_delimiter I e rs of None \<Rightarrow> dflt | Some n \<Rightarrow> n)"
| "delimiter_count I dflt (EXPRESSION_PERCENTAGE e) rs = (case pi_delimiter I e rs of None \<Rightarrow> dflt | Some n \<Rightarrow> n)"

definition limit_rows ::
  "'v plan_interp \<Rightarrow> 'v expression bound_limit_node \<Rightarrow> 'v expression bound_limit_node \<Rightarrow> 'v tuple list \<Rightarrow> 'v tuple list" where
  "limit_rows I limit_val offset_val rs =
     take (delimiter_count I (length rs) limit_val rs) (drop (delimiter_count I 0 offset_val rs) rs)"

text \<open>A filter that carries the limit \<open>n\<close> returns a prefix of the qualifying rows that has at least
  \<open>n\<close> rows or is all of them; -1 is no limit.\<close>

definition limited_prefix :: "int \<Rightarrow> 'a list \<Rightarrow> 'a list \<Rightarrow> bool" where
  "limited_prefix limit full out \<longleftrightarrow>
     (\<exists>rest. full = out @ rest \<and> (rest = [] \<or> (limit \<noteq> -1 \<and> nat limit \<le> length out)))"

definition cross_rows :: "'v tuple list \<Rightarrow> 'v tuple list \<Rightarrow> 'v tuple list" where
  "cross_rows ls rs = concat (map (\<lambda>l. map (\<lambda>r. l ++ r) rs) ls)"

definition join_rows ::
  "'v :: linorder plan_interp \<Rightarrow> join_layout \<Rightarrow> ('v expression \<times> expression_type \<times> 'v expression) list \<Rightarrow>
   'v tuple list \<Rightarrow> 'v tuple list \<Rightarrow> 'v tuple list" where
  "join_rows I jl conds ls rs =
     (if jl_type jl = JOIN_INNER
      then filter (passes I (map (\<lambda>(l, t, r). BoundComparison t l r) conds)) (cross_rows ls rs)
      else pi_join I jl conds ls rs)"

definition any_join_rows ::
  "'v :: linorder plan_interp \<Rightarrow> join_layout \<Rightarrow> 'v expression \<Rightarrow> 'v tuple list \<Rightarrow> 'v tuple list \<Rightarrow> 'v tuple list" where
  "any_join_rows I jl cond ls rs =
     (if jl_type jl = JOIN_INNER then filter (passes I [cond]) (cross_rows ls rs) else pi_any_join I jl cond ls rs)"

inductive results :: "'v :: linorder plan_interp \<Rightarrow> 'v lop \<Rightarrow> 'v tuple list \<Rightarrow> bool" for I where
  limit: "results I c rs \<Longrightarrow> results I (LOp (LOGICAL_LIMIT l off) e [c]) (limit_rows I l off rs)"
| projection: "results I c rs \<Longrightarrow> results I (LOp (LOGICAL_PROJECTION ti es) e [c]) (map (project_tuple I ti es) rs)"
| predict: "results I c rs \<Longrightarrow>
    results I (LOp (LOGICAL_PREDICT pi info) e [c]) (map (predict_tuple I pi info (get_column_bindings c)) rs)"
| predict_scan: "results I (LOp (LOGICAL_PREDICT pi info) e []) (pi_predict_scan I pi info)"
| filter: "results I c rs \<Longrightarrow> limited_prefix lim (filter (passes I es) rs) out \<Longrightarrow>
    results I (LOp (LOGICAL_FILTER es lim pm) e [c]) out"
| get: "results I (LOp (LOGICAL_GET ti nm names cids pids) e []) (pi_table I ti)"
| cross: "results I l ls \<Longrightarrow> results I r rs \<Longrightarrow> results I (LOp LOGICAL_CROSS_PRODUCT e [l, r]) (cross_rows ls rs)"
| join: "results I l ls \<Longrightarrow> results I r rs \<Longrightarrow>
    results I (LOp (LOGICAL_COMPARISON_JOIN jl conds) e [l, r]) (join_rows I jl conds ls rs)"
| empty: "results I (LOp (LOGICAL_EMPTY_RESULT bs) e cs) []"
| delim_join: "results I l ls \<Longrightarrow> results I r rs \<Longrightarrow>
    results I (LOp (LOGICAL_DELIM_JOIN jl dups conds) e [l, r]) (pi_delim_join I jl dups conds ls rs)"
| asof_join: "results I l ls \<Longrightarrow> results I r rs \<Longrightarrow>
    results I (LOp (LOGICAL_ASOF_JOIN jl conds) e [l, r]) (pi_asof_join I jl conds ls rs)"
| any_join: "results I l ls \<Longrightarrow> results I r rs \<Longrightarrow>
    results I (LOp (LOGICAL_ANY_JOIN jl cond) e [l, r]) (any_join_rows I jl cond ls rs)"
| other: "list_all2 (results I) cs rss \<Longrightarrow> results I (LOp (LOGICAL_OTHER tag bs es) e cs) (pi_other I tag es rss)"

inductive_cases limitE: "results I (LOp (LOGICAL_LIMIT l off) e cs) rs"
inductive_cases projectionE: "results I (LOp (LOGICAL_PROJECTION ti es) e cs) rs"
inductive_cases predictE: "results I (LOp (LOGICAL_PREDICT pi info) e cs) rs"
inductive_cases filterE: "results I (LOp (LOGICAL_FILTER es lim pm) e cs) rs"
inductive_cases getE: "results I (LOp (LOGICAL_GET ti nm names cids pids) e cs) rs"
inductive_cases crossE: "results I (LOp LOGICAL_CROSS_PRODUCT e cs) rs"
inductive_cases joinE: "results I (LOp (LOGICAL_COMPARISON_JOIN jl conds) e cs) rs"
inductive_cases emptyE: "results I (LOp (LOGICAL_EMPTY_RESULT bs) e cs) rs"
inductive_cases delim_joinE: "results I (LOp (LOGICAL_DELIM_JOIN jl dups conds) e cs) rs"
inductive_cases asof_joinE: "results I (LOp (LOGICAL_ASOF_JOIN jl conds) e cs) rs"
inductive_cases any_joinE: "results I (LOp (LOGICAL_ANY_JOIN jl cond) e cs) rs"
inductive_cases otherE: "results I (LOp (LOGICAL_OTHER tag bs es) e cs) rs"

lemmas results_elims = limitE projectionE predictE filterE getE crossE joinE emptyE delim_joinE asof_joinE any_joinE otherE

section \<open>Replacing the children of an operator\<close>

text \<open>One plan refines another: its bindings are the same and its results are results of the other.\<close>

definition refines :: "'v :: linorder plan_interp \<Rightarrow> 'v lop \<Rightarrow> 'v lop \<Rightarrow> bool" where
  "refines I new old \<longleftrightarrow> get_column_bindings new = get_column_bindings old \<and> (\<forall>rs. results I new rs \<longrightarrow> results I old rs)"

lemma refines_refl [simp]: "refines I op op"
  by (simp add: refines_def)

lemma refines_trans: "refines I a b \<Longrightarrow> refines I b c \<Longrightarrow> refines I a c"
  by (simp add: refines_def)

lemma list_all2_results:
  "list_all2 (refines I) cs' cs \<Longrightarrow> list_all2 (results I) cs' rss \<Longrightarrow> list_all2 (results I) cs rss"
  by (induction cs' cs arbitrary: rss rule: list_all2_induct) (auto simp: list_all2_Cons1 refines_def)

lemma list_all2_bindings:
  "list_all2 (refines I) cs' cs \<Longrightarrow> map get_column_bindings cs' = map get_column_bindings cs"
  by (induction cs' cs rule: list_all2_induct) (auto simp: refines_def)

lemma refines_children:
  assumes "list_all2 (refines I) cs' cs"
  shows "refines I (LOp n e cs') (LOp n e cs)"
proof -
  have b: "get_column_bindings (LOp n e cs') = get_column_bindings (LOp n e cs)"
    using list_all2_bindings [OF assms] assms
    by (cases cs'; cases cs) (auto split: op_node.splits option.splits simp: refines_def)
  have "results I (LOp n e cs) rs" if r: "results I (LOp n e cs') rs" for rs
  proof (cases n)
    case (LOGICAL_PREDICT pi info)
    with r assms show ?thesis
      by (auto elim!: predictE simp: list_all2_Cons1 refines_def intro: results.predict results.predict_scan)
        (metis results.predict)
  next
    case (LOGICAL_OTHER tag bs es)
    with r show ?thesis
      by (auto elim!: otherE intro!: results.other dest: list_all2_results [OF assms])
  next
    case (LOGICAL_FILTER es lim pm)
    with r assms show ?thesis
      by (auto elim!: filterE simp: list_all2_Cons1 refines_def) (blast intro: results.filter)
  qed (use r assms in \<open>auto elim!: results_elims simp: list_all2_Cons1 refines_def
        intro!: results.limit results.projection results.get results.cross results.join results.empty
          results.delim_join results.asof_join results.any_join\<close>)
  with b show ?thesis by (simp add: refines_def)
qed

section \<open>Optimizer passes\<close>

text \<open>The number of operators of a plan.\<close>

fun op_count :: "'v lop \<Rightarrow> nat" where
  "op_count (LOp n e cs) = Suc (sum_list (map op_count cs))"

lemma op_count_child: "c \<in> set cs \<Longrightarrow> op_count c < op_count (LOp n e cs)"
  by (simp add: less_Suc_eq_le member_le_sum_list)

text \<open>A property of every operator of a plan.\<close>

fun plan_all :: "('v lop \<Rightarrow> bool) \<Rightarrow> 'v lop \<Rightarrow> bool" where
  "plan_all P (LOp n e cs) = (P (LOp n e cs) \<and> list_all (plan_all P) cs)"

lemma plan_all_op: "plan_all P op \<Longrightarrow> P op"
  by (cases op) simp

lemma plan_all_child: "plan_all P op \<Longrightarrow> c \<in> set (op_children op) \<Longrightarrow> plan_all P c"
  by (cases op) (simp add: list_all_iff)

lemma traverse_cong [fundef_cong]:
  "xs = ys \<Longrightarrow> (\<And>x. x \<in> set ys \<Longrightarrow> f x = g x) \<Longrightarrow> traverse f xs = traverse g ys"
  by (induction ys arbitrary: xs) auto

lemma result_bind_cong [fundef_cong]:
  "r = r' \<Longrightarrow> (\<And>x. r' = Inr x \<Longrightarrow> f x = g x) \<Longrightarrow> result_bind r f = result_bind r' g"
  by (cases r') auto

lemma traverse_refines:
  assumes "traverse f xs = Inr ys" and "\<And>x y. x \<in> set xs \<Longrightarrow> f x = Inr y \<Longrightarrow> R y x"
  shows "list_all2 R ys xs"
  using assms by (induction xs arbitrary: ys) (auto simp: result_bind_eq_Inr)

text \<open>
  The contract of a pass that rewrites an operator and goes on with the children of the
  outcome: when the rewriting of one operator keeps the bindings and adds no result, so
  does the pass. The predicate \<open>ok\<close> is what the rewriting needs to know of a plan.
\<close>

locale plan_pass =
  fixes I :: "'v :: linorder plan_interp"
    and rewrite :: "'v lop \<Rightarrow> 'v lop result" and optimize :: "'v lop \<Rightarrow> 'v lop result"
    and ok :: "'v lop \<Rightarrow> bool"
  assumes optimize_unfold: "optimize op = result_bind (rewrite op) (\<lambda>op'.
              result_bind (traverse optimize (op_children op')) (\<lambda>cs. Inr (LOp (op_node op') (op_estimate op') cs)))"
    and rewrite_count: "rewrite op = Inr op' \<Longrightarrow> op_count op' \<le> op_count op"
    and rewrite_sound: "ok op \<Longrightarrow> rewrite op = Inr op' \<Longrightarrow> refines I op' op"
    and rewrite_ok: "ok op \<Longrightarrow> rewrite op = Inr op' \<Longrightarrow> c \<in> set (op_children op') \<Longrightarrow> ok c"
begin

lemma optimize_sound: "ok op \<Longrightarrow> optimize op = Inr op' \<Longrightarrow> refines I op' op"
proof (induction "op_count op" arbitrary: op op' rule: less_induct)
  case less
  from less.prems(2) obtain op1 cs where r: "rewrite op = Inr op1"
    and t: "traverse optimize (op_children op1) = Inr cs"
    and op': "op' = LOp (op_node op1) (op_estimate op1) cs"
    by (auto simp: optimize_unfold [of op] result_bind_eq_Inr)
  have "list_all2 (refines I) cs (op_children op1)"
  proof (rule traverse_refines [OF t])
    fix c c' assume c: "c \<in> set (op_children op1)" and o: "optimize c = Inr c'"
    have "op_count c < op_count op1" using c by (cases op1) (simp add: op_count_child del: op_count.simps)
    then have "op_count c < op_count op" using rewrite_count [OF r] by linarith
    with less.hyps rewrite_ok [OF less.prems(1) r c] o show "refines I c' c" by blast
  qed
  then have "refines I op' op1"
    unfolding op' by (cases op1) (simp add: refines_children)
  with rewrite_sound [OF less.prems(1) r] show ?case by (blast intro: refines_trans)
qed

end

section \<open>Plans have results\<close>

text \<open>The number of children that an operator is built with.\<close>

fun shape_ok :: "'v lop \<Rightarrow> bool" where
  "shape_ok (LOp node est children) =
     (case node of
        LOGICAL_LIMIT _ _ \<Rightarrow> length children = 1
      | LOGICAL_PROJECTION _ _ \<Rightarrow> length children = 1
      | LOGICAL_PREDICT _ _ \<Rightarrow> length children \<le> 1
      | LOGICAL_FILTER _ _ _ \<Rightarrow> length children = 1
      | LOGICAL_GET _ _ _ _ _ \<Rightarrow> children = []
      | LOGICAL_CROSS_PRODUCT \<Rightarrow> length children = 2
      | LOGICAL_COMPARISON_JOIN _ _ \<Rightarrow> length children = 2
      | LOGICAL_DELIM_JOIN _ _ _ \<Rightarrow> length children = 2
      | LOGICAL_ASOF_JOIN _ _ \<Rightarrow> length children = 2
      | LOGICAL_ANY_JOIN _ _ \<Rightarrow> length children = 2
      | LOGICAL_EMPTY_RESULT _ \<Rightarrow> True
      | LOGICAL_OTHER tag _ _ \<Rightarrow>
          (if tag = ''LOGICAL_MATERIALIZED_CTE'' \<or> tag = ''LOGICAL_EXCEPT'' \<or> tag = ''LOGICAL_INTERSECT''
           then length children = 2 else True))"

lemma limited_prefix_all: "limited_prefix lim xs xs"
  by (simp add: limited_prefix_def)

lemma results_exist: "plan_all shape_ok op \<Longrightarrow> \<exists>rs. results I op rs"
proof (induction op)
  case (LOp n e cs)
  then have ex: "\<forall>c \<in> set cs. \<exists>rs. results I c rs" by (auto simp: list_all_iff)
  then obtain rss where rss: "list_all2 (results I) cs rss"
    by (metis (no_types, lifting) list_all2_conv_all_nth length_map nth_map nth_mem)
  from LOp.prems ex rss show ?case
    by (cases n) (auto simp: length_Suc_conv numeral_2_eq_2 le_Suc_eq
      intro: results.intros limited_prefix_all; blast intro: results.intros limited_prefix_all)+
qed

end
