(* ===== verification/LimitOptimizer.thy ===== *)
theory LimitOptimizer
  imports LogicalPlan
begin

text \<open>
  The two passes that move a LIMIT: below projections and predictors
  (\<^verbatim>\<open>src/optimizer/limit_pushdown.cpp\<close>) and into semantic filters
  (\<^verbatim>\<open>src/optimizer/limit_to_predict_filter_propagation.cpp\<close>), and the choice of the
  physical limit operator (\<^verbatim>\<open>src/execution/physical_plan/plan_limit.cpp\<close>).

  An access past the end of a child vector is the exception that the bounds check of
  the engine's vectors throws.
\<close>

section \<open>Limit pushdown\<close>

definition index_out_of_bounds :: duck_error where
  "index_out_of_bounds = InternalException ''Attempted to access index 0 within vector of size 0''"

fun is_expression_node :: "'e bound_limit_node \<Rightarrow> bool" where
  "is_expression_node (EXPRESSION_VALUE _) = True"
| "is_expression_node (EXPRESSION_PERCENTAGE _) = True"
| "is_expression_node _ = False"

text \<open>\<^verbatim>\<open>LimitPushdown::CanOptimize\<close>\<close>

definition limit_pushdown_can_optimize :: "'v lop \<Rightarrow> bool" where
  "limit_pushdown_can_optimize op =
     (case op of
        LOp (LOGICAL_LIMIT limit_val offset_val) _ (LOp (LOGICAL_PROJECTION _ _) _ _ # _) \<Rightarrow>
          \<not> is_expression_node offset_val \<and> (case limit_val of CONSTANT_VALUE n \<Rightarrow> n < 8192 | _ \<Rightarrow> False)
      | LOp (LOGICAL_LIMIT _ _) _ (LOp (LOGICAL_PREDICT _ _) _ _ # _) \<Rightarrow> True
      | _ \<Rightarrow> False)"

text \<open>The swap of \<^verbatim>\<open>LimitPushdown::Optimize\<close>\<close>

fun swap_limit :: "'v lop \<Rightarrow> 'v lop result" where
  "swap_limit (LOp limit est (LOp projection est' (c # cs') # cs)) =
     Inr (LOp projection est (LOp limit est (c # cs) # cs'))"
| "swap_limit (LOp limit est (LOp projection est' [] # cs)) = Inl index_out_of_bounds"
| "swap_limit (LOp limit est []) = Inl index_out_of_bounds"

definition limit_pushdown_rewrite :: "'v lop \<Rightarrow> 'v lop result" where
  "limit_pushdown_rewrite op = (if limit_pushdown_can_optimize op then swap_limit op else Inr op)"

lemma swap_limit_count: "swap_limit op = Inr op' \<Longrightarrow> op_count op' = op_count op"
  by (induction op rule: swap_limit.induct) auto

lemma limit_pushdown_count: "limit_pushdown_rewrite op = Inr op' \<Longrightarrow> op_count op' \<le> op_count op"
  by (auto simp: limit_pushdown_rewrite_def swap_limit_count split: if_splits)

text \<open>\<^verbatim>\<open>LimitPushdown::Optimize\<close>\<close>

function limit_pushdown_optimize :: "'v lop \<Rightarrow> 'v lop result" where
  "limit_pushdown_optimize op =
     result_bind (limit_pushdown_rewrite op) (\<lambda>op'.
       result_bind (traverse limit_pushdown_optimize (op_children op'))
         (\<lambda>cs. Inr (LOp (op_node op') (op_estimate op') cs)))"
  by pat_completeness auto
termination
proof (relation "measure op_count", simp)
  fix op op' c :: "'v lop"
  assume "limit_pushdown_rewrite op = Inr op'" and c: "c \<in> set (op_children op')"
  then have "op_count op' \<le> op_count op" by (simp add: limit_pushdown_count)
  moreover have "op_count c < op_count op'" using c by (cases op') (simp add: op_count_child del: op_count.simps)
  ultimately show "(c, op) \<in> measure op_count" by simp
qed

declare limit_pushdown_optimize.simps [simp del]

section \<open>Limit to semantic filter\<close>

text \<open>\<^verbatim>\<open>LimitToPredictFilterPropagation::CanOptimize\<close>\<close>

definition is_predict_condition :: "'v expression \<Rightarrow> bool" where
  "is_predict_condition e =
     (case e of
        BoundComparison _ l r \<Rightarrow> expr_type l = ET_PREDICT \<or> expr_type r = ET_PREDICT
      | BoundPredict _ _ \<Rightarrow> True
      | _ \<Rightarrow> False)"

definition limit_to_filter_can_optimize :: "'v lop \<Rightarrow> bool" where
  "limit_to_filter_can_optimize op =
     (case op of
        LOp (LOGICAL_LIMIT limit_val offset_val) _ (LOp (LOGICAL_FILTER expressions _ _) _ _ # _) \<Rightarrow>
          \<not> is_expression_node offset_val \<and> list_ex is_predict_condition expressions \<and>
          (case limit_val of CONSTANT_VALUE n \<Rightarrow> n < 2048 | _ \<Rightarrow> False)
      | _ \<Rightarrow> False)"

fun set_filter_limit :: "'v lop \<Rightarrow> 'v lop" where
  "set_filter_limit (LOp (LOGICAL_LIMIT (CONSTANT_VALUE n) off) e (LOp (LOGICAL_FILTER es lim pm) e' cs' # cs)) =
     LOp (LOGICAL_LIMIT (CONSTANT_VALUE n) off) e (LOp (LOGICAL_FILTER es (int n) pm) n cs' # cs)"
| "set_filter_limit op = op"

definition limit_to_filter_rewrite :: "'v lop \<Rightarrow> 'v lop result" where
  "limit_to_filter_rewrite op = Inr (if limit_to_filter_can_optimize op then set_filter_limit op else op)"

lemma set_filter_limit_count: "op_count (set_filter_limit op) = op_count op"
  by (induction op rule: set_filter_limit.induct) auto

text \<open>\<^verbatim>\<open>LimitToPredictFilterPropagation::Optimize\<close>\<close>

function limit_to_filter_optimize :: "'v lop \<Rightarrow> 'v lop result" where
  "limit_to_filter_optimize op =
     result_bind (limit_to_filter_rewrite op) (\<lambda>op'.
       result_bind (traverse limit_to_filter_optimize (op_children op'))
         (\<lambda>cs. Inr (LOp (op_node op') (op_estimate op') cs)))"
  by pat_completeness auto
termination
proof (relation "measure op_count", simp)
  fix op op' c :: "'v lop"
  assume "limit_to_filter_rewrite op = Inr op'" and c: "c \<in> set (op_children op')"
  then have "op_count op' = op_count op"
    by (auto simp: limit_to_filter_rewrite_def set_filter_limit_count)
  moreover have "op_count c < op_count op'" using c by (cases op') (simp add: op_count_child del: op_count.simps)
  ultimately show "(c, op) \<in> measure op_count" by simp
qed

declare limit_to_filter_optimize.simps [simp del]

section \<open>The choice of the limit operator\<close>

datatype limit_operator_choice = PHYSICAL_LIMIT_PERCENT | PHYSICAL_STREAMING_LIMIT bool | PHYSICAL_LIMIT

text \<open>\<^verbatim>\<open>UseBatchLimit\<close> below the walk over projections: \<open>over_scan\<close> says that the walk ends at a
  table scan.\<close>

definition batch_limit_threshold :: nat where
  "batch_limit_threshold = 10000"

definition use_batch_limit :: "bool \<Rightarrow> 'e bound_limit_node \<Rightarrow> 'e bound_limit_node \<Rightarrow> bool" where
  "use_batch_limit over_scan limit_val offset_val =
     (if over_scan then False
      else case limit_val of
             CONSTANT_VALUE n \<Rightarrow>
               (case offset_val of
                  EXPRESSION_VALUE _ \<Rightarrow> False
                | CONSTANT_VALUE m \<Rightarrow> idx_add n m \<le> batch_limit_threshold
                | _ \<Rightarrow> n \<le> batch_limit_threshold)
           | _ \<Rightarrow> False)"

text \<open>\<^verbatim>\<open>PhysicalPlanGenerator::CreatePlan(LogicalLimit &)\<close>\<close>

definition create_plan_limit ::
  "bool \<Rightarrow> bool \<Rightarrow> bool \<Rightarrow> 'e bound_limit_node \<Rightarrow> 'e bound_limit_node \<Rightarrow> limit_operator_choice" where
  "create_plan_limit preserve_insertion_order use_batch_index over_scan limit_val offset_val =
     (case limit_val of
        EXPRESSION_PERCENTAGE _ \<Rightarrow> PHYSICAL_LIMIT_PERCENT
      | CONSTANT_PERCENTAGE _ \<Rightarrow> PHYSICAL_LIMIT_PERCENT
      | _ \<Rightarrow>
          if \<not> preserve_insertion_order then PHYSICAL_STREAMING_LIMIT True
          else if use_batch_index \<and> use_batch_limit over_scan limit_val offset_val then PHYSICAL_LIMIT
          else PHYSICAL_STREAMING_LIMIT False)"

section \<open>Soundness of the pushdown\<close>

lemma delimiter_count_map:
  "\<not> is_expression_node node \<Longrightarrow> delimiter_count I d node (map f rs) = delimiter_count I d node rs"
  by (cases node) simp_all

lemma limit_rows_map:
  assumes "\<not> is_expression_node l" and "\<not> is_expression_node off"
  shows "limit_rows I l off (map f rs) = map f (limit_rows I l off rs)"
  using assms by (simp add: limit_rows_def delimiter_count_map take_map drop_map)

text \<open>No LIMIT or OFFSET that is an expression stands right above a predictor. The binder turns a LIMIT with a
  subquery into a reference to a column of the projection below it (\<^verbatim>\<open>Binder::BindLimitValue\<close>), so its value depends on
  the rows that the limit sees.\<close>

fun plain_over_predict :: "'v lop \<Rightarrow> bool" where
  "plain_over_predict (LOp (LOGICAL_LIMIT l off) _ (LOp (LOGICAL_PREDICT _ _) _ _ # _)) = (\<not> is_expression_node l \<and> \<not> is_expression_node off)"
| "plain_over_predict _ = True"

lemma plain_over_predict_limit: "\<not> is_expression_node l \<Longrightarrow> \<not> is_expression_node off \<Longrightarrow> plain_over_predict (LOp (LOGICAL_LIMIT l off) e cs)"
  by (cases "LOp (LOGICAL_LIMIT l off) e cs" rule: plain_over_predict.cases) simp_all

lemma pushdown_cases:
  assumes "limit_pushdown_can_optimize op" and "swap_limit op = Inr op'"
  obtains (projection) l off ti es est est' c cs cs' where
      "op = LOp (LOGICAL_LIMIT l off) est (LOp (LOGICAL_PROJECTION ti es) est' (c # cs') # cs)"
      "op' = LOp (LOGICAL_PROJECTION ti es) est (LOp (LOGICAL_LIMIT l off) est (c # cs) # cs')"
      "\<not> is_expression_node l" "\<not> is_expression_node off"
  | (predict) l off pi info est est' c cs cs' where
      "op = LOp (LOGICAL_LIMIT l off) est (LOp (LOGICAL_PREDICT pi info) est' (c # cs') # cs)"
      "op' = LOp (LOGICAL_PREDICT pi info) est (LOp (LOGICAL_LIMIT l off) est (c # cs) # cs')"
  using assms
  by (cases op rule: swap_limit.cases)
    (auto simp: limit_pushdown_can_optimize_def split: op_node.splits bound_limit_node.splits)

lemma limit_pushdown_rewrite_sound:
  assumes ok: "plan_all plain_over_predict op" and rw: "limit_pushdown_rewrite op = Inr op'"
  shows "refines I op' op" and "c0 \<in> set (op_children op') \<Longrightarrow> plan_all plain_over_predict c0"
proof -
  have "refines I op' op \<and> (\<forall>c0 \<in> set (op_children op'). plan_all plain_over_predict c0)"
  proof (cases "limit_pushdown_can_optimize op")
    case False
    then have "op' = op" using rw by (simp add: limit_pushdown_rewrite_def)
    then show ?thesis using plan_all_child [OF ok] by simp
  next
    case True
    with rw have "swap_limit op = Inr op'" by (simp add: limit_pushdown_rewrite_def)
    with True show ?thesis
    proof (cases rule: pushdown_cases)
      case (projection l off ti es est est' c cs cs')
      have "refines I op' op"
        using projection limit_rows_map [of l off I "project_tuple I ti es"]
        by (auto simp: refines_def elim!: projectionE limitE) (metis results.limit results.projection)
      then show ?thesis using projection ok by (auto simp: list_all_iff plain_over_predict_limit)
    next
      case (predict l off pi info est est' c cs cs')
      then have plain: "\<not> is_expression_node l" "\<not> is_expression_node off" using ok by simp_all
      have "refines I op' op"
        using predict plain limit_rows_map [of l off I "predict_tuple I pi info (get_column_bindings c)"]
        by (auto simp: refines_def elim!: predictE limitE) (metis results.limit results.predict)
      then show ?thesis using predict plain ok by (auto simp: list_all_iff plain_over_predict_limit)
    qed
  qed
  then show "refines I op' op" and "c0 \<in> set (op_children op') \<Longrightarrow> plan_all plain_over_predict c0" by blast+
qed

interpretation limit_pushdown: plan_pass I limit_pushdown_rewrite limit_pushdown_optimize "plan_all plain_over_predict" for I
  by unfold_locales (auto intro: limit_pushdown_count limit_pushdown_rewrite_sound limit_pushdown_optimize.simps)

lemma limit_pushdown_top:
  assumes "limit_pushdown_optimize op = Inr op'"
  shows "\<exists>op1. limit_pushdown_rewrite op = Inr op1 \<and> op_node op' = op_node op1"
  using assms by (auto simp: limit_pushdown_optimize.simps [of op] result_bind_eq_Inr)

text \<open>
  C7. Limit pushdown is sound: whenever the pass returns a plan, every result of the new plan is a result of the given
  plan, over the same column bindings, provided no LIMIT or OFFSET right above a predictor is an expression. A
  limit above a projection moves below it exactly when it is a constant below 8192 and the offset is
  not an expression.
\<close>

theorem limit_pushdown_sound:
  assumes "plan_all plain_over_predict op" and "limit_pushdown_optimize op = Inr op'"
  shows "get_column_bindings op' = get_column_bindings op \<and> (\<forall>rs. results I op' rs \<longrightarrow> results I op rs) \<and>
    (\<forall>l off est ti es est' ps cs. op = LOp (LOGICAL_LIMIT l off) est (LOp (LOGICAL_PROJECTION ti es) est' ps # cs) \<longrightarrow>
      op_node op' = (if (\<exists>n < 8192. l = CONSTANT_VALUE n) \<and> \<not> is_expression_node off then LOGICAL_PROJECTION ti es else LOGICAL_LIMIT l off))"
proof -
  have "op_node op' = (if (\<exists>n < 8192. l = CONSTANT_VALUE n) \<and> \<not> is_expression_node off then LOGICAL_PROJECTION ti es else LOGICAL_LIMIT l off)"
    if op: "op = LOp (LOGICAL_LIMIT l off) est (LOp (LOGICAL_PROJECTION ti es) est' ps # cs)" for l off est ti es est' ps cs
    using limit_pushdown_top [OF assms(2)] unfolding op
    by (cases ps) (auto simp: limit_pushdown_rewrite_def limit_pushdown_can_optimize_def split: bound_limit_node.splits if_splits)
  then show ?thesis using limit_pushdown.optimize_sound [OF assms] by (simp add: refines_def)
qed

theorem limit_pushdown_sound_witness:
  "\<exists>op'. limit_pushdown_optimize (LOp (LOGICAL_LIMIT (CONSTANT_VALUE 1) UNSET) 0
            [LOp (LOGICAL_PROJECTION 5 [BoundColumnRef (0, 0)]) 0
              [LOp (LOGICAL_GET 0 ''t'' [''a''] [0] []) 0 []]] :: nat lop) = Inr op' \<and>
          get_column_bindings op' = [(5, 0)]"
proof -
  let ?get = "LOp (LOGICAL_GET 0 ''t'' [''a''] [0] []) 0 [] :: nat lop"
  let ?op = "LOp (LOGICAL_LIMIT (CONSTANT_VALUE 1) UNSET) 0 [LOp (LOGICAL_PROJECTION 5 [BoundColumnRef (0, 0)]) 0 [?get]]"
  let ?op' = "LOp (LOGICAL_PROJECTION 5 [BoundColumnRef (0, 0)]) 0 [LOp (LOGICAL_LIMIT (CONSTANT_VALUE 1) UNSET) 0 [?get]]"
  have u: "plan_all plain_over_predict ?op" by simp
  have o: "limit_pushdown_optimize ?op = Inr ?op'"
    by (simp add: limit_pushdown_optimize.simps limit_pushdown_rewrite_def limit_pushdown_can_optimize_def)
  have "get_column_bindings ?op' = get_column_bindings ?op"
    using limit_pushdown_sound [OF u o] by (rule conjunct1)
  also have "get_column_bindings ?op = [(5, 0)]" by (simp add: generate_column_bindings_def get_bindings_def)
  finally have "limit_pushdown_optimize ?op = Inr ?op' \<and> get_column_bindings ?op' = [(5, 0)]"
    using o by (intro conjI)
  then show ?thesis by (rule exI)
qed

section \<open>When the pushdown returns\<close>

definition moved_past :: "'v op_node \<Rightarrow> bool" where
  "moved_past n = (case n of LOGICAL_PROJECTION _ _ \<Rightarrow> True | LOGICAL_PREDICT _ _ \<Rightarrow> True | _ \<Rightarrow> False)"

abbreviation has_input :: "'v lop \<Rightarrow> bool" where
  "has_input op \<equiv> moved_past (op_node op) \<longrightarrow> op_children op \<noteq> []"

lemma limit_pushdown_rewrite_returns:
  assumes "plan_all has_input op"
  shows "\<exists>op'. limit_pushdown_rewrite op = Inr op' \<and> plan_all has_input op'"
proof (cases "limit_pushdown_can_optimize op")
  case False
  with assms show ?thesis by (simp add: limit_pushdown_rewrite_def)
next
  case True
  with assms show ?thesis
    by (cases op rule: swap_limit.cases)
      (auto simp: limit_pushdown_rewrite_def limit_pushdown_can_optimize_def moved_past_def
        split: op_node.splits bound_limit_node.splits if_splits)
qed

lemma traverse_returns:
  "(\<And>x. x \<in> set xs \<Longrightarrow> \<exists>y. f x = Inr y) \<Longrightarrow> \<exists>ys. traverse f xs = Inr ys"
proof (induction xs)
  case (Cons x xs)
  then obtain y ys where "f x = Inr y" "traverse f xs = Inr ys" by fastforce
  then show ?case by simp
qed simp

text \<open>
  Limit pushdown returns a plan whenever every projection and every predict operator
  of the plan has an input.
\<close>

theorem limit_pushdown_returns:
  "plan_all (\<lambda>op. moved_past (op_node op) \<longrightarrow> op_children op \<noteq> []) op \<Longrightarrow> \<exists>op'. limit_pushdown_optimize op = Inr op'"
proof (induction "op_count op" arbitrary: op rule: less_induct)
  case less
  obtain op1 where r: "limit_pushdown_rewrite op = Inr op1" and all: "plan_all has_input op1"
    using limit_pushdown_rewrite_returns [OF less.prems] by blast
  have "\<exists>c'. limit_pushdown_optimize c = Inr c'" if c: "c \<in> set (op_children op1)" for c
  proof (rule less.hyps)
    have "op_count c < op_count op1" using c by (cases op1) (simp add: op_count_child del: op_count.simps)
    then show "op_count c < op_count op" using limit_pushdown_count [OF r] by linarith
    show "plan_all has_input c" by (rule plan_all_child [OF all c])
  qed
  then obtain cs where "traverse limit_pushdown_optimize (op_children op1) = Inr cs"
    using traverse_returns by metis
  with r show ?case by (subst limit_pushdown_optimize.simps) simp
qed

theorem limit_pushdown_returns_witness:
  "\<exists>op'. limit_pushdown_optimize (LOp (LOGICAL_LIMIT (EXPRESSION_VALUE (BoundConstant (Some 3))) UNSET) 0
     [LOp (LOGICAL_PREDICT 1 (new_predict_info LLM)) 0 [LOp (LOGICAL_GET 0 ''t'' [] [] []) 0 []]] :: nat lop) = Inr op'"
  by (rule limit_pushdown_returns) (simp add: moved_past_def)

text \<open>
  A LIMIT with a small constant over a predict operator without an input (a table
  function style PREDICT that has no FROM source) makes the pushdown throw: the swap reads
  the first child of the predict operator without a check. The same happens through a
  projection between the two.
\<close>

theorem limit_pushdown_predict_scan_throws:
  "limit_pushdown_optimize (LOp (LOGICAL_LIMIT l off) e [LOp (LOGICAL_PREDICT pi info) e' []]) = Inl index_out_of_bounds \<and>
   (n < 8192 \<longrightarrow>
    limit_pushdown_optimize (LOp (LOGICAL_LIMIT (CONSTANT_VALUE n) UNSET) e
      [LOp (LOGICAL_PROJECTION ti es) e'' [LOp (LOGICAL_PREDICT pi info) e' []]]) = Inl index_out_of_bounds)"
  by (simp add: limit_pushdown_optimize.simps limit_pushdown_rewrite_def limit_pushdown_can_optimize_def)

theorem limit_pushdown_predict_scan_throws_witness:
  "limit_pushdown_optimize (LOp (LOGICAL_LIMIT (CONSTANT_VALUE 5) UNSET) 0
      [LOp (LOGICAL_PROJECTION 2 [BoundColumnRef (1, 0)]) 0
        [LOp (LOGICAL_PREDICT 1 (new_predict_info LLM)) 0 []]] :: nat lop)
   = Inl index_out_of_bounds"
  by (rule limit_pushdown_predict_scan_throws [THEN conjunct2, rule_format]) simp

section \<open>Soundness of the propagation into filters\<close>

text \<open>What the propagation needs of a plan: where it applies, the LIMIT skips no rows and the
  filter carries no limit yet.\<close>

fun skips_nothing :: "'v lop \<Rightarrow> bool" where
  "skips_nothing (LOp (LOGICAL_LIMIT l off) e (LOp (LOGICAL_FILTER es lim pm) e' cs' # cs)) =
     ((off = UNSET \<or> off = CONSTANT_VALUE 0) \<and> lim = -1)"
| "skips_nothing op = True"

abbreviation propagation_ok :: "'v lop \<Rightarrow> bool" where
  "propagation_ok op \<equiv> limit_to_filter_can_optimize op \<longrightarrow> skips_nothing op"

lemma limit_rows_constant:
  "off = UNSET \<or> off = CONSTANT_VALUE 0 \<Longrightarrow> limit_rows I (CONSTANT_VALUE n) off rs = take n rs"
  by (auto simp: limit_rows_def)

lemma limited_prefix_take: "limited_prefix (int n) full out \<Longrightarrow> take n out = take n full"
  by (auto simp: limited_prefix_def)

lemma propagation_cases:
  assumes "limit_to_filter_can_optimize op"
  obtains n off e es lim pm e' cs' cs where
    "op = LOp (LOGICAL_LIMIT (CONSTANT_VALUE n) off) e (LOp (LOGICAL_FILTER es lim pm) e' cs' # cs)"
    "set_filter_limit op = LOp (LOGICAL_LIMIT (CONSTANT_VALUE n) off) e (LOp (LOGICAL_FILTER es (int n) pm) n cs' # cs)"
  using assms
  by (auto simp: limit_to_filter_can_optimize_def split: lop.splits op_node.splits list.splits bound_limit_node.splits)

lemma limit_to_filter_rewrite_sound:
  assumes ok: "propagation_ok op" and rw: "limit_to_filter_rewrite op = Inr op'"
  shows "refines I op' op"
proof (cases "limit_to_filter_can_optimize op")
  case False
  with rw show ?thesis by (simp add: limit_to_filter_rewrite_def)
next
  case True
  then obtain n off e es lim pm e' cs' cs where
    op: "op = LOp (LOGICAL_LIMIT (CONSTANT_VALUE n) off) e (LOp (LOGICAL_FILTER es lim pm) e' cs' # cs)"
    and new: "set_filter_limit op = LOp (LOGICAL_LIMIT (CONSTANT_VALUE n) off) e (LOp (LOGICAL_FILTER es (int n) pm) n cs' # cs)"
    by (rule propagation_cases)
  have off: "off = UNSET \<or> off = CONSTANT_VALUE 0" and lim: "lim = -1" using ok True by (simp_all add: op)
  have op': "op' = LOp (LOGICAL_LIMIT (CONSTANT_VALUE n) off) e (LOp (LOGICAL_FILTER es (int n) pm) n cs' # cs)"
    using rw True new by (simp add: limit_to_filter_rewrite_def)
  have "results I op rs" if "results I op' rs" for rs
  proof -
    from that obtain c out rs0 where rs: "rs = limit_rows I (CONSTANT_VALUE n) off out"
      and cs: "cs = []" "cs' = [c]" and c: "results I c rs0"
      and pre: "limited_prefix (int n) (filter (passes I es) rs0) out"
      unfolding op' by (auto elim!: limitE filterE)
    have "results I (LOp (LOGICAL_FILTER es lim pm) e' [c]) (filter (passes I es) rs0)"
      using c by (rule results.filter) (simp add: limited_prefix_def lim)
    then have "results I op (limit_rows I (CONSTANT_VALUE n) off (filter (passes I es) rs0))"
      unfolding op cs by (rule results.limit)
    moreover have "limit_rows I (CONSTANT_VALUE n) off (filter (passes I es) rs0) = rs"
      unfolding rs limit_rows_constant [OF off] limited_prefix_take [OF pre] ..
    ultimately show ?thesis by simp
  qed
  moreover have "get_column_bindings op' = get_column_bindings op" by (simp add: op op')
  ultimately show ?thesis by (simp add: refines_def)
qed

lemma propagation_rewrite_ok:
  assumes "plan_all propagation_ok op" and "limit_to_filter_rewrite op = Inr op'" and "c \<in> set (op_children op')"
  shows "plan_all propagation_ok c"
proof (cases "limit_to_filter_can_optimize op")
  case False
  with assms show ?thesis by (auto simp: limit_to_filter_rewrite_def intro: plan_all_child)
next
  case True
  then obtain n off e es lim pm e' cs' cs where
    op: "op = LOp (LOGICAL_LIMIT (CONSTANT_VALUE n) off) e (LOp (LOGICAL_FILTER es lim pm) e' cs' # cs)"
    and new: "set_filter_limit op = LOp (LOGICAL_LIMIT (CONSTANT_VALUE n) off) e (LOp (LOGICAL_FILTER es (int n) pm) n cs' # cs)"
    by (rule propagation_cases)
  with assms True show ?thesis
    by (auto simp: limit_to_filter_rewrite_def list_all_iff)
qed

interpretation limit_to_filter: plan_pass I limit_to_filter_rewrite limit_to_filter_optimize
    "plan_all propagation_ok" for I
proof unfold_locales
  show "limit_to_filter_rewrite op = Inr op' \<Longrightarrow> op_count op' \<le> op_count op" for op op' :: "'a lop"
    by (auto simp: limit_to_filter_rewrite_def set_filter_limit_count)
  show "plan_all propagation_ok op \<Longrightarrow> limit_to_filter_rewrite op = Inr op' \<Longrightarrow> refines I op' op" for op op' :: "'a lop"
    by (blast intro: limit_to_filter_rewrite_sound dest: plan_all_op)
qed (rule limit_to_filter_optimize.simps, rule propagation_rewrite_ok)

text \<open>
  C27. The propagation of a constant LIMIT into a semantic filter is sound when the LIMIT
  has no OFFSET: every result of the new plan, whose filters may stop early, is a result
  of the given plan.
\<close>

theorem limit_to_filter_sound:
  assumes "plan_all (\<lambda>op. limit_to_filter_can_optimize op \<longrightarrow> skips_nothing op) op"
    and "limit_to_filter_optimize op = Inr op'"
  shows "get_column_bindings op' = get_column_bindings op \<and> (\<forall>rs. results I op' rs \<longrightarrow> results I op rs)"
  using limit_to_filter.optimize_sound [OF assms] by (simp add: refines_def)

text \<open>The plan \<open>SELECT ... WHERE PREDICT(...) LIMIT 1 OFFSET o\<close> over a base table.\<close>

definition semantic_query :: "nat \<Rightarrow> nat lop" where
  "semantic_query skip = LOp (LOGICAL_LIMIT (CONSTANT_VALUE 1) (CONSTANT_VALUE skip)) 0
     [LOp (LOGICAL_FILTER [BoundPredict (new_predict_info LLM) [BoundColumnRef (0, 0)]] (-1) []) 0
       [LOp (LOGICAL_GET 0 ''t'' [''a''] [0] []) 0 []]]"

definition limited_query :: "nat \<Rightarrow> nat lop" where
  "limited_query skip = LOp (LOGICAL_LIMIT (CONSTANT_VALUE 1) (CONSTANT_VALUE skip)) 0
     [LOp (LOGICAL_FILTER [BoundPredict (new_predict_info LLM) [BoundColumnRef (0, 0)]] 1 []) 1
       [LOp (LOGICAL_GET 0 ''t'' [''a''] [0] []) 0 []]]"

lemma semantic_query_limited: "limit_to_filter_optimize (semantic_query skip) = Inr (limited_query skip)"
  by (simp add: semantic_query_def limited_query_def limit_to_filter_optimize.simps limit_to_filter_rewrite_def
      limit_to_filter_can_optimize_def is_predict_condition_def)

theorem limit_to_filter_sound_witness:
  "get_column_bindings (limited_query 0) = [(0, 0)]"
proof -
  have "plan_all (\<lambda>op. limit_to_filter_can_optimize op \<longrightarrow> skips_nothing op) (semantic_query 0)"
    by (simp add: semantic_query_def limit_to_filter_can_optimize_def)
  from limit_to_filter_sound [OF this semantic_query_limited]
  have "get_column_bindings (limited_query 0) = get_column_bindings (semantic_query 0)" by (rule conjunct1)
  also have "\<dots> = [(0, 0)]" by (simp add: semantic_query_def map_bindings_def generate_column_bindings_def get_bindings_def)
  finally show ?thesis .
qed

text \<open>An interpretation in which the predictor accepts every row and the table has the rows 10 and 20.\<close>

definition two_row_interp :: "nat plan_interp" where
  "two_row_interp = null_interp\<lparr>pi_truth := map_option (\<lambda>n. n \<noteq> 0), pi_predict := \<lambda>_ vs. Some 1,
     pi_table := \<lambda>_. [tuple_of 0 [Some 10], tuple_of 0 [Some 20]]\<rparr>"

text \<open>
  With an OFFSET the propagation is not sound: the filter is told to stop after LIMIT
  rows although OFFSET + LIMIT rows are needed, so that the second of two qualifying rows
  can be lost for \<open>LIMIT 1 OFFSET 1\<close>.
\<close>

theorem limit_to_filter_ignores_offset:
  "limit_to_filter_optimize (semantic_query 1) = Inr (limited_query 1) \<and>
   results two_row_interp (limited_query 1) [] \<and> \<not> results two_row_interp (semantic_query 1) []"
proof (intro conjI)
  let ?rows = "[tuple_of 0 [Some 10], tuple_of 0 [Some (20 :: nat)]]"
  let ?es = "[BoundPredict (new_predict_info LLM) [BoundColumnRef (0, 0)]] :: nat expression list"
  have get: "results two_row_interp (LOp (LOGICAL_GET 0 ''t'' [''a''] [0] []) 0 []) ?rows"
    using results.get [of two_row_interp 0] by (simp add: two_row_interp_def)
  have all: "filter (passes two_row_interp ?es) ?rows = ?rows"
    by (simp add: passes_def two_row_interp_def null_interp_def)
  show "limit_to_filter_optimize (semantic_query 1) = Inr (limited_query 1)" by (rule semantic_query_limited)
  have "limited_prefix 1 ?rows [tuple_of 0 [Some 10]]" by (simp add: limited_prefix_def)
  with all have "results two_row_interp (LOp (LOGICAL_FILTER ?es 1 []) 1 [LOp (LOGICAL_GET 0 ''t'' [''a''] [0] []) 0 []])
      [tuple_of 0 [Some 10]]"
    by (intro results.filter [OF get]) simp
  from results.limit [OF this, of "CONSTANT_VALUE 1" "CONSTANT_VALUE 1" 0]
  show "results two_row_interp (limited_query 1) []"
    by (simp add: limited_query_def limit_rows_def)
  show "\<not> results two_row_interp (semantic_query 1) []"
  proof
    assume "results two_row_interp (semantic_query 1) []"
    then obtain out where "limited_prefix (-1) (filter (passes two_row_interp ?es) ?rows) out"
      and "[] = limit_rows two_row_interp (CONSTANT_VALUE 1) (CONSTANT_VALUE 1) out"
      unfolding semantic_query_def by (auto elim!: limitE filterE getE simp: two_row_interp_def)
    then show False unfolding all by (auto simp: limited_prefix_def limit_rows_def)
  qed
qed

end
