(* ===== verification/SplitPredict.thy ===== *)
theory SplitPredict
  imports LogicalPlan
begin

text \<open>
  The rewriting of a semantic join predicate into two extractions and a comparison
  (\<^verbatim>\<open>src/optimizer/split_predict_join_to_extract_predicate.cpp\<close>) and the replacement of
  column bindings above it (\<^verbatim>\<open>src/optimizer/column_binding_replacer.cpp\<close>).

  The language model that decomposes the prompt is a service: the parameter \<open>decompose\<close>
  maps the messages of the call to the decomposition or to the exception of the call. An
  operator that a pointer designates in the code is designated by its path from the root,
  the list of child positions. The rewriting prints its outcome; the print is left out.
\<close>

section \<open>Helpers\<close>

definition is_supported_join :: "'v op_node \<Rightarrow> bool" where
  "is_supported_join n =
     (case n of LOGICAL_CROSS_PRODUCT \<Rightarrow> True | LOGICAL_COMPARISON_JOIN _ _ \<Rightarrow> True
      | LOGICAL_OTHER tag _ _ \<Rightarrow> tag = ''LOGICAL_JOIN'' | _ \<Rightarrow> False)"

fun first_some :: "'a option list \<Rightarrow> 'a option" where
  "first_some [] = None"
| "first_some (Some x # xs) = Some x"
| "first_some (None # xs) = first_some xs"

fun find_first_predict :: "'v expression \<Rightarrow> (bound_predict_info \<times> 'v expression list) option" where
  "find_first_predict (BoundPredict info es) = Some (info, es)"
| "find_first_predict (BoundColumnRef b) = None"
| "find_first_predict (BoundConstant v) = None"
| "find_first_predict (BoundComparison t l r) = first_some [find_first_predict l, find_first_predict r]"
| "find_first_predict (BoundConjunction t es) = first_some (map find_first_predict es)"
| "find_first_predict (BoundFunction f es) = first_some (map find_first_predict es)"

fun collect_column_bindings :: "'v expression \<Rightarrow> column_binding list" where
  "collect_column_bindings (BoundColumnRef b) = [b]"
| "collect_column_bindings (BoundConstant v) = []"
| "collect_column_bindings (BoundComparison t l r) = collect_column_bindings l @ collect_column_bindings r"
| "collect_column_bindings (BoundConjunction t es) = concat (map collect_column_bindings es)"
| "collect_column_bindings (BoundPredict info es) = concat (map collect_column_bindings es)"
| "collect_column_bindings (BoundFunction f es) = concat (map collect_column_bindings es)"

fun join_strings :: "string \<Rightarrow> string list \<Rightarrow> string" where
  "join_strings sep [] = []"
| "join_strings sep [s] = s"
| "join_strings sep (s # ss) = s @ sep @ join_strings sep ss"

text \<open>\<^verbatim>\<open>AppendTableSchemas\<close>: the operator's own schema, then those of its children, in order.\<close>

fun append_table_schemas :: "'v lop \<Rightarrow> string \<Rightarrow> string" where
  "append_table_schemas (LOp node est children) out =
     fold append_table_schemas children
       (case node of
          LOGICAL_GET ti nm names cids pids \<Rightarrow>
            (if out \<noteq> [] then out @ '', '' else out) @ nm @ ''('' @ join_strings '', '' names @ '')''
        | _ \<Rightarrow> out)"

record decomposed_predict =
  dp_task1 :: string
  dp_task1_output_column :: string
  dp_task2 :: string
  dp_task2_output_column :: string
  dp_predicate :: string

definition decomposition_user_message :: "bound_predict_info \<Rightarrow> 'v lop \<Rightarrow> string" where
  "decomposition_user_message info join =
     ''Convert the following task `'' @ bp_prompt info @
     ''` to two separate extraction tasks and a predicate.'' @ [CHR 0x0A] @
     '' Extraction task is a prompt like above that takes a single input and produces an attribute'' @
     '' that can be used to apply the predicate.'' @ [CHR 0x0A] @
     '' Predicate should be a relational operation.'' @ [CHR 0x0A] @
     '' Schemas: '' @ append_table_schemas join []"

definition decomposition_system_message :: string where
  "decomposition_system_message =
     ''You are a database optimizer with knowledge about semantic tasks.'' @ [CHR 0x0A] @
     '' Semantic task template, `extract the {<output_column> VARCHAR} from {{input_column}}`,'' @
     '' where <input_column> and <output_column> should be replaced appropriately.''"

type_synonym decomposer = "bound_predict_info \<Rightarrow> string \<Rightarrow> string \<Rightarrow> decomposed_predict result"

definition call_decomposition_llm :: "decomposer \<Rightarrow> bound_predict_info \<Rightarrow> 'v lop \<Rightarrow> decomposed_predict result" where
  "call_decomposition_llm decompose info join =
     decompose info decomposition_system_message (decomposition_user_message info join)"

definition str_contains :: "string \<Rightarrow> string \<Rightarrow> bool" where
  "str_contains s pat = list_ex (\<lambda>i. take (length pat) (drop i s) = pat) [0..<Suc (length s)]"

definition parse_comparison_op :: "string \<Rightarrow> expression_type" where
  "parse_comparison_op pred =
     (if str_contains pred ''!='' \<or> str_contains pred ''<>'' then ET_COMPARE_NOTEQUAL
      else if str_contains pred ''<='' then ET_COMPARE_LESSTHANOREQUALTO
      else if str_contains pred ''>='' then ET_COMPARE_GREATERTHANOREQUALTO
      else if str_contains pred ''<'' then ET_COMPARE_LESSTHAN
      else if str_contains pred ''>'' then ET_COMPARE_GREATERTHAN
      else ET_COMPARE_EQUAL)"

section \<open>Eligible filters\<close>

definition matched_columns :: "column_binding list \<Rightarrow> column_binding list \<Rightarrow> nat" where
  "matched_columns child_output predict_refs = length (filter (\<lambda>cb. cb \<in> set predict_refs) child_output)"

definition split_can_optimize :: "'v lop \<Rightarrow> bool" where
  "split_can_optimize op =
     (case op of
        LOp (LOGICAL_FILTER expressions limit pm) _ (direct_child # _) \<Rightarrow>
          limit = -1 \<and>
          (is_supported_join (op_node direct_child) \<or>
           (case direct_child of
              LOp (LOGICAL_PROJECTION _ _) _ (c # _) \<Rightarrow> is_supported_join (op_node c) | _ \<Rightarrow> False)) \<and>
          list_ex (\<lambda>expr. case find_first_predict expr of
                            None \<Rightarrow> False
                          | Some (info, args) \<Rightarrow>
                              2 \<le> matched_columns (get_column_bindings direct_child)
                                    (collect_column_bindings (BoundPredict info args))) expressions
      | _ \<Rightarrow> False)"

section \<open>The transformation\<close>

record split_state =
  next_table_index :: idx_t
  pending_fixes :: "(nat list \<times> (column_binding \<times> column_binding) list) list"

text \<open>The lookups of the code: the binding of an expression that is cast to a column reference, and
  the position of a binding.\<close>

fun cast_column_ref :: "'v expression \<Rightarrow> column_binding result" where
  "cast_column_ref (BoundColumnRef b) = Inr b"
| "cast_column_ref _ = Inl (InternalException ''Failed to cast expression to type - expression type mismatch'')"

fun find_index_from :: "nat \<Rightarrow> 'a \<Rightarrow> 'a list \<Rightarrow> idx_t" where
  "find_index_from i x [] = invalid_index"
| "find_index_from i x (y # ys) = (if y = x then i else find_index_from (Suc i) x ys)"

definition find_join_col :: "column_binding list \<Rightarrow> column_binding \<Rightarrow> idx_t" where
  "find_join_col join_bindings cb = find_index_from 0 cb join_bindings"

definition task_info :: "bound_predict_info \<Rightarrow> string \<Rightarrow> string \<Rightarrow> nat \<Rightarrow> bound_predict_info" where
  "task_info orig prompt output_column k =
     (new_predict_info (bp_model_type orig))
       \<lparr>bp_model_name := bp_model_name orig, bp_model_path := bp_model_path orig,
        bp_base_api := bp_base_api orig, bp_secret := bp_secret orig, bp_prompt := prompt,
        bp_result_set_names := [output_column], bp_result_set_types := [''VARCHAR''],
        bp_input_set_names := (if length (bp_input_set_names orig) > k
                               then [bp_input_set_names orig ! k] else [''input'']),
        bp_options := bp_options orig\<rparr>"

definition transform_filter_join ::
  "decomposer \<Rightarrow> nat list \<Rightarrow> 'v lop \<Rightarrow> split_state \<Rightarrow> ('v lop \<times> split_state) result" where
  "transform_filter_join decompose path op st =
     (case op of
        LOp (LOGICAL_FILTER expressions limit pm) est (join # rest) \<Rightarrow>
          (let join_bindings = get_column_bindings join; N = length join_bindings in
           case first_some (map find_first_predict expressions) of
             None \<Rightarrow> Inl (InternalException ''Assertion triggered: orig_predict && orig_predict->bound_predict'')
           | Some (info, args) \<Rightarrow>
               result_bind (call_decomposition_llm decompose info join) (\<lambda>d.
               result_bind (result_bind (vector_at args 0) cast_column_ref) (\<lambda>b1.
               result_bind (result_bind (vector_at args 1) cast_column_ref) (\<lambda>b2.
               let task1_input_col = find_join_col join_bindings b1;
                   task2_input_col = find_join_col join_bindings b2;
                   proj1_idx = next_table_index st;
                   proj2_idx = next_table_index st + 1 in
               result_bind (vector_at join_bindings task1_input_col) (\<lambda>in1.
               result_bind (vector_at join_bindings task2_input_col) (\<lambda>_.
               let proj1 = LOp (LOGICAL_PROJECTION proj1_idx
                             (map BoundColumnRef join_bindings @
                              [BoundPredict (task_info info (dp_task1 d) (dp_task1_output_column d) 0) [BoundColumnRef in1]]))
                             0 [join];
                   proj2 = LOp (LOGICAL_PROJECTION proj2_idx
                             (map (\<lambda>i. BoundColumnRef (proj1_idx, i)) [0..<N] @
                              [BoundColumnRef (proj1_idx, N),
                               BoundPredict (task_info info (dp_task2 d) (dp_task2_output_column d) 1)
                                 [BoundColumnRef (proj1_idx, task2_input_col)]]))
                             0 [proj1];
                   cmp = BoundComparison (parse_comparison_op (dp_predicate d))
                           (BoundColumnRef (proj2_idx, N)) (BoundColumnRef (proj2_idx, N + 1));
                   fix_bindings = zip join_bindings (map (Pair proj2_idx) [0..<N])
               in Inr (LOp (LOGICAL_FILTER [cmp] limit pm) est (proj2 # rest),
                       st\<lparr>next_table_index := next_table_index st + 2,
                          pending_fixes := pending_fixes st @ [(path, fix_bindings)]\<rparr>)))))))
      | _ \<Rightarrow> Inr (op, st))"

text \<open>A weight that decreases from an operator to the children of its transformation.\<close>

fun op_weight :: "'v lop \<Rightarrow> nat" where
  "op_weight (LOp n e cs) = (case n of LOGICAL_FILTER _ _ _ \<Rightarrow> 4 | _ \<Rightarrow> 1) + sum_list (map op_weight cs)"

lemma op_weight_pos: "0 < op_weight op"
  by (cases op) (auto split: op_node.splits)

lemma transform_filter_join_weight:
  assumes "transform_filter_join decompose path op st = Inr (op', st')"
  shows "sum_list (map op_weight (op_children op')) < op_weight op"
  using assms
  by (auto simp: transform_filter_join_def Let_def result_bind_eq_Inr op_weight_pos
      split: lop.splits op_node.splits list.splits option.splits)

definition split_step ::
  "decomposer \<Rightarrow> nat list \<Rightarrow> 'v lop \<Rightarrow> split_state \<Rightarrow> ('v lop \<times> split_state) result" where
  "split_step decompose path op st =
     (if split_can_optimize op then transform_filter_join decompose path op st else Inr (op, st))"

lemma split_step_weight:
  "split_step decompose path op st = Inr (op', st') \<Longrightarrow> sum_list (map op_weight (op_children op')) < op_weight op"
  by (cases op) (auto simp: split_step_def dest: transform_filter_join_weight split: if_splits op_node.splits)

text \<open>\<^verbatim>\<open>Transform\<close>: the operator, then the children of the outcome from left to right.\<close>

function split_transform ::
    "decomposer \<Rightarrow> nat list \<Rightarrow> 'v lop \<Rightarrow> split_state \<Rightarrow> ('v lop \<times> split_state) result"
  and split_transforms ::
    "decomposer \<Rightarrow> nat list \<Rightarrow> nat \<Rightarrow> 'v lop list \<Rightarrow> split_state \<Rightarrow> ('v lop list \<times> split_state) result" where
  "split_transform decompose path op st =
     result_bind (split_step decompose path op st) (\<lambda>os1.
     result_bind (split_transforms decompose path 0 (op_children (fst os1)) (snd os1)) (\<lambda>cs2.
       Inr (LOp (op_node (fst os1)) (op_estimate (fst os1)) (fst cs2), snd cs2)))"
| "split_transforms decompose path i [] st = Inr ([], st)"
| "split_transforms decompose path i (c # cs) st =
     result_bind (split_transform decompose (path @ [i]) c st) (\<lambda>cs1.
     result_bind (split_transforms decompose path (Suc i) cs (snd cs1)) (\<lambda>cs2.
       Inr (fst cs1 # fst cs2, snd cs2)))"
  by pat_completeness auto
termination
proof (relation "measure (case_sum (\<lambda>(d, p, op, st). 2 * op_weight op)
                              (\<lambda>(d, p, i, cs, st). 2 * sum_list (map op_weight cs) + 1))", simp)
  fix decompose path st os1 and op :: "'v lop"
  assume "split_step decompose path op st = Inr os1"
  then have "sum_list (map op_weight (op_children (fst os1))) < op_weight op"
    by (cases os1) (auto dest: split_step_weight)
  then show "(Inr (decompose, path, 0, op_children (fst os1), snd os1), Inl (decompose, path, op, st))
    \<in> measure (case_sum (\<lambda>(d, p, op, st). 2 * op_weight op) (\<lambda>(d, p, i, cs, st). 2 * sum_list (map op_weight cs) + 1))"
    by simp
qed (simp_all add: op_weight_pos)

declare split_transform.simps [simp del]

section \<open>Replacing bindings above the filter\<close>

type_synonym replacement_bindings = "(column_binding \<times> column_binding) list"

definition replace_binding :: "replacement_bindings \<Rightarrow> column_binding \<Rightarrow> column_binding" where
  "replace_binding repl b = foldl (\<lambda>cur (old, new). if cur = old then new else cur) b repl"

text \<open>\<^verbatim>\<open>ColumnBindingReplacer::VisitExpression\<close>\<close>

fun replace_expr :: "replacement_bindings \<Rightarrow> 'v expression \<Rightarrow> 'v expression" where
  "replace_expr repl (BoundColumnRef b) = BoundColumnRef (replace_binding repl b)"
| "replace_expr repl (BoundConstant v) = BoundConstant v"
| "replace_expr repl (BoundComparison t l r) = BoundComparison t (replace_expr repl l) (replace_expr repl r)"
| "replace_expr repl (BoundConjunction t es) = BoundConjunction t (map (replace_expr repl) es)"
| "replace_expr repl (BoundPredict info es) = BoundPredict info (map (replace_expr repl) es)"
| "replace_expr repl (BoundFunction f es) = BoundFunction f (map (replace_expr repl) es)"

fun replace_limit_node :: "replacement_bindings \<Rightarrow> 'v expression bound_limit_node \<Rightarrow> 'v expression bound_limit_node" where
  "replace_limit_node repl (EXPRESSION_VALUE e) = EXPRESSION_VALUE (replace_expr repl e)"
| "replace_limit_node repl (EXPRESSION_PERCENTAGE e) = EXPRESSION_PERCENTAGE (replace_expr repl e)"
| "replace_limit_node repl n = n"

fun replace_node :: "replacement_bindings \<Rightarrow> 'v op_node \<Rightarrow> 'v op_node" where
  "replace_node repl (LOGICAL_LIMIT l off) = LOGICAL_LIMIT (replace_limit_node repl l) (replace_limit_node repl off)"
| "replace_node repl (LOGICAL_PROJECTION ti es) = LOGICAL_PROJECTION ti (map (replace_expr repl) es)"
| "replace_node repl (LOGICAL_FILTER es lim pm) = LOGICAL_FILTER (map (replace_expr repl) es) lim pm"
| "replace_node repl (LOGICAL_COMPARISON_JOIN jl conds) =
     LOGICAL_COMPARISON_JOIN jl (map (\<lambda>(l, t, r). (replace_expr repl l, t, replace_expr repl r)) conds)"
| "replace_node repl (LOGICAL_DELIM_JOIN jl dups conds) =
     LOGICAL_DELIM_JOIN jl (map (replace_expr repl) dups) (map (\<lambda>(l, t, r). (replace_expr repl l, t, replace_expr repl r)) conds)"
| "replace_node repl (LOGICAL_ASOF_JOIN jl conds) =
     LOGICAL_ASOF_JOIN jl (map (\<lambda>(l, t, r). (replace_expr repl l, t, replace_expr repl r)) conds)"
| "replace_node repl (LOGICAL_ANY_JOIN jl cond) = LOGICAL_ANY_JOIN jl (replace_expr repl cond)"
| "replace_node repl (LOGICAL_OTHER tag bs es) = LOGICAL_OTHER tag bs (map (replace_expr repl) es)"
| "replace_node repl n = n"

text \<open>
  \<^verbatim>\<open>ColumnBindingReplacer::VisitOperator\<close>: the children first, then the operator's own
  expressions; the operator at the path \<open>stop\<close> is left alone with all below it.
\<close>

definition child_stop :: "nat list option \<Rightarrow> nat \<Rightarrow> nat list option" where
  "child_stop stop i = (case stop of Some (j # rest) \<Rightarrow> if j = i then Some rest else None | _ \<Rightarrow> None)"

fun replace_operator :: "replacement_bindings \<Rightarrow> nat list option \<Rightarrow> 'v lop \<Rightarrow> 'v lop"
  and replace_operators :: "replacement_bindings \<Rightarrow> nat list option \<Rightarrow> nat \<Rightarrow> 'v lop list \<Rightarrow> 'v lop list" where
  "replace_operator repl stop (LOp n e cs) =
     (if stop = Some [] then LOp n e cs else LOp (replace_node repl n) e (replace_operators repl stop 0 cs))"
| "replace_operators repl stop i [] = []"
| "replace_operators repl stop i (c # cs) =
     replace_operator repl (child_stop stop i) c # replace_operators repl stop (Suc i) cs"

text \<open>\<^verbatim>\<open>SplitPredictJoinToExtractPredicate::Optimize\<close>\<close>

definition split_optimize :: "decomposer \<Rightarrow> 'v lop \<Rightarrow> idx_t \<Rightarrow> 'v lop result" where
  "split_optimize decompose plan next_index =
     result_bind (split_transform decompose [] plan \<lparr>next_table_index = next_index, pending_fixes = []\<rparr>)
       (\<lambda>(plan1, st). Inr (fold (\<lambda>(path, repl) op. replace_operator repl (Some path) op) (pending_fixes st) plan1))"

section \<open>The rewritten filter computes the same rows\<close>

lemma find_index_from_found:
  "x \<in> set xs \<Longrightarrow> \<exists>j < length xs. find_index_from i x xs = i + j \<and> xs ! j = x"
proof (induction xs arbitrary: i)
  case (Cons y ys)
  show ?case
  proof (cases "y = x")
    case False
    then obtain j where "j < length ys" "find_index_from (Suc i) x ys = Suc i + j" "ys ! j = x"
      using Cons.IH [of "Suc i"] Cons.prems by auto
    with False show ?thesis by (intro exI [of _ "Suc j"]) simp
  qed auto
qed simp

lemma find_join_col_found:
  assumes "b \<in> set bs"
  shows "find_join_col bs b < length bs" and "bs ! find_join_col bs b = b"
  using find_index_from_found [OF assms, of 0] by (auto simp: find_join_col_def)

lemma tuple_of_nth: "i < length vs \<Longrightarrow> tuple_of ti vs (ti, i) = vs ! i"
  by (simp add: tuple_of_def)

text \<open>The two projections of the rewriting, as one function on rows.\<close>

definition extraction_row ::
  "'v :: linorder plan_interp \<Rightarrow> column_binding list \<Rightarrow> idx_t \<Rightarrow> column_binding \<Rightarrow> idx_t \<Rightarrow>
   bound_predict_info \<Rightarrow> bound_predict_info \<Rightarrow> 'v tuple \<Rightarrow> 'v tuple" where
  "extraction_row I bs p b1 i2 t1 t2 row =
     project_tuple I (p + 1)
       (map (\<lambda>i. BoundColumnRef (p, i)) [0..<length bs] @
        [BoundColumnRef (p, length bs), BoundPredict t2 [BoundColumnRef (p, i2)]])
       (project_tuple I p (map BoundColumnRef bs @ [BoundPredict t1 [BoundColumnRef b1]]) row)"

lemma extraction_row_columns:
  assumes "i2 < length bs"
  shows "i < length bs \<Longrightarrow> extraction_row I bs p b1 i2 t1 t2 row (p + 1, i) = row (bs ! i)"
    and "extraction_row I bs p b1 i2 t1 t2 row (p + 1, length bs) = pi_predict I t1 [row b1]"
    and "extraction_row I bs p b1 i2 t1 t2 row (p + 1, length bs + 1) = pi_predict I t2 [row (bs ! i2)]"
  using assms by (simp_all add: extraction_row_def project_tuple_def tuple_of_nth nth_append)

lemma filter_extraction:
  assumes i2: "i2 < length bs" "bs ! i2 = b2"
    and same: "\<And>row. (pi_truth I (eval_expr I row e) = Some True) =
        (pi_truth I (pi_of_bool I (compare_values t (pi_predict I t1 [row b1]) (pi_predict I t2 [row b2]))) = Some True)"
  shows "filter (passes I [BoundComparison t (BoundColumnRef (p + 1, length bs)) (BoundColumnRef (p + 1, length bs + 1))])
           (map (extraction_row I bs p b1 i2 t1 t2) rs)
         = map (extraction_row I bs p b1 i2 t1 t2) (filter (passes I [e]) rs)"
proof -
  have "passes I [BoundComparison t (BoundColumnRef (p + 1, length bs)) (BoundColumnRef (p + 1, length bs + 1))]
          (extraction_row I bs p b1 i2 t1 t2 row) = passes I [e] row" for row
    using same [of row] extraction_row_columns(2,3) [OF i2(1), of I p b1 t1 t2 row] i2(2)
    by (simp add: passes_def)
  then show ?thesis by (simp add: filter_map comp_def)
qed

lemma first_some_skip: "list_all (\<lambda>x. f x = None) xs \<Longrightarrow> first_some (map f (xs @ ys)) = first_some (map f ys)"
  by (induction xs) auto

lemma transform_filter_join_result:
  fixes st :: split_state
  assumes "list_all (\<lambda>e. find_first_predict e = None) before"
    and "find_first_predict e = Some (info, [BoundColumnRef b1, BoundColumnRef b2])"
    and b: "b1 \<in> set bs" "b2 \<in> set bs" and bs: "bs = get_column_bindings join"
    and "call_decomposition_llm decompose info join = Inr d"
  defines "p \<equiv> next_table_index st" and "i2 \<equiv> find_join_col bs b2"
    and "t1 \<equiv> task_info info (dp_task1 d) (dp_task1_output_column d) 0"
    and "t2 \<equiv> task_info info (dp_task2 d) (dp_task2_output_column d) 1"
  shows "transform_filter_join decompose path (LOp (LOGICAL_FILTER (before @ e # after) lim pm) est [join]) st =
    Inr (LOp (LOGICAL_FILTER [BoundComparison (parse_comparison_op (dp_predicate d))
               (BoundColumnRef (p + 1, length bs)) (BoundColumnRef (p + 1, length bs + 1))] lim pm) est
           [LOp (LOGICAL_PROJECTION (p + 1)
              (map (\<lambda>i. BoundColumnRef (p, i)) [0..<length bs] @
               [BoundColumnRef (p, length bs), BoundPredict t2 [BoundColumnRef (p, i2)]])) 0
              [LOp (LOGICAL_PROJECTION p (map BoundColumnRef bs @ [BoundPredict t1 [BoundColumnRef b1]])) 0 [join]]],
         st\<lparr>next_table_index := p + 2,
            pending_fixes := pending_fixes st @ [(path, zip bs (map (Pair (p + 1)) [0..<length bs]))]\<rparr>)"
proof -
  note cols = find_join_col_found [OF b(1)] find_join_col_found [OF b(2)]
  have first: "first_some (map find_first_predict (before @ e # after)) = Some (info, [BoundColumnRef b1, BoundColumnRef b2])"
    using assms(2) unfolding first_some_skip [OF assms(1)] by simp
  show ?thesis
    unfolding transform_filter_join_def using assms(6) cols first
    by (simp add: Let_def vector_at_def bs [symmetric] p_def i2_def t1_def t2_def del: map_append list.map)
qed

lemma projection_results:
  "results I (LOp (LOGICAL_PROJECTION ti es) est [c]) rs \<longleftrightarrow> (\<exists>rs0. results I c rs0 \<and> rs = map (project_tuple I ti es) rs0)"
  by (auto elim!: projectionE intro: results.projection)

lemma unlimited_filter_results:
  "results I (LOp (LOGICAL_FILTER es (-1) pm) est [c]) rs \<longleftrightarrow> (\<exists>rs0. results I c rs0 \<and> rs = filter (passes I es) rs0)"
  by (auto elim!: filterE simp: limited_prefix_def intro: results.filter)

text \<open>
  C8. Splitting a semantic join predicate computes the same rows, provided the decomposition that the language model returns
  is right (for every row, the condition holds exactly when the comparison of the two extractions holds): the
  transformation returns, and the results of the rewritten filter are, row by row and in both directions, the
  results of a filter with that one condition, whose columns are found at the new bindings. The condition
  is the first one of the filter with a predict, which has two columns of the join as arguments; the other
  conditions are dropped.
\<close>

theorem split_predict_same_rows:
  assumes before: "list_all (\<lambda>e. find_first_predict e = None) before"
    and find: "find_first_predict e = Some (info, [BoundColumnRef b1, BoundColumnRef b2])"
    and b: "b1 \<in> set (get_column_bindings join)" "b2 \<in> set (get_column_bindings join)"
    and call: "call_decomposition_llm decompose info join = Inr d"
    and right: "\<And>row. (pi_truth I (eval_expr I row e) = Some True) =
        (pi_truth I (pi_of_bool I (compare_values (parse_comparison_op (dp_predicate d))
           (pi_predict I (task_info info (dp_task1 d) (dp_task1_output_column d) 0) [row b1])
           (pi_predict I (task_info info (dp_task2 d) (dp_task2_output_column d) 1) [row b2]))) = Some True)"
  shows "\<exists>op' st'. transform_filter_join decompose path (LOp (LOGICAL_FILTER (before @ e # after) (-1) pm) est [join]) st = Inr (op', st') \<and>
    (\<forall>rs'. results I op' rs' \<longrightarrow>
      (\<exists>rs. results I (LOp (LOGICAL_FILTER [e] (-1) pm) est [join]) rs \<and>
            list_all2 (\<lambda>r' r. \<forall>i < length (get_column_bindings join).
               r' (next_table_index st + 1, i) = r (get_column_bindings join ! i)) rs' rs)) \<and>
    (\<forall>rs. results I (LOp (LOGICAL_FILTER [e] (-1) pm) est [join]) rs \<longrightarrow>
      (\<exists>rs'. results I op' rs' \<and>
            list_all2 (\<lambda>r' r. \<forall>i < length (get_column_bindings join).
               r' (next_table_index st + 1, i) = r (get_column_bindings join ! i)) rs' rs))"
proof -
  let ?bs = "get_column_bindings join" and ?p = "next_table_index st"
  let ?t1 = "task_info info (dp_task1 d) (dp_task1_output_column d) 0"
    and ?t2 = "task_info info (dp_task2 d) (dp_task2_output_column d) 1"
  let ?f = "extraction_row I ?bs ?p b1 (find_join_col ?bs b2) ?t1 ?t2"
  let ?cmp = "[BoundComparison (parse_comparison_op (dp_predicate d))
           (BoundColumnRef (?p + 1, length ?bs)) (BoundColumnRef (?p + 1, length ?bs + 1))]"
  let ?R = "\<lambda>r' r. \<forall>i < length ?bs. r' (?p + 1, i) = r (?bs ! i)"
  note i2 = find_join_col_found [OF b(2)] and tr = transform_filter_join_result [OF before find b refl call]
  define op' where "op' = fst (projr (transform_filter_join decompose path (LOp (LOGICAL_FILTER (before @ e # after) (-1) pm) est [join]) st))"
  have new: "results I op' rs' \<longleftrightarrow> (\<exists>rs0. results I join rs0 \<and> rs' = filter (passes I ?cmp) (map ?f rs0))" for rs'
    unfolding op'_def tr sum.sel fst_conv unlimited_filter_results projection_results extraction_row_def [abs_def] map_map [unfolded comp_def, symmetric] by blast
  note old = unlimited_filter_results [of I "[e]" pm est join]
  have same: "filter (passes I ?cmp) (map ?f rs0) = map ?f (filter (passes I [e]) rs0)" for rs0
    by (rule filter_extraction [OF i2 right])
  have rel: "list_all2 ?R (map ?f rs) rs" for rs
    unfolding list_all2_map1 list_all2_same by (intro ballI allI impI) (rule extraction_row_columns(1) [OF i2(1)])
  obtain st' where run: "transform_filter_join decompose path (LOp (LOGICAL_FILTER (before @ e # after) (-1) pm) est [join]) st = Inr (op', st')"
    unfolding op'_def tr by simp
  have there: "\<exists>rs. (\<exists>rs0. results I join rs0 \<and> rs = filter (passes I [e]) rs0) \<and> list_all2 ?R rs' rs" if "results I op' rs'" for rs'
    using that rel unfolding new same by blast
  have hither: "\<exists>rs'. results I op' rs' \<and> list_all2 ?R rs' rs" if "\<exists>rs0. results I join rs0 \<and> rs = filter (passes I [e]) rs0" for rs
    using that rel unfolding new same by blast
  show ?thesis unfolding old
    by (rule exI [of _ op'], rule exI [of _ st'], intro conjI allI impI) (rule run, erule there, erule hither)
qed

text \<open>A predictor that compares its two arguments and returns its only argument otherwise, so
  that comparing the two extractions for equality is a right decomposition.\<close>

definition equality_interp :: "nat plan_interp" where
  "equality_interp = null_interp\<lparr>pi_truth := map_option (\<lambda>n. n \<noteq> 0), pi_of_bool := map_option of_bool,
     pi_predict := \<lambda>info vs. (case vs of [v] \<Rightarrow> v
                              | [v1, v2] \<Rightarrow> (if v1 \<noteq> None \<and> v1 = v2 then Some 1 else Some 0) | _ \<Rightarrow> None)\<rparr>"

definition equality_decomposition :: decomposed_predict where
  "equality_decomposition = \<lparr>dp_task1 = ''extract the {x VARCHAR} from {{a}}'', dp_task1_output_column = ''x'',
     dp_task2 = ''extract the {y VARCHAR} from {{b}}'', dp_task2_output_column = ''y'', dp_predicate = ''x = y''\<rparr>"

lemma equality_predicate: "parse_comparison_op (dp_predicate equality_decomposition) = ET_COMPARE_EQUAL"
  by code_simp

theorem split_predict_same_rows_witness:
  "\<exists>op' st'. transform_filter_join (\<lambda>_ _ _. Inr equality_decomposition) []
     (LOp (LOGICAL_FILTER [BoundPredict (new_predict_info LLM) [BoundColumnRef (0, 0), BoundColumnRef (1, 0)]] (-1) []) 0
       [LOp LOGICAL_CROSS_PRODUCT 0 [LOp (LOGICAL_GET 0 ''l'' [''a''] [0] []) 0 [], LOp (LOGICAL_GET 1 ''r'' [''b''] [0] []) 0 []]] :: nat lop)
     \<lparr>next_table_index = 2, pending_fixes = []\<rparr> = Inr (op', st') \<and> (\<exists>rs'. results equality_interp op' rs')"
proof -
  let ?join = "LOp LOGICAL_CROSS_PRODUCT 0 [LOp (LOGICAL_GET 0 ''l'' [''a''] [0] []) 0 [], LOp (LOGICAL_GET 1 ''r'' [''b''] [0] []) 0 []] :: nat lop"
  let ?e = "BoundPredict (new_predict_info LLM) [BoundColumnRef (0, 0), BoundColumnRef (1, 0)] :: nat expression"
  have bs: "get_column_bindings ?join = [(0, 0), (1, 0)]" by (simp add: generate_column_bindings_def get_bindings_def)
  have find: "find_first_predict ?e = Some (new_predict_info LLM, [BoundColumnRef (0, 0), BoundColumnRef (1, 0)])" by simp
  have call: "call_decomposition_llm (\<lambda>_ _ _. Inr equality_decomposition) (new_predict_info LLM) ?join = Inr equality_decomposition"
    by (simp add: call_decomposition_llm_def)
  have b: "(0, 0) \<in> set (get_column_bindings ?join)" "(1, 0) \<in> set (get_column_bindings ?join)" unfolding bs by simp_all
  have right: "(pi_truth equality_interp (eval_expr equality_interp row ?e) = Some True) =
      (pi_truth equality_interp (pi_of_bool equality_interp
        (compare_values (parse_comparison_op (dp_predicate equality_decomposition))
          (pi_predict equality_interp (task_info (new_predict_info LLM) (dp_task1 equality_decomposition)
             (dp_task1_output_column equality_decomposition) 0) [row (0, 0)])
          (pi_predict equality_interp (task_info (new_predict_info LLM) (dp_task2 equality_decomposition)
             (dp_task2_output_column equality_decomposition) 1) [row (1, 0)]))) = Some True)" for row
    unfolding equality_predicate by (auto simp: equality_interp_def compare_values_def split: option.splits)
  have "\<exists>rs. results equality_interp (LOp (LOGICAL_FILTER [?e] (-1) []) 0 [?join]) rs" by (rule results_exist) simp
  then show ?thesis
    using split_predict_same_rows [where before = "[]" and after = "[]" and I = equality_interp and pm = "[]" and est = 0 and path = "[]" and
        st = "\<lparr>next_table_index = 2, pending_fixes = []\<rparr>", OF list.pred_inject(1) find b call right]
    unfolding append_Nil by blast
qed

section \<open>The binding fix\<close>

lemma replace_binding_skip: "b \<notin> fst ` set repl \<Longrightarrow> replace_binding repl b = b"
  by (induction repl) (auto simp: replace_binding_def)

lemma replace_binding_found:
  assumes "distinct (map fst repl)" and "(b, new) \<in> set repl" and "new \<notin> fst ` set repl"
  shows "replace_binding repl b = new"
  using assms
proof (induction repl)
  case (Cons x repl)
  show ?case
  proof (cases "x = (b, new)")
    case True
    with Cons.prems have "replace_binding repl new = new" by (intro replace_binding_skip) auto
    with True show ?thesis by (simp add: replace_binding_def)
  next
    case False
    with Cons.prems have "fst x \<noteq> b" by (force simp: image_iff)
    then have "replace_binding (x # repl) b = replace_binding repl b"
      by (cases x) (simp add: replace_binding_def)
    also have "\<dots> = new" using Cons False by auto
    finally show ?thesis .
  qed
qed simp

lemma replace_expr_eval:
  assumes "\<forall>b \<in> set (collect_column_bindings e). r' (replace_binding repl b) = r b"
  shows "eval_expr I r' (replace_expr repl e) = eval_expr I r e"
  using assms
proof (induction e)
  case (BoundConjunction t es)
  then have "eval_expr I r' (replace_expr repl e) = eval_expr I r e" if "e \<in> set es" for e using that by simp
  then show ?case by (simp add: comp_def cong: map_cong)
next
  case (BoundPredict info es)
  then have "map (\<lambda>e. eval_expr I r' (replace_expr repl e)) es = map (eval_expr I r) es" by simp
  then show ?case unfolding replace_expr.simps eval_expr.simps map_map comp_def by (rule arg_cong)
next
  case (BoundFunction f es)
  then have "map (\<lambda>e. eval_expr I r' (replace_expr repl e)) es = map (eval_expr I r) es" by simp
  then show ?case unfolding replace_expr.simps eval_expr.simps map_map comp_def by (rule arg_cong)
qed simp_all

text \<open>
  The binding fix recorded for a rewritten filter is right: an expression above the
  filter, with its column references replaced as the replacer does, has on a row of the
  rewritten filter the value that it had on the corresponding row of the given filter.
\<close>

theorem split_binding_fix_correct:
  assumes "distinct bs" and "\<forall>b \<in> set bs. fst b \<noteq> p" and "set (collect_column_bindings e) \<subseteq> set bs"
    and "\<forall>i < length bs. r' (p, i) = r (bs ! i)"
  shows "eval_expr I r' (replace_expr (zip bs (map (Pair p) [0..<length bs])) e) = eval_expr I r e"
proof (rule replace_expr_eval, rule ballI)
  let ?repl = "zip bs (map (Pair p) [0..<length bs])"
  fix b assume "b \<in> set (collect_column_bindings e)"
  then obtain i where i: "i < length bs" "b = bs ! i" using assms(3) by (metis in_set_conv_nth subsetD)
  have fst: "map fst ?repl = bs" by simp
  have "(b, (p, i)) \<in> set ?repl" using i by (auto simp: set_zip)
  moreover have "(p, i) \<notin> fst ` set ?repl"
    using assms(2) by (metis fst fst_conv list.set_map)
  ultimately have "replace_binding ?repl b = (p, i)"
    using assms(1) by (intro replace_binding_found) simp_all
  with i assms(4) show "r' (replace_binding ?repl b) = r b" by simp
qed

section \<open>Plans without an eligible filter\<close>

lemma split_transform_unchanged:
  fixes op :: "'v lop" and ops :: "'v lop list"
  shows "plan_all (\<lambda>op. \<not> split_can_optimize op) op \<Longrightarrow> split_transform decompose path op st = Inr (op, st)"
  "list_all (plan_all (\<lambda>op. \<not> split_can_optimize op)) ops \<Longrightarrow> split_transforms decompose path i ops st = Inr (ops, st)"
proof (induction decompose path op st and decompose path i ops st rule: split_transform_split_transforms.induct)
  case (1 decompose path op st)
  then have "split_step decompose path op st = Inr (op, st)" using plan_all_op [OF 1(2)] by (simp add: split_step_def)
  moreover have "list_all (plan_all (\<lambda>op. \<not> split_can_optimize op)) (op_children op)"
    using 1(2) by (cases op) simp
  ultimately show ?case
    using 1(1) [of "(op, st)"] by (simp add: split_transform.simps [of decompose path op])
qed simp_all

text \<open>
  A plan in which no filter is eligible (each one has a propagated limit, is not over
  a join, or has no predict with two columns of the join) is returned unchanged, whatever
  the language model would answer.
\<close>

theorem split_optimize_unchanged:
  "plan_all (\<lambda>op. \<not> split_can_optimize op) plan \<Longrightarrow> split_optimize decompose plan n = Inr plan"
  by (simp add: split_optimize_def split_transform_unchanged)

theorem split_optimize_unchanged_witness:
  "split_optimize (\<lambda>_ _ _. Inl (IOException ''no network'')) (LOp (LOGICAL_GET 0 ''t'' [''a''] [0] []) 0 [] :: nat lop) 7
   = Inr (LOp (LOGICAL_GET 0 ''t'' [''a''] [0] []) 0 [])"
  by (rule split_optimize_unchanged) (simp add: split_can_optimize_def)

theorem split_binding_fix_correct_witness:
  "eval_expr null_interp (tuple_of 9 [Some 4, Some (5 :: nat)])
     (replace_expr (zip [(0, 0), (1, 0)] (map (Pair 9) [0..<length [(0, 0), (1 :: nat, 0 :: nat)]])) (BoundColumnRef (1, 0))) = Some 5"
proof -
  have "eval_expr null_interp (tuple_of 9 [Some 4, Some (5 :: nat)])
     (replace_expr (zip [(0, 0), (1, 0)] (map (Pair 9) [0..<length [(0, 0), (1 :: nat, 0 :: nat)]])) (BoundColumnRef (1, 0)))
     = eval_expr null_interp (\<lambda>b. if b = (0, 0) then Some 4 else Some 5) (BoundColumnRef (1, 0))"
    by (rule split_binding_fix_correct) (auto simp: tuple_of_def less_Suc_eq nth_Cons split: nat.splits)
  then show ?thesis by simp
qed

section \<open>What the transformation loses\<close>

text \<open>
  The transformation keeps nothing of the filter but its first predict: the conjuncts
  after the one it splits do not occur in the outcome, which is the outcome for that
  conjunct alone.
\<close>

theorem split_predict_drops_conjuncts:
  assumes "find_first_predict e \<noteq> None"
  shows "transform_filter_join decompose path (LOp (LOGICAL_FILTER (e # es) lim pm) est (join # cs)) st =
         transform_filter_join decompose path (LOp (LOGICAL_FILTER [e] lim pm) est (join # cs)) st"
  using assms by (auto simp: transform_filter_join_def Let_def)

theorem split_predict_drops_conjuncts_witness:
  "transform_filter_join (\<lambda>_ _ _. Inr equality_decomposition) []
     (LOp (LOGICAL_FILTER [BoundPredict (new_predict_info LLM) [BoundColumnRef (0, 0), BoundColumnRef (1, 0)],
                           BoundConstant (Some 0)] (-1) []) 0 [LOp LOGICAL_CROSS_PRODUCT 0 []] :: nat lop) \<lparr>next_table_index = 2, pending_fixes = []\<rparr> =
   transform_filter_join (\<lambda>_ _ _. Inr equality_decomposition) []
     (LOp (LOGICAL_FILTER [BoundPredict (new_predict_info LLM) [BoundColumnRef (0, 0), BoundColumnRef (1, 0)]] (-1) []) 0 [LOp LOGICAL_CROSS_PRODUCT 0 []])
     \<lparr>next_table_index = 2, pending_fixes = []\<rparr>"
  by (rule split_predict_drops_conjuncts) simp

text \<open>
  A filter can be eligible because of its second conjunct and yet make the pass throw:
  eligibility looks for any predict over two join columns, the transformation takes the
  first predict of the filter and reads its second argument.
\<close>

theorem split_predict_first_unary_throws:
  assumes "find_first_predict e = Some (info, [BoundColumnRef b1])"
    and "call_decomposition_llm decompose info join = Inr d"
  shows "transform_filter_join decompose path (LOp (LOGICAL_FILTER (e # es) lim pm) est (join # cs)) st =
         Inl (InternalException ''Attempted to access index outside of vector'')"
  using assms by (simp add: transform_filter_join_def Let_def vector_at_def)

theorem split_predict_first_unary_throws_witness:
  "split_optimize (\<lambda>_ _ _. Inr equality_decomposition)
     (LOp (LOGICAL_FILTER [BoundPredict (new_predict_info LLM) [BoundColumnRef (0, 0)],
            BoundPredict (new_predict_info LLM) [BoundColumnRef (0, 0), BoundColumnRef (1, 0)]] (-1) []) 0
       [LOp LOGICAL_CROSS_PRODUCT 0 [LOp (LOGICAL_GET 0 ''l'' [''a''] [0] []) 0 [], LOp (LOGICAL_GET 1 ''r'' [''b''] [0] []) 0 []]] :: nat lop) 2
   = Inl (InternalException ''Attempted to access index outside of vector'')"
proof -
  let ?join = "LOp LOGICAL_CROSS_PRODUCT 0 [LOp (LOGICAL_GET 0 ''l'' [''a''] [0] []) 0 [], LOp (LOGICAL_GET 1 ''r'' [''b''] [0] []) 0 []] :: nat lop"
  let ?es = "[BoundPredict (new_predict_info LLM) [BoundColumnRef (0, 0)],
              BoundPredict (new_predict_info LLM) [BoundColumnRef (0, 0), BoundColumnRef (1, 0)]] :: nat expression list"
  have "transform_filter_join (\<lambda>_ _ _. Inr equality_decomposition) [] (LOp (LOGICAL_FILTER ?es (-1) []) 0 [?join])
          \<lparr>next_table_index = 2, pending_fixes = []\<rparr>
        = Inl (InternalException ''Attempted to access index outside of vector'')"
    by (rule split_predict_first_unary_throws) (simp_all add: call_decomposition_llm_def)
  moreover have "split_can_optimize (LOp (LOGICAL_FILTER ?es (-1) []) 0 [?join])"
    by (simp add: split_can_optimize_def is_supported_join_def generate_column_bindings_def get_bindings_def matched_columns_def)
  ultimately show ?thesis
    by (simp add: split_optimize_def split_transform.simps split_step_def)
qed

end
