(* ===== verification/EmptyResultPullup.thy ===== *)
theory EmptyResultPullup
  imports LogicalPlan
begin

text \<open>
  The propagation of empty inputs up a plan
  (\<^verbatim>\<open>src/optimizer/empty_result_pullup.cpp\<close>): an operator that has no rows when one of its
  inputs has none is replaced by an empty result with its column bindings.
\<close>

section \<open>The pass\<close>

fun is_empty_result :: "'v lop \<Rightarrow> bool" where
  "is_empty_result (LOp n e cs) = (case n of LOGICAL_EMPTY_RESULT _ \<Rightarrow> True | _ \<Rightarrow> False)"

text \<open>\<^verbatim>\<open>LogicalEmptyResult(op)\<close> keeps the bindings of the operator and drops its children.\<close>

definition make_empty_result :: "'v lop \<Rightarrow> 'v lop" where
  "make_empty_result op = LOp (LOGICAL_EMPTY_RESULT (get_column_bindings op)) 0 []"

fun empty_join_type :: "'v op_node \<Rightarrow> join_type" where
  "empty_join_type (LOGICAL_DELIM_JOIN jl dups conds) = jl_type jl"
| "empty_join_type (LOGICAL_COMPARISON_JOIN jl conds) = jl_type jl"
| "empty_join_type (LOGICAL_ANY_JOIN jl cond) = jl_type jl"
| "empty_join_type (LOGICAL_OTHER tag bs es) =
     (if tag = ''LOGICAL_EXCEPT'' then JOIN_ANTI else if tag = ''LOGICAL_INTERSECT'' then JOIN_SEMI else JOIN_INVALID)"
| "empty_join_type n = JOIN_INVALID"

definition pull_up_any_child :: "'v lop \<Rightarrow> 'v lop" where
  "pull_up_any_child op = (if list_ex is_empty_result (op_children op) then make_empty_result op else op)"

definition pull_up_child :: "nat \<Rightarrow> 'v lop \<Rightarrow> 'v lop result" where
  "pull_up_child i op =
     result_bind (vector_at (op_children op) i)
       (\<lambda>c. Inr (if is_empty_result c then make_empty_result op else op))"

definition pull_up_empty_join_children :: "'v lop \<Rightarrow> 'v lop result" where
  "pull_up_empty_join_children op =
     (let jt = empty_join_type (op_node op) in
      if jt = JOIN_SEMI \<or> jt = JOIN_INNER then Inr (pull_up_any_child op)
      else if jt = JOIN_ANTI \<or> jt = JOIN_MARK \<or> jt = JOIN_SINGLE \<or> jt = JOIN_LEFT then pull_up_child 0 op
      else Inr op)"

text \<open>The other operator types that are empty when any input is.\<close>

definition pulls_any_child :: "string \<Rightarrow> bool" where
  "pulls_any_child tag =
     (tag = ''LOGICAL_DISTINCT'' \<or> tag = ''LOGICAL_WINDOW'' \<or> tag = ''LOGICAL_INTERSECT'' \<or> tag = ''LOGICAL_PIVOT'')"

lemma pulls_any_child_others [simp]:
  "\<not> pulls_any_child ''LOGICAL_MATERIALIZED_CTE''" "\<not> pulls_any_child ''LOGICAL_EXCEPT''"
  by (simp_all add: pulls_any_child_def)

definition empty_result_rewrite :: "'v lop \<Rightarrow> 'v lop result" where
  "empty_result_rewrite op =
     (case op_node op of
        LOGICAL_PROJECTION _ _ \<Rightarrow> Inr (pull_up_any_child op)
      | LOGICAL_FILTER _ _ _ \<Rightarrow> Inr (pull_up_any_child op)
      | LOGICAL_GET _ _ _ _ _ \<Rightarrow> Inr (pull_up_any_child op)
      | LOGICAL_ASOF_JOIN _ _ \<Rightarrow> Inr (pull_up_any_child op)
      | LOGICAL_CROSS_PRODUCT \<Rightarrow> Inr (pull_up_any_child op)
      | LOGICAL_ANY_JOIN _ _ \<Rightarrow> pull_up_empty_join_children op
      | LOGICAL_DELIM_JOIN _ _ _ \<Rightarrow> pull_up_empty_join_children op
      | LOGICAL_COMPARISON_JOIN _ _ \<Rightarrow> pull_up_empty_join_children op
      | LOGICAL_OTHER tag _ _ \<Rightarrow>
          (if pulls_any_child tag then Inr (pull_up_any_child op)
           else if tag = ''LOGICAL_MATERIALIZED_CTE'' then pull_up_child 1 op
           else if tag = ''LOGICAL_EXCEPT'' then pull_up_empty_join_children op
           else Inr op)
      | _ \<Rightarrow> Inr op)"

fun empty_result_optimize :: "'v lop \<Rightarrow> 'v lop result" where
  "empty_result_optimize (LOp n e cs) =
     result_bind (traverse empty_result_optimize cs) (\<lambda>cs'. empty_result_rewrite (LOp n e cs'))"

section \<open>Operators that have no rows on an empty input\<close>

text \<open>What a join returns when an input is empty, by its type.\<close>

definition join_empty :: "(join_layout \<Rightarrow> 'r list \<Rightarrow> 'r list \<Rightarrow> 'r list) \<Rightarrow> bool" where
  "join_empty f \<longleftrightarrow> (\<forall>jl ls rs.
     (jl_type jl \<in> {JOIN_SEMI, JOIN_INNER} \<and> (ls = [] \<or> rs = []) \<longrightarrow> f jl ls rs = []) \<and>
     (jl_type jl \<in> {JOIN_ANTI, JOIN_MARK, JOIN_SINGLE, JOIN_LEFT} \<and> ls = [] \<longrightarrow> f jl ls rs = []))"

text \<open>The operators that the plan model leaves to its interpretation behave on empty inputs as
  documented.\<close>

definition empty_respecting :: "'v plan_interp \<Rightarrow> bool" where
  "empty_respecting I \<longleftrightarrow>
     (\<forall>conds. join_empty (\<lambda>jl. pi_join I jl conds)) \<and>
     (\<forall>dups conds. join_empty (\<lambda>jl. pi_delim_join I jl dups conds)) \<and>
     (\<forall>conds. join_empty (\<lambda>jl. pi_asof_join I jl conds)) \<and>
     (\<forall>cond. join_empty (\<lambda>jl. pi_any_join I jl cond)) \<and>
     (\<forall>tag es rss. pulls_any_child tag \<longrightarrow>
        [] \<in> set rss \<longrightarrow> pi_other I tag es rss = []) \<and>
     (\<forall>es rs. pi_other I ''LOGICAL_MATERIALIZED_CTE'' es [rs, []] = []) \<and>
     (\<forall>es rs. pi_other I ''LOGICAL_EXCEPT'' es [[], rs] = [])"

lemma cross_rows_empty [simp]: "cross_rows [] rs = []" "cross_rows ls [] = []"
  by (simp_all add: cross_rows_def)

lemma is_empty_result_results: "is_empty_result c \<Longrightarrow> results I c rs \<longleftrightarrow> rs = []"
  by (cases c) (auto split: op_node.splits elim: emptyE intro: results.empty)

lemma make_empty_result_results: "results I (make_empty_result op) rs \<longleftrightarrow> rs = []"
  by (auto simp: make_empty_result_def elim: emptyE intro: results.empty)

lemma make_empty_result_bindings: "get_column_bindings (make_empty_result op) = get_column_bindings op"
  by (simp add: make_empty_result_def)

text \<open>An operator whose results are all empty may be replaced by the empty result.\<close>

definition plan_equiv :: "'v :: linorder plan_interp \<Rightarrow> 'v lop \<Rightarrow> 'v lop \<Rightarrow> bool" where
  "plan_equiv I a b \<longleftrightarrow> refines I a b \<and> refines I b a"

lemma plan_equiv_refl [simp]: "plan_equiv I a a"
  by (simp add: plan_equiv_def)

lemma limited_prefix_Nil: "limited_prefix lim [] out \<Longrightarrow> out = []"
  by (simp add: limited_prefix_def)

lemma plan_equiv_trans: "plan_equiv I a b \<Longrightarrow> plan_equiv I b c \<Longrightarrow> plan_equiv I a c"
  by (auto simp: plan_equiv_def intro: refines_trans)

lemma plan_equiv_children:
  "list_all2 (plan_equiv I) cs' cs \<Longrightarrow> plan_equiv I (LOp n e cs') (LOp n e cs)"
  unfolding plan_equiv_def
  by (auto intro!: refines_children elim: list_all2_mono simp: list_all2_conv_all_nth)

lemma make_empty_result_equiv:
  assumes "plan_all shape_ok op" and "\<And>rs. results I op rs \<Longrightarrow> rs = []"
  shows "plan_equiv I (make_empty_result op) op"
  using results_exist [OF assms(1), of I] assms(2)
  by (auto simp: plan_equiv_def refines_def make_empty_result_results make_empty_result_bindings)

lemma pull_up_any_child_equiv:
  assumes "plan_all shape_ok op"
    and "\<And>c rs. c \<in> set (op_children op) \<Longrightarrow> is_empty_result c \<Longrightarrow> results I op rs \<Longrightarrow> rs = []"
  shows "plan_equiv I (pull_up_any_child op) op"
proof (cases "list_ex is_empty_result (op_children op)")
  case True
  then obtain c where "c \<in> set (op_children op)" "is_empty_result c" by (auto simp: list_ex_iff)
  then show ?thesis
    using True assms by (simp add: pull_up_any_child_def make_empty_result_equiv)
qed (simp add: pull_up_any_child_def plan_equiv_def)

lemma pull_up_child_equiv:
  assumes "plan_all shape_ok op" and "i < length (op_children op)"
    and "\<And>rs. is_empty_result (op_children op ! i) \<Longrightarrow> results I op rs \<Longrightarrow> rs = []"
  shows "\<exists>op'. pull_up_child i op = Inr op' \<and> plan_equiv I op' op"
proof (cases "is_empty_result (op_children op ! i)")
  case True
  with assms show ?thesis by (simp add: pull_up_child_def vector_at_def make_empty_result_equiv)
next
  case False
  with assms(2) show ?thesis by (simp add: pull_up_child_def vector_at_def plan_equiv_def)
qed

section \<open>Soundness of the rewriting of one operator\<close>

text \<open>An as-of join that keeps unmatched rows is not empty when its right input is.\<close>

fun asof_ok :: "'v lop \<Rightarrow> bool" where
  "asof_ok (LOp n e cs) =
     (case n of LOGICAL_ASOF_JOIN jl _ \<Rightarrow> jl_type jl = JOIN_INNER \<or> jl_type jl = JOIN_SEMI | _ \<Rightarrow> True)"

lemma join_emptyD:
  assumes "join_empty f"
  shows "jl_type jl = JOIN_SEMI \<or> jl_type jl = JOIN_INNER \<Longrightarrow> f jl [] rs = [] \<and> f jl ls [] = []"
    and "jl_type jl \<in> {JOIN_ANTI, JOIN_MARK, JOIN_SINGLE, JOIN_LEFT} \<Longrightarrow> f jl [] rs = []"
  using assms unfolding join_empty_def by blast+

lemma empty_respectingD:
  assumes "empty_respecting I"
  shows "join_empty (\<lambda>jl. join_rows I jl conds)" "join_empty (\<lambda>jl. pi_delim_join I jl dups conds)"
    "join_empty (\<lambda>jl. pi_asof_join I jl conds)" "join_empty (\<lambda>jl. any_join_rows I jl cond)"
  using assms unfolding empty_respecting_def
  by (auto simp: join_rows_def any_join_rows_def join_empty_def)

lemma pull_up_join_equiv:
  assumes "plan_all shape_ok op" and "length (op_children op) = 2"
    and "\<And>rs. results I op rs \<Longrightarrow> \<exists>xs ys. results I (op_children op ! 0) xs \<and> results I (op_children op ! 1) ys \<and> rs = f xs ys"
    and "empty_join_type (op_node op) \<in> {JOIN_SEMI, JOIN_INNER} \<Longrightarrow> \<forall>xs. f xs [] = [] \<and> f [] xs = []"
    and "empty_join_type (op_node op) \<in> {JOIN_ANTI, JOIN_MARK, JOIN_SINGLE, JOIN_LEFT} \<Longrightarrow> \<forall>xs. f [] xs = []"
  shows "\<exists>op'. pull_up_empty_join_children op = Inr op' \<and> plan_equiv I op' op"
proof -
  consider (both) "empty_join_type (op_node op) \<in> {JOIN_SEMI, JOIN_INNER}"
    | (left) "empty_join_type (op_node op) \<in> {JOIN_ANTI, JOIN_MARK, JOIN_SINGLE, JOIN_LEFT}"
    | (other) "empty_join_type (op_node op) \<notin> {JOIN_SEMI, JOIN_INNER, JOIN_ANTI, JOIN_MARK, JOIN_SINGLE, JOIN_LEFT}"
    by blast
  then show ?thesis
  proof cases
    case both
    obtain c1 c2 where cs: "op_children op = [c1, c2]" using assms(2) by (auto simp: length_Suc_conv numeral_2_eq_2)
    have "plan_equiv I (pull_up_any_child op) op"
      using assms(3) assms(4) [OF both] cs
      by (intro pull_up_any_child_equiv [OF assms(1)]) (force simp: is_empty_result_results)
    with both show ?thesis by (auto simp: pull_up_empty_join_children_def Let_def)
  next
    case left
    have "\<exists>op'. pull_up_child 0 op = Inr op' \<and> plan_equiv I op' op"
      using assms(2,3) assms(5) [OF left]
      by (intro pull_up_child_equiv [OF assms(1)]) (force simp: is_empty_result_results)+
    with left show ?thesis by (auto simp: pull_up_empty_join_children_def Let_def)
  qed (auto simp: pull_up_empty_join_children_def plan_equiv_def)
qed

lemma two_children:
  assumes "plan_all shape_ok (LOp n e cs)"
    and "(\<exists>jl conds. n = LOGICAL_COMPARISON_JOIN jl conds) \<or> (\<exists>jl dups conds. n = LOGICAL_DELIM_JOIN jl dups conds) \<or>
      (\<exists>jl conds. n = LOGICAL_ASOF_JOIN jl conds) \<or> (\<exists>jl cond. n = LOGICAL_ANY_JOIN jl cond)"
  obtains l r where "cs = [l, r]"
  using assms by (auto simp: length_Suc_conv numeral_2_eq_2)

lemma other_pulls_any:
  assumes "empty_respecting I" and "pulls_any_child tag"
    and "c \<in> set cs" and "is_empty_result c" and "results I (LOp (LOGICAL_OTHER tag bs es) e cs) rs"
  shows "rs = []"
proof -
  from assms(5) obtain rss where rs: "rs = pi_other I tag es rss" and "list_all2 (results I) cs rss" by (auto elim: otherE)
  then have "[] \<in> set rss"
    using assms(3,4) by (metis in_set_conv_nth list_all2_conv_all_nth is_empty_result_results)
  with assms(1,2) rs show ?thesis unfolding empty_respecting_def by blast
qed

lemma other_results2:
  assumes "results I (LOp (LOGICAL_OTHER tag bs es) e [l, r]) rs"
  shows "\<exists>xs ys. results I l xs \<and> results I r ys \<and> rs = pi_other I tag es [xs, ys]"
  using assms by (auto elim!: otherE simp: list_all2_Cons1) blast

lemma other_rewrite_equiv:
  assumes shape: "plan_all shape_ok (LOp (LOGICAL_OTHER tag bs es) e cs)" and I: "empty_respecting I"
  shows "\<exists>op'. empty_result_rewrite (LOp (LOGICAL_OTHER tag bs es) e cs) = Inr op' \<and>
           plan_equiv I op' (LOp (LOGICAL_OTHER tag bs es) e cs)" (is "\<exists>op'. empty_result_rewrite ?op = _ \<and> _ op'")
proof -
  consider (any) "pulls_any_child tag"
    | (cte) "tag = ''LOGICAL_MATERIALIZED_CTE''" | (except) "tag = ''LOGICAL_EXCEPT''"
    | (other) "\<not> pulls_any_child tag" "tag \<noteq> ''LOGICAL_MATERIALIZED_CTE''" "tag \<noteq> ''LOGICAL_EXCEPT''" by blast
  then show ?thesis
  proof cases
    case any
    then have "plan_equiv I (pull_up_any_child ?op) ?op"
      by (intro pull_up_any_child_equiv [OF shape]) (auto dest!: other_pulls_any [OF I any])
    with any show ?thesis by (simp add: empty_result_rewrite_def)
  next
    case cte
    with shape obtain l r where cs: "cs = [l, r]" by (auto simp: length_Suc_conv numeral_2_eq_2)
    have "\<exists>op'. pull_up_child 1 ?op = Inr op' \<and> plan_equiv I op' ?op"
      using I cte by (intro pull_up_child_equiv [OF shape])
        (auto simp: cs empty_respecting_def is_empty_result_results dest!: other_results2)
    with cte show ?thesis by (simp add: empty_result_rewrite_def)
  next
    case except
    with shape obtain l r where cs: "cs = [l, r]" by (auto simp: length_Suc_conv numeral_2_eq_2)
    have "\<exists>op'. pull_up_empty_join_children ?op = Inr op' \<and> plan_equiv I op' ?op"
      using I except by (intro pull_up_join_equiv [OF shape, where f = "\<lambda>xs ys. pi_other I tag es [xs, ys]"])
        (auto simp: cs empty_respecting_def dest!: other_results2)
    with except show ?thesis by (simp add: empty_result_rewrite_def)
  qed (auto simp: empty_result_rewrite_def plan_equiv_def)
qed

lemma empty_result_rewrite_equiv:
  assumes shape: "plan_all shape_ok op" and I: "empty_respecting I" and asof: "asof_ok op"
  shows "\<exists>op'. empty_result_rewrite op = Inr op' \<and> plan_equiv I op' op"
proof (cases op)
  case (LOp n e cs)
  note E = empty_respectingD [OF I]
  show ?thesis
  proof (cases n)
    case (LOGICAL_COMPARISON_JOIN jl conds)
    with LOp shape obtain l r where "cs = [l, r]" by (blast elim: two_children)
    with LOp LOGICAL_COMPARISON_JOIN shape show ?thesis
      using join_emptyD [OF E(1), of jl]
      by (auto simp: empty_result_rewrite_def intro!: pull_up_join_equiv [where f = "join_rows I jl conds"] elim!: joinE) blast
  next
    case (LOGICAL_DELIM_JOIN jl dups conds)
    with LOp shape obtain l r where "cs = [l, r]" by (blast elim: two_children)
    with LOp LOGICAL_DELIM_JOIN shape show ?thesis
      using join_emptyD [OF E(2), of jl]
      by (auto simp: empty_result_rewrite_def intro!: pull_up_join_equiv [where f = "pi_delim_join I jl dups conds"] elim!: delim_joinE) blast
  next
    case (LOGICAL_ANY_JOIN jl cond)
    with LOp shape obtain l r where "cs = [l, r]" by (blast elim: two_children)
    with LOp LOGICAL_ANY_JOIN shape show ?thesis
      using join_emptyD [OF E(4), of jl]
      by (auto simp: empty_result_rewrite_def intro!: pull_up_join_equiv [where f = "any_join_rows I jl cond"] elim!: any_joinE) blast
  next
    case (LOGICAL_ASOF_JOIN jl conds)
    with LOp shape obtain l r where "cs = [l, r]" by (blast elim: two_children)
    with LOp LOGICAL_ASOF_JOIN shape asof show ?thesis
      using join_emptyD [OF E(3), of jl]
      by (auto simp: empty_result_rewrite_def is_empty_result_results intro!: pull_up_any_child_equiv elim!: asof_joinE)
  next
    case (LOGICAL_OTHER tag bs es)
    with LOp shape I show ?thesis by (auto intro: other_rewrite_equiv)
  qed (use LOp shape in \<open>auto simp: empty_result_rewrite_def is_empty_result_results dest: limited_prefix_Nil
        intro!: pull_up_any_child_equiv elim!: results_elims\<close>)
qed

section \<open>The whole pass\<close>

text \<open>
  The contract of a pass that works from the leaves up: when the rewriting of one operator
  returns an equivalent plan of the right shape, so does the pass.
\<close>

locale bottom_up_pass =
  fixes I :: "'v :: linorder plan_interp"
    and rewrite :: "'v lop \<Rightarrow> 'v lop result" and optimize :: "'v lop \<Rightarrow> 'v lop result"
    and ok :: "'v lop \<Rightarrow> bool"
  assumes optimize_unfold: "optimize (LOp n e cs) = result_bind (traverse optimize cs) (\<lambda>cs'. rewrite (LOp n e cs'))"
    and ok_children: "ok (LOp n e cs) \<Longrightarrow> length cs' = length cs \<Longrightarrow> ok (LOp n e cs')"
    and rewrite_equiv: "ok op \<Longrightarrow> list_all (plan_all shape_ok) (op_children op) \<Longrightarrow>
          \<exists>op'. rewrite op = Inr op' \<and> plan_equiv I op' op \<and> plan_all shape_ok op'"
begin

lemma optimize_equiv: "plan_all ok op \<Longrightarrow> \<exists>op'. optimize op = Inr op' \<and> plan_equiv I op' op \<and> plan_all shape_ok op'"
proof (induction op)
  case (LOp n e cs)
  have "\<forall>c \<in> set cs. \<exists>c'. optimize c = Inr c' \<and> (plan_equiv I c' c \<and> plan_all shape_ok c')"
    using LOp by (simp add: list_all_iff)
  from traverse_total [OF this] obtain cs' where "traverse optimize cs = Inr cs'"
    "list_all2 (\<lambda>c' c. plan_equiv I c' c \<and> plan_all shape_ok c') cs' cs" by blast
  then have cs': "traverse optimize cs = Inr cs'" "list_all2 (plan_equiv I) cs' cs" "list_all (plan_all shape_ok) cs'"
    by (auto simp: list_all2_conv_all_nth list_all_length)
  have "ok (LOp n e cs')" using LOp.prems ok_children list_all2_lengthD [OF cs'(2)] by auto
  with cs'(3) obtain op' where op': "rewrite (LOp n e cs') = Inr op'" "plan_equiv I op' (LOp n e cs')" "plan_all shape_ok op'"
    using rewrite_equiv [of "LOp n e cs'"] by auto
  with cs' show ?case
    using plan_equiv_trans [OF op'(2) plan_equiv_children [OF cs'(2)]] by (auto simp: optimize_unfold)
qed

end

lemma shape_ok_children: "shape_ok (LOp n e cs) \<Longrightarrow> length cs' = length cs \<Longrightarrow> shape_ok (LOp n e cs')"
  by (cases n) auto

lemma asof_ok_children: "asof_ok (LOp n e cs) \<Longrightarrow> asof_ok (LOp n e cs')"
  by (cases n) auto

lemma make_empty_result_shape: "plan_all shape_ok (make_empty_result op)"
  by (simp add: make_empty_result_def)

lemma empty_result_rewrite_cases: "empty_result_rewrite op = Inr op' \<Longrightarrow> op' = op \<or> op' = make_empty_result op"
  by (auto simp: empty_result_rewrite_def pull_up_any_child_def pull_up_empty_join_children_def pull_up_child_def
      Let_def result_bind_eq_Inr split: op_node.splits if_splits)

lemma empty_result_rewrite_step:
  assumes "empty_respecting I" and "shape_ok op \<and> asof_ok op" and "list_all (plan_all shape_ok) (op_children op)"
  shows "\<exists>op'. empty_result_rewrite op = Inr op' \<and> plan_equiv I op' op \<and> plan_all shape_ok op'"
proof -
  have shape: "plan_all shape_ok op" using assms by (cases op) simp
  from empty_result_rewrite_equiv [OF shape assms(1)] assms(2)
  obtain op' where "empty_result_rewrite op = Inr op'" "plan_equiv I op' op" by blast
  moreover from empty_result_rewrite_cases [OF this(1)] have "plan_all shape_ok op'"
    using shape make_empty_result_shape by auto
  ultimately show ?thesis by blast
qed

interpretation empty_result: bottom_up_pass I empty_result_rewrite empty_result_optimize
  "\<lambda>op. empty_respecting I \<and> shape_ok op \<and> asof_ok op" for I
  by unfold_locales (auto simp del: shape_ok.simps asof_ok.simps intro: shape_ok_children asof_ok_children empty_result_rewrite_step)

lemma plan_all_conj: "plan_all (\<lambda>op. A \<and> P op \<and> Q op) op \<longleftrightarrow> A \<and> plan_all P op \<and> plan_all Q op"
  by (induction op) (auto simp: list_all_iff)

text \<open>
  C12. On a plan whose operators have the children they are built with and whose as-of joins
  are inner or semi joins, the pass returns a plan with the same column bindings and
  exactly the same results.
\<close>

theorem empty_result_pullup_equivalent:
  assumes "empty_respecting I" and "plan_all shape_ok op" and "plan_all asof_ok op"
  shows "\<exists>op'. empty_result_optimize op = Inr op' \<and> get_column_bindings op' = get_column_bindings op \<and>
           (\<forall>rs. results I op' rs \<longleftrightarrow> results I op rs)"
proof -
  have "plan_all (\<lambda>op. empty_respecting I \<and> shape_ok op \<and> asof_ok op) op"
    by (subst plan_all_conj) (use assms in simp)
  from empty_result.optimize_equiv [OF this] show ?thesis by (auto simp: plan_equiv_def refines_def)
qed

text \<open>The interpretation with an empty world respects empty inputs.\<close>

lemma null_interp_empty: "empty_respecting null_interp"
  by (simp add: empty_respecting_def join_empty_def null_interp_def)

theorem empty_result_pullup_equivalent_witness:
  "\<exists>op'. empty_result_optimize (LOp LOGICAL_CROSS_PRODUCT 0
      [LOp (LOGICAL_GET 0 ''t'' [''a''] [0] []) 0 [], LOp (LOGICAL_EMPTY_RESULT [(1, 0)]) 0 []] :: nat lop) = Inr op' \<and>
     get_column_bindings op' = [(0, 0), (1, 0)] \<and> results null_interp op' []"
proof -
  let ?op = "LOp LOGICAL_CROSS_PRODUCT 0
      [LOp (LOGICAL_GET 0 ''t'' [''a''] [0] []) 0 [], LOp (LOGICAL_EMPTY_RESULT [(1, 0)]) 0 []] :: nat lop"
  have "get_column_bindings ?op = [(0, 0), (1, 0)]" by (simp add: get_bindings_def generate_column_bindings_def)
  moreover have "results null_interp ?op (cross_rows (pi_table null_interp 0) [])"
    by (intro results.cross results.get results.empty)
  ultimately show ?thesis
    using empty_result_pullup_equivalent [OF null_interp_empty, of ?op] by auto
qed

section \<open>Outer as-of joins\<close>

text \<open>A table with one row; a left as-of join keeps the rows of its left input that have no match.\<close>

definition asof_interp :: "nat plan_interp" where
  "asof_interp = null_interp\<lparr>pi_table := \<lambda>_. [\<lambda>b. Some 7],
     pi_asof_join := \<lambda>jl conds ls rs. if jl_type jl = JOIN_LEFT \<and> rs = [] then ls else []\<rparr>"

definition asof_left_query :: "nat lop" where
  "asof_left_query = LOp (LOGICAL_ASOF_JOIN \<lparr>jl_type = JOIN_LEFT, jl_mark_index = 0, jl_left_projection_map = [], jl_right_projection_map = []\<rparr> []) 0
     [LOp (LOGICAL_GET 0 ''t'' [''a''] [0] []) 0 [], LOp (LOGICAL_EMPTY_RESULT [(1, 0)]) 0 []]"

text \<open>
  The pass also replaces a left as-of join by the empty result when its right input is
  empty, which loses the unmatched rows of the left input: the query has the one row of its
  left table as its result and the plan after the pass has none.
\<close>

theorem empty_result_pullup_asof_left:
  "empty_respecting asof_interp \<and> plan_all shape_ok asof_left_query \<and>
   (\<forall>rs. results asof_interp asof_left_query rs \<longleftrightarrow> rs = [\<lambda>b. Some 7]) \<and>
   (\<exists>op'. empty_result_optimize asof_left_query = Inr op' \<and> (\<forall>rs. results asof_interp op' rs \<longleftrightarrow> rs = []))"
proof (intro conjI)
  show "empty_respecting asof_interp"
    by (simp add: asof_interp_def empty_respecting_def join_empty_def null_interp_def)
  show "plan_all shape_ok asof_left_query" by (simp add: asof_left_query_def)
  show "\<forall>rs. results asof_interp asof_left_query rs \<longleftrightarrow> rs = [\<lambda>b. Some 7]"
  proof (intro allI iffI)
    fix rs assume "results asof_interp asof_left_query rs"
    then show "rs = [\<lambda>b. Some 7]"
      by (auto simp: asof_left_query_def asof_interp_def elim!: asof_joinE getE emptyE)
  next
    fix rs :: "nat tuple list" assume rs: "rs = [\<lambda>b. Some 7]"
    have "results asof_interp asof_left_query (pi_asof_join asof_interp
        \<lparr>jl_type = JOIN_LEFT, jl_mark_index = 0, jl_left_projection_map = [], jl_right_projection_map = []\<rparr> []
        (pi_table asof_interp 0) [])"
      unfolding asof_left_query_def by (intro results.asof_join results.get results.empty)
    then show "results asof_interp asof_left_query rs" by (simp add: asof_interp_def rs)
  qed
  show "\<exists>op'. empty_result_optimize asof_left_query = Inr op' \<and> (\<forall>rs. results asof_interp op' rs \<longleftrightarrow> rs = [])"
    by (auto simp: asof_left_query_def empty_result_rewrite_def pull_up_any_child_def make_empty_result_results)
qed

end
