(* ===== verification/Prompt.thy ===== *)
theory Prompt
  imports DuckPrelude
begin

text \<open>
  Prompts of semantic operators: the columns a prompt reads and writes
  (\<^verbatim>\<open>src/include/duckdb/common/prompt.hpp\<close>, \<^verbatim>\<open>src/parser/transform/expression/transform_predict.cpp\<close>,
  \<^verbatim>\<open>src/parser/transform/tableref/transform_table_predict.cpp\<close>).

  The regular expressions of the code are modelled by matchers. In each of them the
  characters that end a repetition are outside its class, so that the greedy match is
  the only one and a match at a position is unique; an iterator searches from the end of
  the last match.
\<close>

section \<open>Characters\<close>

definition code :: "char \<Rightarrow> nat" where
  "code c = of_char c"

definition is_upper :: "char \<Rightarrow> bool" where
  "is_upper c = (65 \<le> code c \<and> code c \<le> 90)"

definition is_lower :: "char \<Rightarrow> bool" where
  "is_lower c = (97 \<le> code c \<and> code c \<le> 122)"

definition is_digit :: "char \<Rightarrow> bool" where
  "is_digit c = (48 \<le> code c \<and> code c \<le> 57)"

definition is_ident_start :: "char \<Rightarrow> bool" where
  "is_ident_start c = (is_upper c \<or> is_lower c \<or> code c = 95)"

definition is_word :: "char \<Rightarrow> bool" where
  "is_word c = (is_ident_start c \<or> is_digit c)"

definition is_space :: "char \<Rightarrow> bool" where
  "is_space c = (code c = 32 \<or> (9 \<le> code c \<and> code c \<le> 13))"

definition to_upper :: "char \<Rightarrow> char" where
  "to_upper c = (if is_lower c then char_of (code c - 32) else c)"

definition to_lower :: "char \<Rightarrow> char" where
  "to_lower c = (if is_upper c then char_of (code c + 32) else c)"

section \<open>Output columns\<close>

text \<open>The alternatives of \<^verbatim>\<open>Prompt::OUT_REGEX\<close>, in order.\<close>

definition out_type_names :: "string list" where
  "out_type_names = [''INTEGER'', ''VARCHAR'', ''BOOLEAN'', ''BOOL'', ''DOUBLE'']"

definition match_type_name :: "string \<Rightarrow> string option" where
  "match_type_name s =
     map_option (\<lambda>t. take (length t) s)
       (List.find (\<lambda>t. map to_upper (take (length t) s) = t) out_type_names)"

text \<open>A match at the start of the string: name, type as written and length.\<close>

definition match_out_at :: "string \<Rightarrow> (string \<times> string \<times> nat) option" where
  "match_out_at s =
     (let w = takeWhile is_word s; r = dropWhile is_word s;
          sp = takeWhile is_space r; r' = dropWhile is_space r in
      if w = [] \<or> sp = [] then None
      else map_option (\<lambda>t. (w, t, length w + length sp + length t)) (match_type_name r'))"

function out_matches :: "string \<Rightarrow> (string \<times> string) list" where
  "out_matches [] = []"
| "out_matches (c # cs) =
     (case match_out_at (c # cs) of
        None \<Rightarrow> out_matches cs
      | Some (name, type, n) \<Rightarrow> (name, type) # out_matches (drop n (c # cs)))"
  by pat_completeness auto
termination
  by (relation "measure length")
    (auto simp: match_out_at_def Let_def split: if_splits)

text \<open>The types that the prompts and the predictors name; every other type by its printed name.\<close>

datatype logical_type_id = VARCHAR | INTEGER | BOOLEAN | DOUBLE | OTHER_TYPE string

text \<open>\<^verbatim>\<open>Prompt::type_to_logical_type\<close>\<close>

definition type_to_logical_type :: "string \<Rightarrow> logical_type_id result" where
  "type_to_logical_type type =
     (if type = ''VARCHAR'' then Inr VARCHAR
      else if type = ''INTEGER'' then Inr INTEGER
      else if type = ''BOOLEAN'' \<or> type = ''BOOL'' then Inr BOOLEAN
      else if type = ''DOUBLE'' then Inr DOUBLE
      else Inl (InternalException ''Unsupported column type''))"

section \<open>Input columns\<close>

text \<open>
  \<^verbatim>\<open>\{\{([A-Za-z_][A-Za-z0-9_]*)(\.[A-Za-z_][A-Za-z0-9_]*)?\}\}\<close> at the start of the string;
  the flag says whether the qualified form is allowed. The value is the text between the
  braces.
\<close>

definition match_ident :: "string \<Rightarrow> (string \<times> string) option" where
  "match_ident s =
     (case s of [] \<Rightarrow> None
      | c # cs \<Rightarrow> if is_ident_start c then Some (takeWhile is_word s, dropWhile is_word s) else None)"

definition match_close :: "string \<Rightarrow> bool" where
  "match_close s = (take 2 s = ''}}'')"

definition match_in_at :: "bool \<Rightarrow> string \<Rightarrow> string option" where
  "match_in_at qualified s =
     (if take 2 s \<noteq> ''{{'' then None
      else case match_ident (drop 2 s) of
             None \<Rightarrow> None
           | Some (t, r) \<Rightarrow>
               if match_close r then Some t
               else if qualified \<and> take 1 r = ''.''
               then (case match_ident (drop 1 r) of
                       None \<Rightarrow> None
                     | Some (c, r') \<Rightarrow> if match_close r' then Some (t @ ''.'' @ c) else None)
               else None)"

lemma takeWhile_dropWhile_length: "length (takeWhile P xs) + length (dropWhile P xs) = length xs"
  by (metis length_append takeWhile_dropWhile_id)

function in_matches :: "bool \<Rightarrow> string \<Rightarrow> string list" where
  "in_matches qualified [] = []"
| "in_matches qualified (c # cs) =
     (case match_in_at qualified (c # cs) of
        None \<Rightarrow> in_matches qualified cs
      | Some attr \<Rightarrow> attr # in_matches qualified (drop (length attr + 4) (c # cs)))"
  by pat_completeness auto
termination
  by (relation "measure (length \<circ> snd)") auto

section \<open>The parsed predict expression\<close>

text \<open>\<^verbatim>\<open>Transformer::MakePGColumnRef\<close>: the name before the first dot is the table's.\<close>

definition make_column_ref :: "string \<Rightarrow> string list" where
  "make_column_ref col_name =
     (if CHR ''.'' \<in> set col_name
      then [takeWhile (\<lambda>c. c \<noteq> CHR ''.'') col_name, tl (dropWhile (\<lambda>c. c \<noteq> CHR ''.'') col_name)]
      else [col_name])"

record predict_expression =
  pe_model_name :: string
  pe_prompt :: string
  pe_agg :: bool
  pe_out_col_name :: string
  pe_out_col_type :: "logical_type_id option"
  pe_input_col_names :: "string list"
  pe_children :: "string list list"

text \<open>The loop over the output matches of a scalar predict.\<close>

fun scalar_output :: "(string \<times> string) list \<Rightarrow> nat \<Rightarrow> string \<times> logical_type_id option \<Rightarrow>
    (string \<times> logical_type_id option) result" where
  "scalar_output [] n_cols out = Inr out"
| "scalar_output ((name, type) # ms) n_cols out =
     (if n_cols > 0 then Inl (ParserException ''Scalar predict clause only support one output column.'')
      else result_bind (type_to_logical_type type) (\<lambda>t. scalar_output ms (n_cols + 1) (name, Some t)))"

text \<open>\<^verbatim>\<open>Transformer::TransformPredict\<close>; a missing model name or prompt is \<open>None\<close>.\<close>

definition transform_predict :: "string option \<Rightarrow> string option \<Rightarrow> bool \<Rightarrow> predict_expression result" where
  "transform_predict model_name prompt agg =
     (let p = (case prompt of None \<Rightarrow> [] | Some s \<Rightarrow> s);
          ins = in_matches True p in
      result_bind (scalar_output (out_matches p) 0 ([], None)) (\<lambda>(name, type).
        Inr \<lparr>pe_model_name = (case model_name of None \<Rightarrow> [] | Some m \<Rightarrow> m), pe_prompt = p, pe_agg = agg,
             pe_out_col_name = name, pe_out_col_type = type,
             pe_input_col_names = ins, pe_children = map make_column_ref ins\<rparr>))"

text \<open>\<^verbatim>\<open>Transformer::TransformTablePredict\<close>: sources and the alias are those of the statement.\<close>

record 's table_predict_ref =
  tp_model_name :: string
  tp_prompt :: string
  tp_parsed_input_columns :: "string list list"
  tp_is_embedding :: bool
  tp_source :: "'s option"
  tp_opt_source :: "'s option"
  tp_alias :: string

definition transform_table_predict ::
  "string option \<Rightarrow> string option \<Rightarrow> string option \<Rightarrow> 's option \<Rightarrow> 's option \<Rightarrow> string \<Rightarrow> 's table_predict_ref" where
  "transform_table_predict model_name prompt embedding_col source opt_source alias =
     \<lparr>tp_model_name = (case model_name of None \<Rightarrow> [] | Some m \<Rightarrow> m),
      tp_prompt = (case prompt of None \<Rightarrow> [] | Some p \<Rightarrow> p),
      tp_parsed_input_columns =
        (case prompt of None \<Rightarrow> [] | Some p \<Rightarrow> map make_column_ref (in_matches False p)) @
        (case embedding_col of None \<Rightarrow> [] | Some c \<Rightarrow> [make_column_ref c]),
      tp_is_embedding = (embedding_col \<noteq> None),
      tp_source = source, tp_opt_source = opt_source, tp_alias = alias\<rparr>"

section \<open>Reading the input columns back\<close>

text \<open>A prompt template: text and placeholders, and the prompt it prints.\<close>

datatype prompt_segment = Text string | Input string

fun render_segment :: "prompt_segment \<Rightarrow> string" where
  "render_segment (Text t) = t"
| "render_segment (Input a) = ''{{'' @ a @ ''}}''"

definition render :: "prompt_segment list \<Rightarrow> string" where
  "render segs = concat (map render_segment segs)"

fun segment_inputs :: "prompt_segment list \<Rightarrow> string list" where
  "segment_inputs [] = []"
| "segment_inputs (Text t # segs) = segment_inputs segs"
| "segment_inputs (Input a # segs) = a # segment_inputs segs"

definition is_ident :: "string \<Rightarrow> bool" where
  "is_ident a = (case a of [] \<Rightarrow> False | c # cs \<Rightarrow> is_ident_start c \<and> list_all is_word cs)"

definition is_attr :: "bool \<Rightarrow> string \<Rightarrow> bool" where
  "is_attr qualified a =
     (is_ident a \<or> (qualified \<and> CHR ''.'' \<in> set a \<and> list_all is_ident (make_column_ref a)))"

text \<open>Text without two opening braces in a row and without one at its end. Single braces, as around an output column, are allowed.\<close>

fun plain_text :: "string \<Rightarrow> bool" where
  "plain_text [] = True"
| "plain_text [c] = (c \<noteq> CHR ''{'')"
| "plain_text (c # d # cs) = (\<not> (c = CHR ''{'' \<and> d = CHR ''{'') \<and> plain_text (d # cs))"

fun segment_ok :: "bool \<Rightarrow> prompt_segment \<Rightarrow> bool" where
  "segment_ok qualified (Text t) = plain_text t"
| "segment_ok qualified (Input a) = is_attr qualified a"

lemma code_literals [simp]:
  "code (CHR ''{'') = 123" "code (CHR ''}'') = 125" "code (CHR ''.'') = 46" "code (CHR '' '') = 32"
  by (simp_all add: code_def)

lemma not_word_literals [simp]:
  "\<not> is_word (CHR ''{'')" "\<not> is_word (CHR ''}'')" "\<not> is_word (CHR ''.'')" "\<not> is_word (CHR '' '')"
  by (simp_all add: is_word_def is_ident_start_def is_upper_def is_lower_def is_digit_def)

lemma is_ident_word: "is_ident a \<Longrightarrow> list_all is_word a"
  by (cases a) (auto simp: is_ident_def is_word_def)

lemma takeWhile_word_append:
  "list_all is_word a \<Longrightarrow> \<not> is_word c \<Longrightarrow>
   takeWhile is_word (a @ c # rest) = a \<and> dropWhile is_word (a @ c # rest) = c # rest"
  by (induction a) auto

lemma match_ident_append:
  assumes "is_ident a" and "\<not> is_word c"
  shows "match_ident (a @ c # rest) = Some (a, c # rest)"
proof (cases a)
  case (Cons x xs)
  with assms takeWhile_word_append [OF is_ident_word [OF assms(1)] assms(2), of rest] show ?thesis
    by (simp add: match_ident_def is_ident_def)
qed (use assms in \<open>simp add: is_ident_def\<close>)

lemma match_in_at_ident: "is_ident a \<Longrightarrow> match_in_at q (''{{'' @ a @ ''}}'' @ rest) = Some a"
  by (simp add: match_in_at_def match_ident_append match_close_def)

lemma match_in_at_qualified:
  "is_ident t \<Longrightarrow> is_ident c \<Longrightarrow> match_in_at True (''{{'' @ (t @ ''.'' @ c) @ ''}}'' @ rest) = Some (t @ ''.'' @ c)"
  by (simp add: match_in_at_def match_ident_append match_close_def)

lemma make_column_ref_split:
  assumes "CHR ''.'' \<in> set a"
  shows "\<exists>t c. a = t @ ''.'' @ c \<and> make_column_ref a = [t, c]"
proof -
  let ?P = "\<lambda>c. c \<noteq> CHR ''.''"
  have ne: "dropWhile ?P a \<noteq> []" using assms by auto
  then have "hd (dropWhile ?P a) = CHR ''.''" using hd_dropWhile [OF ne] by simp
  with ne have "dropWhile ?P a = CHR ''.'' # tl (dropWhile ?P a)" by (metis list.collapse)
  then have "a = takeWhile ?P a @ ''.'' @ tl (dropWhile ?P a)"
    by (metis append_Cons append_Nil takeWhile_dropWhile_id)
  with assms show ?thesis by (auto simp: make_column_ref_def)
qed

lemma match_in_at_attr:
  assumes "is_attr q a"
  shows "match_in_at q (''{{'' @ a @ ''}}'' @ rest) = Some a"
proof (cases "is_ident a")
  case True
  then show ?thesis by (rule match_in_at_ident)
next
  case False
  with assms have q: "q" and dot: "CHR ''.'' \<in> set a" and ids: "list_all is_ident (make_column_ref a)"
    by (simp_all add: is_attr_def)
  obtain t c where a: "a = t @ ''.'' @ c" and "make_column_ref a = [t, c]"
    using make_column_ref_split [OF dot] by blast
  with ids have "is_ident t" "is_ident c" by simp_all
  then show ?thesis unfolding a using q match_in_at_qualified [of t c rest] by simp
qed

lemma in_matches_text: "plain_text t \<Longrightarrow> in_matches q (t @ rest) = in_matches q rest"
proof (induction t rule: plain_text.induct)
  case (2 c)
  then have "match_in_at q (c # rest) = None" by (cases rest) (simp_all add: match_in_at_def)
  then show ?case by simp
next
  case (3 c d cs)
  then have "match_in_at q (c # d # cs @ rest) = None" by (simp add: match_in_at_def)
  with 3 show ?case by (simp del: in_matches.simps(2) add: in_matches.simps(2) [of q c])
qed simp

text \<open>
  C37. The input columns of a prompt are read back exactly: for a prompt printed from any
  template whose text has no two opening braces in a row and does not end in one, and whose placeholders are
  identifiers (or, for a scalar predict, qualified identifiers), the matches are the placeholders, in order. The
  output columns of a prompt, such as \<^verbatim>\<open>{name VARCHAR}\<close>, are such text.
\<close>

theorem in_matches_render:
  "list_all (segment_ok qualified) segs \<Longrightarrow> in_matches qualified (render segs) = segment_inputs segs"
proof (induction segs rule: segment_inputs.induct)
  case 1
  then show ?case by (simp add: render_def)
next
  case (2 t segs)
  then show ?case by (simp add: render_def in_matches_text)
next
  case (3 a segs)
  then have "match_in_at qualified (''{{'' @ a @ ''}}'' @ render segs) = Some a"
    by (intro match_in_at_attr) simp
  moreover have "render (Input a # segs) = ''{{'' @ a @ ''}}'' @ render segs" by (simp add: render_def)
  moreover have "drop (length a + 4) (''{{'' @ a @ ''}}'' @ render segs) = render segs"
    by (simp add: numeral_eq_Suc)
  ultimately show ?case using 3 by simp
qed

theorem in_matches_render_witness:
  "in_matches True ''extract the {sentiment VARCHAR} of {{r.review}} about {{topic}}?'' = [''r.review'', ''topic'']"
proof -
  let ?segs = "[Text ''extract the {sentiment VARCHAR} of '', Input ''r.review'', Text '' about '', Input ''topic'', Text ''?'']"
  have "in_matches True (render ?segs) = segment_inputs ?segs"
    by (rule in_matches_render) code_simp
  moreover have "render ?segs = ''extract the {sentiment VARCHAR} of {{r.review}} about {{topic}}?''" by (simp add: render_def)
  ultimately show ?thesis by simp
qed

section \<open>When a scalar predict is accepted\<close>

lemma match_type_name_upper: "match_type_name s = Some t \<Longrightarrow> map to_upper t \<in> set out_type_names"
  by (auto simp: match_type_name_def find_Some_iff)

lemma out_matches_types: "(name, type) \<in> set (out_matches s) \<Longrightarrow> map to_upper type \<in> set out_type_names"
proof (induction s rule: out_matches.induct)
  case (2 c cs)
  then show ?case
    by (auto simp: match_out_at_def Let_def dest: match_type_name_upper split: option.splits if_splits)
qed simp

lemma type_names_upper: "\<forall>t \<in> set out_type_names. map to_upper t = t"
  by code_simp

lemma type_to_logical_type_known: "(\<exists>t. type_to_logical_type type = Inr t) = (type \<in> set out_type_names)"
  by (auto simp: type_to_logical_type_def out_type_names_def)

lemma scalar_output_ok:
  "(\<exists>out. scalar_output ms n init = Inr out) \<longleftrightarrow>
     ms = [] \<or> (n = 0 \<and> (\<exists>name type. ms = [(name, type)] \<and> type \<in> set out_type_names))"
proof (cases ms rule: list.exhaust [case_names Nil Cons])
  case (Cons m ms')
  obtain name type where m: "m = (name, type)" by fastforce
  show ?thesis
    using type_to_logical_type_known [of type]
    by (cases ms') (auto simp: Cons m result_bind_eq_Inr)
qed simp

text \<open>
  A scalar predict is accepted exactly when its prompt names at most one output column
  and spells its type in upper case. The pattern that finds the column ignores case, the
  translation of the type does not: \<open>price integer\<close> is found and then refused with an
  internal error.
\<close>

theorem transform_predict_accepts:
  "(\<exists>pe. transform_predict model (Some prompt) agg = Inr pe) \<longleftrightarrow>
     out_matches prompt = [] \<or>
     (\<exists>name type. out_matches prompt = [(name, type)] \<and> map to_upper type = type)"
proof -
  have "(\<exists>pe. transform_predict model (Some prompt) agg = Inr pe) \<longleftrightarrow>
        (\<exists>out. scalar_output (out_matches prompt) 0 ([], None) = Inr out)"
    by (auto simp: transform_predict_def Let_def result_bind_eq_Inr)
  also have "\<dots> \<longleftrightarrow> out_matches prompt = [] \<or>
      (\<exists>name type. out_matches prompt = [(name, type)] \<and> type \<in> set out_type_names)"
    using scalar_output_ok [of "out_matches prompt" 0 "([], None)"] by simp
  also have "\<dots> \<longleftrightarrow> out_matches prompt = [] \<or>
      (\<exists>name type. out_matches prompt = [(name, type)] \<and> map to_upper type = type)"
    using out_matches_types [of _ _ prompt] type_names_upper by (metis list.set_intros(1))
  finally show ?thesis .
qed

lemma lower_case_type_refused:
  "transform_predict None (Some ''extract the {price integer} from {{x}}'') False
   = Inl (InternalException ''Unsupported column type'')"
  by code_simp

end
