(* ===== verification/ModelCatalog.thy ===== *)
theory ModelCatalog
  imports Prompt LogicalPlan
begin

text \<open>
  Models in the catalog: the CREATE MODEL statement
  (\<^verbatim>\<open>src/parser/transform/statement/transform_create_model.cpp\<close>), its parsed information
  (\<^verbatim>\<open>src/parser/parsed_data/create_model_info.cpp\<close>), the catalog entry
  (\<^verbatim>\<open>src/catalog/catalog_entry/model_catalog_entry.cpp\<close>), and the selection of a model for a
  query (\<^verbatim>\<open>src/include/duckdb/planner/model_selection.hpp\<close>).

  Types are their names. A case-insensitive map is an association list with an
  equality that ignores case; the locale \<open>key_map\<close> states what its users rely on.
\<close>

section \<open>Case-insensitive maps\<close>

locale key_map =
  fixes same :: "'k \<Rightarrow> 'k \<Rightarrow> bool" and find :: "'m \<Rightarrow> 'k \<Rightarrow> 'v option"
    and put :: "'k \<Rightarrow> 'v \<Rightarrow> 'm \<Rightarrow> 'm" and new :: 'm
  assumes find_new: "find new k = None"
    and find_put: "find (put k v m) k' = (if same k k' then Some v else find m k')"
begin

text \<open>After inserting a list of pairs in order, a key finds the last pair whose key is the same.\<close>

lemma find_puts:
  "find (fold (\<lambda>(k, v). put k v) kvs m) k' =
     (case filter (\<lambda>(k, v). same k k') (rev kvs) of [] \<Rightarrow> find m k' | kv # _ \<Rightarrow> Some (snd kv))"
  by (induction kvs arbitrary: m) (auto simp: find_put split: list.splits)

lemma find_puts_Some:
  assumes "find (fold (\<lambda>(k, v). put k v) kvs new) k' = Some v"
  shows "\<exists>k. (k, v) \<in> set kvs \<and> same k k'"
proof (cases "filter (\<lambda>(k, v). same k k') (rev kvs)")
  case Nil
  with assms show ?thesis by (simp add: find_puts find_new)
next
  case (Cons kv rest)
  have "kv \<in> set (filter (\<lambda>(k, v). same k k') (rev kvs))" unfolding Cons by simp
  then have "(fst kv, snd kv) \<in> set kvs \<and> same (fst kv) k'" by (auto simp: case_prod_beta)
  moreover have "snd kv = v" using assms Cons by (simp add: find_puts)
  ultimately show ?thesis by blast
qed

lemma find_puts_None:
  "find (fold (\<lambda>(k, v). put k v) kvs new) k' = None \<longleftrightarrow> (\<forall>(k, v) \<in> set kvs. \<not> same k k')"
proof (cases "filter (\<lambda>(k, v). same k k') (rev kvs)")
  case Nil
  then show ?thesis by (auto simp: find_puts find_new filter_empty_conv)
next
  case (Cons kv rest)
  have "kv \<in> set (filter (\<lambda>(k, v). same k k') (rev kvs))" unfolding Cons by simp
  then have "kv \<in> set kvs \<and> same (fst kv) k'" by (auto simp: case_prod_beta)
  with Cons show ?thesis by (auto simp: find_puts case_prod_beta)
qed

end

definition ci_equals :: "string \<Rightarrow> string \<Rightarrow> bool" where
  "ci_equals a b = (map to_lower a = map to_lower b)"

definition ci_find_entry :: "(string \<times> 'a) list \<Rightarrow> string \<Rightarrow> (string \<times> 'a) option" where
  "ci_find_entry m k = List.find (\<lambda>(k', v). ci_equals k' k) m"

definition ci_find :: "(string \<times> 'a) list \<Rightarrow> string \<Rightarrow> 'a option" where
  "ci_find m k = map_option snd (ci_find_entry m k)"

text \<open>\<^verbatim>\<open>map[key] = value\<close> keeps the spelling of a present key; \<^verbatim>\<open>insert\<close> keeps a present value.\<close>

fun ci_put :: "string \<Rightarrow> 'a \<Rightarrow> (string \<times> 'a) list \<Rightarrow> (string \<times> 'a) list" where
  "ci_put k v [] = [(k, v)]"
| "ci_put k v ((k', v') # m) = (if ci_equals k' k then (k', v) # m else (k', v') # ci_put k v m)"

definition ci_insert :: "string \<Rightarrow> 'a \<Rightarrow> (string \<times> 'a) list \<Rightarrow> (string \<times> 'a) list" where
  "ci_insert k v m = (if ci_find m k = None then m @ [(k, v)] else m)"

lemma ci_find_Nil [simp]: "ci_find [] k = None"
  by (simp add: ci_find_def ci_find_entry_def)

lemma ci_find_put: "ci_find (ci_put k v m) k' = (if ci_equals k k' then Some v else ci_find m k')"
  by (induction k v m rule: ci_put.induct) (auto simp: ci_find_def ci_find_entry_def ci_equals_def)

interpretation ci_map: key_map ci_equals ci_find ci_put "[]"
  by unfold_locales (simp_all add: ci_find_put)

section \<open>CREATE MODEL\<close>

record qualified_name =
  qn_catalog :: string
  qn_schema :: string
  qn_name :: string

definition empty_qualified_name :: qualified_name where
  "empty_qualified_name = \<lparr>qn_catalog = [], qn_schema = [], qn_name = []\<rparr>"

text \<open>The nodes of the SQL parser that the transformer reads.\<close>

record pg_feature_set =
  pf_input_set :: "string list"
  pf_exclude_set :: "string list"

record pg_column_def =
  pc_name :: string
  pc_type :: string
  pc_has_constraints :: bool

record pg_model_on =
  pm_options :: "(string \<times> string) list"
  pm_on_prompt :: bool
  pm_is_embedding :: bool
  pm_base_api :: "string option"
  pm_secret :: "qualified_name option"
  pm_rel_name :: "qualified_name option"
  pm_rel_feat :: "pg_feature_set option"
  pm_opt_name :: "qualified_name option"
  pm_opt_feat :: "pg_feature_set option"
  pm_result_set :: "pg_column_def list"

record model_on_info =
  mo_rname :: qualified_name
  mo_input_set_names :: "string list"
  mo_exclude_set_names :: "string list"
  mo_oname :: qualified_name
  mo_opt_set_names :: "string list"
  mo_exclude_opt_set_names :: "string list"
  mo_out_names :: "string list"
  mo_out_types :: "string list"
  mo_options :: "(string \<times> string) list"
  mo_on_prompt :: bool
  mo_base_api :: string
  mo_secret :: string

definition new_model_on_info :: model_on_info where
  "new_model_on_info = \<lparr>mo_rname = empty_qualified_name, mo_input_set_names = [], mo_exclude_set_names = [],
     mo_oname = empty_qualified_name, mo_opt_set_names = [], mo_exclude_opt_set_names = [], mo_out_names = [],
     mo_out_types = [], mo_options = [], mo_on_prompt = False, mo_base_api = [], mo_secret = []\<rparr>"

definition option_string :: "string option \<Rightarrow> string" where
  "option_string s = (case s of None \<Rightarrow> [] | Some x \<Rightarrow> x)"

definition option_list :: "'a list option \<Rightarrow> 'a list" where
  "option_list s = (case s of None \<Rightarrow> [] | Some x \<Rightarrow> x)"

text \<open>\<^verbatim>\<open>Transformer::TransformModelOn\<close>\<close>

definition transform_model_on :: "pg_model_on \<Rightarrow> model_on_info result" where
  "transform_model_on stmt =
     (let n0 = new_model_on_info\<lparr>mo_options := fold (\<lambda>(k, v). ci_insert k v) (pm_options stmt) []\<rparr>;
          api = n0\<lparr>mo_base_api := option_string (pm_base_api stmt),
                   mo_secret := option_string (map_option qn_name (pm_secret stmt))\<rparr> in
      if pm_on_prompt stmt then Inr (api\<lparr>mo_on_prompt := True\<rparr>)
      else if pm_is_embedding stmt then Inr api
      else let n1 = (case pm_rel_name stmt of None \<Rightarrow> n0 | Some q \<Rightarrow> n0\<lparr>mo_rname := q\<rparr>);
               n2 = n1\<lparr>mo_input_set_names := option_list (map_option pf_input_set (pm_rel_feat stmt)),
                       mo_exclude_set_names := option_list (map_option pf_exclude_set (pm_rel_feat stmt))\<rparr>;
               n3 = (case pm_opt_name stmt of None \<Rightarrow> n2 | Some q \<Rightarrow> n2\<lparr>mo_rname := q\<rparr>);
               n4 = n3\<lparr>mo_opt_set_names := option_list (map_option pf_input_set (pm_opt_feat stmt)),
                       mo_exclude_opt_set_names := option_list (map_option pf_exclude_set (pm_opt_feat stmt))\<rparr> in
           if list_ex pc_has_constraints (pm_result_set stmt)
           then Inl (ParserException ''Result set must not contain constraints!'')
           else Inr (n4\<lparr>mo_out_names := map pc_name (pm_result_set stmt),
                        mo_out_types := map pc_type (pm_result_set stmt)\<rparr>))"

datatype on_create_conflict = ERROR_ON_CONFLICT | IGNORE_ON_CONFLICT | REPLACE_ON_CONFLICT

record create_model_info =
  ci_catalog :: string
  ci_schema :: string
  ci_on_conflict :: on_create_conflict
  ci_temporary :: bool
  ci_comment :: string
  ci_name :: string
  ci_model_type :: model_type
  ci_model_path :: string
  ci_on_prompt :: bool
  ci_base_api :: string
  ci_secret :: string
  ci_rel_name :: string
  ci_input_set_names :: "string list"
  ci_exclude_set_names :: "string list"
  ci_opt_rel_name :: string
  ci_opt_set_names :: "string list"
  ci_exclude_opt_set_names :: "string list"
  ci_out_names :: "string list"
  ci_out_types :: "string list"
  ci_options :: "(string \<times> string) list"

text \<open>The constructor of \<^verbatim>\<open>CreateModelInfo\<close>\<close>

definition new_create_model_info :: create_model_info where
  "new_create_model_info = \<lparr>ci_catalog = [], ci_schema = [], ci_on_conflict = ERROR_ON_CONFLICT, ci_temporary = False,
     ci_comment = [], ci_name = [], ci_model_type = TABULAR, ci_model_path = [], ci_on_prompt = False, ci_base_api = [],
     ci_secret = [], ci_rel_name = [], ci_input_set_names = [], ci_exclude_set_names = [], ci_opt_rel_name = [],
     ci_opt_set_names = [], ci_exclude_opt_set_names = [], ci_out_names = [], ci_out_types = [], ci_options = []\<rparr>"

record pg_create_model =
  ps_model :: qualified_name
  ps_persistent :: bool
  ps_model_type :: model_type
  ps_model_path :: string
  ps_model_on :: pg_model_on
  ps_onconflict :: on_create_conflict

text \<open>\<^verbatim>\<open>Transformer::TransformCreateModel\<close>\<close>

definition transform_create_model :: "pg_create_model \<Rightarrow> create_model_info result" where
  "transform_create_model stmt =
     result_bind (transform_model_on (ps_model_on stmt)) (\<lambda>on.
       let info = new_create_model_info\<lparr>ci_catalog := qn_catalog (ps_model stmt), ci_schema := qn_schema (ps_model stmt),
              ci_name := qn_name (ps_model stmt), ci_model_type := ps_model_type stmt, ci_model_path := ps_model_path stmt\<rparr>;
           info1 =
             (if mo_on_prompt on
              then info\<lparr>ci_on_prompt := True, ci_base_api := mo_base_api on, ci_secret := mo_secret on\<rparr>
              else if ps_model_type stmt = EMBED
              then info\<lparr>ci_base_api := mo_base_api on, ci_secret := mo_secret on\<rparr>
              else info\<lparr>ci_rel_name := qn_name (mo_rname on), ci_input_set_names := mo_input_set_names on,
                        ci_exclude_set_names := mo_exclude_set_names on, ci_opt_rel_name := qn_name (mo_oname on),
                        ci_opt_set_names := mo_opt_set_names on, ci_exclude_opt_set_names := mo_exclude_opt_set_names on,
                        ci_out_names := mo_out_names on, ci_out_types := mo_out_types on, ci_on_prompt := False\<rparr>)
       in Inr (info1\<lparr>ci_options := mo_options on, ci_temporary := \<not> ps_persistent stmt,
                     ci_on_conflict := ps_onconflict stmt\<rparr>))"

text \<open>\<^verbatim>\<open>CreateModelInfo::Copy\<close>: the properties of every CreateInfo, then the members, in order.\<close>

definition create_model_copy :: "create_model_info \<Rightarrow> create_model_info" where
  "create_model_copy info =
     new_create_model_info
       \<lparr>ci_catalog := ci_catalog info, ci_schema := ci_schema info, ci_on_conflict := ci_on_conflict info,
        ci_temporary := ci_temporary info, ci_comment := ci_comment info,
        ci_name := ci_name info, ci_model_type := ci_model_type info,
        ci_model_path := ci_model_path info, ci_base_api := ci_base_api info, ci_secret := ci_secret info,
        ci_rel_name := ci_rel_name info, ci_input_set_names := ci_input_set_names info,
        ci_exclude_set_names := ci_exclude_set_names info, ci_opt_rel_name := ci_opt_rel_name info,
        ci_opt_set_names := ci_opt_set_names info, ci_exclude_opt_set_names := ci_exclude_opt_set_names info,
        ci_out_names := ci_out_names info, ci_out_types := ci_out_types info, ci_options := ci_options info\<rparr>"

section \<open>The catalog entry\<close>

record model_data =
  md_model_path :: string
  md_model_type :: model_type
  md_on_prompt :: bool
  md_base_api :: string
  md_secret :: string
  md_rel_name :: string
  md_input_set_names :: "string list"
  md_exclude_set_names :: "string list"
  md_opt_rel_name :: string
  md_opt_set_names :: "string list"
  md_exclude_opt_set_names :: "string list"
  md_out_names :: "string list"
  md_out_types :: "string list"
  md_options :: "(string \<times> string) list"

definition model_data_of :: "create_model_info \<Rightarrow> model_data" where
  "model_data_of info =
     \<lparr>md_model_path = ci_model_path info, md_model_type = ci_model_type info, md_on_prompt = ci_on_prompt info,
      md_base_api = ci_base_api info, md_secret = ci_secret info, md_rel_name = ci_rel_name info,
      md_input_set_names = ci_input_set_names info, md_exclude_set_names = ci_exclude_set_names info,
      md_opt_rel_name = ci_opt_rel_name info, md_opt_set_names = ci_opt_set_names info,
      md_exclude_opt_set_names = ci_exclude_opt_set_names info, md_out_names = ci_out_names info,
      md_out_types = ci_out_types info, md_options = ci_options info\<rparr>"

record model_catalog_entry =
  me_catalog :: string
  me_schema :: string
  me_name :: string
  me_temporary :: bool
  me_comment :: string
  me_data :: model_data

definition model_entry :: "string \<Rightarrow> string \<Rightarrow> create_model_info \<Rightarrow> model_catalog_entry" where
  "model_entry catalog schema info =
     \<lparr>me_catalog = catalog, me_schema = schema, me_name = ci_name info, me_temporary = ci_temporary info,
      me_comment = ci_comment info, me_data = model_data_of info\<rparr>"

definition model_entry_get_info :: "model_catalog_entry \<Rightarrow> create_model_info" where
  "model_entry_get_info entry =
     (let d = me_data entry in
      new_create_model_info
        \<lparr>ci_catalog := me_catalog entry, ci_schema := me_schema entry, ci_name := me_name entry,
         ci_model_path := md_model_path d, ci_model_type := md_model_type d, ci_on_prompt := md_on_prompt d,
         ci_base_api := md_base_api d, ci_secret := md_secret d, ci_rel_name := md_rel_name d,
         ci_input_set_names := md_input_set_names d, ci_exclude_set_names := md_exclude_set_names d,
         ci_opt_rel_name := md_opt_rel_name d, ci_opt_set_names := md_opt_set_names d,
         ci_exclude_opt_set_names := md_exclude_opt_set_names d, ci_out_names := md_out_names d,
         ci_out_types := md_out_types d, ci_options := md_options d, ci_comment := me_comment entry\<rparr>)"

definition model_entry_copy :: "model_catalog_entry \<Rightarrow> model_catalog_entry" where
  "model_entry_copy entry =
     (model_entry (me_catalog entry) (me_schema entry) (model_entry_get_info entry))\<lparr>me_data := me_data entry\<rparr>"

definition model_type_to_chars :: "model_type \<Rightarrow> string" where
  "model_type_to_chars t =
     (case t of TABULAR \<Rightarrow> ''TABULAR'' | LM \<Rightarrow> ''LM'' | GNN \<Rightarrow> ''GNN'' | LLM \<Rightarrow> ''LLM'' | EMBED \<Rightarrow> ''EMBED'')"

definition model_entry_to_sql :: "model_catalog_entry \<Rightarrow> string" where
  "model_entry_to_sql entry =
     ''CREATE '' @ model_type_to_chars (md_model_type (me_data entry)) @ '' MODEL '' @ me_name entry @
     '' PATH '' @ [CHR 0x27] @ md_model_path (me_data entry) @ [CHR 0x27] @ '' OUTPUT(...); ''"

text \<open>\<^verbatim>\<open>PhysicalCreateModel::GetData\<close>: the catalog and the secrets are association lists.\<close>

definition physical_create_model ::
  "(string \<times> 'k) list \<Rightarrow> create_model_info \<Rightarrow> model_catalog_entry list \<Rightarrow> model_catalog_entry list result" where
  "physical_create_model secrets info entries =
     (if ci_secret info \<noteq> [] \<and> map_of secrets (ci_secret info) = None
      then Inl (CatalogException ''Secret not found in the catalog!'')
      else Inr (entries @ [model_entry (ci_catalog info) (ci_schema info) info]))"

section \<open>Selecting a model\<close>

datatype model_select_strategy = SELECT_FIRST | SELECT_RANDOM | SELECT_OPTIMAL

text \<open>
  \<^verbatim>\<open>SelectModelFromCatalog\<close> over the entries in scan order. The draw of the random selector
  and the scoring of the optimal one are parameters of the number of entries and of their
  paths; \<^verbatim>\<open>entries[model_idx]\<close> is bounds-checked.
\<close>

definition named_model_index :: "string \<Rightarrow> model_catalog_entry list \<Rightarrow> int" where
  "named_model_index model_name entries =
     fold (\<lambda>(i, e) idx. if me_name e = model_name then int i else idx) (enumerate 0 entries) (-1)"

definition selector_index ::
  "(nat \<Rightarrow> int) \<Rightarrow> (string list \<Rightarrow> int) \<Rightarrow> model_select_strategy \<Rightarrow> model_catalog_entry list \<Rightarrow> int" where
  "selector_index draw score strategy entries =
     (case strategy of
        SELECT_RANDOM \<Rightarrow> draw (length entries)
      | SELECT_OPTIMAL \<Rightarrow>
          (let idx = score (map (\<lambda>e. md_model_path (me_data e)) entries) in if idx < 0 then 0 else idx)
      | SELECT_FIRST \<Rightarrow> 0)"

definition select_model_from_catalog ::
  "(nat \<Rightarrow> int) \<Rightarrow> (string list \<Rightarrow> int) \<Rightarrow> model_select_strategy \<Rightarrow> model_catalog_entry list \<Rightarrow> string \<Rightarrow>
   model_catalog_entry result" where
  "select_model_from_catalog draw score strategy entries model_name =
     (let model_idx = named_model_index model_name entries in
      result_bind
        (if model_name \<noteq> []
         then (if model_idx = -1 then Inl (BinderException (''Model with name does not exist in calatog: '' @ model_name))
               else Inr model_idx)
         else if entries = [] then Inl (BinderException ''No models available in catalog for model selection!'')
         else Inr (selector_index draw score strategy entries))
        (\<lambda>idx. if 0 \<le> idx \<and> nat idx < length entries then Inr (entries ! nat idx)
               else Inl (InternalException ''Attempted to access index outside of vector'')))"

section \<open>Correctness\<close>

text \<open>
  A catalog entry built from the information of an entry has the data, the name and
  the comment of the entry: exporting a model and creating it again loses nothing of what
  a query reads. The copy of the parsed statement is not that faithful: it forgets that
  the model is bound by a prompt, and nothing else.
\<close>

theorem model_entry_roundtrip:
  "me_data (model_entry catalog schema (model_entry_get_info entry)) = me_data entry \<and>
   me_name (model_entry catalog schema (model_entry_get_info entry)) = me_name entry \<and>
   me_comment (model_entry catalog schema (model_entry_get_info entry)) = me_comment entry \<and>
   model_entry_copy entry = entry\<lparr>me_temporary := False\<rparr> \<and>
   create_model_copy info = info\<lparr>ci_on_prompt := False\<rparr>"
  by (simp add: model_entry_def model_entry_get_info_def model_entry_copy_def model_data_of_def
      create_model_copy_def new_create_model_info_def Let_def)

lemma named_model_index_snoc:
  "named_model_index n (es @ [e]) = (if me_name e = n then int (length es) else named_model_index n es)"
  by (simp add: named_model_index_def enumerate_append_eq)

lemma named_model_index_found:
  "named_model_index n es = -1 \<and> (\<forall>e \<in> set es. me_name e \<noteq> n) \<or>
   (\<exists>i < length es. named_model_index n es = int i \<and> me_name (es ! i) = n \<and> (\<forall>j < length es. i < j \<longrightarrow> me_name (es ! j) \<noteq> n))"
proof (induction es rule: rev_induct)
  case Nil
  then show ?case by (simp add: named_model_index_def)
next
  case (snoc e es)
  show ?case
  proof (cases "me_name e = n")
    case True
    then show ?thesis
      by (intro disjI2 exI [of _ "length es"]) (simp add: named_model_index_snoc)
  next
    case False
    from snoc show ?thesis
    proof (elim disjE exE conjE)
      fix i assume "i < length es" "named_model_index n es = int i" "me_name (es ! i) = n"
        "\<forall>j < length es. i < j \<longrightarrow> me_name (es ! j) \<noteq> n"
      with False show ?thesis
        by (intro disjI2 exI [of _ i]) (simp add: named_model_index_snoc nth_append)
    qed (use False in \<open>simp add: named_model_index_snoc\<close>)
  qed
qed

text \<open>
  Model selection: a named query gets the last entry of that name in scan order and a
  binder error when there is none; an unnamed query gets an entry of the catalog whenever
  there is one (the draw being in range and the scorer returning a position, or a negative
  number for none), and a binder error on an empty catalog.
\<close>

theorem select_model_correct:
  assumes "\<And>n. 0 < n \<Longrightarrow> 0 \<le> draw n \<and> draw n < int n"
    and "\<And>paths. paths \<noteq> [] \<Longrightarrow> score paths < int (length paths)"
  shows "case select_model_from_catalog draw score strategy entries model_name of
           Inr e \<Rightarrow> e \<in> set entries \<and>
             (model_name \<noteq> [] \<longrightarrow> (\<exists>es fs. entries = es @ e # fs \<and> me_name e = model_name \<and> (\<forall>f \<in> set fs. me_name f \<noteq> model_name)))
         | Inl err \<Rightarrow> (\<exists>msg. err = BinderException msg) \<and>
             (if model_name = [] then entries = [] else (\<forall>e \<in> set entries. me_name e \<noteq> model_name))"
proof (cases "model_name = []")
  case True
  show ?thesis
  proof (cases "entries = []")
    case False
    then have "0 \<le> selector_index draw score strategy entries"
      "nat (selector_index draw score strategy entries) < length entries"
      using assms(1) [of "length entries"] assms(2) [of "map (\<lambda>e. md_model_path (me_data e)) entries"]
      by (auto simp: selector_index_def Let_def nat_less_iff split: model_select_strategy.splits)
    with True False show ?thesis by (simp add: select_model_from_catalog_def)
  qed (use True in \<open>simp add: select_model_from_catalog_def\<close>)
next
  case named: False
  from named_model_index_found [of model_name entries] show ?thesis
  proof (elim disjE exE conjE)
    assume "named_model_index model_name entries = -1" and "\<forall>e \<in> set entries. me_name e \<noteq> model_name"
    with named show ?thesis by (simp add: select_model_from_catalog_def)
  next
    fix i assume i: "i < length entries" "named_model_index model_name entries = int i"
      "me_name (entries ! i) = model_name" "\<forall>j < length entries. i < j \<longrightarrow> me_name (entries ! j) \<noteq> model_name"
    have "entries = take i entries @ entries ! i # drop (Suc i) entries" using i(1) by (rule id_take_nth_drop)
    moreover have "\<forall>f \<in> set (drop (Suc i) entries). me_name f \<noteq> model_name"
    proof
      fix f assume "f \<in> set (drop (Suc i) entries)"
      then obtain k where "k < length entries - Suc i" "f = entries ! (Suc i + k)" by (auto simp: in_set_conv_nth)
      then show "me_name f \<noteq> model_name" using i(4) by simp
    qed
    ultimately show ?thesis using i named by (auto simp: select_model_from_catalog_def)
  qed
qed

theorem select_model_correct_witness:
  "select_model_from_catalog (\<lambda>n. 0) (\<lambda>ps. -1) SELECT_RANDOM
     [model_entry ''db'' ''main'' (new_create_model_info\<lparr>ci_name := ''m''\<rparr>)] [] \<noteq> Inl (BinderException [])"
proof -
  let ?es = "[model_entry ''db'' ''main'' (new_create_model_info\<lparr>ci_name := ''m''\<rparr>)]"
  have "case select_model_from_catalog (\<lambda>n. 0) (\<lambda>ps. -1) SELECT_RANDOM ?es [] of
           Inr e \<Rightarrow> e \<in> set ?es \<and>
             ([] \<noteq> ([] :: string) \<longrightarrow> (\<exists>es fs. ?es = es @ e # fs \<and> me_name e = [] \<and> (\<forall>f \<in> set fs. me_name f \<noteq> [])))
         | Inl err \<Rightarrow> (\<exists>msg. err = BinderException msg) \<and>
             (if ([] :: string) = [] then ?es = [] else (\<forall>e \<in> set ?es. me_name e \<noteq> []))"
    by (rule select_model_correct) simp_all
  then show ?thesis by auto
qed

text \<open>
  The second relation of a CREATE MODEL statement is misplaced: its name replaces the
  name of the first relation, and the information never has a name for the second one.
\<close>

theorem create_model_second_relation:
  assumes "transform_create_model stmt = Inr info"
  shows "ci_opt_rel_name info = [] \<and>
    (pm_opt_name (ps_model_on stmt) = Some q \<and> \<not> pm_on_prompt (ps_model_on stmt) \<and> \<not> pm_is_embedding (ps_model_on stmt) \<and>
     ps_model_type stmt \<noteq> EMBED \<longrightarrow> ci_rel_name info = qn_name q)"
  using assms
  by (auto simp: transform_create_model_def transform_model_on_def Let_def result_bind_eq_Inr
      new_model_on_info_def new_create_model_info_def empty_qualified_name_def split: if_splits option.splits)

theorem create_model_second_relation_witness:
  "\<exists>info. transform_create_model
     \<lparr>ps_model = \<lparr>qn_catalog = [], qn_schema = [], qn_name = ''g''\<rparr>, ps_persistent = True, ps_model_type = GNN,
      ps_model_path = ''g.pt'',
      ps_model_on = \<lparr>pm_options = [], pm_on_prompt = False, pm_is_embedding = False, pm_base_api = None, pm_secret = None,
        pm_rel_name = Some \<lparr>qn_catalog = [], qn_schema = [], qn_name = ''nodes''\<rparr>, pm_rel_feat = None,
        pm_opt_name = Some \<lparr>qn_catalog = [], qn_schema = [], qn_name = ''edges''\<rparr>, pm_opt_feat = None,
        pm_result_set = []\<rparr>, ps_onconflict = ERROR_ON_CONFLICT\<rparr> = Inr info \<and> ci_rel_name info = ''edges'' \<and> ci_opt_rel_name info = []"
  (is "\<exists>info. transform_create_model ?stmt = Inr info \<and> _ info")
proof -
  obtain info where info: "transform_create_model ?stmt = Inr info"
    by (simp add: transform_create_model_def transform_model_on_def Let_def)
  from create_model_second_relation [OF info, of "\<lparr>qn_catalog = [], qn_schema = [], qn_name = ''edges''\<rparr>"]
  show ?thesis using info by auto
qed

end
