(* ===== verification/PredictBinder.thy ===== *)
theory PredictBinder
  imports ModelCatalog
begin

text \<open>
  Binding of predict clauses: the table form
  (\<^verbatim>\<open>src/planner/binder/tableref/bind_predictref.cpp\<close>) and the scalar form
  (\<^verbatim>\<open>src/planner/binder/expression/bind_predict_expression.cpp\<close>).

  The columns of the bound source are the parameter \<open>src\<close> (names and types, as the child
  binder reports them). The embedding catalog is the list of its entries in scan order,
  each the embedded column and the name of the embedding.
\<close>

section \<open>Shared steps\<close>

fun type_name :: "logical_type_id \<Rightarrow> string" where
  "type_name VARCHAR = ''VARCHAR''"
| "type_name INTEGER = ''INTEGER''"
| "type_name BOOLEAN = ''BOOLEAN''"
| "type_name DOUBLE = ''DOUBLE''"
| "type_name (OTHER_TYPE name) = name"

text \<open>The output columns that a prompt names.\<close>

definition prompt_outputs :: "string \<Rightarrow> (string \<times> string) list result" where
  "prompt_outputs prompt =
     traverse (\<lambda>(name, type). result_bind (type_to_logical_type type) (\<lambda>t. Inr (name, type_name t))) (out_matches prompt)"

text \<open>The names of the parsed input columns; a qualified column is refused.\<close>

definition unqualified_name :: "string \<Rightarrow> string list \<Rightarrow> string result" where
  "unqualified_name clause col =
     (case col of [c] \<Rightarrow> Inr c | _ \<Rightarrow> Inl (BinderException (clause @ '' expression cannot contain qualified columns'')))"

definition input_column_names :: "string \<Rightarrow> string list list \<Rightarrow> string list result" where
  "input_column_names clause cols = traverse (unqualified_name clause) cols"

text \<open>The embedding substitutions: \<^verbatim>\<open>all_emb_sub\<close>, and the loop over the current columns that
  appends the embedding of every column that has one.\<close>

definition all_embeddings :: "(string \<times> string) list \<Rightarrow> (string \<times> string) list" where
  "all_embeddings catalog = fold (\<lambda>(column, name). ci_put column name) catalog []"

definition embedding_step :: "(string \<times> string) list \<Rightarrow> string \<Rightarrow> string list \<times> (string \<times> string) list \<Rightarrow>
    string list \<times> (string \<times> string) list" where
  "embedding_step all_emb col acc =
     (case ci_find_entry all_emb col of
        None \<Rightarrow> acc
      | Some (k, e) \<Rightarrow> (fst acc @ [e], ci_put k e (snd acc)))"

definition embedding_columns :: "(string \<times> string) list \<Rightarrow> string list \<Rightarrow> string list \<times> (string \<times> string) list" where
  "embedding_columns all_emb cols = fold (embedding_step all_emb) cols ([], [])"

section \<open>Input masks\<close>

text \<open>The feature columns named by the model, looked up in the map from names to positions.\<close>

definition name_map :: "string list \<Rightarrow> (string \<times> nat) list" where
  "name_map names = fold (\<lambda>(n, i). ci_put n i) (zip names [0..<length names]) []"

definition mask_by_name :: "string list \<Rightarrow> string list \<Rightarrow> nat list result" where
  "mask_by_name names input_set =
     traverse (\<lambda>col. case ci_find (name_map names) col of
                       None \<Rightarrow> Inl (BinderException ''Input table should contain the BY feature columns'')
                     | Some i \<Rightarrow> Inr i) input_set"

definition mask_excluding :: "string list \<Rightarrow> string list \<Rightarrow> nat list" where
  "mask_excluding names exclude_set = filter (\<lambda>i. names ! i \<notin> set exclude_set) [0..<length names]"

text \<open>The mask of the optional GNN source compares names with case and takes the first hit.\<close>

definition first_index :: "string list \<Rightarrow> string \<Rightarrow> nat option" where
  "first_index names n = List.find (\<lambda>i. names ! i = n) [0..<length names]"

definition opt_mask_by_name :: "string list \<Rightarrow> string list \<Rightarrow> nat list result" where
  "opt_mask_by_name names opt_set =
     traverse (\<lambda>col. case first_index names col of
                       None \<Rightarrow> Inl (BinderException ''Input table should contain the BY feature columns'')
                     | Some i \<Rightarrow> Inr i) opt_set"

definition compute_opt_mask :: "string list \<Rightarrow> string list \<Rightarrow> string list \<Rightarrow> nat list result" where
  "compute_opt_mask names opt_set exclude_set =
     (if opt_set \<noteq> [] then opt_mask_by_name names opt_set
      else if exclude_set \<noteq> [] then Inr (mask_excluding names exclude_set)
      else Inr [0..<length names])"

text \<open>The mask of the source columns: by name when inputs are named (with their embeddings), all
  but the excluded columns, or all columns.\<close>

definition compute_input_mask :: "string list \<Rightarrow> string list \<Rightarrow> string list \<Rightarrow> string list \<Rightarrow> nat list result" where
  "compute_input_mask names input_set emb_set exclude_set =
     (if input_set \<noteq> [] then mask_by_name names (input_set @ emb_set)
      else if exclude_set \<noteq> [] then Inr (mask_excluding names exclude_set)
      else Inr [0..<length names])"

section \<open>The table form\<close>

record bound_predict_ref =
  br_info :: bound_predict_info
  br_names :: "string list"
  br_child_count :: nat

text \<open>
  \<^verbatim>\<open>Binder::BindBoundPredict\<close>: \<open>src\<close> and \<open>opt_src\<close> are the columns of the bound sources (a name
  and a type each), \<open>None\<close> for a clause without source.
\<close>

definition bind_bound_predict ::
  "model_catalog_entry result \<Rightarrow> (string \<times> string) list \<Rightarrow> 's table_predict_ref \<Rightarrow>
   (string \<times> string) list option \<Rightarrow> (string \<times> string) list \<Rightarrow> bound_predict_ref result" where
  "bind_bound_predict selected embeddings ref src opt_src =
     result_bind selected (\<lambda>model.
     let data = me_data model;
         info0 = (new_predict_info (md_model_type data))
                   \<lparr>bp_model_name := tp_model_name ref, bp_prompt := tp_prompt ref,
                    bp_model_path := md_model_path data, bp_options := md_options data\<rparr>;
         info1 = (if md_on_prompt data \<or> tp_is_embedding ref
                  then info0\<lparr>bp_base_api := md_base_api data, bp_secret := md_secret data\<rparr> else info0) in
     result_bind (if md_on_prompt data then prompt_outputs (tp_prompt ref) else Inr []) (\<lambda>outs.
     result_bind (if md_on_prompt data then input_column_names ''PREDICT'' (tp_parsed_input_columns ref) else Inr []) (\<lambda>ins.
     result_bind (if tp_is_embedding ref then input_column_names ''EMBED'' (tp_parsed_input_columns ref) else Inr []) (\<lambda>emb_ins.
     let out_names = md_out_names data @ map fst outs @ (if tp_is_embedding ref then [''vec''] else []);
         out_types = md_out_types data @ map snd outs @ (if tp_is_embedding ref then [''FLOAT[384]''] else []);
         input_set = md_input_set_names data @ ins @ emb_ins in
     case src of
       None \<Rightarrow>
         Inr \<lparr>br_info = info1\<lparr>bp_types := out_types, bp_result_set_names := out_names, bp_result_set_types := out_types\<rparr>,
              br_names = out_names, br_child_count = 0\<rparr>
     | Some cols \<Rightarrow>
         let names = map fst cols; input_types = map snd cols;
             embs = (if input_set \<noteq> [] then embedding_columns (all_embeddings embeddings) input_set else ([], []));
             input_set' = input_set @ fst embs in
         result_bind
           (compute_input_mask names input_set (fst embs) (md_exclude_set_names data)) (\<lambda>mask.
         result_bind
           (if md_model_type data = GNN
            then compute_opt_mask (map fst opt_src) (md_opt_set_names data) (md_exclude_opt_set_names data)
            else Inr []) (\<lambda>opt_mask.
         Inr \<lparr>br_info = info1\<lparr>bp_input_mask := mask, bp_opt_mask := opt_mask,
                 bp_input_set_names := input_set', bp_input_set_types := input_types,
                 bp_embedding_column_map := snd embs,
                 bp_types := input_types @ out_types, bp_result_set_names := out_names, bp_result_set_types := out_types\<rparr>,
              br_names = names @ out_names, br_child_count = (if md_model_type data = GNN then 2 else 1)\<rparr>))))))"

section \<open>The scalar form\<close>

text \<open>
  \<^verbatim>\<open>ExpressionBinder::BindPredict\<close> for a scalar predict: \<open>bind_child\<close> gives the type of a
  column or the binding error, \<open>secrets\<close> the bearer token of a secret, and \<open>bind_aggregate\<close> stands
  for \<^verbatim>\<open>BindAggregate\<close>, to which an aggregate predict is handed.
\<close>

definition bind_predict ::
  "model_catalog_entry result \<Rightarrow> (string \<times> string) list \<Rightarrow> (string list \<Rightarrow> string result) \<Rightarrow> (string \<Rightarrow> string option) \<Rightarrow>
   (predict_expression \<Rightarrow> (bound_predict_info \<times> string list list) result) \<Rightarrow>
   predict_expression \<Rightarrow> (bound_predict_info \<times> string list list) result" where
  "bind_predict selected embeddings bind_child secrets bind_aggregate expr =
     (if pe_agg expr then bind_aggregate expr else
      let embs = embedding_columns (all_embeddings embeddings) (pe_input_col_names expr);
          children = pe_children expr @ map (\<lambda>e. [e]) (fst embs) in
      result_bind (traverse bind_child children) (\<lambda>child_types.
      result_bind selected (\<lambda>model.
      let data = me_data model in
      result_bind
        (if md_secret data = [] then Inr []
         else case secrets (md_secret data) of
                Some tok \<Rightarrow> Inr tok
              | None \<Rightarrow> Inl (CatalogException (''Secret '' @ md_secret data @ '' for the API is not found in the catalogs!''))) (\<lambda>tok.
      Inr ((new_predict_info (md_model_type data))
             \<lparr>bp_model_name := pe_model_name expr, bp_prompt := pe_prompt expr,
              bp_input_set_names := pe_input_col_names expr @ fst embs, bp_input_set_types := child_types,
              bp_result_set_names := [pe_out_col_name expr],
              bp_result_set_types := [case pe_out_col_type expr of Some t \<Rightarrow> type_name t | None \<Rightarrow> ''INVALID''],
              bp_secret := tok, bp_model_path := md_model_path data, bp_base_api := md_base_api data,
              bp_options := md_options data, bp_embedding_column_map := snd embs\<rparr>, children)))))"

section \<open>Masks point at the named columns\<close>

lemma name_map_found:
  assumes "ci_find (name_map names) n = Some i"
  shows "i < length names" and "ci_equals (names ! i) n"
proof -
  obtain k where "(k, i) \<in> set (zip names [0..<length names])" "ci_equals k n"
    using ci_map.find_puts_Some [OF assms [unfolded name_map_def]] by blast
  then show "i < length names" "ci_equals (names ! i) n" by (auto simp: set_zip)
qed

lemma mask_by_name_correct:
  assumes "mask_by_name names input_set = Inr msk"
  shows "length msk = length input_set \<and>
    (\<forall>i < length input_set. msk ! i < length names \<and> ci_equals (names ! (msk ! i)) (input_set ! i))"
proof -
  have "length msk = length input_set" using assms unfolding mask_by_name_def by (rule traverse_length)
  moreover have "msk ! i < length names \<and> ci_equals (names ! (msk ! i)) (input_set ! i)" if "i < length input_set" for i
    using traverse_nth [OF assms [unfolded mask_by_name_def] that] name_map_found
    by (auto split: option.splits)
  ultimately show ?thesis by blast
qed

lemma mask_by_name_missing:
  "(\<exists>col \<in> set input_set. \<forall>n \<in> set names. \<not> ci_equals n col) \<Longrightarrow>
   mask_by_name names input_set = Inl (BinderException ''Input table should contain the BY feature columns'')"
proof (induction input_set)
  case (Cons c cs)
  show ?case
  proof (cases "\<forall>n \<in> set names. \<not> ci_equals n c")
    case True
    then have "ci_find (name_map names) c = None"
      unfolding name_map_def ci_map.find_puts_None by (auto dest: set_zip_leftD)
    then show ?thesis by (simp add: mask_by_name_def)
  next
    case False
    with Cons have "mask_by_name names cs = Inl (BinderException ''Input table should contain the BY feature columns'')" by auto
    then show ?thesis by (auto simp: mask_by_name_def split: option.splits)
  qed
qed simp

lemma compute_input_mask_correct:
  assumes "compute_input_mask names input_set emb_set exclude_set = Inr msk"
  shows "(\<forall>j \<in> set msk. j < length names) \<and>
    (input_set \<noteq> [] \<longrightarrow> length msk = length (input_set @ emb_set) \<and>
       (\<forall>i < length (input_set @ emb_set). msk ! i < length names \<and>
          ci_equals (names ! (msk ! i)) ((input_set @ emb_set) ! i)))"
proof (cases "input_set = []")
  case True
  then show ?thesis using assms by (auto simp: compute_input_mask_def mask_excluding_def split: if_splits)
next
  case False
  then have "mask_by_name names (input_set @ emb_set) = Inr msk"
    using assms by (simp add: compute_input_mask_def)
  from mask_by_name_correct [OF this] show ?thesis by (metis in_set_conv_nth)
qed

lemma prompt_outputs_length: "prompt_outputs p = Inr outs \<Longrightarrow> length outs = length (out_matches p)"
  unfolding prompt_outputs_def by (rule traverse_length)

text \<open>
  C36. A bound predict clause over a source has a consistent layout: its column names are
  those of the source followed by the output names, its types those of the source followed
  by the output types; every position of the input mask is a column of the source; and when
  the model or the prompt names its inputs, the mask has one position per input and the
  column there has that name, up to case.
\<close>

theorem bind_predict_layout:
  assumes "bind_bound_predict selected embeddings ref (Some cols) opt_src = Inr r"
  shows "bp_types (br_info r) = map snd cols @ bp_result_set_types (br_info r) \<and>
    br_names r = map fst cols @ bp_result_set_names (br_info r) \<and>
    (\<forall>j \<in> set (bp_input_mask (br_info r)). j < length cols) \<and>
    (bp_input_set_names (br_info r) \<noteq> [] \<longrightarrow>
       length (bp_input_mask (br_info r)) = length (bp_input_set_names (br_info r)) \<and>
       (\<forall>i < length (bp_input_set_names (br_info r)).
          ci_equals (fst (cols ! (bp_input_mask (br_info r) ! i))) (bp_input_set_names (br_info r) ! i)))"
proof -
  let ?names = "map fst cols"
  from assms obtain input_set embs exclude where
    "compute_input_mask ?names input_set (fst embs) exclude = Inr (bp_input_mask (br_info r))"
    and names: "bp_input_set_names (br_info r) = input_set @ fst embs"
    and embs: "input_set = [] \<Longrightarrow> embs = ([], [])"
    and r: "bp_types (br_info r) = map snd cols @ bp_result_set_types (br_info r)"
      "br_names r = ?names @ bp_result_set_names (br_info r)"
    by (force simp: bind_bound_predict_def Let_def result_bind_eq_Inr)
  from compute_input_mask_correct [OF this(1)] embs r show ?thesis
    unfolding names by (cases "input_set = []") auto
qed

text \<open>A model over feature \<open>b\<close> and a clause that uses it.\<close>

definition sample_model :: model_catalog_entry where
  "sample_model = model_entry ''db'' ''main''
     (new_create_model_info\<lparr>ci_name := ''m'', ci_input_set_names := [''b''], ci_out_names := [''y''], ci_out_types := [''INTEGER'']\<rparr>)"

definition sample_ref :: "unit table_predict_ref" where
  "sample_ref = transform_table_predict (Some ''m'') None None (Some ()) None []"

lemmas sample_eval = sample_model_def sample_ref_def model_entry_def model_data_of_def new_create_model_info_def
  transform_table_predict_def

lemma sample_letters:
  "to_lower CHR ''a'' = CHR ''a''" "to_lower CHR ''b'' = CHR ''b''" "to_lower CHR ''B'' = CHR ''b''"
  by code_simp+

theorem bind_predict_layout_witness:
  "\<exists>r. bind_bound_predict (Inr sample_model) [] sample_ref (Some [(''a'', ''VARCHAR''), (''B'', ''DOUBLE'')]) [] = Inr r \<and>
     br_names r = [''a'', ''B'', ''y''] \<and> bp_input_set_names (br_info r) = [''b''] \<and> length (bp_input_mask (br_info r)) = 1"
proof -
  let ?cols = "[(''a'', ''VARCHAR''), (''B'', ''DOUBLE'')]"
  obtain r where r: "bind_bound_predict (Inr sample_model) [] sample_ref (Some ?cols) [] = Inr r"
    and names: "bp_input_set_names (br_info r) = [''b'']" "bp_result_set_names (br_info r) = [''y'']"
    by (auto simp: sample_eval bind_bound_predict_def compute_input_mask_def mask_by_name_def name_map_def
        ci_find_def ci_find_entry_def ci_equals_def embedding_columns_def embedding_step_def all_embeddings_def
        Let_def upt_rec new_predict_info_def sample_letters)
  from bind_predict_layout [OF r] names r show ?thesis by auto
qed

text \<open>
  A clause whose model names an input column that the source does not have is refused
  with a binder error.
\<close>

theorem bind_predict_missing_feature:
  assumes "selected = Inr model" and "\<not> md_on_prompt (me_data model)" and "\<not> tp_is_embedding ref"
    and "col \<in> set (md_input_set_names (me_data model))" and "\<forall>c \<in> set cols. \<not> ci_equals (fst c) col"
  shows "bind_bound_predict selected embeddings ref (Some cols) opt_src
         = Inl (BinderException ''Input table should contain the BY feature columns'')"
proof -
  let ?in = "md_input_set_names (me_data model)"
  have "mask_by_name (map fst cols) (?in @ fst (embedding_columns (all_embeddings embeddings) ?in))
        = Inl (BinderException ''Input table should contain the BY feature columns'')"
    using assms(4,5) by (intro mask_by_name_missing) auto
  with assms(1-4) show ?thesis by (auto simp: bind_bound_predict_def compute_input_mask_def Let_def)
qed

theorem bind_predict_missing_feature_witness:
  "bind_bound_predict (Inr sample_model) [] sample_ref (Some [(''a'', ''VARCHAR'')]) []
   = Inl (BinderException ''Input table should contain the BY feature columns'')"
  by (rule bind_predict_missing_feature [where model = sample_model and col = "''b''"])
    (simp_all add: sample_eval ci_equals_def sample_letters)

end
