(* ===== verification/ChunkInfo.thy ===== *)
theory ChunkInfo
  imports DuckPrelude
begin

text \<open>
  Row versions of one vector of a table (\<^verbatim>\<open>src/storage/table/chunk_info.cpp\<close>): the ids of the
  transactions that inserted and deleted each row, who sees a row, deletion with conflict
  detection, commit, cleanup, and the form written at a checkpoint.

  An array of \<^verbatim>\<open>STANDARD_VECTOR_SIZE\<close> transaction ids is a function on its indexes. Transaction
  ids are only compared and copied, so they are natural numbers below \<open>2 ^ 64\<close>.
\<close>

section \<open>Transaction ids and visibility\<close>

type_synonym transaction_t = nat

definition transaction_id_start :: transaction_t where
  "transaction_id_start = 4611686018427388000"

definition not_deleted_id :: transaction_t where
  "not_deleted_id = idx_mod - 2"

lemma transaction_id_start_not_deleted: "transaction_id_start < not_deleted_id"
  by (simp add: transaction_id_start_def not_deleted_id_def)

record transaction_data =
  td_transaction_id :: transaction_t
  td_start_time :: transaction_t

datatype version_operator = TransactionVersionOperator | CommittedVersionOperator

fun use_inserted_version :: "version_operator \<Rightarrow> transaction_t \<Rightarrow> transaction_t \<Rightarrow> transaction_t \<Rightarrow> bool" where
  "use_inserted_version TransactionVersionOperator start_time transaction_id vid = (vid < start_time \<or> vid = transaction_id)"
| "use_inserted_version CommittedVersionOperator start_time transaction_id vid = True"

fun use_deleted_version :: "version_operator \<Rightarrow> transaction_t \<Rightarrow> transaction_t \<Rightarrow> transaction_t \<Rightarrow> bool" where
  "use_deleted_version TransactionVersionOperator start_time transaction_id vid =
     (\<not> use_inserted_version TransactionVersionOperator start_time transaction_id vid)"
| "use_deleted_version CommittedVersionOperator min_start_time min_transaction_id vid =
     ((min_start_time \<le> vid \<and> vid < transaction_id_start) \<or> vid = not_deleted_id)"

definition use_version :: "transaction_data \<Rightarrow> transaction_t \<Rightarrow> bool" where
  "use_version t vid = use_inserted_version TransactionVersionOperator (td_start_time t) (td_transaction_id t) vid"

section \<open>Version infos\<close>

record chunk_constant_info =
  cc_start :: idx_t
  cc_insert_id :: transaction_t
  cc_delete_id :: transaction_t

definition new_constant_info :: "idx_t \<Rightarrow> chunk_constant_info" where
  "new_constant_info start = \<lparr>cc_start = start, cc_insert_id = 0, cc_delete_id = not_deleted_id\<rparr>"

record chunk_vector_info =
  cv_start :: idx_t
  inserted :: "nat \<Rightarrow> transaction_t"
  cv_insert_id :: transaction_t
  same_inserted_id :: bool
  deleted :: "nat \<Rightarrow> transaction_t"
  any_deleted :: bool

definition new_vector_info :: "idx_t \<Rightarrow> chunk_vector_info" where
  "new_vector_info start = \<lparr>cv_start = start, inserted = (\<lambda>_. 0), cv_insert_id = 0, same_inserted_id = True,
     deleted = (\<lambda>_. not_deleted_id), any_deleted = False\<rparr>"

datatype chunk_info = ConstantInfo chunk_constant_info | VectorInfo chunk_vector_info

text \<open>A selection is the returned count with the indexes written to the selection vector.\<close>

type_synonym selection = "idx_t \<times> idx_t list"

definition constant_get_sel_vector ::
  "version_operator \<Rightarrow> transaction_t \<Rightarrow> transaction_t \<Rightarrow> idx_t \<Rightarrow> chunk_constant_info \<Rightarrow> selection" where
  "constant_get_sel_vector vop start_time transaction_id max_count info =
     (if use_inserted_version vop start_time transaction_id (cc_insert_id info) \<and>
         use_deleted_version vop start_time transaction_id (cc_delete_id info)
      then (max_count, []) else (0, []))"

definition constant_fetch :: "transaction_data \<Rightarrow> chunk_constant_info \<Rightarrow> nat \<Rightarrow> bool" where
  "constant_fetch t info row = (use_version t (cc_insert_id info) \<and> \<not> use_version t (cc_delete_id info))"

definition constant_commit_append :: "transaction_t \<Rightarrow> nat \<Rightarrow> nat \<Rightarrow> chunk_constant_info \<Rightarrow> chunk_constant_info" where
  "constant_commit_append commit_id start end' info = info\<lparr>cc_insert_id := commit_id\<rparr>"

definition constant_has_deletes :: "chunk_constant_info \<Rightarrow> bool" where
  "constant_has_deletes info = (transaction_id_start \<le> cc_insert_id info \<or> cc_delete_id info < transaction_id_start)"

definition constant_committed_deleted_count :: "nat \<Rightarrow> chunk_constant_info \<Rightarrow> nat" where
  "constant_committed_deleted_count max_count info = (if cc_delete_id info < transaction_id_start then max_count else 0)"

definition constant_cleanup :: "transaction_t \<Rightarrow> chunk_constant_info \<Rightarrow> bool" where
  "constant_cleanup lowest info = (cc_delete_id info = not_deleted_id \<and> \<not> lowest < cc_insert_id info)"

definition vector_get_sel_vector ::
  "version_operator \<Rightarrow> transaction_t \<Rightarrow> transaction_t \<Rightarrow> idx_t \<Rightarrow> chunk_vector_info \<Rightarrow> selection" where
  "vector_get_sel_vector vop start_time transaction_id max_count info =
     (let ins = use_inserted_version vop start_time transaction_id;
          del = use_deleted_version vop start_time transaction_id;
          fill = (\<lambda>p. let sel = filter p [0..<max_count] in (length sel, sel)) in
      if same_inserted_id info \<and> \<not> any_deleted info then
        (if ins (cv_insert_id info) then (max_count, []) else (0, []))
      else if same_inserted_id info then
        (if \<not> ins (cv_insert_id info) then (0, []) else fill (\<lambda>i. del (deleted info i)))
      else if \<not> any_deleted info then fill (\<lambda>i. ins (inserted info i))
      else fill (\<lambda>i. ins (inserted info i) \<and> del (deleted info i)))"

definition vector_fetch :: "transaction_data \<Rightarrow> chunk_vector_info \<Rightarrow> nat \<Rightarrow> bool" where
  "vector_fetch t info row = (use_version t (inserted info row) \<and> \<not> use_version t (deleted info row))"

text \<open>\<^verbatim>\<open>ChunkVectorInfo::Delete\<close>: \<open>i\<close> is the loop counter and \<open>rows\<close> the array of row ids, which the
  loop overwrites from the front with the rows it has marked. The outcome is the new info,
  the array and the count of marked rows, or the conflict with the info it leaves behind.\<close>

function vector_delete_loop ::
  "transaction_t \<Rightarrow> nat \<Rightarrow> nat \<Rightarrow> nat \<Rightarrow> nat list \<Rightarrow> (nat \<Rightarrow> transaction_t) \<Rightarrow>
   (duck_error \<times> (nat \<Rightarrow> transaction_t)) + ((nat \<Rightarrow> transaction_t) \<times> nat list \<times> nat)" where
  "vector_delete_loop tid count i marked rows del =
     (if i < count then
        (if del (rows ! i) = tid then vector_delete_loop tid count (Suc i) marked rows del
         else if del (rows ! i) \<noteq> not_deleted_id then
           Inl (TransactionException ''Conflict on tuple deletion!'',
                fold (\<lambda>k d. d(rows ! k := not_deleted_id)) [0..<i] del)
         else vector_delete_loop tid count (Suc i) (Suc marked) (rows[marked := rows ! i]) (del(rows ! i := tid)))
      else Inr (del, rows, marked))"
  by pat_completeness auto
termination by (relation "measure (\<lambda>(tid, count, i, marked, rows, del). count - i)") auto

declare vector_delete_loop.simps [simp del]

definition vector_delete ::
  "transaction_t \<Rightarrow> nat list \<Rightarrow> nat \<Rightarrow> chunk_vector_info \<Rightarrow>
   (duck_error \<times> chunk_vector_info) + (chunk_vector_info \<times> nat list \<times> nat)" where
  "vector_delete tid rows count info =
     (case vector_delete_loop tid count 0 0 rows (deleted info) of
        Inl (err, del) \<Rightarrow> Inl (err, info\<lparr>any_deleted := True, deleted := del\<rparr>)
      | Inr (del, rows', n) \<Rightarrow> Inr (info\<lparr>any_deleted := True, deleted := del\<rparr>, rows', n))"

text \<open>A delete entry of the undo buffer names the first rows of the vector or lists its rows.\<close>

record delete_info =
  di_is_consecutive :: bool
  di_count :: nat
  di_rows :: "nat list"

definition vector_commit_delete :: "transaction_t \<Rightarrow> delete_info \<Rightarrow> chunk_vector_info \<Rightarrow> chunk_vector_info" where
  "vector_commit_delete commit_id di info =
     info\<lparr>deleted := fold (\<lambda>i d. d((if di_is_consecutive di then i else di_rows di ! i) := commit_id))
                       [0..<di_count di] (deleted info)\<rparr>"

definition vector_append :: "nat \<Rightarrow> nat \<Rightarrow> transaction_t \<Rightarrow> chunk_vector_info \<Rightarrow> chunk_vector_info" where
  "vector_append start end' commit_id info =
     (let info1 = (if start = 0 then info\<lparr>cv_insert_id := commit_id\<rparr>
                   else if cv_insert_id info \<noteq> commit_id then info\<lparr>same_inserted_id := False, cv_insert_id := not_deleted_id\<rparr>
                   else info) in
      info1\<lparr>inserted := fold (\<lambda>i f. f(i := commit_id)) [start..<end'] (inserted info)\<rparr>)"

definition vector_commit_append :: "transaction_t \<Rightarrow> nat \<Rightarrow> nat \<Rightarrow> chunk_vector_info \<Rightarrow> chunk_vector_info" where
  "vector_commit_append commit_id start end' info =
     (if same_inserted_id info then info\<lparr>cv_insert_id := commit_id\<rparr> else info)
       \<lparr>inserted := fold (\<lambda>i f. f(i := commit_id)) [start..<end'] (inserted info)\<rparr>"

definition vector_cleanup :: "transaction_t \<Rightarrow> chunk_vector_info \<Rightarrow> bool" where
  "vector_cleanup lowest info =
     (if any_deleted info then False
      else if \<not> same_inserted_id info then \<not> list_ex (\<lambda>i. lowest < inserted info i) [1..<standard_vector_size]
      else \<not> lowest < cv_insert_id info)"

definition vector_has_deletes :: "chunk_vector_info \<Rightarrow> bool" where
  "vector_has_deletes info = any_deleted info"

definition vector_committed_deleted_count :: "nat \<Rightarrow> chunk_vector_info \<Rightarrow> nat" where
  "vector_committed_deleted_count max_count info =
     (if \<not> any_deleted info then 0
      else length (filter (\<lambda>i. deleted info i < transaction_id_start) [0..<max_count]))"

section \<open>The written form\<close>

text \<open>The items of a metadata stream: a chunk info type, an index, a validity mask.\<close>

datatype chunk_info_type = CONSTANT_INFO | VECTOR_INFO | EMPTY_INFO

datatype written = WriteType chunk_info_type | WriteIdx idx_t | WriteMask "bool list"

definition constant_write :: "chunk_constant_info \<Rightarrow> written list" where
  "constant_write info = [WriteType CONSTANT_INFO, WriteIdx (cc_start info)]"

definition vector_write :: "chunk_vector_info \<Rightarrow> written list" where
  "vector_write info =
     (let (count, sel) = vector_get_sel_vector TransactionVersionOperator (transaction_id_start - 1) invalid_index
                           standard_vector_size info in
      if count = standard_vector_size then [WriteType EMPTY_INFO]
      else if count = 0 then [WriteType CONSTANT_INFO, WriteIdx (cv_start info)]
      else [WriteType VECTOR_INFO, WriteIdx (cv_start info),
            WriteMask (fold (\<lambda>i m. m[sel ! i := False]) [0..<count] (replicate standard_vector_size True))])"

fun chunk_info_write :: "chunk_info \<Rightarrow> written list" where
  "chunk_info_write (ConstantInfo info) = constant_write info"
| "chunk_info_write (VectorInfo info) = vector_write info"

definition constant_read :: "idx_t \<Rightarrow> chunk_constant_info" where
  "constant_read start = (new_constant_info start)\<lparr>cc_insert_id := 0, cc_delete_id := 0\<rparr>"

definition vector_read :: "idx_t \<Rightarrow> bool list \<Rightarrow> chunk_vector_info" where
  "vector_read start m = (new_vector_info start)\<lparr>any_deleted := True,
     deleted := fold (\<lambda>i d. if m ! i then d(i := 0) else d) [0..<standard_vector_size] (deleted (new_vector_info start))\<rparr>"

text \<open>\<^verbatim>\<open>ChunkInfo::Read\<close> with the rest of the stream; no info is a null pointer.\<close>

fun chunk_info_read :: "written list \<Rightarrow> (chunk_info option \<times> written list) result" where
  "chunk_info_read (WriteType EMPTY_INFO # rest) = Inr (None, rest)"
| "chunk_info_read (WriteType CONSTANT_INFO # WriteIdx start # rest) = Inr (Some (ConstantInfo (constant_read start)), rest)"
| "chunk_info_read (WriteType VECTOR_INFO # WriteIdx start # WriteMask m # rest) =
     Inr (Some (VectorInfo (vector_read start m)), rest)"
| "chunk_info_read _ = Inl (SerializationException ''Could not deserialize Chunk Info Type: unrecognized type'')"

section \<open>Who sees a row\<close>

text \<open>The version of a row is the pair of its inserting and deleting id.\<close>

definition row_used :: "version_operator \<Rightarrow> transaction_t \<Rightarrow> transaction_t \<Rightarrow> transaction_t \<times> transaction_t \<Rightarrow> bool" where
  "row_used vop start_time tid v = (use_inserted_version vop start_time tid (fst v) \<and> use_deleted_version vop start_time tid (snd v))"

text \<open>No transaction has the id that marks a row as not deleted, and none starts after it.\<close>

definition valid_transaction :: "transaction_t \<Rightarrow> transaction_t \<Rightarrow> bool" where
  "valid_transaction start_time tid = (start_time \<le> not_deleted_id \<and> tid \<noteq> not_deleted_id)"

text \<open>A count equal to \<open>max_count\<close> stands for all rows; otherwise the selection vector holds the rows.\<close>

definition selected_rows :: "nat \<Rightarrow> selection \<Rightarrow> nat list" where
  "selected_rows max_count s = (if fst s = max_count then [0..<max_count] else take (fst s) (snd s))"

lemma not_deleted_used: "valid_transaction st tid \<Longrightarrow> use_deleted_version vop st tid not_deleted_id"
  by (cases vop) (auto simp: valid_transaction_def)

lemma filter_all_upt: "length (filter p [0..<n]) = n \<longleftrightarrow> filter p [0..<n] = [0..<n]"
  by (metis diff_zero filter_id_conv length_filter_less length_upt less_irrefl)

lemma selected_rows_fill:
  "selected_rows n (length (filter p [0..<n]), filter p [0..<n]) = filter p [0..<n]"
  by (simp add: selected_rows_def filter_all_upt)

text \<open>
  The interface of \<^verbatim>\<open>ChunkInfo\<close>: a scan for a transaction and the fetch of one row agree with the
  versions of the rows. The number \<open>n\<close> counts the rows of the vector that are filled.
\<close>

locale chunk_versions =
  fixes wf :: "nat \<Rightarrow> 'i \<Rightarrow> bool" and version :: "'i \<Rightarrow> nat \<Rightarrow> transaction_t \<times> transaction_t"
    and get_sel :: "version_operator \<Rightarrow> transaction_t \<Rightarrow> transaction_t \<Rightarrow> nat \<Rightarrow> 'i \<Rightarrow> selection"
    and fetch :: "transaction_data \<Rightarrow> 'i \<Rightarrow> nat \<Rightarrow> bool"
  assumes get_sel_rows: "wf n info \<Longrightarrow> max_count \<le> n \<Longrightarrow> valid_transaction st tid \<Longrightarrow>
      selected_rows max_count (get_sel vop st tid max_count info) = filter (\<lambda>i. row_used vop st tid (version info i)) [0..<max_count]"
    and get_sel_count: "wf n info \<Longrightarrow> max_count \<le> n \<Longrightarrow> valid_transaction st tid \<Longrightarrow>
      fst (get_sel vop st tid max_count info) = length (filter (\<lambda>i. row_used vop st tid (version info i)) [0..<max_count])"
    and fetch_version: "fetch t info i = row_used TransactionVersionOperator (td_start_time t) (td_transaction_id t) (version info i)"
begin

lemma scan_is_fetch:
  assumes "wf n info" and "max_count \<le> n" and "valid_transaction (td_start_time t) (td_transaction_id t)"
  shows "selected_rows max_count (get_sel TransactionVersionOperator (td_start_time t) (td_transaction_id t) max_count info)
         = filter (fetch t info) [0..<max_count]"
  using get_sel_rows [OF assms] by (simp add: fetch_version [abs_def])

lemma count_all:
  assumes "wf n info" and "max_count \<le> n" and "valid_transaction st tid"
  shows "fst (get_sel vop st tid max_count info) = max_count \<longleftrightarrow> (\<forall>i < max_count. row_used vop st tid (version info i))"
  using get_sel_count [OF assms, of vop] by (auto simp: filter_all_upt filter_id_conv)

lemma count_none:
  assumes "wf n info" and "max_count \<le> n" and "valid_transaction st tid"
  shows "fst (get_sel vop st tid max_count info) = 0 \<longleftrightarrow> (\<forall>i < max_count. \<not> row_used vop st tid (version info i))"
  using get_sel_count [OF assms, of vop] by (auto simp: filter_empty_conv)

lemma sel_nth:
  assumes "wf n info" and "max_count \<le> n" and "valid_transaction st tid"
    and "fst (get_sel vop st tid max_count info) \<noteq> max_count"
  shows "take (fst (get_sel vop st tid max_count info)) (snd (get_sel vop st tid max_count info))
         = filter (\<lambda>i. row_used vop st tid (version info i)) [0..<max_count]"
  using get_sel_rows [OF assms(1-3), of vop] assms(4) by (simp add: selected_rows_def)

end

definition constant_version :: "chunk_constant_info \<Rightarrow> nat \<Rightarrow> transaction_t \<times> transaction_t" where
  "constant_version info i = (cc_insert_id info, cc_delete_id info)"

definition vector_version :: "chunk_vector_info \<Rightarrow> nat \<Rightarrow> transaction_t \<times> transaction_t" where
  "vector_version info i = (inserted info i, deleted info i)"

text \<open>The invariant behind the shortcuts: the shared insert id is that of every filled row, and
  without the deletion flag no row is marked.\<close>

definition vector_wf :: "nat \<Rightarrow> chunk_vector_info \<Rightarrow> bool" where
  "vector_wf n info \<longleftrightarrow> (same_inserted_id info \<longrightarrow> (\<forall>i < n. inserted info i = cv_insert_id info)) \<and>
     (\<not> any_deleted info \<longrightarrow> (\<forall>i. deleted info i = not_deleted_id))"

interpretation constant_info: chunk_versions "\<lambda>_ _. True" constant_version constant_get_sel_vector constant_fetch
  by unfold_locales
    (auto simp: constant_get_sel_vector_def constant_version_def selected_rows_def row_used_def constant_fetch_def use_version_def)

lemma vector_get_sel_eq:
  fixes vop :: version_operator
  assumes "vector_wf n info" and "max_count \<le> n" and "valid_transaction st tid"
  defines "rows \<equiv> filter (\<lambda>i. row_used vop st tid (vector_version info i)) [0..<max_count]"
  shows "vector_get_sel_vector vop st tid max_count info = (length rows, rows) \<or>
    vector_get_sel_vector vop st tid max_count info = (length rows, []) \<and> (rows = [] \<or> rows = [0..<max_count])"
proof -
  have del: "\<not> any_deleted info \<Longrightarrow> use_deleted_version vop st tid (deleted info i)" for i
    using assms(1) not_deleted_used [OF assms(3)] by (simp add: vector_wf_def)
  have ins: "same_inserted_id info \<Longrightarrow> i < max_count \<Longrightarrow> inserted info i = cv_insert_id info" for i
    using assms(1,2) by (simp add: vector_wf_def)
  have rows: "rows = filter (\<lambda>i. use_inserted_version vop st tid (inserted info i) \<and> use_deleted_version vop st tid (deleted info i)) [0..<max_count]"
    by (simp add: rows_def row_used_def vector_version_def)
  show ?thesis
  proof (cases "same_inserted_id info")
    case True
    have "rows = filter (\<lambda>i. use_inserted_version vop st tid (cv_insert_id info) \<and> use_deleted_version vop st tid (deleted info i)) [0..<max_count]"
      unfolding rows using ins [OF True] by (intro filter_cong) auto
    then show ?thesis
      using True del by (cases "any_deleted info") (auto simp: vector_get_sel_vector_def Let_def)
  next
    case False
    then show ?thesis
      using del by (cases "any_deleted info") (auto simp: vector_get_sel_vector_def Let_def rows)
  qed
qed

interpretation vector_info: chunk_versions vector_wf vector_version vector_get_sel_vector vector_fetch
proof (unfold_locales, goal_cases)
  case (1 n info max_count st tid vop)
  from vector_get_sel_eq [OF this, of vop] show ?case
    by (elim disjE conjE) (simp_all add: selected_rows_fill, auto simp: selected_rows_def)
next
  case (2 n info max_count st tid vop)
  from vector_get_sel_eq [OF this, of vop] show ?case by auto
next
  case (3 t info i)
  then show ?case by (simp add: vector_fetch_def row_used_def vector_version_def use_version_def)
qed

section \<open>What the operations do to the versions\<close>

lemma fold_upd_upt: "fold (\<lambda>i f. f(i := c)) [a..<b] f = (\<lambda>i. if a \<le> i \<and> i < b then c else f i)"
  by (induction b) (auto simp: fun_eq_iff)

lemma fold_upd_nth:
  "fold (\<lambda>k f. f(rs ! k := c)) ks f = (\<lambda>r. if r \<in> (\<lambda>k. rs ! k) ` set ks then c else f r)"
  by (induction ks arbitrary: f) (auto simp: fun_eq_iff)

lemma vector_append_version:
  "vector_version (vector_append a b tid info) i =
   (if a \<le> i \<and> i < b then tid else inserted info i, deleted info i)"
  by (simp add: vector_append_def vector_version_def Let_def fold_upd_upt)

lemma vector_append_wf:
  assumes "vector_wf a info" and "a \<le> b"
  shows "vector_wf b (vector_append a b tid info)"
  using assms by (auto simp: vector_wf_def vector_append_def Let_def fold_upd_upt)

lemma vector_commit_append_version:
  "vector_version (vector_commit_append c a b info) i =
   (if a \<le> i \<and> i < b then c else inserted info i, deleted info i)"
  by (simp add: vector_commit_append_def vector_version_def fold_upd_upt)

text \<open>The shared insert id stays right when the committed range covers the filled rows or the flag
  is off.\<close>

lemma vector_commit_append_wf:
  assumes "vector_wf n info" and "same_inserted_id info \<longrightarrow> a = 0 \<and> n \<le> b"
  shows "vector_wf n (vector_commit_append c a b info)"
  using assms by (auto simp: vector_wf_def vector_commit_append_def fold_upd_upt)

lemma vector_commit_delete_version:
  "vector_version (vector_commit_delete c di info) i =
   (inserted info i,
    if i \<in> (if di_is_consecutive di then {0..<di_count di} else (\<lambda>k. di_rows di ! k) ` {0..<di_count di})
    then c else deleted info i)"
proof (cases "di_is_consecutive di")
  case True
  then show ?thesis
    by (auto simp: vector_commit_delete_def vector_version_def fold_upd_upt)
next
  case False
  then show ?thesis
    by (auto simp: vector_commit_delete_def vector_version_def fold_upd_nth)
qed

lemma vector_wf_mono: "vector_wf n info \<Longrightarrow> m \<le> n \<Longrightarrow> vector_wf m info"
  by (auto simp: vector_wf_def)

lemma new_vector_info_wf [simp]: "vector_wf n (new_vector_info start)"
  by (simp add: vector_wf_def new_vector_info_def)

section \<open>Deletion\<close>

text \<open>The loop keeps the array beyond its counter, has marked the rows at the front, and has
  changed no other row.\<close>

definition delete_inv ::
  "transaction_t \<Rightarrow> nat list \<Rightarrow> (nat \<Rightarrow> transaction_t) \<Rightarrow> nat \<Rightarrow> nat \<Rightarrow> nat list \<Rightarrow> (nat \<Rightarrow> transaction_t) \<Rightarrow> bool" where
  "delete_inv tid rows0 del0 i marked rows del \<longleftrightarrow>
     length rows = length rows0 \<and> marked \<le> i \<and> drop i rows = drop i rows0 \<and>
     set (take i rows) \<subseteq> set (take i rows0) \<and>
     distinct (take marked rows) \<and>
     set (take marked rows) = {r \<in> set (take i rows0). del0 r = not_deleted_id} \<and>
     (\<forall>r \<in> set (take i rows0). del0 r = not_deleted_id \<or> del0 r = tid) \<and>
     del = (\<lambda>r. if r \<in> set (take marked rows) then tid else del0 r)"

lemma delete_inv_start: "delete_inv tid rows del 0 0 rows del"
  by (simp add: delete_inv_def)

lemma delete_inv_nth:
  "delete_inv tid rows0 del0 i marked rows del \<Longrightarrow> i < length rows0 \<Longrightarrow> rows ! i = rows0 ! i"
  by (metis Cons_nth_drop_Suc delete_inv_def nth_via_drop)

lemma delete_inv_drop: "delete_inv tid rows0 del0 i marked rows del \<Longrightarrow> drop (Suc i) rows = drop (Suc i) rows0"
  unfolding delete_inv_def by (metis drop_Suc tl_drop drop_drop plus_1_eq_Suc)

lemma delete_inv_skip:
  assumes inv: "delete_inv tid rows0 del0 i marked rows del" and i: "i < length rows0" and tid: "tid \<noteq> not_deleted_id"
    and d: "del (rows ! i) = tid"
  shows "delete_inv tid rows0 del0 (Suc i) marked rows del"
proof -
  note nth = delete_inv_nth [OF inv i] and dr = delete_inv_drop [OF inv]
  have len: "length rows = length rows0" using inv by (simp add: delete_inv_def)
  have t: "take (Suc i) rows = take i rows @ [rows0 ! i]" "take (Suc i) rows0 = take i rows0 @ [rows0 ! i]"
    using i len nth by (simp_all add: take_Suc_conv_app_nth)
  show ?thesis
    using inv dr d tid unfolding delete_inv_def t nth by (auto split: if_splits)
qed

lemma delete_inv_mark:
  assumes inv: "delete_inv tid rows0 del0 i marked rows del" and i: "i < length rows0" and tid: "tid \<noteq> not_deleted_id"
    and d: "del (rows ! i) = not_deleted_id"
  shows "delete_inv tid rows0 del0 (Suc i) (Suc marked) (rows[marked := rows ! i]) (del(rows ! i := tid))"
proof -
  note nth = delete_inv_nth [OF inv i] and dr = delete_inv_drop [OF inv]
  have len: "length rows = length rows0" and m: "marked \<le> i" using inv by (simp_all add: delete_inv_def)
  have t: "take (Suc i) rows0 = take i rows0 @ [rows0 ! i]" using i by (simp add: take_Suc_conv_app_nth)
  have tm: "take (Suc marked) (rows[marked := rows0 ! i]) = take marked rows @ [rows0 ! i]"
    using m i len nth by (simp add: take_Suc_conv_app_nth)
  have drop': "drop (Suc i) (rows[marked := rows ! i]) = drop (Suc i) rows0" using m dr by simp
  have "set (take (Suc i) (rows[marked := rows ! i])) \<subseteq> insert (rows ! i) (set (take (Suc i) rows))"
    using set_update_subset_insert [of "take (Suc i) rows" marked "rows ! i"] by (simp add: take_update_swap)
  moreover have "take (Suc i) rows = take i rows @ [rows0 ! i]" using i len nth by (simp add: take_Suc_conv_app_nth)
  ultimately have sub: "set (take (Suc i) (rows[marked := rows ! i])) \<subseteq> set (take (Suc i) rows0)"
    using inv nth unfolding delete_inv_def t by auto
  have new: "rows0 ! i \<notin> set (take marked rows)" and old: "del0 (rows0 ! i) = not_deleted_id"
    using inv d tid unfolding delete_inv_def nth by (auto split: if_splits)
  show ?thesis
    using inv sub drop' new old m len unfolding delete_inv_def tm t nth by (auto simp: fun_eq_iff)
qed

lemma vector_delete_loop_correct:
  assumes "delete_inv tid rows0 del0 i marked rows del" and "i \<le> count" and "count \<le> length rows0" and "tid \<noteq> not_deleted_id"
  shows "case vector_delete_loop tid count i marked rows del of
      Inr (del', rows', n) \<Rightarrow> delete_inv tid rows0 del0 count n rows' del'
    | Inl (err, del') \<Rightarrow> err = TransactionException ''Conflict on tuple deletion!'' \<and>
        (\<exists>r \<in> set (take count rows0). del0 r \<noteq> not_deleted_id \<and> del0 r \<noteq> tid) \<and>
        (\<forall>r. del' r = del0 r \<or> (del0 r = tid \<and> del' r = not_deleted_id))"
  using assms
proof (induction tid count i marked rows del rule: vector_delete_loop.induct)
  case (1 tid count i marked rows del)
  note inv = 1(3)
  show ?case
  proof (cases "i < count")
    case False
    then have "i = count" using 1(4) by simp
    then show ?thesis using 1(3) by (simp add: vector_delete_loop.simps [of tid count count])
  next
    case True
    with 1(5) have i: "i < length rows0" by simp
    consider (own) "del (rows ! i) = tid" | (conflict) "del (rows ! i) \<noteq> tid" "del (rows ! i) \<noteq> not_deleted_id"
      | (free) "del (rows ! i) \<noteq> tid" "del (rows ! i) = not_deleted_id" by blast
    then show ?thesis
    proof cases
      case own
      with 1 True delete_inv_skip [OF inv i] show ?thesis by (simp add: vector_delete_loop.simps [of tid count i])
    next
      case free
      with 1 True delete_inv_mark [OF inv i] show ?thesis by (simp add: vector_delete_loop.simps [of tid count i] fun_upd_def)
    next
      case conflict
      have mem: "rows ! i \<in> set (take count rows0)"
        using True i delete_inv_nth [OF inv i] by (metis in_set_conv_nth length_take min_less_iff_conj nth_take)
      have bad: "del0 (rows ! i) \<noteq> not_deleted_id \<and> del0 (rows ! i) \<noteq> tid"
        using inv conflict unfolding delete_inv_def by (auto split: if_splits)
      have img: "(\<lambda>k. rows ! k) ` {0..<i} = set (take i rows)"
        using i inv by (simp add: delete_inv_def nth_image)
      have sub: "set (take marked rows) \<subseteq> set (take i rows)"
        using inv unfolding delete_inv_def by (intro set_take_subset_set_take) blast
      have undo: "(if r \<in> set (take i rows) then not_deleted_id else del r) = del0 r \<or>
        (del0 r = tid \<and> (if r \<in> set (take i rows) then not_deleted_id else del r) = not_deleted_id)" for r
        using inv sub unfolding delete_inv_def by auto
      show ?thesis
        using True conflict mem bad undo by (auto simp: vector_delete_loop.simps [of tid count i] fold_upd_nth img)
    qed
  qed
qed

text \<open>
  Deleting rows of a vector either marks every given row with the transaction and returns
  exactly the rows that were not yet deleted, without duplicates, or raises a conflict. A
  conflict is raised exactly when some row is marked by another transaction, and it leaves
  no mark of the call: every row has its old mark, except that a mark which the same
  transaction set before may be cleared.
\<close>

lemma vector_delete_correct:
  assumes "tid \<noteq> not_deleted_id" and "count \<le> length rows"
  shows "case vector_delete tid rows count info of
      Inr (info', rows', n) \<Rightarrow>
        (\<forall>r \<in> set (take count rows). deleted info r = not_deleted_id \<or> deleted info r = tid) \<and>
        distinct (take n rows') \<and> set (take n rows') = {r \<in> set (take count rows). deleted info r = not_deleted_id} \<and>
        deleted info' = (\<lambda>r. if r \<in> set (take count rows) then tid else deleted info r) \<and>
        inserted info' = inserted info \<and> any_deleted info' \<and> n \<le> length rows'
    | Inl (err, info') \<Rightarrow> err = TransactionException ''Conflict on tuple deletion!'' \<and>
        (\<exists>r \<in> set (take count rows). deleted info r \<noteq> not_deleted_id \<and> deleted info r \<noteq> tid) \<and>
        (\<forall>r. deleted info' r = deleted info r \<or> (deleted info r = tid \<and> deleted info' r = not_deleted_id)) \<and>
        inserted info' = inserted info"
proof -
  have "(\<lambda>r. if r \<in> set (take n rows') then tid else deleted info r) = (\<lambda>r. if r \<in> set (take count rows) then tid else deleted info r)"
    if "delete_inv tid rows (deleted info) count n rows' del'" for n rows' del'
    using that by (auto simp: delete_inv_def fun_eq_iff)
  then show ?thesis
    using vector_delete_loop_correct [OF delete_inv_start, of count rows tid "deleted info"] assms
    by (auto simp: vector_delete_def delete_inv_def split: sum.splits)
qed

section \<open>Every reachable version info is scanned correctly\<close>

text \<open>The conversion of a constant info to a vector info, in \<^verbatim>\<open>RowVersionManager::GetVectorInfo\<close>.\<close>

definition vector_of_constant :: "idx_t \<Rightarrow> chunk_constant_info \<Rightarrow> chunk_vector_info" where
  "vector_of_constant start c = (new_vector_info start)\<lparr>cv_insert_id := cc_insert_id c,
     inserted := fold (\<lambda>i f. f(i := cc_insert_id c)) [0..<standard_vector_size] (inserted (new_vector_info start))\<rparr>"

lemma vector_of_constant_wf: "vector_wf standard_vector_size (vector_of_constant start c)"
  by (simp add: vector_wf_def vector_of_constant_def new_vector_info_def fold_upd_upt)

lemma vector_of_constant_version:
  "i < standard_vector_size \<Longrightarrow> vector_version (vector_of_constant start c) i = (cc_insert_id c, not_deleted_id)"
  by (simp add: vector_version_def vector_of_constant_def new_vector_info_def fold_upd_upt)

text \<open>
  The infos that the operations produce or that are read from a file, with the number of filled rows. An append goes on
  where the rows end; a reverted append only lowers their number; the rows that a
  transaction appended to a vector are committed by one call, so while all rows have one
  insert id the call covers them all; a delete is committed after it was made.
\<close>

inductive vector_reachable :: "nat \<Rightarrow> chunk_vector_info \<Rightarrow> bool" where
  fresh: "vector_reachable n (new_vector_info start)"
| converted: "vector_reachable standard_vector_size (vector_of_constant start c)"
| reloaded: "vector_reachable standard_vector_size (vector_read start m)"
| append: "vector_reachable n info \<Longrightarrow> n \<le> b \<Longrightarrow> vector_reachable b (vector_append n b tid info)"
| revert: "vector_reachable n info \<Longrightarrow> m \<le> n \<Longrightarrow> vector_reachable m info"
| commit_append: "vector_reachable n info \<Longrightarrow> same_inserted_id info \<longrightarrow> a = 0 \<and> n \<le> b \<Longrightarrow>
    vector_reachable n (vector_commit_append c a b info)"
| delete: "vector_reachable n info \<Longrightarrow> vector_delete tid rows count info = Inr (info', rows', k) \<Longrightarrow> vector_reachable n info'"
| conflict: "vector_reachable n info \<Longrightarrow> vector_delete tid rows count info = Inl (err, info') \<Longrightarrow> vector_reachable n info'"
| commit_delete: "vector_reachable n info \<Longrightarrow> any_deleted info \<Longrightarrow> vector_reachable n (vector_commit_delete c di info)"

lemma vector_delete_wf:
  assumes "vector_wf n info"
  shows "vector_delete tid rows count info = Inr (info', rows', k) \<Longrightarrow> vector_wf n info'"
    and "vector_delete tid rows count info = Inl (err, info') \<Longrightarrow> vector_wf n info'"
  using assms by (auto simp: vector_delete_def vector_wf_def split: sum.splits)

lemma vector_read_wf: "vector_wf n (vector_read start m)"
  by (simp add: vector_wf_def vector_read_def new_vector_info_def)

lemma vector_reachable_wf: "vector_reachable n info \<Longrightarrow> vector_wf n info"
proof (induction rule: vector_reachable.induct)
  case (commit_delete n info c di)
  then show ?case by (auto simp: vector_wf_def vector_commit_delete_def)
qed (auto intro: vector_of_constant_wf vector_read_wf vector_append_wf vector_wf_mono vector_commit_append_wf vector_delete_wf)

text \<open>
  C25. Scan and fetch agree: for every vector info that is new, converted from a constant info or read back from a
  file, after any appends, commits, deletes, conflicts and reverted appends, and for every constant info, the rows that a scan of a
  transaction selects are exactly the rows that the transaction may fetch one by one.
\<close>

theorem vector_scan_is_fetch:
  assumes "valid_transaction (td_start_time t) (td_transaction_id t)"
  shows "(vector_reachable n info \<and> max_count \<le> n \<longrightarrow>
      selected_rows max_count (vector_get_sel_vector TransactionVersionOperator (td_start_time t) (td_transaction_id t) max_count info)
        = filter (vector_fetch t info) [0..<max_count]) \<and>
    selected_rows max_count (constant_get_sel_vector TransactionVersionOperator (td_start_time t) (td_transaction_id t) max_count c)
      = filter (constant_fetch t c) [0..<max_count]"
proof (intro conjI impI, elim conjE)
  assume "vector_reachable n info" and n: "max_count \<le> n"
  then have "vector_wf n info" by (simp add: vector_reachable_wf)
  from vector_info.scan_is_fetch [OF this n assms]
  show "selected_rows max_count (vector_get_sel_vector TransactionVersionOperator (td_start_time t) (td_transaction_id t) max_count info)
    = filter (vector_fetch t info) [0..<max_count]" .
qed (rule constant_info.scan_is_fetch [OF TrueI order_refl assms])

theorem vector_scan_is_fetch_witness:
  "selected_rows 3 (vector_get_sel_vector TransactionVersionOperator 5 100 3
     (vector_append 2 3 100 (vector_append 0 2 9 (new_vector_info 0)))) = [2]"
proof -
  let ?info = "vector_append 2 3 100 (vector_append 0 2 9 (new_vector_info 0))"
  let ?t = "\<lparr>td_transaction_id = 100, td_start_time = 5\<rparr>"
  have "vector_reachable 3 ?info" by (intro vector_reachable.intros) simp_all
  then have "selected_rows 3 (vector_get_sel_vector TransactionVersionOperator 5 100 3 ?info) = filter (vector_fetch ?t ?info) [0..<3]"
    using vector_scan_is_fetch [of ?t 3 ?info 3] by (simp add: valid_transaction_def not_deleted_id_def)
  also have "\<dots> = [2]"
    by (simp add: vector_fetch_def vector_append_def new_vector_info_def use_version_def not_deleted_id_def fold_upd_upt upt_rec)
  finally show ?thesis .
qed

section \<open>Cleanup\<close>

text \<open>The rows of a vector without version info are visible to every transaction.\<close>

fun info_fetch :: "transaction_data \<Rightarrow> chunk_info option \<Rightarrow> nat \<Rightarrow> bool" where
  "info_fetch t None row = True"
| "info_fetch t (Some (ConstantInfo info)) row = constant_fetch t info row"
| "info_fetch t (Some (VectorInfo info)) row = vector_fetch t info row"

fun chunk_info_cleanup :: "transaction_t \<Rightarrow> chunk_info \<Rightarrow> bool" where
  "chunk_info_cleanup lowest (ConstantInfo info) = constant_cleanup lowest info"
| "chunk_info_cleanup lowest (VectorInfo info) = vector_cleanup lowest info"

fun insert_ids :: "chunk_info \<Rightarrow> nat \<Rightarrow> transaction_t" where
  "insert_ids (ConstantInfo info) i = cc_insert_id info"
| "insert_ids (VectorInfo info) i = inserted info i"

fun chunk_info_wf :: "nat \<Rightarrow> chunk_info \<Rightarrow> bool" where
  "chunk_info_wf n (ConstantInfo info) = True"
| "chunk_info_wf n (VectorInfo info) = vector_wf n info"

text \<open>
  Cleanup of a full vector is safe: when it allows the version info to be dropped, every
  row is visible to every transaction that is active or starts later, so dropping the info
  changes nothing for them. The hypotheses say that no commit id is the start time of a
  transaction (both come from one counter) and that the first row is not newer than
  \<open>lowest\<close>, which the code does not look at.
\<close>

theorem cleanup_safe:
  assumes "chunk_info_cleanup lowest info" and "chunk_info_wf standard_vector_size info"
    and "insert_ids info 0 \<le> lowest" and "lowest \<le> td_start_time t"
    and "valid_transaction (td_start_time t) (td_transaction_id t)"
    and "\<forall>i < standard_vector_size. insert_ids info i \<noteq> td_start_time t" and "row < standard_vector_size"
  shows "info_fetch t (Some info) row = info_fetch t None row"
proof -
  have not_del: "\<not> use_version t not_deleted_id"
    using assms(5) by (simp add: use_version_def valid_transaction_def)
  have seen: "use_version t i" if "i \<le> lowest" "i \<noteq> td_start_time t" for i
    using that assms(4) by (simp add: use_version_def)
  show ?thesis
  proof (cases info)
    case (ConstantInfo c)
    then show ?thesis using assms not_del seen by (auto simp: constant_cleanup_def constant_fetch_def)
  next
    case (VectorInfo v)
    have "inserted v row \<le> lowest"
    proof (cases "same_inserted_id v \<or> row = 0")
      case True
      then show ?thesis using assms VectorInfo by (auto simp: vector_cleanup_def vector_wf_def split: if_splits)
    next
      case False
      then have "\<not> list_ex (\<lambda>i. lowest < inserted v i) [1..<standard_vector_size]"
        using assms VectorInfo by (auto simp: vector_cleanup_def split: if_splits)
      with False assms(7) show ?thesis by (auto simp: list_ex_iff not_less)
    qed
    moreover have "deleted v row = not_deleted_id"
      using assms VectorInfo by (auto simp: vector_cleanup_def vector_wf_def split: if_splits)
    ultimately show ?thesis using assms VectorInfo not_del seen by (simp add: vector_fetch_def)
  qed
qed

theorem cleanup_safe_witness:
  "info_fetch \<lparr>td_transaction_id = 100, td_start_time = 9\<rparr> (Some (ConstantInfo \<lparr>cc_start = 0, cc_insert_id = 4, cc_delete_id = not_deleted_id\<rparr>)) 17"
  using cleanup_safe [of 6 "ConstantInfo \<lparr>cc_start = 0, cc_insert_id = 4, cc_delete_id = not_deleted_id\<rparr>"
      "\<lparr>td_transaction_id = 100, td_start_time = 9\<rparr>" 17]
  by (simp add: constant_cleanup_def valid_transaction_def not_deleted_id_def standard_vector_size_def)

text \<open>
  The hypothesis on the first row is needed: the loop of the cleanup starts at row 1, so
  a vector whose first row was inserted by a running transaction may be cleaned, after
  which other transactions see the row.
\<close>

theorem cleanup_skips_first_row:
  "let info = vector_append 1 standard_vector_size 3 (vector_append 0 1 (transaction_id_start + 1) (new_vector_info 0));
       t = \<lparr>td_transaction_id = transaction_id_start + 2, td_start_time = 9\<rparr> in
   vector_reachable standard_vector_size info \<and> vector_cleanup 5 info \<and>
   \<not> info_fetch t (Some (VectorInfo info)) 0 \<and> info_fetch t None 0"
proof -
  let ?info = "vector_append 1 standard_vector_size 3 (vector_append 0 1 (transaction_id_start + 1) (new_vector_info 0))"
  have "vector_reachable standard_vector_size ?info"
    by (intro vector_reachable.intros) (simp_all add: standard_vector_size_def)
  moreover have "vector_cleanup 5 ?info"
    by (simp add: vector_cleanup_def vector_append_def new_vector_info_def Let_def fold_upd_upt list_ex_iff transaction_id_start_def)
  moreover have "\<not> vector_fetch \<lparr>td_transaction_id = transaction_id_start + 2, td_start_time = 9\<rparr> ?info 0"
    by (simp add: vector_fetch_def vector_append_def new_vector_info_def Let_def fold_upd_upt use_version_def transaction_id_start_def)
  ultimately show ?thesis by (simp add: Let_def)
qed

section \<open>Checkpoint round trip\<close>

lemma fold_list_update_length: "length (fold (\<lambda>i m. m[sel ! i := False]) ks m) = length m"
  by (induction ks arbitrary: m) simp_all

lemma fold_list_update_nth:
  "j < length m \<Longrightarrow> fold (\<lambda>i m. m[sel ! i := False]) ks m ! j = (m ! j \<and> j \<notin> (\<lambda>i. sel ! i) ` set ks)"
proof (induction ks arbitrary: m)
  case (Cons a ks)
  then show ?case by (cases "sel ! a = j") auto
qed simp

lemma fold_upd_if: "fold (\<lambda>i d. if p i then d(i := c) else d) [0..<n] f = (\<lambda>i. if i < n \<and> p i then c else f i)"
  by (induction n) (auto simp: fun_eq_iff less_Suc_eq)

lemma vector_read_deleted:
  "i < standard_vector_size \<Longrightarrow> deleted (vector_read start m) i = (if m ! i then 0 else not_deleted_id)"
  by (simp add: vector_read_def new_vector_info_def fold_upd_if)

lemma vector_read_inserted: "inserted (vector_read start m) i = 0"
  by (simp add: vector_read_def new_vector_info_def)

text \<open>The version of a row that the writer of a checkpoint uses: committed before any running
  transaction.\<close>

abbreviation (input) checkpoint_used :: "transaction_t \<times> transaction_t \<Rightarrow> bool" where
  "checkpoint_used \<equiv> row_used TransactionVersionOperator (transaction_id_start - 1) invalid_index"

lemma checkpoint_valid: "valid_transaction (transaction_id_start - 1) invalid_index"
  by (simp add: valid_transaction_def transaction_id_start_def not_deleted_id_def invalid_index_def)

lemma use_version_zero: "0 < td_start_time t \<Longrightarrow> use_version t 0"
  by (simp add: use_version_def)

lemma use_version_not_deleted:
  "valid_transaction (td_start_time t) (td_transaction_id t) \<Longrightarrow> \<not> use_version t not_deleted_id"
  by (simp add: use_version_def valid_transaction_def)

lemma vector_write_mask:
  assumes "vector_wf standard_vector_size info"
    and "vector_get_sel_vector TransactionVersionOperator (transaction_id_start - 1) invalid_index standard_vector_size info = (count, sel)"
    and "count \<noteq> standard_vector_size" and "count \<noteq> 0" and "i < standard_vector_size"
  shows "fold (\<lambda>i m. m[sel ! i := False]) [0..<count] (replicate standard_vector_size True) ! i
         = (\<not> checkpoint_used (vector_version info i))"
proof -
  let ?rows = "filter (\<lambda>i. checkpoint_used (vector_version info i)) [0..<standard_vector_size]"
  from vector_get_sel_eq [OF assms(1) order_refl checkpoint_valid, of TransactionVersionOperator] assms(2-4)
  have "count = length ?rows" "sel = ?rows" by auto
  then have "(\<lambda>k. sel ! k) ` set [0..<count] = set ?rows" by (simp add: nth_image)
  with assms(5) show ?thesis by (simp add: fold_list_update_nth)
qed

text \<open>
  Reading back a written version info consumes exactly what was written, and every
  transaction of the reopened database sees precisely the rows that were committed and not
  deleted when the info was written.
\<close>

lemma vector_write_read:
  assumes "vector_wf standard_vector_size info"
  shows "\<exists>r. chunk_info_read (vector_write info @ rest) = Inr (r, rest) \<and>
    (\<forall>t i. 0 < td_start_time t \<and> valid_transaction (td_start_time t) (td_transaction_id t) \<and> i < standard_vector_size \<longrightarrow>
       info_fetch t r i = row_used TransactionVersionOperator (transaction_id_start - 1) invalid_index (vector_version info i))"
proof -
  obtain count sel where gs: "vector_get_sel_vector TransactionVersionOperator (transaction_id_start - 1) invalid_index
      standard_vector_size info = (count, sel)" by fastforce
  note all = vector_info.count_all [OF assms order_refl checkpoint_valid, of TransactionVersionOperator]
    and none = vector_info.count_none [OF assms order_refl checkpoint_valid, of TransactionVersionOperator]
  consider (all) "count = standard_vector_size" | (none) "count = 0" "count \<noteq> standard_vector_size"
    | (some) "count \<noteq> 0" "count \<noteq> standard_vector_size" by blast
  then show ?thesis
  proof cases
    case all
    then show ?thesis using gs \<open>_ \<longleftrightarrow> (\<forall>i < standard_vector_size. row_used _ _ _ _)\<close> by (auto simp: vector_write_def)
  next
    case none
    then show ?thesis
      using gs \<open>_ \<longleftrightarrow> (\<forall>i < standard_vector_size. \<not> row_used _ _ _ _)\<close>
      by (auto simp: vector_write_def constant_read_def constant_fetch_def new_constant_info_def use_version_zero)
  next
    case some
    let ?m = "fold (\<lambda>i m. m[sel ! i := False]) [0..<count] (replicate standard_vector_size True)"
    have "info_fetch t (Some (VectorInfo (vector_read (cv_start info) ?m))) i = checkpoint_used (vector_version info i)"
      if "0 < td_start_time t" "valid_transaction (td_start_time t) (td_transaction_id t)" "i < standard_vector_size" for t i
      using that vector_write_mask [OF assms gs some(2,1) that(3)]
      by (auto simp: vector_fetch_def vector_read_deleted vector_read_inserted use_version_zero use_version_not_deleted)
    with gs some show ?thesis by (auto simp: vector_write_def)
  qed
qed

end
