(* ===== verification/RowVersion.thy ===== *)
theory RowVersion
  imports ChunkInfo
begin

text \<open>
  The version manager of a row group (\<^verbatim>\<open>src/storage/table/row_version_manager.cpp\<close>): one
  optional version info per vector; appends, commits, deletes, cleanup and checkpoints of
  whole row ranges. Its lock is left out: the operations run one at a time.

  The metadata blocks that a checkpoint writes are the list of the written items; no block
  is the empty list.
\<close>

section \<open>State and operations\<close>

record row_version_manager =
  rv_start :: idx_t
  has_unserialized_changes :: bool
  vector_info :: "chunk_info option list"
  stored_versions :: "written list"

definition new_row_version_manager :: "idx_t \<Rightarrow> row_version_manager" where
  "new_row_version_manager start =
     \<lparr>rv_start = start, has_unserialized_changes = False, vector_info = [], stored_versions = []\<rparr>"

fun set_info_start :: "idx_t \<Rightarrow> chunk_info \<Rightarrow> chunk_info" where
  "set_info_start s (ConstantInfo c) = ConstantInfo (c\<lparr>cc_start := s\<rparr>)"
| "set_info_start s (VectorInfo v) = VectorInfo (v\<lparr>cv_start := s\<rparr>)"

definition rv_set_start :: "idx_t \<Rightarrow> row_version_manager \<Rightarrow> row_version_manager" where
  "rv_set_start new_start m = m\<lparr>rv_start := new_start,
     vector_info := map (\<lambda>(i, info). map_option (set_info_start (new_start + i * standard_vector_size)) info)
                      (zip [0..<length (vector_info m)] (vector_info m))\<rparr>"

definition rv_get_chunk_info :: "nat \<Rightarrow> row_version_manager \<Rightarrow> chunk_info option" where
  "rv_get_chunk_info vector_idx m =
     (if length (vector_info m) \<le> vector_idx then None else vector_info m ! vector_idx)"

fun committed_deleted_count :: "nat \<Rightarrow> chunk_info \<Rightarrow> nat" where
  "committed_deleted_count max_count (ConstantInfo c) = constant_committed_deleted_count max_count c"
| "committed_deleted_count max_count (VectorInfo v) = vector_committed_deleted_count max_count v"

definition rv_committed_deleted_count :: "nat \<Rightarrow> row_version_manager \<Rightarrow> nat" where
  "rv_committed_deleted_count count m =
     sum_list (map (\<lambda>i. case rv_get_chunk_info i m of
                          None \<Rightarrow> 0
                        | Some info \<Rightarrow> committed_deleted_count (min standard_vector_size (count - i * standard_vector_size)) info)
                [0..<(count + (standard_vector_size - 1)) div standard_vector_size])"

fun info_get_sel_vector :: "version_operator \<Rightarrow> transaction_t \<Rightarrow> transaction_t \<Rightarrow> idx_t \<Rightarrow> chunk_info \<Rightarrow> selection" where
  "info_get_sel_vector vop st tid max_count (ConstantInfo c) = constant_get_sel_vector vop st tid max_count c"
| "info_get_sel_vector vop st tid max_count (VectorInfo v) = vector_get_sel_vector vop st tid max_count v"

definition rv_get_sel_vector :: "transaction_data \<Rightarrow> nat \<Rightarrow> nat \<Rightarrow> row_version_manager \<Rightarrow> selection" where
  "rv_get_sel_vector t vector_idx max_count m =
     (case rv_get_chunk_info vector_idx m of
        None \<Rightarrow> (max_count, [])
      | Some info \<Rightarrow> info_get_sel_vector TransactionVersionOperator (td_start_time t) (td_transaction_id t) max_count info)"

definition rv_get_committed_sel_vector ::
  "transaction_t \<Rightarrow> transaction_t \<Rightarrow> nat \<Rightarrow> nat \<Rightarrow> row_version_manager \<Rightarrow> selection" where
  "rv_get_committed_sel_vector start_time transaction_id vector_idx max_count m =
     (case rv_get_chunk_info vector_idx m of
        None \<Rightarrow> (max_count, [])
      | Some info \<Rightarrow> info_get_sel_vector CommittedVersionOperator start_time transaction_id max_count info)"

definition rv_fetch :: "transaction_data \<Rightarrow> nat \<Rightarrow> row_version_manager \<Rightarrow> bool" where
  "rv_fetch t row m =
     (let vector_index = row div standard_vector_size in
      info_fetch t (rv_get_chunk_info vector_index m) (row - vector_index * standard_vector_size))"

definition fill_vector_info :: "nat \<Rightarrow> chunk_info option list \<Rightarrow> chunk_info option list" where
  "fill_vector_info vector_idx vi =
     (if vector_idx < length vi then vi else vi @ replicate (vector_idx + 1 - length vi) None)"

text \<open>The part of a vector that a range of rows covers.\<close>

definition vector_range :: "nat \<Rightarrow> nat \<Rightarrow> nat \<Rightarrow> nat \<times> nat" where
  "vector_range row_group_start row_group_end vector_idx =
     (let start_vector_idx = row_group_start div standard_vector_size;
          end_vector_idx = idx_sub row_group_end 1 div standard_vector_size in
      (if vector_idx = start_vector_idx then row_group_start - start_vector_idx * standard_vector_size else 0,
       if vector_idx = end_vector_idx then row_group_end - end_vector_idx * standard_vector_size else standard_vector_size))"

text \<open>The vectors that a range of rows touches, from \<^verbatim>\<open>start_vector_idx\<close> to \<^verbatim>\<open>end_vector_idx\<close>.\<close>

definition touched :: "nat \<Rightarrow> nat \<Rightarrow> nat list" where
  "touched row_group_start row_group_end =
     [row_group_start div standard_vector_size..<Suc (idx_sub row_group_end 1 div standard_vector_size)]"

lemma touched_iff: "x \<in> set (touched a b) \<longleftrightarrow> a div standard_vector_size \<le> x \<and> x \<le> idx_sub b 1 div standard_vector_size"
  by (auto simp: touched_def)

lemma touched_distinct: "distinct (touched a b)"
  by (simp add: touched_def)

definition append_vector ::
  "transaction_t \<Rightarrow> idx_t \<Rightarrow> nat \<Rightarrow> nat \<Rightarrow> nat \<Rightarrow> chunk_info option list \<Rightarrow> chunk_info option list result" where
  "append_vector tid start row_group_start row_group_end vector_idx vi =
     (let (vector_start, vector_end) = vector_range row_group_start row_group_end vector_idx;
          info_start = start + vector_idx * standard_vector_size in
      if vector_start = 0 \<and> vector_end = standard_vector_size then
        Inr (vi[vector_idx := Some (ConstantInfo ((new_constant_info info_start)\<lparr>cc_insert_id := tid, cc_delete_id := not_deleted_id\<rparr>))])
      else
        result_bind
          (case vi ! vector_idx of
             None \<Rightarrow> Inr (new_vector_info info_start)
           | Some (VectorInfo v) \<Rightarrow> Inr v
           | Some (ConstantInfo c) \<Rightarrow> Inl (InternalException ''Error in RowVersionManager::AppendVersionInfo - expected either a ChunkVectorInfo or no version info''))
          (\<lambda>new_info. Inr (vi[vector_idx := Some (VectorInfo (vector_append vector_start vector_end tid new_info))])))"

definition rv_append_version_info ::
  "transaction_data \<Rightarrow> nat \<Rightarrow> nat \<Rightarrow> nat \<Rightarrow> row_version_manager \<Rightarrow> row_version_manager result" where
  "rv_append_version_info t count row_group_start row_group_end m =
     (let end_vector_idx = idx_sub row_group_end 1 div standard_vector_size in
      result_bind
        (result_fold (append_vector (td_transaction_id t) (rv_start m) row_group_start row_group_end)
          (touched row_group_start row_group_end) (fill_vector_info end_vector_idx (vector_info m)))
        (\<lambda>vi. Inr (m\<lparr>has_unserialized_changes := True, vector_info := vi\<rparr>)))"

fun info_commit_append :: "transaction_t \<Rightarrow> nat \<Rightarrow> nat \<Rightarrow> chunk_info \<Rightarrow> chunk_info" where
  "info_commit_append commit_id a b (ConstantInfo c) = ConstantInfo (constant_commit_append commit_id a b c)"
| "info_commit_append commit_id a b (VectorInfo v) = VectorInfo (vector_commit_append commit_id a b v)"

definition commit_vector ::
  "transaction_t \<Rightarrow> nat \<Rightarrow> nat \<Rightarrow> nat \<Rightarrow> chunk_info option list \<Rightarrow> chunk_info option list result" where
  "commit_vector commit_id row_group_start row_group_end vector_idx vi =
     (let (vstart, vend) = vector_range row_group_start row_group_end vector_idx in
      result_bind (vector_at vi vector_idx) (\<lambda>i.
        case i of
          None \<Rightarrow> Inl (InternalException ''Attempted to dereference unique_ptr that is NULL!'')
        | Some info \<Rightarrow> Inr (vi[vector_idx := Some (info_commit_append commit_id vstart vend info)])))"

definition rv_commit_append :: "transaction_t \<Rightarrow> nat \<Rightarrow> nat \<Rightarrow> row_version_manager \<Rightarrow> row_version_manager result" where
  "rv_commit_append commit_id row_group_start count m =
     (if count = 0 then Inr m
      else
        (let row_group_end = row_group_start + count in
         result_bind
           (result_fold (commit_vector commit_id row_group_start row_group_end)
             (touched row_group_start row_group_end) (vector_info m))
           (\<lambda>vi. Inr (m\<lparr>vector_info := vi\<rparr>))))"

fun has_deletes :: "chunk_info \<Rightarrow> bool" where
  "has_deletes (ConstantInfo c) = constant_has_deletes c"
| "has_deletes (VectorInfo v) = vector_has_deletes v"

definition cleanup_vector :: "transaction_t \<Rightarrow> nat \<Rightarrow> nat \<Rightarrow> row_version_manager \<Rightarrow> row_version_manager" where
  "cleanup_vector lowest row_group_end vector_idx m =
     (let end_vector_idx = idx_sub row_group_end 1 div standard_vector_size;
          vcount = (if vector_idx = end_vector_idx then row_group_end - end_vector_idx * standard_vector_size
                    else standard_vector_size) in
      if vcount \<noteq> standard_vector_size then m
      else
        (case rv_get_chunk_info vector_idx m of
           None \<Rightarrow> m
         | Some info \<Rightarrow>
             (if chunk_info_cleanup lowest info
              then m\<lparr>has_unserialized_changes := has_unserialized_changes m \<or> has_deletes info,
                     vector_info := (vector_info m)[vector_idx := None]\<rparr>
              else m)))"

definition rv_cleanup_append :: "transaction_t \<Rightarrow> nat \<Rightarrow> nat \<Rightarrow> row_version_manager \<Rightarrow> row_version_manager" where
  "rv_cleanup_append lowest row_group_start count m =
     (if count = 0 then m
      else fold (cleanup_vector lowest (row_group_start + count))
             (touched row_group_start (row_group_start + count)) m)"

definition rv_revert_append :: "nat \<Rightarrow> row_version_manager \<Rightarrow> row_version_manager" where
  "rv_revert_append start_row m =
     (let start_vector_idx = (start_row + (standard_vector_size - 1)) div standard_vector_size in
      m\<lparr>vector_info := fold (\<lambda>i vi. vi[i := None]) [start_vector_idx..<length (vector_info m)] (vector_info m)\<rparr>)"

text \<open>\<^verbatim>\<open>GetVectorInfo\<close> gives the vector info of a vector and the manager that holds it.\<close>

definition rv_get_vector_info :: "nat \<Rightarrow> row_version_manager \<Rightarrow> chunk_vector_info \<times> row_version_manager" where
  "rv_get_vector_info vector_idx m =
     (let vi = fill_vector_info vector_idx (vector_info m);
          info_start = rv_start m + vector_idx * standard_vector_size;
          v = (case vi ! vector_idx of
                 None \<Rightarrow> new_vector_info info_start
               | Some (ConstantInfo c) \<Rightarrow> vector_of_constant info_start c
               | Some (VectorInfo v) \<Rightarrow> v) in
      (v, m\<lparr>vector_info := vi[vector_idx := Some (VectorInfo v)]\<rparr>))"

definition rv_delete_rows ::
  "nat \<Rightarrow> transaction_t \<Rightarrow> nat list \<Rightarrow> nat \<Rightarrow> row_version_manager \<Rightarrow>
   (duck_error \<times> row_version_manager) + (row_version_manager \<times> nat list \<times> nat)" where
  "rv_delete_rows vector_idx tid rows count m =
     (let (v, m1) = rv_get_vector_info vector_idx (m\<lparr>has_unserialized_changes := True\<rparr>);
          put = (\<lambda>v'. m1\<lparr>vector_info := (vector_info m1)[vector_idx := Some (VectorInfo v')]\<rparr>) in
      case vector_delete tid rows count v of
        Inl (err, v') \<Rightarrow> Inl (err, put v')
      | Inr (v', rows', n) \<Rightarrow> Inr (put v', rows', n))"

definition rv_commit_delete :: "nat \<Rightarrow> transaction_t \<Rightarrow> delete_info \<Rightarrow> row_version_manager \<Rightarrow> row_version_manager" where
  "rv_commit_delete vector_idx commit_id di m =
     (let (v, m1) = rv_get_vector_info vector_idx (m\<lparr>has_unserialized_changes := True\<rparr>) in
      m1\<lparr>vector_info := (vector_info m1)[vector_idx := Some (VectorInfo (vector_commit_delete commit_id di v))]\<rparr>)"

definition to_serialize :: "row_version_manager \<Rightarrow> (nat \<times> chunk_info) list" where
  "to_serialize m =
     concat (map (\<lambda>i. case vector_info m ! i of
                        Some info \<Rightarrow> if has_deletes info then [(i, info)] else []
                      | None \<Rightarrow> []) [0..<length (vector_info m)])"

definition rv_checkpoint :: "row_version_manager \<Rightarrow> written list \<times> row_version_manager" where
  "rv_checkpoint m =
     (if \<not> has_unserialized_changes m then (stored_versions m, m)
      else
        (let ts = to_serialize m;
             items = (if ts = [] then []
                      else WriteIdx (length ts) # concat (map (\<lambda>(i, info). WriteIdx i # chunk_info_write info) ts)) in
         (items, m\<lparr>stored_versions := items, has_unserialized_changes := False\<rparr>)))"

definition max_row_group_size :: nat where
  "max_row_group_size = 1073741824"

fun read_entries :: "nat \<Rightarrow> written list \<Rightarrow> chunk_info option list \<Rightarrow> chunk_info option list result" where
  "read_entries 0 items vi = Inr vi"
| "read_entries (Suc n) (WriteIdx vector_index # items) vi =
     (if max_row_group_size \<le> vector_index * standard_vector_size
      then Inl (IOException ''In DeserializeDeletes, vector_index is out of range for the max row group size. Corrupted file?'')
      else result_bind (chunk_info_read items) (\<lambda>(info, rest).
             read_entries n rest ((fill_vector_info vector_index vi)[vector_index := info])))"
| "read_entries (Suc n) items vi = Inl (SerializationException ''unexpected item'')"

fun rv_deserialize :: "written list \<Rightarrow> idx_t \<Rightarrow> row_version_manager option result" where
  "rv_deserialize [] start = Inr None"
| "rv_deserialize (WriteIdx chunk_count # items) start =
     result_bind (read_entries chunk_count items []) (\<lambda>vi.
       Inr (Some ((new_row_version_manager start)\<lparr>vector_info := vi, stored_versions := WriteIdx chunk_count # items\<rparr>)))"
| "rv_deserialize items start = Inl (SerializationException ''unexpected item'')"

section \<open>The version of a row\<close>

fun info_version :: "chunk_info option \<Rightarrow> nat \<Rightarrow> transaction_t \<times> transaction_t" where
  "info_version None i = (0, not_deleted_id)"
| "info_version (Some (ConstantInfo c)) i = constant_version c i"
| "info_version (Some (VectorInfo v)) i = vector_version v i"

definition rv_version :: "row_version_manager \<Rightarrow> nat \<Rightarrow> transaction_t \<times> transaction_t" where
  "rv_version m row = info_version (rv_get_chunk_info (row div standard_vector_size) m) (row mod standard_vector_size)"

text \<open>A transaction of a running database: it starts after time 0 and has no reserved id.\<close>

definition running :: "transaction_data \<Rightarrow> bool" where
  "running t \<longleftrightarrow> 0 < td_start_time t \<and> valid_transaction (td_start_time t) (td_transaction_id t)"

definition sees :: "transaction_data \<Rightarrow> transaction_t \<times> transaction_t \<Rightarrow> bool" where
  "sees t v = row_used TransactionVersionOperator (td_start_time t) (td_transaction_id t) v"

lemma info_fetch_version: "running t \<Longrightarrow> info_fetch t info i = sees t (info_version info i)"
  by (cases "(t, info, i)" rule: info_fetch.cases)
    (auto simp: sees_def running_def constant_info.fetch_version vector_info.fetch_version row_used_def valid_transaction_def)

lemma rv_fetch_version: "running t \<Longrightarrow> rv_fetch t row m = sees t (rv_version m row)"
  by (simp add: rv_fetch_def rv_version_def Let_def info_fetch_version minus_div_mult_eq_mod)

lemma result_fold_pointwise:
  assumes "result_fold f xs s = Inr s'" and "distinct xs"
    and "\<And>x s s'. x \<in> set xs \<Longrightarrow> f x s = Inr s' \<Longrightarrow>
           length s' = length s \<and> (\<forall>j. j \<noteq> x \<longrightarrow> s' ! j = s ! j) \<and> (x < length s \<longrightarrow> R x (s ! x) (s' ! x))"
  shows "length s' = length s \<and> (\<forall>j. j \<notin> set xs \<longrightarrow> s' ! j = s ! j) \<and>
    (\<forall>x \<in> set xs. x < length s \<longrightarrow> R x (s ! x) (s' ! x))"
  using assms
proof (induction xs arbitrary: s)
  case (Cons x xs)
  from Cons.prems(1) obtain s1 where s1: "f x s = Inr s1" "result_fold f xs s1 = Inr s'" by (auto simp: result_bind_eq_Inr)
  have step: "length s1 = length s" "\<forall>j. j \<noteq> x \<longrightarrow> s1 ! j = s ! j" "x < length s \<longrightarrow> R x (s ! x) (s1 ! x)"
    using Cons.prems(3) [OF _ s1(1)] by auto
  have ih: "length s' = length s1 \<and> (\<forall>j. j \<notin> set xs \<longrightarrow> s' ! j = s1 ! j) \<and>
      (\<forall>x \<in> set xs. x < length s1 \<longrightarrow> R x (s1 ! x) (s' ! x))"
    by (rule Cons.IH [OF s1(2)]) (use Cons.prems(2,3) in auto)
  have "x \<notin> set xs" using Cons.prems(2) by simp
  moreover from this have "s' ! x = s1 ! x" using ih by blast
  moreover have "s1 ! y = s ! y" if "y \<in> set xs" for y using that step(2) \<open>x \<notin> set xs\<close> by metis
  ultimately show ?case using step ih by simp
qed simp

lemma range_arith:
  fixes r :: nat
  assumes "r = 2048 * R + ri" and "a = 2048 * A + ai" and "b = 2048 * B + bi + 1"
    and "ri < 2048" and "ai < 2048" and "bi < 2048"
  shows "(a \<le> r \<and> r < b) \<longleftrightarrow> (A \<le> R \<and> R \<le> B) \<and> (if R = A then ai else 0) \<le> ri \<and> ri < (if R = B then bi + 1 else 2048)"
proof -
  have "a \<le> r \<longleftrightarrow> A \<le> R \<and> (R = A \<longrightarrow> ai \<le> ri)" using assms by (cases "R < A"; cases "R = A") linarith+
  moreover have "r < b \<longleftrightarrow> R \<le> B \<and> (R = B \<longrightarrow> ri \<le> bi)" using assms by (cases "R < B"; cases "R = B") linarith+
  ultimately show ?thesis using assms(4) by auto
qed

lemma vector_range_mem:
  assumes "a < b" and "b < idx_mod"
  shows "(a \<le> r \<and> r < b) \<longleftrightarrow>
    r div standard_vector_size \<in> {a div standard_vector_size..idx_sub b 1 div standard_vector_size} \<and>
    fst (vector_range a b (r div standard_vector_size)) \<le> r mod standard_vector_size \<and>
    r mod standard_vector_size < snd (vector_range a b (r div standard_vector_size))"
proof -
  have b: "idx_sub b 1 = b - 1" using assms by simp
  define R ri A ai B bi where "R = r div 2048" "ri = r mod 2048" "A = a div 2048" "ai = a mod 2048"
    "B = (b - 1) div 2048" "bi = (b - 1) mod 2048"
  note defs = this
  have eqs: "r = 2048 * R + ri" "a = 2048 * A + ai" "b - 1 = 2048 * B + bi" "ri < 2048" "ai < 2048" "bi < 2048"
    unfolding defs by simp_all
  then have b': "b = 2048 * B + bi + 1" using assms(1) by linarith
  have "(a \<le> r \<and> r < b) \<longleftrightarrow> (A \<le> R \<and> R \<le> B) \<and> (if R = A then ai else 0) \<le> ri \<and> ri < (if R = B then bi + 1 else 2048)"
    by (rule range_arith [OF eqs(1,2) b' eqs(4-6)])
  moreover have "a - A * 2048 = ai" "b - B * 2048 = bi + 1" using eqs b' by linarith+
  ultimately have "(a \<le> r \<and> r < b) \<longleftrightarrow> R \<in> {A..B} \<and> (if R = A then a - A * 2048 else 0) \<le> ri \<and>
     ri < (if R = B then b - B * 2048 else 2048)" by simp
  then show ?thesis unfolding defs vector_range_def Let_def b standard_vector_size_def fst_conv snd_conv .
qed

section \<open>Append and commit\<close>

lemma fill_vector_info_nth:
  "(if length (fill_vector_info k vi) \<le> i then None else fill_vector_info k vi ! i) = (if length vi \<le> i then None else vi ! i)"
  by (auto simp: fill_vector_info_def nth_append)

lemma fill_vector_info_length: "i \<le> k \<Longrightarrow> i < length (fill_vector_info k vi)"
  by (auto simp: fill_vector_info_def)

text \<open>What an append of the rows \<open>a\<close> to \<open>b\<close> does to the info of one vector.\<close>

definition appended_info :: "transaction_t \<Rightarrow> nat \<Rightarrow> nat \<Rightarrow> nat \<Rightarrow> chunk_info option \<Rightarrow> chunk_info option \<Rightarrow> bool" where
  "appended_info tid a b x old new \<longleftrightarrow>
     (\<forall>i < standard_vector_size. info_version new i =
        (if fst (vector_range a b x) \<le> i \<and> i < snd (vector_range a b x)
         then (tid, if vector_range a b x = (0, standard_vector_size) then not_deleted_id else snd (info_version old i))
         else info_version old i)) \<and>
     new \<noteq> None \<and> (\<forall>c. new = Some (ConstantInfo c) \<longrightarrow> vector_range a b x = (0, standard_vector_size))"

lemma append_vector_step:
  assumes "append_vector tid start a b x vi = Inr vi'"
  shows "length vi' = length vi \<and> (\<forall>j. j \<noteq> x \<longrightarrow> vi' ! j = vi ! j) \<and>
    (x < length vi \<longrightarrow> appended_info tid a b x (vi ! x) (vi' ! x))"
proof (cases "vector_range a b x = (0, standard_vector_size)")
  case True
  with assms show ?thesis
    by (auto simp: append_vector_def appended_info_def constant_version_def new_constant_info_def)
next
  case False
  obtain vs ve where r: "vector_range a b x = (vs, ve)" by fastforce
  from False assms obtain v where v: "vi' = vi[x := Some (VectorInfo (vector_append vs ve tid v))]"
    and old: "vi ! x = Some (VectorInfo v) \<or> (vi ! x = None \<and> v = new_vector_info (start + x * standard_vector_size))"
    by (auto simp: append_vector_def r result_bind_eq_Inr split: option.splits chunk_info.splits if_splits)
  have "info_version (vi ! x) i = vector_version v i" for i
    using old by (auto simp: vector_version_def new_vector_info_def)
  with v False show ?thesis
    by (auto simp: appended_info_def r vector_append_version) (auto simp: vector_version_def)
qed

lemma append_infos:
  assumes "rv_append_version_info t count a b m = Inr m'"
  shows "(\<forall>j. j \<notin> set (touched a b) \<longrightarrow> rv_get_chunk_info j m' = rv_get_chunk_info j m) \<and>
    (\<forall>x \<in> set (touched a b). x < length (vector_info m') \<and>
       appended_info (td_transaction_id t) a b x (rv_get_chunk_info x m) (rv_get_chunk_info x m'))"
proof -
  let ?vi = "fill_vector_info (idx_sub b 1 div standard_vector_size) (vector_info m)"
  from assms obtain vi' where
    fold: "result_fold (append_vector (td_transaction_id t) (rv_start m) a b) (touched a b) ?vi = Inr vi'"
    and m': "vector_info m' = vi'"
    by (auto simp: rv_append_version_info_def Let_def result_bind_eq_Inr)
  have vi': "length vi' = length ?vi \<and> (\<forall>j. j \<notin> set (touched a b) \<longrightarrow> vi' ! j = ?vi ! j) \<and>
    (\<forall>x \<in> set (touched a b). x < length ?vi \<longrightarrow> appended_info (td_transaction_id t) a b x (?vi ! x) (vi' ! x))"
    by (rule result_fold_pointwise [OF fold touched_distinct]) (rule append_vector_step)
  have get: "rv_get_chunk_info j m = (if length ?vi \<le> j then None else ?vi ! j)" for j
    unfolding rv_get_chunk_info_def fill_vector_info_nth ..
  have "x < length ?vi" if "x \<in> set (touched a b)" for x
    by (rule fill_vector_info_length) (use that in \<open>simp add: touched_iff\<close>)
  then have lt: "\<forall>x \<in> set (touched a b). \<not> length ?vi \<le> x" by (simp add: not_le)
  show ?thesis
    unfolding get using vi' lt by (auto simp: rv_get_chunk_info_def m' not_le)
qed

text \<open>No row of a range is marked as deleted.\<close>

definition undeleted :: "nat \<Rightarrow> nat \<Rightarrow> row_version_manager \<Rightarrow> bool" where
  "undeleted a b m \<longleftrightarrow> (\<forall>r. a \<le> r \<and> r < b \<longrightarrow> snd (rv_version m r) = not_deleted_id)"

lemma append_version:
  assumes "rv_append_version_info t count a b m = Inr m'" and "a < b" and "b < idx_mod" and "undeleted a b m"
  shows "rv_version m' r = (if a \<le> r \<and> r < b then (td_transaction_id t, not_deleted_id) else rv_version m r)"
proof (cases "r div standard_vector_size \<in> set (touched a b)")
  case True
  let ?x = "r div standard_vector_size" and ?i = "r mod standard_vector_size"
  have mem: "(a \<le> r \<and> r < b) \<longleftrightarrow> fst (vector_range a b ?x) \<le> ?i \<and> ?i < snd (vector_range a b ?x)"
    using vector_range_mem [OF assms(2,3), of r] True by (auto simp: touched_iff)
  have "appended_info (td_transaction_id t) a b ?x (rv_get_chunk_info ?x m) (rv_get_chunk_info ?x m')"
    using append_infos [OF assms(1)] True by blast
  then have new: "rv_version m' r = (if a \<le> r \<and> r < b
      then (td_transaction_id t, if vector_range a b ?x = (0, standard_vector_size) then not_deleted_id else snd (rv_version m r))
      else rv_version m r)"
    unfolding appended_info_def rv_version_def mem by simp
  show ?thesis using assms(4) unfolding new undeleted_def by auto
next
  case False
  then have "rv_version m' r = rv_version m r" using append_infos [OF assms(1)] by (simp add: rv_version_def)
  moreover have "\<not> (a \<le> r \<and> r < b)" using False vector_range_mem [OF assms(2,3), of r] by (auto simp: touched_iff)
  ultimately show ?thesis by presburger
qed

text \<open>What a commit of the rows \<open>a\<close> to \<open>b\<close> does to the info of one vector.\<close>

definition committed_info :: "transaction_t \<Rightarrow> nat \<Rightarrow> nat \<Rightarrow> nat \<Rightarrow> chunk_info option \<Rightarrow> chunk_info option \<Rightarrow> bool" where
  "committed_info c a b x old new \<longleftrightarrow>
     ((\<forall>k. old = Some (ConstantInfo k) \<longrightarrow> vector_range a b x = (0, standard_vector_size)) \<longrightarrow>
      (\<forall>i < standard_vector_size. info_version new i =
        (if fst (vector_range a b x) \<le> i \<and> i < snd (vector_range a b x)
         then (c, snd (info_version old i)) else info_version old i)))"

lemma commit_vector_step:
  assumes "commit_vector c a b x vi = Inr vi'"
  shows "length vi' = length vi \<and> (\<forall>j. j \<noteq> x \<longrightarrow> vi' ! j = vi ! j) \<and>
    (x < length vi \<longrightarrow> committed_info c a b x (vi ! x) (vi' ! x))"
proof -
  obtain vs ve where r: "vector_range a b x = (vs, ve)" by fastforce
  from assms obtain info where info: "x < length vi" "vi ! x = Some info"
    "vi' = vi[x := Some (info_commit_append c vs ve info)]"
    by (auto simp: commit_vector_def r vector_at_def result_bind_eq_Inr split: option.splits if_splits)
  then show ?thesis
    by (cases info) (auto simp: committed_info_def r vector_commit_append_version constant_version_def
        constant_commit_append_def, auto simp: vector_version_def)
qed

lemma commit_vector_returns:
  "x < length vi \<Longrightarrow> vi ! x \<noteq> None \<Longrightarrow> \<exists>vi'. commit_vector c a b x vi = Inr vi' \<and> (\<forall>j. vi' ! j \<noteq> None \<longleftrightarrow> vi ! j \<noteq> None)"
  by (cases "vector_range a b x") (auto simp: commit_vector_def vector_at_def nth_list_update split: if_splits)

lemma commit_returns:
  assumes "\<forall>x \<in> set xs. x < length vi \<and> vi ! x \<noteq> None"
  shows "\<exists>vi'. result_fold (commit_vector c a b) xs vi = Inr vi'"
  using assms
proof (induction xs arbitrary: vi)
  case (Cons x xs)
  then obtain vi1 where vi1: "commit_vector c a b x vi = Inr vi1" "\<forall>j. vi1 ! j \<noteq> None \<longleftrightarrow> vi ! j \<noteq> None"
    using commit_vector_returns [of x vi c a b] by auto
  moreover have "length vi1 = length vi" using commit_vector_step [OF vi1(1)] by blast
  ultimately have "\<forall>x \<in> set xs. x < length vi1 \<and> vi1 ! x \<noteq> None" using Cons.prems by simp
  from Cons.IH [OF this] vi1(1) show ?case by simp
qed simp

lemma commit_version:
  assumes "rv_append_version_info t count a b m = Inr m1" and "a < b" and "b < idx_mod"
  shows "\<exists>m2. rv_commit_append c a (b - a) m1 = Inr m2 \<and>
    (\<forall>r. rv_version m2 r = (if a \<le> r \<and> r < b then (c, snd (rv_version m1 r)) else rv_version m1 r))"
proof -
  note app = append_infos [OF assms(1)]
  have filled: "\<forall>x \<in> set (touched a b). x < length (vector_info m1) \<and> vector_info m1 ! x \<noteq> None"
    using app by (auto simp: appended_info_def rv_get_chunk_info_def)
  from commit_returns [OF filled] obtain vi2 where
    fold: "result_fold (commit_vector c a b) (touched a b) (vector_info m1) = Inr vi2" by blast
  let ?m2 = "m1\<lparr>vector_info := vi2\<rparr>"
  have vi2: "length vi2 = length (vector_info m1) \<and> (\<forall>j. j \<notin> set (touched a b) \<longrightarrow> vi2 ! j = vector_info m1 ! j) \<and>
    (\<forall>x \<in> set (touched a b). x < length (vector_info m1) \<longrightarrow> committed_info c a b x (vector_info m1 ! x) (vi2 ! x))"
    by (rule result_fold_pointwise [OF fold touched_distinct]) (rule commit_vector_step)
  have "rv_version ?m2 r = (if a \<le> r \<and> r < b then (c, snd (rv_version m1 r)) else rv_version m1 r)" for r
  proof (cases "r div standard_vector_size \<in> set (touched a b)")
    case True
    let ?x = "r div standard_vector_size" and ?i = "r mod standard_vector_size"
    have mem: "(a \<le> r \<and> r < b) \<longleftrightarrow> fst (vector_range a b ?x) \<le> ?i \<and> ?i < snd (vector_range a b ?x)"
      using vector_range_mem [OF assms(2,3), of r] True by (auto simp: touched_iff)
    have get: "rv_get_chunk_info ?x m1 = vector_info m1 ! ?x" "rv_get_chunk_info ?x ?m2 = vi2 ! ?x"
      using filled True vi2 by (auto simp: rv_get_chunk_info_def)
    have "committed_info c a b ?x (vector_info m1 ! ?x) (vi2 ! ?x)" using vi2 filled True by blast
    moreover have "\<forall>k. vector_info m1 ! ?x = Some (ConstantInfo k) \<longrightarrow> vector_range a b ?x = (0, standard_vector_size)"
      using app True get(1) unfolding appended_info_def by metis
    ultimately show ?thesis unfolding committed_info_def rv_version_def get mem by simp
  next
    case False
    then have "rv_version ?m2 r = rv_version m1 r" using vi2 by (simp add: rv_version_def rv_get_chunk_info_def)
    moreover have "\<not> (a \<le> r \<and> r < b)" using False vector_range_mem [OF assms(2,3), of r] by (auto simp: touched_iff)
    ultimately show ?thesis by presburger
  qed
  moreover have "rv_commit_append c a (b - a) m1 = Inr ?m2"
    using fold assms(2) by (simp add: rv_commit_append_def Let_def)
  ultimately show ?thesis by blast
qed

lemma append_commit_seen:
  assumes "rv_append_version_info t count a b m = Inr m1" and "a < b" and "b < idx_mod" and "undeleted a b m"
    and "transaction_id_start \<le> td_transaction_id t" and "c < transaction_id_start"
  shows "\<exists>m2. rv_commit_append c a (b - a) m1 = Inr m2 \<and>
    (\<forall>u r. running u \<and> td_start_time u < transaction_id_start \<and> transaction_id_start \<le> td_transaction_id u \<longrightarrow>
       rv_fetch u r m1 = (if a \<le> r \<and> r < b then td_transaction_id u = td_transaction_id t else rv_fetch u r m) \<and>
       rv_fetch u r m2 = (if a \<le> r \<and> r < b then c < td_start_time u else rv_fetch u r m))"
proof -
  note v1 = append_version [OF assms(1-4)]
  from commit_version [OF assms(1-3), of c] obtain m2 where m2: "rv_commit_append c a (b - a) m1 = Inr m2"
    and v2: "\<And>r. rv_version m2 r = (if a \<le> r \<and> r < b then (c, snd (rv_version m1 r)) else rv_version m1 r)" by blast
  have own: "sees u (x, not_deleted_id) \<longleftrightarrow> x < td_start_time u \<or> x = td_transaction_id u" if "running u" for u x
    using that by (auto simp: sees_def row_used_def running_def valid_transaction_def)
  have "rv_fetch u r m1 = (if a \<le> r \<and> r < b then td_transaction_id u = td_transaction_id t else rv_fetch u r m) \<and>
       rv_fetch u r m2 = (if a \<le> r \<and> r < b then c < td_start_time u else rv_fetch u r m)"
    if u: "running u" "td_start_time u < transaction_id_start" "transaction_id_start \<le> td_transaction_id u" for u r
    using own [OF u(1)] u assms(5,6) by (auto simp: rv_fetch_version v1 v2)
  with m2 show ?thesis by blast
qed

text \<open>
  C14. Isolation of appends: after a transaction appends the rows from \<open>a\<close> to \<open>b\<close>, only it sees
  them; the commit of the append returns, after it a transaction sees the rows exactly when
  it started after the commit, and neither step changes what any transaction sees of the
  other rows of the row group.
\<close>

theorem append_commit_visibility:
  assumes "rv_append_version_info t count a b m = Inr m1" and "a < b" and "b < idx_mod" and "undeleted a b m"
    and "transaction_id_start \<le> td_transaction_id t" and "c < transaction_id_start"
  shows "\<exists>m2. rv_commit_append c a (b - a) m1 = Inr m2 \<and>
    (\<forall>u r. running u \<and> td_start_time u < transaction_id_start \<and> transaction_id_start \<le> td_transaction_id u \<longrightarrow>
       rv_fetch u r m1 = (if a \<le> r \<and> r < b then td_transaction_id u = td_transaction_id t else rv_fetch u r m) \<and>
       rv_fetch u r m2 = (if a \<le> r \<and> r < b then c < td_start_time u else rv_fetch u r m))"
  using assms by (rule append_commit_seen)

theorem append_commit_visibility_witness:
  "\<exists>m1 m2. rv_append_version_info \<lparr>td_transaction_id = transaction_id_start + 3, td_start_time = 4\<rparr> 5 0 5
       (new_row_version_manager 0) = Inr m1 \<and> rv_commit_append 9 0 5 m1 = Inr m2 \<and>
     \<not> rv_fetch \<lparr>td_transaction_id = transaction_id_start + 4, td_start_time = 8\<rparr> 2 m2 \<and>
     rv_fetch \<lparr>td_transaction_id = transaction_id_start + 5, td_start_time = 11\<rparr> 2 m2"
proof -
  let ?t = "\<lparr>td_transaction_id = transaction_id_start + 3, td_start_time = 4\<rparr>"
  obtain m1 where m1: "rv_append_version_info ?t 5 0 5 (new_row_version_manager 0) = Inr m1"
    by (simp add: rv_append_version_info_def new_row_version_manager_def touched_def append_vector_def vector_range_def
        standard_vector_size_def fill_vector_info_def)
  have "undeleted 0 5 (new_row_version_manager 0)"
    by (simp add: undeleted_def rv_version_def rv_get_chunk_info_def new_row_version_manager_def)
  from append_commit_visibility [OF m1 _ _ this, of 9] obtain m2 where m2: "rv_commit_append 9 0 5 m1 = Inr m2"
    and vis: "\<forall>u r. running u \<and> td_start_time u < transaction_id_start \<and> transaction_id_start \<le> td_transaction_id u \<longrightarrow>
       rv_fetch u r m1 = (if 0 \<le> r \<and> r < 5 then td_transaction_id u = td_transaction_id ?t else rv_fetch u r (new_row_version_manager 0)) \<and>
       rv_fetch u r m2 = (if 0 \<le> r \<and> r < 5 then 9 < td_start_time u else rv_fetch u r (new_row_version_manager 0))"
    by (auto simp: transaction_id_start_def)
  have "rv_fetch u 2 m2 = (9 < td_start_time u)"
    if "running u" "td_start_time u < transaction_id_start" "transaction_id_start \<le> td_transaction_id u" for u
    using vis that by simp
  then show ?thesis
    using m1 m2 by (intro exI [of _ m1] exI [of _ m2])
      (simp add: running_def valid_transaction_def transaction_id_start_def not_deleted_id_def)
qed

section \<open>Delete and commit\<close>

text \<open>A constant info that is not deleted may be turned into a vector info.\<close>

definition convertible :: "chunk_info option \<Rightarrow> bool" where
  "convertible info = (case info of Some (ConstantInfo c) \<Rightarrow> cc_delete_id c = not_deleted_id | _ \<Rightarrow> True)"

lemma get_vector_info_version:
  assumes "rv_get_vector_info x m = (v, m1)" and "convertible (rv_get_chunk_info x m)"
  shows "i < standard_vector_size \<Longrightarrow> vector_version v i = info_version (rv_get_chunk_info x m) i"
    and "rv_get_chunk_info x m1 = Some (VectorInfo v)"
    and "j \<noteq> x \<Longrightarrow> rv_get_chunk_info j m1 = rv_get_chunk_info j m" and "x < length (vector_info m1)"
proof -
  let ?vi = "fill_vector_info x (vector_info m)"
  have len: "x < length ?vi" by (simp add: fill_vector_info_length)
  have get: "rv_get_chunk_info j m = (if length ?vi \<le> j then None else ?vi ! j)" for j
    unfolding rv_get_chunk_info_def fill_vector_info_nth ..
  have v: "v = (case ?vi ! x of None \<Rightarrow> new_vector_info (rv_start m + x * standard_vector_size)
       | Some (ConstantInfo c) \<Rightarrow> vector_of_constant (rv_start m + x * standard_vector_size) c | Some (VectorInfo v) \<Rightarrow> v)"
    and m1: "m1 = m\<lparr>vector_info := ?vi[x := Some (VectorInfo v)]\<rparr>"
    using assms(1) by (auto simp: rv_get_vector_info_def Let_def)
  show "vector_version v i = info_version (rv_get_chunk_info x m) i" if "i < standard_vector_size"
    using that assms(2) len unfolding get
    by (auto simp: v convertible_def vector_of_constant_version constant_version_def split: option.splits chunk_info.splits)
      (simp_all add: vector_version_def new_vector_info_def)
  show "rv_get_chunk_info x m1 = Some (VectorInfo v)" using len by (simp add: m1 rv_get_chunk_info_def)
  show "rv_get_chunk_info j m1 = rv_get_chunk_info j m" if "j \<noteq> x"
    using that unfolding get by (simp add: m1 rv_get_chunk_info_def)
  show "x < length (vector_info m1)" using len by (simp add: m1)
qed

text \<open>The row \<open>r\<close> is one of the given rows of the vector \<open>x\<close>.\<close>

definition in_rows :: "nat \<Rightarrow> nat list \<Rightarrow> nat \<Rightarrow> bool" where
  "in_rows x rows r \<longleftrightarrow> r div standard_vector_size = x \<and> r mod standard_vector_size \<in> set rows"

lemma get_chunk_info_flag [simp]:
  "rv_get_chunk_info x (m\<lparr>has_unserialized_changes := f\<rparr>) = rv_get_chunk_info x m"
  by (simp add: rv_get_chunk_info_def)

lemma put_vector_version:
  assumes "x < length (vector_info m)" and "vector_info m' = (vector_info m)[x := Some (VectorInfo v)]"
  shows "rv_version m' r =
    (if r div standard_vector_size = x then vector_version v (r mod standard_vector_size) else rv_version m r)"
  using assms by (auto simp: rv_version_def rv_get_chunk_info_def)

lemma delete_rows_version:
  assumes "rv_delete_rows x tid rows count m = Inr (m1, rows', n)" and "convertible (rv_get_chunk_info x m)"
    and "tid \<noteq> not_deleted_id" and "count \<le> length rows"
  shows "rv_version m1 r = (if in_rows x (take count rows) r then (fst (rv_version m r), tid) else rv_version m r)"
    and "(\<forall>i \<in> set (take count rows). i < standard_vector_size \<and> snd (rv_version m (x * standard_vector_size + i)) = not_deleted_id) \<Longrightarrow>
           set (take n rows') = set (take count rows)"
    and "convertible (rv_get_chunk_info x m1)" and "n \<le> length rows'"
proof -
  let ?m = "m\<lparr>has_unserialized_changes := True\<rparr>"
  obtain v m0 where get: "rv_get_vector_info x ?m = (v, m0)" by fastforce
  have conv: "convertible (rv_get_chunk_info x ?m)" using assms(2) by simp
  note g = get_vector_info_version [OF get conv]
  from assms(1) get obtain v' where del: "vector_delete tid rows count v = Inr (v', rows', n)"
    and m1: "m1 = m0\<lparr>vector_info := (vector_info m0)[x := Some (VectorInfo v')]\<rparr>"
    by (auto simp: rv_delete_rows_def Let_def split: sum.splits)
  show "n \<le> length rows'" using vector_delete_correct [OF assms(3,4), of v] by (simp add: del)
  have d: "deleted v' = (\<lambda>r. if r \<in> set (take count rows) then tid else deleted v r)" "inserted v' = inserted v"
    "set (take n rows') = {r \<in> set (take count rows). deleted v r = not_deleted_id}"
    using vector_delete_correct [OF assms(3,4), of v] by (simp_all add: del)
  have old: "vector_version v i = rv_version m (x * standard_vector_size + i)" if "i < standard_vector_size" for i
    using g(1) [OF that] that by (simp add: rv_version_def rv_get_chunk_info_def)
  have same: "rv_version m0 r = rv_version m r" if "r div standard_vector_size \<noteq> x"
    using g(3) [OF that] by (simp add: rv_version_def rv_get_chunk_info_def)
  have new: "rv_version m1 r = (if r div standard_vector_size = x then vector_version v' (r mod standard_vector_size) else rv_version m0 r)"
    by (rule put_vector_version [OF g(4)]) (simp add: m1)
  show "rv_version m1 r = (if in_rows x (take count rows) r then (fst (rv_version m r), tid) else rv_version m r)"
  proof (cases "r div standard_vector_size = x")
    case True
    then have "r = x * standard_vector_size + r mod standard_vector_size" by (metis div_mult_mod_eq)
    then have "rv_version m r = (inserted v (r mod standard_vector_size), deleted v (r mod standard_vector_size))"
      using old by (metis mod_less_divisor standard_vector_size_pos vector_version_def)
    then show ?thesis using True d by (auto simp: new in_rows_def vector_version_def)
  qed (simp add: new same in_rows_def)
  show "set (take n rows') = set (take count rows)"
    if all: "\<forall>i \<in> set (take count rows). i < standard_vector_size \<and> snd (rv_version m (x * standard_vector_size + i)) = not_deleted_id"
  proof -
    have "deleted v i = not_deleted_id" if "i \<in> set (take count rows)" for i
      using all that old [of i] by (simp add: vector_version_def prod_eq_iff)
    then show ?thesis unfolding d(3) by blast
  qed
  show "convertible (rv_get_chunk_info x m1)" using g(4) by (simp add: m1 rv_get_chunk_info_def convertible_def)
qed

text \<open>The rows that the info of a delete names.\<close>

definition delete_info_rows :: "delete_info \<Rightarrow> nat set" where
  "delete_info_rows di = (if di_is_consecutive di then {0..<di_count di} else (\<lambda>k. di_rows di ! k) ` {0..<di_count di})"

lemma commit_delete_info_version:
  assumes "convertible (rv_get_chunk_info x m)"
  shows "rv_version (rv_commit_delete x c di m) r =
      (if r div standard_vector_size = x \<and> r mod standard_vector_size \<in> delete_info_rows di then (fst (rv_version m r), c) else rv_version m r)"
    and "convertible (rv_get_chunk_info y m) \<Longrightarrow> convertible (rv_get_chunk_info y (rv_commit_delete x c di m))"
proof -
  let ?m = "m\<lparr>has_unserialized_changes := True\<rparr>"
  obtain v m0 where get: "rv_get_vector_info x ?m = (v, m0)" by fastforce
  have conv: "convertible (rv_get_chunk_info x ?m)" using assms by simp
  note g = get_vector_info_version [OF get conv]
  have new: "rv_version (rv_commit_delete x c di m) r =
    (if r div standard_vector_size = x then vector_version (vector_commit_delete c di v) (r mod standard_vector_size) else rv_version m0 r)"
    by (rule put_vector_version [OF g(4)]) (simp add: rv_commit_delete_def get)
  show "rv_version (rv_commit_delete x c di m) r =
      (if r div standard_vector_size = x \<and> r mod standard_vector_size \<in> delete_info_rows di then (fst (rv_version m r), c) else rv_version m r)"
  proof (cases "r div standard_vector_size = x")
    case True
    then have "rv_version m r = (inserted v (r mod standard_vector_size), deleted v (r mod standard_vector_size))"
      using g(1) [of "r mod standard_vector_size"] by (simp add: rv_version_def vector_version_def)
    then show ?thesis using True by (simp add: new vector_commit_delete_version delete_info_rows_def)
  next
    case False
    with g(3) [OF False] show ?thesis by (simp add: new) (simp add: rv_version_def)
  qed
  show "convertible (rv_get_chunk_info y (rv_commit_delete x c di m))" if "convertible (rv_get_chunk_info y m)"
  proof (cases "y = x")
    case True
    then show ?thesis using g(4) by (simp add: rv_commit_delete_def get rv_get_chunk_info_def convertible_def)
  next
    case False
    have "rv_get_chunk_info y (rv_commit_delete x c di m) = rv_get_chunk_info y m0"
      using False by (simp add: rv_commit_delete_def get rv_get_chunk_info_def)
    then show ?thesis using g(3) [OF False] that by simp
  qed
qed

text \<open>The delete entry that \<^verbatim>\<open>DuckTransaction::PushDelete\<close> writes to the undo buffer: the rows that were marked, or only
  their number when they are the first rows of the vector.\<close>

definition make_delete_info :: "nat list \<Rightarrow> nat \<Rightarrow> delete_info" where
  "make_delete_info rows count =
     (let is_consecutive = list_all (\<lambda>i. rows ! i = i) [0..<count] in
      \<lparr>di_is_consecutive = is_consecutive, di_count = count, di_rows = (if is_consecutive then [] else take count rows)\<rparr>)"

lemma make_delete_info_rows:
  assumes "count \<le> length rows"
  shows "delete_info_rows (make_delete_info rows count) = set (take count rows)"
proof -
  have taken: "take count rows = map (\<lambda>i. rows ! i) [0..<count]" using assms by (auto intro: nth_equalityI)
  have "(!) rows ` {0..<count} = {0..<count}" if "list_all (\<lambda>i. rows ! i = i) [0..<count]" using that by (force simp: list_all_iff)
  then show ?thesis by (auto simp: delete_info_rows_def make_delete_info_def Let_def taken)
qed

lemma commit_delete_version:
  assumes "convertible (rv_get_chunk_info x m)" and "n \<le> length rows"
  shows "rv_version (rv_commit_delete x c (make_delete_info rows n) m) r =
    (if in_rows x (take n rows) r then (fst (rv_version m r), c) else rv_version m r)"
  by (simp add: commit_delete_info_version(1) [OF assms(1)] make_delete_info_rows [OF assms(2)] in_rows_def)

text \<open>
  C19. Isolation of deletes: after a transaction deletes visible rows of a vector, only it
  stops seeing them; after the commit of the delete, with the undo entry in whichever of its two forms was written, a
  transaction stops seeing them exactly when it started after the commit; and no transaction sees a change of any other row.
\<close>

theorem delete_commit_visibility:
  assumes "rv_delete_rows x tid rows count m = Inr (m1, rows', n)" and "convertible (rv_get_chunk_info x m)"
    and "transaction_id_start \<le> tid" and "tid \<noteq> not_deleted_id" and "count \<le> length rows"
    and "\<forall>i \<in> set (take count rows). i < standard_vector_size \<and> snd (rv_version m (x * standard_vector_size + i)) = not_deleted_id"
    and "c < transaction_id_start"
    and "running u" and "td_start_time u < transaction_id_start" and "transaction_id_start \<le> td_transaction_id u"
  shows "rv_fetch u r m1 = (rv_fetch u r m \<and> \<not> (in_rows x (take count rows) r \<and> td_transaction_id u = tid)) \<and>
    rv_fetch u r (rv_commit_delete x c (make_delete_info rows' n) m1)
      = (rv_fetch u r m \<and> \<not> (in_rows x (take count rows) r \<and> c < td_start_time u))"
proof -
  note d = delete_rows_version [OF assms(1,2,4,5)]
  let ?m2 = "rv_commit_delete x c (make_delete_info rows' n) m1"
  have v2: "rv_version ?m2 r = (if in_rows x (take count rows) r then (fst (rv_version m r), c) else rv_version m r)"
    using d(1) d(2) [OF assms(6)] by (simp add: commit_delete_version [OF d(3,4)] in_rows_def)
  have nd: "in_rows x (take count rows) r \<Longrightarrow> snd (rv_version m r) = not_deleted_id"
    using assms(6) by (auto simp: in_rows_def)
  have s: "sees u v \<longleftrightarrow> (fst v < td_start_time u \<or> fst v = td_transaction_id u) \<and> \<not> (snd v < td_start_time u \<or> snd v = td_transaction_id u)" for v
    by (simp add: sees_def row_used_def)
  have "\<not> (not_deleted_id < td_start_time u \<or> not_deleted_id = td_transaction_id u)"
    using assms(8) by (auto simp: running_def valid_transaction_def)
  with nd assms(3,7,9,10) show ?thesis
    by (cases "in_rows x (take count rows) r") (auto simp: rv_fetch_version [OF assms(8)] d(1) v2 s)
qed

theorem delete_commit_visibility_witness:
  "\<exists>m1. rv_delete_rows 0 (transaction_id_start + 3) [0, 1] 2 (new_row_version_manager 0) = Inr (m1, [0, 1], 2) \<and>
     rv_fetch \<lparr>td_transaction_id = transaction_id_start + 4, td_start_time = 8\<rparr> 1 m1 \<and>
     di_is_consecutive (make_delete_info [0, 1] 2) \<and>
     \<not> rv_fetch \<lparr>td_transaction_id = transaction_id_start + 5, td_start_time = 11\<rparr> 1 (rv_commit_delete 0 9 (make_delete_info [0, 1] 2) m1)"
proof -
  let ?m = "new_row_version_manager 0" and ?tid = "transaction_id_start + 3"
  let ?u = "\<lparr>td_transaction_id = transaction_id_start + 4, td_start_time = 8\<rparr>" and ?w = "\<lparr>td_transaction_id = transaction_id_start + 5, td_start_time = 11\<rparr>"
  obtain m1 where m1: "rv_delete_rows 0 ?tid [0, 1] 2 ?m = Inr (m1, [0, 1], 2)"
    by (simp add: rv_delete_rows_def rv_get_vector_info_def new_row_version_manager_def fill_vector_info_def vector_delete_def
        new_vector_info_def vector_delete_loop.simps not_deleted_id_def transaction_id_start_def Let_def)
  have g: "rv_get_chunk_info x ?m = None" for x by (simp add: new_row_version_manager_def rv_get_chunk_info_def)
  note vis = delete_commit_visibility [OF m1, of 9, where r = 1]
  have "rv_fetch ?u 1 m1"
    using vis [of ?u] by (simp add: g convertible_def rv_version_def standard_vector_size_def running_def valid_transaction_def
        transaction_id_start_def not_deleted_id_def) (simp add: rv_fetch_def g)
  moreover have "\<not> rv_fetch ?w 1 (rv_commit_delete 0 9 (make_delete_info [0, 1] 2) m1)"
    using vis [of ?w] by (simp add: g convertible_def rv_version_def standard_vector_size_def running_def valid_transaction_def
        transaction_id_start_def not_deleted_id_def in_rows_def)
  moreover have "di_is_consecutive (make_delete_info [0, 1] 2)" by (simp add: make_delete_info_def numeral_2_eq_2)
  ultimately show ?thesis using m1 by blast
qed

text \<open>
  C35. A delete raises a transaction exception exactly when one of its rows has the delete mark of another transaction,
  running or committed; and whether it raises or not, no other transaction sees any difference.
\<close>

theorem delete_conflict_exact:
  assumes "convertible (rv_get_chunk_info x m)"
    and "transaction_id_start \<le> tid" and "tid \<noteq> not_deleted_id" and "count \<le> length rows" and "\<forall>i \<in> set (take count rows). i < standard_vector_size"
    and "running u" and "td_start_time u < transaction_id_start" and "td_transaction_id u \<noteq> tid"
  shows "if \<exists>i \<in> set (take count rows). snd (rv_version m (x * standard_vector_size + i)) \<notin> {not_deleted_id, tid}
    then \<exists>m1. rv_delete_rows x tid rows count m = Inl (TransactionException ''Conflict on tuple deletion!'', m1) \<and> (\<forall>r. rv_fetch u r m1 = rv_fetch u r m)
    else \<exists>m1 rows' n. rv_delete_rows x tid rows count m = Inr (m1, rows', n) \<and> (\<forall>r. rv_fetch u r m1 = rv_fetch u r m)"
proof -
  let ?m = "m\<lparr>has_unserialized_changes := True\<rparr>"
  obtain v m0 where get: "rv_get_vector_info x ?m = (v, m0)" by fastforce
  have conv: "convertible (rv_get_chunk_info x ?m)" using assms(1) by simp
  note g = get_vector_info_version [OF get conv]
  let ?put = "\<lambda>v'. m0\<lparr>vector_info := (vector_info m0)[x := Some (VectorInfo v')]\<rparr>"
  have mark: "snd (rv_version m (x * standard_vector_size + i)) = deleted v i" if "i < standard_vector_size" for i
    using g(1) [OF that] that by (simp add: rv_version_def rv_get_chunk_info_def vector_version_def prod_eq_iff)
  have same: "rv_fetch u r (?put v') = rv_fetch u r m"
    if "inserted v' = inserted v" "\<And>i. deleted v' i = deleted v i \<or> (deleted v i \<in> {tid, not_deleted_id} \<and> deleted v' i \<in> {tid, not_deleted_id})" for v' r
  proof -
    have new: "rv_version (?put v') r = (if r div standard_vector_size = x then vector_version v' (r mod standard_vector_size) else rv_version m0 r)"
      by (rule put_vector_version [OF g(4)]) simp
    have "sees u (rv_version (?put v') r) = sees u (rv_version m r)"
    proof (cases "r div standard_vector_size = x")
      case True
      then have "rv_version m r = vector_version v (r mod standard_vector_size)"
        using g(1) [of "r mod standard_vector_size"] by (simp add: rv_version_def)
      with True that(1) that(2) [of "r mod standard_vector_size"] assms(2,6,7,8) show ?thesis
        by (auto simp: new vector_version_def sees_def row_used_def running_def valid_transaction_def)
    next
      case False
      with g(3) [OF False] show ?thesis by (simp add: new) (simp add: rv_version_def)
    qed
    then show ?thesis by (simp add: rv_fetch_version [OF assms(6)])
  qed
  note d = vector_delete_correct [OF assms(3,4), of v]
  have conflict: "(\<exists>i \<in> set (take count rows). snd (rv_version m (x * standard_vector_size + i)) \<notin> {not_deleted_id, tid}) \<longleftrightarrow>
      (\<exists>i \<in> set (take count rows). deleted v i \<noteq> not_deleted_id \<and> deleted v i \<noteq> tid)"
    using assms(5) mark by auto
  show ?thesis
  proof (cases "vector_delete tid rows count v")
    case (Inl e)
    obtain err v' where e: "e = (err, v')" by (cases e)
    have "rv_delete_rows x tid rows count m = Inl (err, ?put v')" using get Inl e by (simp add: rv_delete_rows_def)
    moreover have "rv_fetch u r (?put v') = rv_fetch u r m" for r by (rule same) (use d Inl e in auto)
    ultimately show ?thesis unfolding conflict using d Inl e by auto
  next
    case (Inr e)
    obtain v' rows' n where e: "e = (v', rows', n)" by (cases e)
    have "rv_delete_rows x tid rows count m = Inr (?put v', rows', n)" using get Inr e by (simp add: rv_delete_rows_def)
    moreover have "rv_fetch u r (?put v') = rv_fetch u r m" for r by (rule same) (use d Inr e in auto)
    ultimately show ?thesis unfolding conflict using d Inr e by auto
  qed
qed

theorem delete_conflict_exact_witness:
  "\<exists>m1. rv_delete_rows 0 (transaction_id_start + 3) [2, 4] 2
       ((new_row_version_manager 0)\<lparr>vector_info := [Some (VectorInfo ((new_vector_info 0)\<lparr>any_deleted := True, deleted := (\<lambda>_. not_deleted_id)(4 := 7)\<rparr>))]\<rparr>)
       = Inl (TransactionException ''Conflict on tuple deletion!'', m1) \<and>
     rv_fetch \<lparr>td_transaction_id = transaction_id_start + 4, td_start_time = 8\<rparr> 2 m1"
proof -
  let ?m = "(new_row_version_manager 0)\<lparr>vector_info := [Some (VectorInfo ((new_vector_info 0)\<lparr>any_deleted := True, deleted := (\<lambda>_. not_deleted_id)(4 := 7)\<rparr>))]\<rparr>"
  let ?tid = "transaction_id_start + 3" and ?u = "\<lparr>td_transaction_id = transaction_id_start + 4, td_start_time = 8\<rparr>"
  have bad: "\<exists>i \<in> set (take 2 [2, 4]). snd (rv_version ?m (0 * standard_vector_size + i)) \<notin> {not_deleted_id, ?tid}"
    by (simp add: rv_version_def rv_get_chunk_info_def standard_vector_size_def vector_version_def not_deleted_id_def transaction_id_start_def)
  have "\<exists>m1. rv_delete_rows 0 ?tid [2, 4] 2 ?m = Inl (TransactionException ''Conflict on tuple deletion!'', m1) \<and> (\<forall>r. rv_fetch ?u r m1 = rv_fetch ?u r ?m)"
    using delete_conflict_exact [of 0 ?m ?tid 2 "[2, 4]" ?u] bad
    by (simp add: convertible_def rv_get_chunk_info_def running_def valid_transaction_def transaction_id_start_def not_deleted_id_def standard_vector_size_def)
  moreover have "rv_fetch ?u 2 ?m"
    by (simp add: rv_fetch_def rv_get_chunk_info_def standard_vector_size_def vector_fetch_def use_version_def new_vector_info_def
        not_deleted_id_def transaction_id_start_def)
  ultimately show ?thesis by blast
qed

section \<open>Checkpoint and reload\<close>

text \<open>No running transaction has marks: inserts are committed, and deletes are committed or absent.\<close>

definition settled :: "transaction_t \<times> transaction_t \<Rightarrow> bool" where
  "settled v \<longleftrightarrow> fst v < transaction_id_start - 1 \<and> (snd v = not_deleted_id \<or> snd v < transaction_id_start - 1)"

lemma settled_used: "settled v \<Longrightarrow> checkpoint_used v \<longleftrightarrow> snd v = not_deleted_id"
  by (auto simp: settled_def row_used_def transaction_id_start_def not_deleted_id_def invalid_index_def)

definition read_back :: "chunk_info \<Rightarrow> chunk_info option" where
  "read_back info = (case chunk_info_read (chunk_info_write info) of Inr (r, _) \<Rightarrow> r | Inl _ \<Rightarrow> None)"

lemma chunk_info_read_append:
  "chunk_info_read items = Inr (r, []) \<Longrightarrow> chunk_info_read (items @ rest) = Inr (r, rest)"
  by (induction items rule: chunk_info_read.induct) auto

text \<open>The writer does not look at the insert ids of the rows while all filled rows share one, so the rest of a vector that
  is not filled makes no difference.\<close>

definition filled :: "chunk_vector_info \<Rightarrow> chunk_vector_info" where
  "filled v = (if same_inserted_id v then v\<lparr>inserted := (\<lambda>_. cv_insert_id v)\<rparr> else v)"

lemma filled_write: "vector_write (filled v) = vector_write v"
  by (simp add: filled_def vector_write_def vector_get_sel_vector_def Let_def standard_vector_size_def)

lemma filled_wf: "vector_wf 1 v \<Longrightarrow> vector_wf n (filled v)"
  by (simp add: filled_def vector_wf_def)

lemma filled_version:
  assumes "vector_wf 1 v" and "\<forall>i < standard_vector_size. settled (vector_version v i)" and "i < standard_vector_size"
  shows "settled (vector_version (filled v) i)" and "snd (vector_version (filled v) i) = snd (vector_version v i)"
  using assms(1) assms(2) [rule_format, of 0] assms(2) [rule_format, OF assms(3)] standard_vector_size_pos
  by (auto simp: filled_def vector_wf_def vector_version_def settled_def)

lemma read_back_correct:
  assumes "chunk_info_wf 1 info"
  shows "chunk_info_read (chunk_info_write info @ rest) = Inr (read_back info, rest)"
proof (cases info)
  case (ConstantInfo c)
  then show ?thesis by (simp add: read_back_def constant_write_def)
next
  case (VectorInfo v)
  with assms have "vector_wf standard_vector_size (filled v)" by (simp add: filled_wf)
  then obtain r where "chunk_info_read (vector_write v @ []) = Inr (r, [])"
    using vector_write_read [of "filled v" "[]"] unfolding filled_write by auto
  with VectorInfo show ?thesis by (simp add: read_back_def chunk_info_read_append)
qed

lemma read_back_fetch:
  assumes "chunk_info_wf 1 info" and "has_deletes info"
    and "\<forall>i < standard_vector_size. settled (info_version (Some info) i)" and "running t" and "i < standard_vector_size"
  shows "info_fetch t (read_back info) i = (snd (info_version (Some info) i) = not_deleted_id)"
proof (cases info)
  case (ConstantInfo c)
  have "settled (cc_insert_id c, cc_delete_id c)" using assms(3,5) ConstantInfo by (auto simp: constant_version_def)
  then have "cc_delete_id c < transaction_id_start"
    using assms(2) ConstantInfo by (auto simp: constant_has_deletes_def settled_def)
  then have "cc_delete_id c \<noteq> not_deleted_id" by (auto simp: transaction_id_start_def not_deleted_id_def)
  with ConstantInfo assms(4) show ?thesis
    by (simp add: read_back_def constant_write_def constant_read_def constant_fetch_def constant_version_def
        use_version_zero running_def)
next
  case (VectorInfo v)
  with assms have wf: "vector_wf 1 v" and all: "\<forall>i < standard_vector_size. settled (vector_version v i)" by simp_all
  from filled_wf [OF wf] vector_write_read [of "filled v" "[]"] obtain r where r: "chunk_info_read (vector_write v) = Inr (r, [])"
    and f: "info_fetch t r i = checkpoint_used (vector_version (filled v) i)"
    using assms(4,5) unfolding filled_write by (auto simp: running_def)
  from settled_used [OF filled_version(1) [OF wf all assms(5)]] filled_version(2) [OF wf all assms(5)] r f VectorInfo
  show ?thesis by (simp add: read_back_def)
qed

lemma plain_info_fetch:
  assumes "chunk_info_wf n info" and "\<not> has_deletes info" and "settled (info_version (Some info) i)"
  shows "snd (info_version (Some info) i) = not_deleted_id"
  using assms transaction_id_start_not_deleted
  by (cases info) (auto simp: constant_has_deletes_def constant_version_def settled_def vector_has_deletes_def vector_wf_def vector_version_def)

text \<open>What reading the written entries does to the list of version infos.\<close>

definition put_entry :: "nat \<times> chunk_info \<Rightarrow> chunk_info option list \<Rightarrow> chunk_info option list" where
  "put_entry e vi = (fill_vector_info (fst e) vi)[fst e := read_back (snd e)]"

lemma read_entries_written:
  assumes "\<forall>(i, info) \<in> set ts. chunk_info_wf 1 info \<and> i * standard_vector_size < max_row_group_size"
  shows "read_entries (length ts) (concat (map (\<lambda>(i, info). WriteIdx i # chunk_info_write info) ts)) vi = Inr (fold put_entry ts vi)"
  using assms
proof (induction ts arbitrary: vi)
  case (Cons e ts)
  obtain i info where e: "e = (i, info)" by fastforce
  with Cons.prems have wf: "chunk_info_wf 1 info" and "i * standard_vector_size < max_row_group_size" by auto
  with Cons e show ?case by (simp add: read_back_correct [OF wf] put_entry_def)
qed simp

definition info_at :: "nat \<Rightarrow> chunk_info option list \<Rightarrow> chunk_info option" where
  "info_at j vi = (if length vi \<le> j then None else vi ! j)"

lemma info_at_Nil [simp]: "info_at j [] = None"
  by (simp add: info_at_def)

lemma info_at_put: "info_at j (put_entry e vi) = (if j = fst e then read_back (snd e) else info_at j vi)"
proof -
  have "fst e < length (fill_vector_info (fst e) vi)" by (simp add: fill_vector_info_length)
  then show ?thesis
    using fill_vector_info_nth [of "fst e" vi j] by (auto simp: info_at_def put_entry_def)
qed

lemma info_at_fold:
  "distinct (map fst ts) \<Longrightarrow> info_at j (fold put_entry ts vi) = (case map_of ts j of Some info \<Rightarrow> read_back info | None \<Rightarrow> info_at j vi)"
proof (induction ts arbitrary: vi)
  case (Cons e ts)
  have "map_of ts (fst e) = None" using Cons.prems by (auto simp: map_of_eq_None_iff)
  with Cons show ?case by (cases e) (auto simp: info_at_put split: option.splits)
qed simp

lemma serialize_step_keys:
  assumes "\<And>i. f i = [] \<or> (\<exists>v. f i = [(i, v)])"
  shows "distinct (map fst (concat (map f [0..<n]))) \<and> fst ` set (concat (map f [0..<n])) \<subseteq> {0..<n} \<and>
    map_of (concat (map f [0..<n])) j = (if j < n then map_of (f j) j else None)"
proof (induction n)
  case (Suc n)
  define c where "c = concat (map f [0..<n])"
  have step: "concat (map f [0..<Suc n]) = c @ f n" by (simp add: c_def)
  note ih = Suc.IH [folded c_def]
  then have out: "map_of c n = None" by (auto simp: map_of_eq_None_iff)
  from assms [of n] show ?case
  proof
    assume "f n = []"
    with ih show ?thesis unfolding step by (auto simp: less_Suc_eq)
  next
    assume "\<exists>v. f n = [(n, v)]"
    then obtain v where "f n = [(n, v)]" by blast
    with ih out show ?thesis unfolding step by (auto simp: less_Suc_eq map_add_def image_subset_iff split: option.splits)
  qed
qed simp

lemma to_serialize_entries:
  shows "distinct (map fst (to_serialize m))"
    and "map_of (to_serialize m) j = (case rv_get_chunk_info j m of
           Some info \<Rightarrow> if has_deletes info then Some info else None | None \<Rightarrow> None)"
    and "(i, info) \<in> set (to_serialize m) \<Longrightarrow> i < length (vector_info m) \<and> Some info \<in> set (vector_info m)"
proof -
  let ?f = "\<lambda>i. case vector_info m ! i of Some info \<Rightarrow> if has_deletes info then [(i, info)] else [] | None \<Rightarrow> []"
  have f: "?f i = [] \<or> (\<exists>v. ?f i = [(i, v)])" for i by (auto split: option.splits)
  from serialize_step_keys [of ?f "length (vector_info m)" j, OF f]
  show "distinct (map fst (to_serialize m))"
    and "map_of (to_serialize m) j = (case rv_get_chunk_info j m of
           Some info \<Rightarrow> if has_deletes info then Some info else None | None \<Rightarrow> None)"
    by (auto simp: to_serialize_def rv_get_chunk_info_def split: option.splits)
  show "i < length (vector_info m) \<and> Some info \<in> set (vector_info m)" if "(i, info) \<in> set (to_serialize m)"
    using that by (auto simp: to_serialize_def split: option.splits if_splits)
qed

text \<open>Without a version manager every row of a row group is visible.\<close>

definition reopened_fetch :: "transaction_data \<Rightarrow> nat \<Rightarrow> row_version_manager option \<Rightarrow> bool" where
  "reopened_fetch t r mo = (case mo of None \<Rightarrow> True | Some m \<Rightarrow> rv_fetch t r m)"

text \<open>
  C23. Checkpoint and reload: when no running transaction has marks in a row group that was changed since its last checkpoint, the
  written version information can be read back, and every transaction of the reopened database sees exactly the
  rows that no committed transaction has deleted. A second checkpoint, of the same or of the reopened row group,
  writes the same again. Vectors may be filled partly, with one row at least.
\<close>

theorem checkpoint_reload:
  assumes "has_unserialized_changes m" and "\<forall>r. settled (rv_version m r)"
    and "\<forall>info. Some info \<in> set (vector_info m) \<longrightarrow> chunk_info_wf 1 info"
    and "length (vector_info m) * standard_vector_size \<le> max_row_group_size"
  shows "\<exists>mo. rv_deserialize (fst (rv_checkpoint m)) start = Inr mo \<and>
    (\<forall>t r. running t \<longrightarrow> reopened_fetch t r mo = (snd (rv_version m r) = not_deleted_id)) \<and>
    fst (rv_checkpoint (snd (rv_checkpoint m))) = fst (rv_checkpoint m) \<and>
    (\<forall>m'. mo = Some m' \<longrightarrow> fst (rv_checkpoint m') = fst (rv_checkpoint m))"
proof -
  let ?ts = "to_serialize m" and ?vi = "fold put_entry (to_serialize m) []"
  note ts = to_serialize_entries [where m = m]
  have "i * standard_vector_size < max_row_group_size" if "i < length (vector_info m)" for i
    using that assms(4) by (metis less_le_trans mult_less_cancel2 standard_vector_size_pos)
  then have wf: "\<forall>(i, info) \<in> set ?ts. chunk_info_wf 1 info \<and> i * standard_vector_size < max_row_group_size"
    using ts(3) assms(3) by auto
  have fetch: "info_fetch t (info_at (r div standard_vector_size) ?vi) (r mod standard_vector_size) = (snd (rv_version m r) = not_deleted_id)"
    if t: "running t" for t r
  proof (cases "rv_get_chunk_info (r div standard_vector_size) m")
    case None
    then show ?thesis by (simp add: info_at_fold [OF ts(1)] ts(2) rv_version_def)
  next
    case (Some info)
    then have mem: "chunk_info_wf 1 info"
      using assms(3) by (auto simp: rv_get_chunk_info_def split: if_splits) (metis nth_mem not_le)
    have all: "\<forall>i < standard_vector_size. settled (info_version (Some info) i)"
    proof (intro allI impI)
      fix i assume "i < standard_vector_size"
      then have "rv_version m (r div standard_vector_size * standard_vector_size + i) = info_version (Some info) i"
        using Some by (simp add: rv_version_def)
      with assms(2) show "settled (info_version (Some info) i)" by metis
    qed
    then show ?thesis
      using Some read_back_fetch [OF mem _ all t] plain_info_fetch [OF mem]
      by (cases "has_deletes info") (simp_all add: info_at_fold [OF ts(1)] ts(2) rv_version_def)
  qed
  have again: "fst (rv_checkpoint (snd (rv_checkpoint m))) = fst (rv_checkpoint m)" using assms(1) by (simp add: rv_checkpoint_def Let_def)
  show ?thesis
  proof (cases "?ts = []")
    case True
    with assms(1) fetch again show ?thesis by (simp add: rv_checkpoint_def reopened_fetch_def)
  next
    case False
    let ?m' = "(new_row_version_manager start)\<lparr>vector_info := ?vi,
      stored_versions := WriteIdx (length ?ts) # concat (map (\<lambda>(i, info). WriteIdx i # chunk_info_write info) ?ts)\<rparr>"
    have "rv_deserialize (fst (rv_checkpoint m)) start = Inr (Some ?m')"
      using False assms(1) read_entries_written [OF wf] by (simp add: rv_checkpoint_def Let_def)
    moreover have "rv_fetch t r ?m' = info_fetch t (info_at (r div standard_vector_size) ?vi) (r mod standard_vector_size)" for t r
      by (simp add: rv_fetch_def Let_def info_at_def rv_get_chunk_info_def minus_div_mult_eq_mod)
    moreover have "fst (rv_checkpoint ?m') = fst (rv_checkpoint m)"
      using False assms(1) by (simp add: rv_checkpoint_def Let_def new_row_version_manager_def)
    ultimately show ?thesis using fetch again by (simp add: reopened_fetch_def)
  qed
qed

text \<open>Five rows of a vector that were committed with the number 3, of which the second was then deleted.\<close>

definition demo_part :: chunk_vector_info where
  "demo_part = vector_commit_delete 5 (make_delete_info [1] 1)
     ((vector_commit_append 3 0 5 (vector_append 0 5 (transaction_id_start + 1) (new_vector_info 0)))\<lparr>any_deleted := True\<rparr>)"

lemma demo_part_fields:
  "same_inserted_id demo_part" "cv_insert_id demo_part = 3" "any_deleted demo_part" "inserted demo_part i = (if i < 5 then 3 else 0)"
  "deleted demo_part i = (if i = 1 then 5 else not_deleted_id)"
  by (simp_all add: demo_part_def vector_commit_delete_def make_delete_info_def vector_commit_append_def vector_append_def new_vector_info_def
      Let_def fold_upd_upt)

theorem checkpoint_reload_witness:
  "\<exists>mo. rv_deserialize (fst (rv_checkpoint ((new_row_version_manager 0)\<lparr>has_unserialized_changes := True,
       vector_info := [Some (VectorInfo demo_part)]\<rparr>))) 0 = Inr mo \<and>
     \<not> reopened_fetch \<lparr>td_transaction_id = transaction_id_start + 4, td_start_time = 8\<rparr> 1 mo \<and>
     reopened_fetch \<lparr>td_transaction_id = transaction_id_start + 4, td_start_time = 8\<rparr> 2 mo"
proof -
  let ?m = "(new_row_version_manager 0)\<lparr>has_unserialized_changes := True, vector_info := [Some (VectorInfo demo_part)]\<rparr>"
  let ?t = "\<lparr>td_transaction_id = transaction_id_start + 4, td_start_time = 8\<rparr>"
  have v: "rv_version ?m r = (if r div standard_vector_size = 0
      then (if r mod standard_vector_size < 5 then 3 else 0, if r mod standard_vector_size = 1 then 5 else not_deleted_id) else (0, not_deleted_id))" for r
    by (auto simp: rv_version_def rv_get_chunk_info_def vector_version_def demo_part_fields)
  have st: "\<forall>r. settled (rv_version ?m r)" by (simp add: v settled_def transaction_id_start_def)
  have wf: "\<forall>info. Some info \<in> set (vector_info ?m) \<longrightarrow> chunk_info_wf 1 info" by (simp add: vector_wf_def demo_part_fields)
  obtain mo where "rv_deserialize (fst (rv_checkpoint ?m)) 0 = Inr mo"
    and mo: "\<forall>t r. running t \<longrightarrow> reopened_fetch t r mo = (snd (rv_version ?m r) = not_deleted_id)"
    using checkpoint_reload [OF _ st wf, of 0] by (auto simp: max_row_group_size_def standard_vector_size_def)
  moreover have "reopened_fetch ?t r mo = (snd (rv_version ?m r) = not_deleted_id)" for r
    by (rule mo [rule_format]) (simp add: running_def valid_transaction_def transaction_id_start_def not_deleted_id_def)
  ultimately show ?thesis by (auto simp: v standard_vector_size_def not_deleted_id_def)
qed

section \<open>Cleanup\<close>

text \<open>A vector that lies in the rows up to \<open>row_group_end\<close> may be dropped when all its rows are seen.\<close>

definition droppable :: "transaction_data \<Rightarrow> transaction_t \<Rightarrow> nat \<Rightarrow> row_version_manager \<Rightarrow> nat \<Rightarrow> bool" where
  "droppable u lowest row_group_end m x \<longleftrightarrow>
     (\<forall>info. (x + 1) * standard_vector_size \<le> row_group_end \<longrightarrow> rv_get_chunk_info x m = Some info \<longrightarrow>
        chunk_info_cleanup lowest info \<longrightarrow> (\<forall>i < standard_vector_size. info_fetch u (Some info) i))"

lemma end_vector_full:
  assumes "0 < e" and "x = (e - 1) div standard_vector_size" and "e - x * standard_vector_size = standard_vector_size"
  shows "(x + 1) * standard_vector_size \<le> e"
  using assms by (simp add: standard_vector_size_def)

lemma before_end_full: "x < (e - 1) div standard_vector_size \<Longrightarrow> (x + 1) * standard_vector_size \<le> e"
  by (simp add: standard_vector_size_def)

lemma cleanup_vector_infos:
  assumes "0 < e" and "x \<le> (e - 1) div standard_vector_size" and "droppable u lowest e m x"
  shows "y \<noteq> x \<Longrightarrow> rv_get_chunk_info y (cleanup_vector lowest e x m) = rv_get_chunk_info y m"
    and "i < standard_vector_size \<Longrightarrow>
      info_fetch u (rv_get_chunk_info x (cleanup_vector lowest e x m)) i = info_fetch u (rv_get_chunk_info x m) i"
proof -
  show "y \<noteq> x \<Longrightarrow> rv_get_chunk_info y (cleanup_vector lowest e x m) = rv_get_chunk_info y m"
    by (auto simp: cleanup_vector_def Let_def rv_get_chunk_info_def split: option.splits)
  have full: "(x + 1) * standard_vector_size \<le> e"
    if "(if x = (e - 1) div standard_vector_size then e - x * standard_vector_size else standard_vector_size) = standard_vector_size"
    using that assms(1,2) end_vector_full before_end_full by (auto split: if_splits)
  show "info_fetch u (rv_get_chunk_info x (cleanup_vector lowest e x m)) i = info_fetch u (rv_get_chunk_info x m) i"
    if "i < standard_vector_size"
  proof (cases "rv_get_chunk_info x m")
    case None
    then show ?thesis by (simp add: cleanup_vector_def Let_def)
  next
    case (Some info)
    then have "x < length (vector_info m)" by (auto simp: rv_get_chunk_info_def split: if_splits)
    with Some full assms that show ?thesis
      by (auto simp: cleanup_vector_def Let_def droppable_def rv_get_chunk_info_def split: if_splits)
  qed
qed

lemma cleanup_fold_infos:
  assumes "0 < e" and "distinct xs" and "\<forall>x \<in> set xs. x \<le> (e - 1) div standard_vector_size \<and> droppable u lowest e m x"
    and "i < standard_vector_size"
  shows "info_fetch u (rv_get_chunk_info y (fold (cleanup_vector lowest e) xs m)) i = info_fetch u (rv_get_chunk_info y m) i"
  using assms(2,3)
proof (induction xs arbitrary: m)
  case (Cons x xs)
  let ?m = "cleanup_vector lowest e x m"
  from Cons.prems have x: "x \<le> (e - 1) div standard_vector_size" "droppable u lowest e m x" by auto
  have "droppable u lowest e ?m y = droppable u lowest e m y" if "y \<in> set xs" for y
  proof -
    have "y \<noteq> x" using that Cons.prems by auto
    then show ?thesis using cleanup_vector_infos(1) [OF assms(1) x] by (simp add: droppable_def)
  qed
  with Cons have "info_fetch u (rv_get_chunk_info y (fold (cleanup_vector lowest e) xs ?m)) i = info_fetch u (rv_get_chunk_info y ?m) i"
    by auto
  also have "\<dots> = info_fetch u (rv_get_chunk_info y m) i"
    using cleanup_vector_infos [OF assms(1) x] assms(4) by (cases "y = x") auto
  finally show ?case by simp
qed simp

lemma cleanup_append_fetch:
  assumes "\<forall>x \<in> set (touched a (a + count)). droppable u lowest (a + count) m x"
  shows "rv_fetch u row (rv_cleanup_append lowest a count m) = rv_fetch u row m"
proof (cases "count = 0")
  case False
  have "\<forall>x \<in> set (touched a (a + count)). x \<le> (a + count - 1) div standard_vector_size \<and> droppable u lowest (a + count) m x"
    using assms False by (auto simp: touched_iff)
  then show ?thesis
    using False cleanup_fold_infos [OF _ touched_distinct, of "a + count" a "a + count" u lowest m]
    by (simp add: rv_fetch_def Let_def rv_cleanup_append_def minus_div_mult_eq_mod)
qed (simp add: rv_cleanup_append_def)

text \<open>A vector whose rows from the row \<open>a\<close> of the row group on were committed with the number \<open>c\<close>: each row before them is older, or
  belongs to a transaction that was active when \<open>lowest\<close> was determined, so that its mark is above \<open>lowest\<close>. The first
  row of the vector has to be older, because the loop of \<^verbatim>\<open>ChunkVectorInfo::Cleanup\<close> does not look at it.\<close>

definition appended_vector :: "transaction_t \<Rightarrow> transaction_t \<Rightarrow> nat \<Rightarrow> nat \<Rightarrow> chunk_info \<Rightarrow> bool" where
  "appended_vector c lowest a x info \<longleftrightarrow> chunk_info_wf standard_vector_size info \<and>
     (\<forall>i < standard_vector_size. if a \<le> x * standard_vector_size + i then insert_ids info i = c else insert_ids info i \<le> c \<or> lowest < insert_ids info i) \<and>
     insert_ids info 0 \<le> c"

lemma cleanup_appended:
  assumes "chunk_info_cleanup lowest info" and "appended_vector c lowest a x info" and "a < (x + 1) * standard_vector_size"
  shows "c \<le> lowest"
    and "c < td_start_time u \<Longrightarrow> running u \<Longrightarrow> i < standard_vector_size \<Longrightarrow> info_fetch u (Some info) i"
proof -
  have last: "a \<le> x * standard_vector_size + (standard_vector_size - 1)" using assms(3) standard_vector_size_pos by simp
  have wf: "chunk_info_wf standard_vector_size info" and first: "insert_ids info 0 \<le> c"
    and ids: "i < standard_vector_size \<Longrightarrow> (if a \<le> x * standard_vector_size + i then insert_ids info i = c else insert_ids info i \<le> c \<or> lowest < insert_ids info i)" for i
    using assms(2) by (auto simp: appended_vector_def)
  have lastid: "insert_ids info (standard_vector_size - 1) = c" using ids [of "standard_vector_size - 1"] last standard_vector_size_pos by simp
  have kept: "insert_ids info i \<le> lowest" if "i < standard_vector_size" "0 < i" for i
    using assms(1) wf that
    by (cases info) (auto simp: constant_cleanup_def vector_cleanup_def vector_wf_def list_ex_iff not_less split: if_splits)
  then show low: "c \<le> lowest" using lastid kept [of "standard_vector_size - 1"] by (simp add: standard_vector_size_def)
  assume u: "c < td_start_time u" "running u" "i < standard_vector_size"
  have "insert_ids info i \<le> c" using ids [OF u(3)] kept [OF u(3)] first by (cases "i = 0") (auto split: if_splits)
  then have "insert_ids info i < td_start_time u" using u(1) by linarith
  then show "info_fetch u (Some info) i"
    using assms(1) wf u by (cases info) (auto simp: constant_fetch_def vector_fetch_def use_version_def running_def valid_transaction_def
        constant_cleanup_def vector_cleanup_def vector_wf_def split: if_splits)
qed

end
