(* ===== verification/StorageLock.thy ===== *)
theory StorageLock
  imports DuckPrelude
begin

text \<open>
  The storage lock (\<^verbatim>\<open>src/storage/storage_lock.cpp\<close>): shared and exclusive keys over one mutex and one
  reader count. Each definition is one call; \<open>try_lock\<close> on the mutex is a test, \<open>lock\<close> is an
  operation that is not enabled while the mutex is held (None). \<^verbatim>\<open>GetExclusiveLock\<close> first takes the
  mutex and then spins on the reader count, so it is two operations with a waiting thread
  between them. The step relation lets any threads interleave these operations.
\<close>

section \<open>Operations\<close>

datatype storage_lock_type = SHARED | EXCLUSIVE

record storage_lock =
  exclusive_lock :: bool
  read_count :: nat

definition new_storage_lock :: storage_lock where
  "new_storage_lock = \<lparr>exclusive_lock = False, read_count = 0\<rparr>"

definition get_exclusive_begin :: "storage_lock \<Rightarrow> storage_lock option" where
  "get_exclusive_begin l = (if exclusive_lock l then None else Some (l\<lparr>exclusive_lock := True\<rparr>))"

definition get_exclusive_finish :: "storage_lock \<Rightarrow> storage_lock_type option" where
  "get_exclusive_finish l = (if read_count l \<noteq> 0 then None else Some EXCLUSIVE)"

definition get_shared_lock :: "storage_lock \<Rightarrow> (storage_lock_type \<times> storage_lock) option" where
  "get_shared_lock l = (if exclusive_lock l then None else Some (SHARED, l\<lparr>read_count := read_count l + 1\<rparr>))"

definition try_get_exclusive_lock :: "storage_lock \<Rightarrow> storage_lock_type option \<times> storage_lock" where
  "try_get_exclusive_lock l =
     (if exclusive_lock l then (None, l)
      else if read_count l \<noteq> 0 then (None, l)
      else (Some EXCLUSIVE, l\<lparr>exclusive_lock := True\<rparr>))"

definition try_upgrade_checkpoint_lock :: "storage_lock_type \<Rightarrow> storage_lock \<Rightarrow> (storage_lock_type option \<times> storage_lock) result" where
  "try_upgrade_checkpoint_lock key l =
     (if key \<noteq> SHARED then Inl (InternalException ''StorageLock::TryUpgradeLock called on an exclusive lock'')
      else if exclusive_lock l then Inr (None, l)
      else if read_count l \<noteq> 1 then Inr (None, l)
      else Inr (Some EXCLUSIVE, l\<lparr>exclusive_lock := True\<rparr>))"

fun release_key :: "storage_lock_type \<Rightarrow> storage_lock \<Rightarrow> storage_lock" where
  "release_key EXCLUSIVE l = l\<lparr>exclusive_lock := False\<rparr>"
| "release_key SHARED l = l\<lparr>read_count := read_count l - 1\<rparr>"

section \<open>Threads\<close>

text \<open>The keys that are held, each with its thread, and the thread that spins for an exclusive key.\<close>

record lock_state =
  ls_lock :: storage_lock
  ls_keys :: "(nat \<times> storage_lock_type) list"
  ls_waiting :: "nat option"

definition add_key :: "nat \<Rightarrow> storage_lock_type \<Rightarrow> storage_lock \<Rightarrow> lock_state \<Rightarrow> lock_state" where
  "add_key p k l s = s\<lparr>ls_lock := l, ls_keys := (p, k) # ls_keys s\<rparr>"

inductive lock_step :: "lock_state \<Rightarrow> lock_state \<Rightarrow> bool" where
  shared: "get_shared_lock (ls_lock s) = Some (k, l) \<Longrightarrow> lock_step s (add_key p k l s)"
| exclusive_begin: "get_exclusive_begin (ls_lock s) = Some l \<Longrightarrow> lock_step s (s\<lparr>ls_lock := l, ls_waiting := Some p\<rparr>)"
| exclusive_finish: "ls_waiting s = Some p \<Longrightarrow> get_exclusive_finish (ls_lock s) = Some k \<Longrightarrow>
    lock_step s ((add_key p k (ls_lock s) s)\<lparr>ls_waiting := None\<rparr>)"
| try_exclusive: "try_get_exclusive_lock (ls_lock s) = (Some k, l) \<Longrightarrow> lock_step s (add_key p k l s)"
| upgrade: "(p, key) \<in> set (ls_keys s) \<Longrightarrow> try_upgrade_checkpoint_lock key (ls_lock s) = Inr (Some k, l) \<Longrightarrow>
    lock_step s (add_key p k l s)"
| release: "(p, k) \<in> set (ls_keys s) \<Longrightarrow>
    lock_step s (s\<lparr>ls_lock := release_key k (ls_lock s), ls_keys := remove1 (p, k) (ls_keys s)\<rparr>)"

inductive lock_reachable :: "lock_state \<Rightarrow> bool" where
  init: "lock_reachable \<lparr>ls_lock = new_storage_lock, ls_keys = [], ls_waiting = None\<rparr>"
| step: "lock_reachable s \<Longrightarrow> lock_step s s' \<Longrightarrow> lock_reachable s'"

section \<open>Mutual exclusion\<close>

definition shared_keys :: "lock_state \<Rightarrow> (nat \<times> storage_lock_type) list" where
  "shared_keys s = filter (\<lambda>k. snd k = SHARED) (ls_keys s)"

definition exclusive_keys :: "lock_state \<Rightarrow> (nat \<times> storage_lock_type) list" where
  "exclusive_keys s = filter (\<lambda>k. snd k = EXCLUSIVE) (ls_keys s)"

definition lock_inv :: "lock_state \<Rightarrow> bool" where
  "lock_inv s \<longleftrightarrow> read_count (ls_lock s) = length (shared_keys s) \<and>
     length (exclusive_keys s) + (if ls_waiting s = None then 0 else 1) = (if exclusive_lock (ls_lock s) then 1 else 0) \<and>
     (\<forall>x \<in> set (exclusive_keys s). \<forall>y \<in> set (shared_keys s). fst x = fst y)"

lemma key_type [simp]: "k \<noteq> SHARED \<longleftrightarrow> k = EXCLUSIVE" "k \<noteq> EXCLUSIVE \<longleftrightarrow> k = SHARED"
  by (cases k; simp)+

lemma filter_remove1_length:
  "x \<in> set xs \<Longrightarrow> length (filter P (remove1 x xs)) = (if P x then length (filter P xs) - 1 else length (filter P xs))"
  by (simp add: filter_remove1 length_remove1 remove1_idem)

lemma lock_step_inv: "lock_step s s' \<Longrightarrow> lock_inv s \<Longrightarrow> lock_inv s'"
proof (induction rule: lock_step.induct)
  case (upgrade p key s k l)
  then have key: "key = SHARED" "exclusive_lock (ls_lock s) = False" "length (shared_keys s) = 1" "k = EXCLUSIVE" "l = (ls_lock s)\<lparr>exclusive_lock := True\<rparr>"
    by (auto simp: try_upgrade_checkpoint_lock_def lock_inv_def split: if_splits)
  then have "(p, SHARED) \<in> set (shared_keys s)" using upgrade.hyps by (simp add: shared_keys_def)
  with key(3) have "shared_keys s = [(p, SHARED)]" by (auto simp: length_Suc_conv)
  with upgrade.prems key show ?case by (auto simp: lock_inv_def add_key_def shared_keys_def exclusive_keys_def)
next
  case (release p k s)
  then have "length (filter P (remove1 (p, k) (ls_keys s))) =
      (if P (p, k) then length (filter P (ls_keys s)) - 1 else length (filter P (ls_keys s)))" for P
    by (intro filter_remove1_length)
  moreover have "k = EXCLUSIVE \<Longrightarrow> exclusive_keys s \<noteq> []" using release.hyps by (force simp: exclusive_keys_def filter_empty_conv)
  ultimately show ?case
    using release.prems by (cases k) (auto simp: lock_inv_def shared_keys_def exclusive_keys_def dest: notin_set_remove1 set_remove1_subset [THEN subsetD] split: if_splits)
qed (auto simp: lock_inv_def add_key_def shared_keys_def exclusive_keys_def get_shared_lock_def get_exclusive_begin_def
    get_exclusive_finish_def try_get_exclusive_lock_def filter_empty_conv split: if_splits)

lemma init_inv: "lock_inv \<lparr>ls_lock = new_storage_lock, ls_keys = [], ls_waiting = None\<rparr>"
  by (simp add: lock_inv_def new_storage_lock_def shared_keys_def exclusive_keys_def)

lemma lock_reachable_inv: "lock_reachable s \<Longrightarrow> lock_inv s"
  by (induction rule: lock_reachable.induct) (blast intro: lock_step_inv init_inv)+

lemma locked_blocks:
  assumes "exclusive_lock l"
  shows "get_shared_lock l = None" "get_exclusive_begin l = None" "fst (try_get_exclusive_lock l) = None"
    "map_sum id fst (try_upgrade_checkpoint_lock SHARED l) = Inr None"
  using assms by (simp_all add: get_shared_lock_def get_exclusive_begin_def try_get_exclusive_lock_def try_upgrade_checkpoint_lock_def)

lemma exclusive_owner:
  assumes inv: "lock_inv s" and p: "(p, EXCLUSIVE) \<in> set (ls_keys s)"
  shows "exclusive_lock (ls_lock s)" and "(q, k) \<in> set (ls_keys s) \<Longrightarrow> q = p"
proof -
  have mem: "(p, EXCLUSIVE) \<in> set (exclusive_keys s)" using p by (simp add: exclusive_keys_def)
  with inv have one: "length (exclusive_keys s) = 1" and locked: "exclusive_lock (ls_lock s)"
    by (cases "exclusive_keys s"; simp add: lock_inv_def split: if_splits)+
  then show "exclusive_lock (ls_lock s)" by blast
  show "q = p" if "(q, k) \<in> set (ls_keys s)"
  proof (cases k)
    case SHARED
    then show ?thesis using inv mem that by (fastforce simp: lock_inv_def shared_keys_def)
  next
    case EXCLUSIVE
    then have "(q, EXCLUSIVE) \<in> set (exclusive_keys s)" using that by (simp add: exclusive_keys_def)
    with one mem show ?thesis by (auto simp: length_Suc_conv)
  qed
qed

text \<open>
  C30. Mutual exclusion of the storage lock under every interleaving: while a thread holds an
  exclusive key, no other thread holds any key, no shared key can be taken and no exclusive key
  can be taken; the reader count is the number of shared keys; and a thread that spins for an
  exclusive key gets it as soon as the shared keys are released.
\<close>

theorem storage_lock_exclusion:
  assumes "lock_reachable s"
  shows "((p, EXCLUSIVE) \<in> set (ls_keys s) \<longrightarrow> (\<forall>q k. (q, k) \<in> set (ls_keys s) \<longrightarrow> q = p) \<and>
      get_shared_lock (ls_lock s) = None \<and> get_exclusive_begin (ls_lock s) = None \<and>
      fst (try_get_exclusive_lock (ls_lock s)) = None \<and> map_sum id fst (try_upgrade_checkpoint_lock SHARED (ls_lock s)) = Inr None) \<and>
    read_count (ls_lock s) = length (filter (\<lambda>k. snd k = SHARED) (ls_keys s)) \<and>
    (ls_waiting s = Some p \<longrightarrow> get_shared_lock (ls_lock s) = None \<and>
      (filter (\<lambda>k. snd k = SHARED) (ls_keys s) = [] \<longrightarrow> get_exclusive_finish (ls_lock s) = Some EXCLUSIVE))"
proof -
  note inv = lock_reachable_inv [OF assms]
  have "read_count (ls_lock s) = length (filter (\<lambda>k. snd k = SHARED) (ls_keys s))"
    using inv by (simp add: lock_inv_def shared_keys_def)
  moreover have "exclusive_lock (ls_lock s)" if "ls_waiting s = Some p"
    using inv that by (simp add: lock_inv_def split: if_splits)
  ultimately show ?thesis
    using exclusive_owner [OF inv, of p] locked_blocks [of "ls_lock s"] by (simp add: get_exclusive_finish_def)
qed

theorem storage_lock_exclusion_witness:
  "\<exists>s :: lock_state. (7, EXCLUSIVE) \<in> set (ls_keys s) \<and> (7, SHARED) \<in> set (ls_keys s) \<and> get_shared_lock (ls_lock s) = None"
proof -
  let ?s0 = "\<lparr>ls_lock = new_storage_lock, ls_keys = [], ls_waiting = None\<rparr>"
  let ?s1 = "add_key 7 SHARED \<lparr>exclusive_lock = False, read_count = 1\<rparr> ?s0"
  let ?s2 = "add_key 7 EXCLUSIVE \<lparr>exclusive_lock = True, read_count = 1\<rparr> ?s1"
  have "lock_step ?s0 ?s1" by (rule lock_step.shared) (simp add: get_shared_lock_def new_storage_lock_def)
  moreover have "lock_step ?s1 ?s2"
    by (rule lock_step.upgrade [where key = SHARED]) (simp_all add: add_key_def try_upgrade_checkpoint_lock_def)
  ultimately have "lock_reachable ?s2" by (meson lock_reachable.intros)
  from storage_lock_exclusion [OF this, of 7] have "get_shared_lock (ls_lock ?s2) = None" by (simp add: add_key_def)
  then show ?thesis by (intro exI [of _ ?s2]) (simp add: add_key_def)
qed

end
