(* ===== verification/TransactionManager.thy ===== *)
theory TransactionManager
  imports RowVersion StorageLock
begin

text \<open>
  The transaction manager (\<^verbatim>\<open>src/transaction/duck_transaction_manager.cpp\<close>) with the parts of
  \<^verbatim>\<open>src/transaction/duck_transaction.cpp\<close> that it calls: timestamps and transaction ids, the lists
  of active, recently committed and old transactions, the checkpoint decision of a commit,
  and the cleanup queue.

  A transaction is designated by its id where the code passes a reference. The outcome of
  writing the log, of committing and of rolling back the undo buffer is an argument: no
  error, or its message. A commit gives up the transaction lock while it writes the log, so it
  is two steps: the check before and the rest after; other steps may come between them.
\<close>

section \<open>State\<close>

record duck_transaction =
  tx_start_time :: transaction_t
  tx_id :: transaction_t
  tx_commit_id :: transaction_t
  tx_active_query :: nat
  tx_highest_active_query :: nat
  tx_catalog_version :: nat
  tx_awaiting_cleanup :: bool
  tx_changes_made :: bool
  tx_read_only :: bool
  tx_has_write_lock :: bool

record undo_buffer_properties =
  up_estimated_size :: nat
  up_has_updates :: bool
  up_has_deletes :: bool
  up_has_index_deletes :: bool
  up_has_catalog_changes :: bool
  up_has_dropped_entries :: bool

record cleanup_info =
  ci_lowest_start_time :: transaction_t
  ci_transactions :: "duck_transaction list"

record transaction_manager =
  current_start_timestamp :: transaction_t
  current_transaction_id :: transaction_t
  lowest_active_id :: transaction_t
  lowest_active_start :: transaction_t
  last_commit :: transaction_t
  active_transactions :: "duck_transaction list"
  recently_committed_transactions :: "duck_transaction list"
  old_transactions :: "duck_transaction list"
  cleanup_queue :: "cleanup_info list"
  last_uncommitted_catalog_version :: nat
  last_committed_version :: nat

text \<open>What the manager asks of the database and its storage.\<close>

record database_env =
  db_is_system :: bool
  db_is_temporary :: bool
  db_is_read_only :: bool
  db_storage_loaded :: bool
  db_automatic_checkpoint :: "nat \<Rightarrow> bool"
  db_skip_checkpoint_on_commit :: bool
  db_checkpoint_lock :: storage_lock
  db_has_wal :: bool
  db_in_memory :: bool
  db_compression_enabled :: bool

definition max_transaction_id :: transaction_t where
  "max_transaction_id = idx_mod - 1"

definition maximum_query_id :: transaction_t where
  "maximum_query_id = idx_mod - 1"

definition new_transaction_manager :: transaction_manager where
  "new_transaction_manager =
     \<lparr>current_start_timestamp = 2, current_transaction_id = transaction_id_start, lowest_active_id = transaction_id_start,
      lowest_active_start = max_transaction_id, last_commit = 0, active_transactions = [],
      recently_committed_transactions = [], old_transactions = [], cleanup_queue = [],
      last_uncommitted_catalog_version = transaction_id_start, last_committed_version = 0\<rparr>"

section \<open>Starting a transaction\<close>

definition new_duck_transaction :: "transaction_t \<Rightarrow> transaction_t \<Rightarrow> nat \<Rightarrow> duck_transaction" where
  "new_duck_transaction start_time transaction_id catalog_version =
     \<lparr>tx_start_time = start_time, tx_id = transaction_id, tx_commit_id = 0, tx_active_query = maximum_query_id,
      tx_highest_active_query = 0, tx_catalog_version = catalog_version, tx_awaiting_cleanup = False,
      tx_changes_made = False, tx_read_only = True, tx_has_write_lock = False\<rparr>"

definition start_transaction :: "transaction_manager \<Rightarrow> (duck_transaction \<times> transaction_manager) result" where
  "start_transaction m =
     (if transaction_id_start \<le> current_start_timestamp m
      then Inl (InternalException ''Cannot start more transactions, ran out of transaction identifiers!'')
      else
        (let start_time = current_start_timestamp m;
             transaction_id = current_transaction_id m;
             t = new_duck_transaction start_time transaction_id (last_committed_version m);
             m1 = m\<lparr>current_start_timestamp := start_time + 1, current_transaction_id := transaction_id + 1\<rparr>;
             m2 = (if active_transactions m = []
                   then m1\<lparr>lowest_active_start := start_time, lowest_active_id := transaction_id\<rparr> else m1) in
         Inr (t, m2\<lparr>active_transactions := active_transactions m2 @ [t]\<rparr>)))"

section \<open>The checkpoint decision\<close>

datatype checkpoint_type = FULL_CHECKPOINT | CONCURRENT_CHECKPOINT | VACUUM_ONLY

datatype checkpoint_decision = NoCheckpoint string | CanCheckpoint checkpoint_type

definition automatic_checkpoint :: "database_env \<Rightarrow> duck_transaction \<Rightarrow> undo_buffer_properties \<Rightarrow> bool" where
  "automatic_checkpoint db t undo =
     (tx_changes_made t \<and> \<not> db_is_read_only db \<and> db_automatic_checkpoint db (up_estimated_size undo))"

definition should_write_to_wal :: "database_env \<Rightarrow> duck_transaction \<Rightarrow> bool" where
  "should_write_to_wal db t = (tx_changes_made t \<and> \<not> db_is_system db \<and> db_has_wal db)"

fun list_transactions :: "transaction_t list \<Rightarrow> string" where
  "list_transactions [] = []"
| "list_transactions [t] = ''['' @ to_string t @ '']''"
| "list_transactions (t # ts) = ''['' @ to_string t @ ''], '' @ list_transactions ts"

definition other_transactions :: "transaction_manager \<Rightarrow> duck_transaction \<Rightarrow> duck_transaction list" where
  "other_transactions m t = filter (\<lambda>a. tx_id a \<noteq> tx_id t) (active_transactions m)"

definition try_get_checkpoint_lock :: "database_env \<Rightarrow> duck_transaction \<Rightarrow> bool result" where
  "try_get_checkpoint_lock db t =
     (if \<not> tx_has_write_lock t
      then Inl (InternalException ''TryUpgradeCheckpointLock - but thread has no shared lock!?'')
      else result_bind (try_upgrade_checkpoint_lock SHARED (db_checkpoint_lock db)) (\<lambda>(key, _). Inr (key \<noteq> None)))"

definition can_checkpoint ::
  "database_env \<Rightarrow> transaction_manager \<Rightarrow> duck_transaction \<Rightarrow> undo_buffer_properties \<Rightarrow> checkpoint_decision result" where
  "can_checkpoint db m t undo =
     (if db_is_system db then Inr (NoCheckpoint ''system transaction'')
      else if tx_read_only t then Inr (NoCheckpoint ''transaction is read-only'')
      else if \<not> db_storage_loaded db then Inr (NoCheckpoint ''cannot checkpoint while loading'')
      else if \<not> automatic_checkpoint db t undo then Inr (NoCheckpoint ''no reason to automatically checkpoint'')
      else if db_skip_checkpoint_on_commit db
      then Inr (NoCheckpoint ''checkpointing on commit disabled through configuration'')
      else
        result_bind (try_get_checkpoint_lock db t) (\<lambda>locked.
          if \<not> locked
          then Inr (NoCheckpoint (''Failed to obtain checkpoint lock - another thread is writing/checkpointing or '' @
                                  ''another read transaction relies on data that is not yet committed''))
          else
            (let others = other_transactions m t;
                 names = [CHR 0x0A] @ ''Active transactions: '' @ list_transactions (map tx_id others);
                 ctype = (if others \<noteq> [] then CONCURRENT_CHECKPOINT else FULL_CHECKPOINT) in
             if others \<noteq> [] \<and> up_has_dropped_entries undo
             then Inr (NoCheckpoint (''Transaction has dropped catalog entries and there are other transactions active'' @ names))
             else if others \<noteq> [] \<and> up_has_updates undo
             then Inr (NoCheckpoint (''Transaction has performed updates and there are other transactions active'' @ names))
             else if db_in_memory db \<and> \<not> db_compression_enabled db
             then Inr (if ctype = CONCURRENT_CHECKPOINT
                       then NoCheckpoint ''Cannot vacuum, and compression is disabled for in-memory table''
                       else CanCheckpoint VACUUM_ONLY)
             else Inr (CanCheckpoint ctype))))"

section \<open>Removing a transaction\<close>

definition get_commit_timestamp :: "transaction_manager \<Rightarrow> transaction_t \<times> transaction_manager" where
  "get_commit_timestamp m =
     (current_start_timestamp m,
      m\<lparr>current_start_timestamp := current_start_timestamp m + 1, last_commit := current_start_timestamp m\<rparr>)"

text \<open>
  \<^verbatim>\<open>RemoveTransaction\<close>: \<open>t\<close> is the transaction to remove, as it is when it ends, and \<open>current_query\<close>
  the number of the active query.
\<close>

definition lowest_of :: "transaction_t \<Rightarrow> transaction_t list \<Rightarrow> transaction_t" where
  "lowest_of init xs = fold min xs init"

definition remove_transaction ::
  "nat \<Rightarrow> bool \<Rightarrow> duck_transaction \<Rightarrow> transaction_manager \<Rightarrow> cleanup_info \<times> transaction_manager" where
  "remove_transaction current_query store_transaction t m =
     (let others = other_transactions m t;
          lowest_start_time = lowest_of transaction_id_start (map tx_start_time others);
          lowest_transaction_id = lowest_of max_transaction_id (map tx_id others);
          lowest_active_query = lowest_of maximum_query_id (map tx_active_query others);
          recent0 = (if store_transaction \<and> tx_commit_id t \<noteq> 0
                     then recently_committed_transactions m @ [t] else recently_committed_transactions m);
          old0 = (if store_transaction \<and> tx_commit_id t = 0
                  then old_transactions m @ [t\<lparr>tx_highest_active_query := current_query\<rparr>] else old_transactions m);
          direct = (if \<not> store_transaction \<and> tx_changes_made t then [t\<lparr>tx_awaiting_cleanup := True\<rparr>] else []);
          moved = takeWhile (\<lambda>r. \<not> lowest_start_time \<le> tx_commit_id r) recent0;
          recent1 = drop (length moved) recent0;
          old1 = old0 @ map (\<lambda>r. r\<lparr>tx_awaiting_cleanup := True, tx_highest_active_query := current_query\<rparr>) moved;
          freed = (if others = [] then old1
                   else takeWhile (\<lambda>r. \<not> lowest_active_query \<le> tx_highest_active_query r) old1) in
      (\<lparr>ci_lowest_start_time = lowest_start_time, ci_transactions = direct @ freed\<rparr>,
       m\<lparr>lowest_active_start := lowest_start_time, lowest_active_id := lowest_transaction_id,
         active_transactions := others, recently_committed_transactions := recent1,
         old_transactions := drop (length freed) old1\<rparr>))"

definition schedule_cleanup :: "cleanup_info \<times> transaction_manager \<Rightarrow> transaction_manager" where
  "schedule_cleanup r =
     (if ci_transactions (fst r) = [] then snd r
      else (snd r)\<lparr>cleanup_queue := cleanup_queue (snd r) @ [fst r]\<rparr>)"

text \<open>One run of the cleanup: the transactions that are cleaned, each with the lowest start time it
  is cleaned for.\<close>

definition run_cleanup :: "transaction_manager \<Rightarrow> (duck_transaction \<times> transaction_t) list \<times> transaction_manager" where
  "run_cleanup m =
     (case cleanup_queue m of
        [] \<Rightarrow> ([], m)
      | c # cs \<Rightarrow> (map (\<lambda>t. (t, ci_lowest_start_time c)) (filter tx_awaiting_cleanup (ci_transactions c)),
                  m\<lparr>cleanup_queue := cs\<rparr>))"

section \<open>Commit and rollback\<close>

text \<open>The part of \<^verbatim>\<open>CommitTransaction\<close> before the log is written: the decision and whether the log
  is written.\<close>

definition commit_check ::
  "database_env \<Rightarrow> transaction_manager \<Rightarrow> duck_transaction \<Rightarrow> undo_buffer_properties \<Rightarrow> (checkpoint_decision \<times> bool) result" where
  "commit_check db m t undo =
     (if \<not> db_is_system db \<and> \<not> db_is_temporary db \<and> tx_changes_made t \<and> tx_read_only t
      then Inl (InternalException ''Attempting to commit a transaction that is read-only but has made changes - this should not be possible'')
      else
        result_bind (can_checkpoint db m t undo) (\<lambda>decision.
          case decision of
            CanCheckpoint ct \<Rightarrow> Inr (decision, False)
          | NoCheckpoint reason \<Rightarrow>
              (if should_write_to_wal db t
               then (if \<not> tx_has_write_lock t
                     then Inl (InternalException ''Transaction writing to WAL does not have the write lock'')
                     else Inr (decision, True))
               else Inr (decision, False))))"

text \<open>\<^verbatim>\<open>DuckTransaction::Commit\<close> sets the commit id and fails as its storage does.\<close>

definition transaction_commit :: "transaction_t \<Rightarrow> string option \<Rightarrow> duck_transaction \<Rightarrow> string option \<times> duck_transaction" where
  "transaction_commit commit_id storage_error t =
     (if tx_changes_made t then storage_error else None, t\<lparr>tx_commit_id := commit_id\<rparr>)"

text \<open>The part of \<^verbatim>\<open>CommitTransaction\<close> from the commit timestamp to the scheduling of the cleanup; the
  result is the error of the commit, if any, and the manager.\<close>

definition commit_finish ::
  "nat \<Rightarrow> undo_buffer_properties \<Rightarrow> string option \<Rightarrow> string option \<Rightarrow> string option \<Rightarrow> duck_transaction \<Rightarrow>
   transaction_manager \<Rightarrow> (string option \<times> duck_transaction \<times> transaction_manager) result" where
  "commit_finish current_query undo wal_error storage_error rollback_error t m =
     (let (commit_id, m1) = get_commit_timestamp m;
          (error, t1) = (if wal_error = None then transaction_commit commit_id storage_error t else (wal_error, t));
          store_transaction = (up_has_updates undo \<or> up_has_index_deletes undo \<or> up_has_catalog_changes undo \<or> error \<noteq> None) in
      case error of
        Some msg \<Rightarrow>
          (case rollback_error of
             Some r \<Rightarrow> Inl (FatalException (''Failed to rollback transaction. Cannot continue operation.'' @ [CHR 0x0A] @
                                 ''Original Error: '' @ msg @ [CHR 0x0A] @ ''Rollback Error: '' @ r))
           | None \<Rightarrow>
               (let t2 = t1\<lparr>tx_commit_id := 0\<rparr> in
                Inr (error, t2, schedule_cleanup (remove_transaction current_query store_transaction t2 m1))))
      | None \<Rightarrow>
          (let (t2, m2) = (if transaction_id_start \<le> tx_catalog_version t1
                           then (t1\<lparr>tx_catalog_version := last_committed_version m1 + 1\<rparr>,
                                 m1\<lparr>last_committed_version := last_committed_version m1 + 1\<rparr>)
                           else (t1, m1)) in
           Inr (None, t2, schedule_cleanup (remove_transaction current_query store_transaction t2 m2))))"

text \<open>A rollback removes the transaction also when it fails; the exception is raised last.\<close>

definition rollback_transaction ::
  "nat \<Rightarrow> string option \<Rightarrow> duck_transaction \<Rightarrow> transaction_manager \<Rightarrow> duck_error option \<times> transaction_manager" where
  "rollback_transaction current_query rollback_error t m =
     (map_option (\<lambda>e. FatalException (''Failed to rollback transaction. Cannot continue operation.'' @ [CHR 0x0A] @ ''Error: '' @ e)) rollback_error,
      schedule_cleanup (remove_transaction current_query (tx_changes_made t) t m))"

definition push_catalog_entry :: "database_env \<Rightarrow> duck_transaction \<Rightarrow> transaction_manager \<Rightarrow> transaction_manager result" where
  "push_catalog_entry db t m =
     (if \<not> db_is_system db \<and> \<not> db_is_temporary db \<and> tx_read_only t
      then Inl (InternalException ''Attempting to do catalog changes on a transaction that is read-only - this should not be possible'')
      else
        (let v = last_uncommitted_catalog_version m + 1 in
         Inr (m\<lparr>last_uncommitted_catalog_version := v,
               active_transactions := map (\<lambda>a. if tx_id a = tx_id t then a\<lparr>tx_catalog_version := v, tx_changes_made := True\<rparr> else a)
                                        (active_transactions m)\<rparr>)))"

definition push_attach :: "database_env \<Rightarrow> duck_transaction \<Rightarrow> transaction_manager \<Rightarrow> transaction_manager result" where
  "push_attach db t m =
     (if \<not> db_is_system db then Inl (InternalException ''Can only ATTACH in the system catalog'')
      else
        (let v = last_uncommitted_catalog_version m + 1 in
         Inr (m\<lparr>last_uncommitted_catalog_version := v,
               active_transactions := map (\<lambda>a. if tx_id a = tx_id t then a\<lparr>tx_catalog_version := v, tx_changes_made := True\<rparr> else a)
                                        (active_transactions m)\<rparr>)))"

text \<open>
  \<^verbatim>\<open>CommitTransaction\<close> without another thread between its parts. The log is written only when the
  check asks for it, the front of the cleanup queue is cleaned, and a failed checkpoint is
  merged into the error. The result is the error, what was cleaned, and the manager.
\<close>

definition merge_error :: "string option \<Rightarrow> string option \<Rightarrow> string option" where
  "merge_error error other =
     (case (error, other) of
        (_, None) \<Rightarrow> error
      | (None, Some _) \<Rightarrow> other
      | (Some a, Some b) \<Rightarrow> Some (a @ [CHR 0x0A, CHR 0x0A] @ b))"

definition commit_transaction ::
  "database_env \<Rightarrow> nat \<Rightarrow> undo_buffer_properties \<Rightarrow> string option \<Rightarrow> string option \<Rightarrow> string option \<Rightarrow> (checkpoint_type \<Rightarrow> string option) \<Rightarrow>
   duck_transaction \<Rightarrow> transaction_manager \<Rightarrow> (string option \<times> (duck_transaction \<times> transaction_t) list \<times> transaction_manager) result" where
  "commit_transaction db current_query undo wal_error storage_error rollback_error create_checkpoint t m =
     result_bind (commit_check db m t undo) (\<lambda>(decision, write_wal).
       result_bind (commit_finish current_query undo (if write_wal then wal_error else None) storage_error rollback_error t m)
         (\<lambda>(error, t', m').
           let (cleaned, m'') = run_cleanup m' in
           case (error, decision) of
             (None, CanCheckpoint ct) \<Rightarrow> Inr (merge_error error (create_checkpoint ct), cleaned, m'')
           | _ \<Rightarrow> Inr (error, cleaned, m'')))"

text \<open>
  \<^verbatim>\<open>Checkpoint\<close>: \<open>current\<close> is the transaction of the client on this database. A forced checkpoint
  polls the lock; each entry of \<open>polls\<close> tells whether the client was interrupted and how the
  lock was, and None means that it still waits.
\<close>

fun force_lock :: "(bool \<times> storage_lock) list \<Rightarrow> unit result option" where
  "force_lock [] = None"
| "force_lock ((interrupted, lock) # polls) =
     (if interrupted then Some (Inl InterruptException)
      else if fst (try_get_exclusive_lock lock) \<noteq> None then Some (Inr ()) else force_lock polls)"

definition checkpoint_options_type :: "transaction_manager \<Rightarrow> checkpoint_type" where
  "checkpoint_options_type m = (if lowest_active_start m < last_commit m then CONCURRENT_CHECKPOINT else FULL_CHECKPOINT)"

definition checkpoint ::
  "bool \<Rightarrow> duck_transaction option \<Rightarrow> storage_lock \<Rightarrow> (bool \<times> storage_lock) list \<Rightarrow> transaction_manager \<Rightarrow> checkpoint_type result option" where
  "checkpoint force current lock polls m =
     (if current \<noteq> None \<and> force
      then Some (Inl (TransactionException ''Cannot FORCE CHECKPOINT: the current transaction has been started for this database''))
      else if (case current of Some t \<Rightarrow> tx_changes_made t | None \<Rightarrow> False)
      then Some (Inl (TransactionException ''Cannot CHECKPOINT: the current transaction has transaction local changes''))
      else if \<not> force then
        (if fst (try_get_exclusive_lock lock) = None
         then Some (Inl (TransactionException (''Cannot CHECKPOINT: there are other write transactions active. Try using FORCE '' @
                                               ''CHECKPOINT to wait until all active transactions are finished'')))
         else Some (Inr (checkpoint_options_type m)))
      else map_option (\<lambda>r. result_bind r (\<lambda>_. Inr (checkpoint_options_type m))) (force_lock polls))"

section \<open>Runs of the manager\<close>

text \<open>The changes that a running transaction makes to itself: its flags, its query number and its
  catalog version.\<close>

definition same_transaction :: "duck_transaction \<Rightarrow> duck_transaction \<Rightarrow> bool" where
  "same_transaction a b \<longleftrightarrow> tx_id a = tx_id b \<and> tx_start_time a = tx_start_time b \<and> tx_commit_id a = tx_commit_id b \<and>
     tx_awaiting_cleanup a = tx_awaiting_cleanup b"

inductive tm_step :: "transaction_manager \<Rightarrow> transaction_manager \<Rightarrow> bool" where
  start: "start_transaction m = Inr (t, m') \<Longrightarrow> tm_step m m'"
| work: "list_all2 same_transaction ts (active_transactions m) \<Longrightarrow>
    tm_step m (m\<lparr>active_transactions := ts, last_uncommitted_catalog_version := v\<rparr>)"
| commit: "t \<in> set (active_transactions m) \<Longrightarrow>
    commit_finish query undo wal_error storage_error rollback_error t m = Inr (err, t', m') \<Longrightarrow> tm_step m m'"
| rollback: "t \<in> set (active_transactions m) \<Longrightarrow> tm_step m (snd (rollback_transaction query rollback_error t m))"
| cleanup: "tm_step m (snd (run_cleanup m))"

inductive tm_reachable :: "transaction_manager \<Rightarrow> bool" where
  init: "tm_reachable new_transaction_manager"
| step: "tm_reachable m \<Longrightarrow> tm_step m m' \<Longrightarrow> tm_reachable m'"

text \<open>
  The invariant. Active transactions are in the order of their start, with distinct ids, none
  committed; start times and ids come from their counters and are kept apart. Recently
  committed transactions are in the order of their commit. A transaction that waits for its
  cleanup is older than every active transaction, and so is a transaction of the cleanup queue
  on which its cleanup has an effect.
\<close>

definition active_ok :: "transaction_manager \<Rightarrow> bool" where
  "active_ok m \<longleftrightarrow> sorted_wrt (<) (map tx_start_time (active_transactions m)) \<and>
     sorted_wrt (<) (map tx_id (active_transactions m)) \<and>
     (\<forall>t \<in> set (active_transactions m). 0 < tx_start_time t \<and> tx_start_time t < current_start_timestamp m \<and> tx_start_time t < transaction_id_start \<and>
        transaction_id_start \<le> tx_id t \<and> tx_id t < current_transaction_id m \<and> tx_commit_id t = 0 \<and> \<not> tx_awaiting_cleanup t \<and>
        lowest_active_start m \<le> tx_start_time t \<and> lowest_active_id m \<le> tx_id t) \<and>
     0 < current_start_timestamp m \<and> transaction_id_start \<le> current_transaction_id m"

text \<open>The counters: a commit takes a timestamp for a transaction that took one when it started, and
  no transaction starts once the timestamps reach the transaction ids.\<close>

definition counters_ok :: "transaction_manager \<Rightarrow> bool" where
  "counters_ok m \<longleftrightarrow> length (active_transactions m) + 2 \<le> current_start_timestamp m \<and>
     current_start_timestamp m + length (active_transactions m) \<le> 2 * transaction_id_start \<and>
     current_transaction_id m \<le> transaction_id_start + current_start_timestamp m \<and> current_transaction_id m \<le> 2 * transaction_id_start"

definition recent_ok :: "transaction_manager \<Rightarrow> bool" where
  "recent_ok m \<longleftrightarrow> sorted_wrt (<) (map tx_commit_id (recently_committed_transactions m)) \<and>
     (\<forall>r \<in> set (recently_committed_transactions m). 0 < tx_commit_id r \<and> tx_commit_id r < current_start_timestamp m \<and>
        \<not> tx_awaiting_cleanup r)"

definition old_ok :: "transaction_manager \<Rightarrow> bool" where
  "old_ok m \<longleftrightarrow> (\<forall>r \<in> set (old_transactions m). tx_commit_id r < current_start_timestamp m \<and>
     (\<forall>t \<in> set (active_transactions m). tx_commit_id r < tx_start_time t) \<and> (tx_awaiting_cleanup r \<longleftrightarrow> tx_commit_id r \<noteq> 0))"

definition cleanup_ok :: "transaction_manager \<Rightarrow> transaction_t \<Rightarrow> duck_transaction \<Rightarrow> bool" where
  "cleanup_ok m lowest r \<longleftrightarrow> tx_awaiting_cleanup r \<longrightarrow> tx_commit_id r < current_start_timestamp m \<and>
     (tx_commit_id r \<le> lowest \<longrightarrow> (\<forall>t \<in> set (active_transactions m). tx_commit_id r < tx_start_time t))"

definition queue_ok :: "transaction_manager \<Rightarrow> bool" where
  "queue_ok m \<longleftrightarrow> (\<forall>c \<in> set (cleanup_queue m). \<forall>r \<in> set (ci_transactions c). cleanup_ok m (ci_lowest_start_time c) r)"

definition tm_inv :: "transaction_manager \<Rightarrow> bool" where
  "tm_inv m \<longleftrightarrow> active_ok m \<and> counters_ok m \<and> recent_ok m \<and> old_ok m \<and> queue_ok m"

lemmas tm_inv_defs = tm_inv_def active_ok_def counters_ok_def recent_ok_def old_ok_def queue_ok_def cleanup_ok_def

lemma lowest_of_le: "x \<in> set xs \<Longrightarrow> lowest_of i xs \<le> x" and lowest_of_init: "lowest_of i xs \<le> i"
proof -
  have "fold min xs i \<le> i \<and> (\<forall>x \<in> set xs. fold min xs i \<le> x)" for xs
    by (induction xs arbitrary: i) (auto, (meson min.boundedE)+)
  then show "x \<in> set xs \<Longrightarrow> lowest_of i xs \<le> x" and "lowest_of i xs \<le> i" by (auto simp: lowest_of_def)
qed

lemma sorted_wrt_map_filter: "sorted_wrt (<) (map f xs) \<Longrightarrow> sorted_wrt (<) (map f (filter P xs))"
  by (induction xs) auto

lemma new_manager_inv: "tm_inv new_transaction_manager"
  by (simp add: tm_inv_defs new_transaction_manager_def transaction_id_start_def)

lemma lowest_le_current:
  assumes "active_ok m" and "active_transactions m \<noteq> []"
  shows "lowest_active_start m \<le> current_start_timestamp m" and "lowest_active_id m \<le> current_transaction_id m"
proof -
  obtain t where "t \<in> set (active_transactions m)" using assms(2) by (cases "active_transactions m") auto
  with assms(1) show "lowest_active_start m \<le> current_start_timestamp m" and "lowest_active_id m \<le> current_transaction_id m"
    unfolding active_ok_def by (meson less_imp_le order_trans)+
qed

lemma start_inv:
  assumes "tm_inv m" and "start_transaction m = Inr (t, m')"
  shows "tm_inv m'"
proof -
  have "active_transactions m \<noteq> [] \<Longrightarrow> lowest_active_start m \<le> current_start_timestamp m \<and> lowest_active_id m \<le> current_transaction_id m"
    using lowest_le_current [of m] assms(1) by (simp add: tm_inv_def)
  then show ?thesis
    using assms
    by (auto simp: tm_inv_defs start_transaction_def Let_def new_duck_transaction_def
        sorted_wrt_append less_SucI less_imp_le split: if_splits)
qed

lemma work_inv:
  assumes "tm_inv m" and "list_all2 same_transaction ts (active_transactions m)"
  shows "tm_inv (m\<lparr>active_transactions := ts, last_uncommitted_catalog_version := v\<rparr>)"
proof -
  have maps: "map tx_start_time ts = map tx_start_time (active_transactions m)" "map tx_id ts = map tx_id (active_transactions m)"
    using assms(2) by (auto simp: list_all2_conv_all_nth same_transaction_def intro!: nth_equalityI)
  have mem: "\<exists>t' \<in> set (active_transactions m). same_transaction t t'" if "t \<in> set ts" for t
    using assms(2) that by (metis in_set_conv_nth list_all2_conv_all_nth)
  have "length ts = length (active_transactions m)" using assms(2) by (rule list_all2_lengthD)
  with assms(1) maps mem show ?thesis unfolding tm_inv_defs
    by (simp add: same_transaction_def) metis
qed

text \<open>A transaction that ends: it is active, and it has no commit id or the newest one.\<close>

definition ending :: "duck_transaction \<Rightarrow> transaction_manager \<Rightarrow> bool" where
  "ending t m \<longleftrightarrow> tx_commit_id t < current_start_timestamp m \<and> \<not> tx_awaiting_cleanup t \<and>
     (tx_commit_id t \<noteq> 0 \<longrightarrow> (\<forall>r \<in> set (recently_committed_transactions m). tx_commit_id r < tx_commit_id t) \<and>
        (\<forall>a \<in> set (active_transactions m). tx_start_time a < tx_commit_id t))"

lemma others_subset: "set (other_transactions m t) \<subseteq> set (active_transactions m)"
  by (auto simp: other_transactions_def)

lemma takeWhile_drop: "drop (length (takeWhile P xs)) xs = dropWhile P xs"
  by (simp add: dropWhile_eq_drop)

lemma remove_active:
  assumes "active_ok m"
  shows "active_ok (snd (remove_transaction q store t m))"
proof -
  let ?o = "other_transactions m t"
  have "lowest_of transaction_id_start (map tx_start_time ?o) \<le> tx_start_time a" if "a \<in> set ?o" for a
    using that by (intro lowest_of_le) simp
  moreover have "lowest_of max_transaction_id (map tx_id ?o) \<le> tx_id a" if "a \<in> set ?o" for a
    using that by (intro lowest_of_le) simp
  moreover have "sorted_wrt (<) (map tx_start_time ?o)" "sorted_wrt (<) (map tx_id ?o)"
    using assms by (auto simp: active_ok_def other_transactions_def intro: sorted_wrt_map_filter)
  ultimately show ?thesis
    using assms others_subset [of m t] unfolding active_ok_def by (auto simp: remove_transaction_def Let_def)
qed

lemma sorted_wrt_map_dropWhile: "sorted_wrt (<) (map f xs) \<Longrightarrow> sorted_wrt (<) (map f (dropWhile P xs))"
  by (induction xs) auto

definition recent_before :: "bool \<Rightarrow> duck_transaction \<Rightarrow> transaction_manager \<Rightarrow> duck_transaction list" where
  "recent_before store t m =
     (if store \<and> tx_commit_id t \<noteq> 0 then recently_committed_transactions m @ [t] else recently_committed_transactions m)"

definition lowest_other_start :: "duck_transaction \<Rightarrow> transaction_manager \<Rightarrow> transaction_t" where
  "lowest_other_start t m = lowest_of transaction_id_start (map tx_start_time (other_transactions m t))"

lemma lowest_other_start_le: "a \<in> set (other_transactions m t) \<Longrightarrow> lowest_other_start t m \<le> tx_start_time a"
  by (simp add: lowest_other_start_def lowest_of_le)

lemma remove_fields [simp]:
  "current_start_timestamp (snd (remove_transaction q store t m)) = current_start_timestamp m"
  "current_transaction_id (snd (remove_transaction q store t m)) = current_transaction_id m"
  "active_transactions (snd (remove_transaction q store t m)) = other_transactions m t"
  "cleanup_queue (snd (remove_transaction q store t m)) = cleanup_queue m"
  "lowest_active_start (snd (remove_transaction q store t m)) = lowest_other_start t m"
  "ci_lowest_start_time (fst (remove_transaction q store t m)) = lowest_other_start t m"
  "recently_committed_transactions (snd (remove_transaction q store t m)) =
     dropWhile (\<lambda>r. \<not> lowest_other_start t m \<le> tx_commit_id r) (recent_before store t m)"
  by (simp_all add: remove_transaction_def Let_def takeWhile_drop recent_before_def lowest_other_start_def)

lemma recent_before_ok:
  assumes "recent_ok m" and "ending t m"
  shows "sorted_wrt (<) (map tx_commit_id (recent_before store t m))"
    and "r \<in> set (recent_before store t m) \<Longrightarrow> 0 < tx_commit_id r \<and> tx_commit_id r < current_start_timestamp m \<and> \<not> tx_awaiting_cleanup r"
  using assms by (auto simp: recent_before_def recent_ok_def ending_def sorted_wrt_append split: if_splits)

lemma remove_recent:
  assumes "recent_ok m" and "ending t m"
  shows "recent_ok (snd (remove_transaction q store t m))"
  unfolding recent_ok_def using recent_before_ok [OF assms]
  by (auto simp: sorted_wrt_map_dropWhile dest: set_dropWhileD)

definition old_before :: "nat \<Rightarrow> bool \<Rightarrow> duck_transaction \<Rightarrow> transaction_manager \<Rightarrow> duck_transaction list" where
  "old_before q store t m =
     (if store \<and> tx_commit_id t = 0 then old_transactions m @ [t\<lparr>tx_highest_active_query := q\<rparr>] else old_transactions m) @
     map (\<lambda>r. r\<lparr>tx_awaiting_cleanup := True, tx_highest_active_query := q\<rparr>)
       (takeWhile (\<lambda>r. \<not> lowest_other_start t m \<le> tx_commit_id r) (recent_before store t m))"

definition freed_old :: "nat \<Rightarrow> bool \<Rightarrow> duck_transaction \<Rightarrow> transaction_manager \<Rightarrow> duck_transaction list" where
  "freed_old q store t m =
     (if other_transactions m t = [] then old_before q store t m
      else takeWhile (\<lambda>r. \<not> lowest_of maximum_query_id (map tx_active_query (other_transactions m t)) \<le> tx_highest_active_query r)
             (old_before q store t m))"

lemma remove_old_fields:
  "old_transactions (snd (remove_transaction q store t m)) = drop (length (freed_old q store t m)) (old_before q store t m)"
  "ci_transactions (fst (remove_transaction q store t m)) =
     (if \<not> store \<and> tx_changes_made t then [t\<lparr>tx_awaiting_cleanup := True\<rparr>] else []) @ freed_old q store t m"
  unfolding remove_transaction_def Let_def freed_old_def old_before_def recent_before_def lowest_other_start_def
  by (simp_all del: drop_append length_append split del: if_split)

lemma remove_old_set:
  "set (old_transactions (snd (remove_transaction q store t m))) \<subseteq> set (old_before q store t m)"
  "set (freed_old q store t m) \<subseteq> set (old_before q store t m)"
  by (auto simp: remove_old_fields freed_old_def dest: in_set_dropD set_takeWhileD split: if_splits)

lemma old_before_ok:
  assumes "active_ok m" and "recent_ok m" and "old_ok m" and "ending t m" and "r \<in> set (old_before q store t m)"
  shows "tx_commit_id r < current_start_timestamp m \<and> (\<forall>a \<in> set (other_transactions m t). tx_commit_id r < tx_start_time a) \<and>
    (tx_awaiting_cleanup r \<longleftrightarrow> tx_commit_id r \<noteq> 0)"
proof -
  let ?low = "\<lambda>r. \<not> lowest_other_start t m \<le> tx_commit_id r"
  consider "r \<in> set (old_transactions m)" | "r = t\<lparr>tx_highest_active_query := q\<rparr>" "tx_commit_id t = 0" |
    r' where "r = r'\<lparr>tx_awaiting_cleanup := True, tx_highest_active_query := q\<rparr>" "r' \<in> set (recent_before store t m)" "?low r'"
    using assms(5) by (auto simp: old_before_def dest: set_takeWhileD split: if_splits)
  then show ?thesis
  proof cases
    case 1
    then show ?thesis using assms(3) others_subset [of m t] by (auto simp: old_ok_def)
  next
    case 2
    then show ?thesis using assms(1,4) others_subset [of m t] by (auto simp: active_ok_def ending_def)
  next
    case 3
    have "tx_commit_id r' < tx_start_time a" if "a \<in> set (other_transactions m t)" for a
      using 3(3) lowest_other_start_le [OF that] by simp
    then show ?thesis using recent_before_ok(2) [OF assms(2,4) 3(2)] 3(1) by simp
  qed
qed

lemma remove_old:
  assumes "active_ok m" and "recent_ok m" and "old_ok m" and "ending t m"
  shows "old_ok (snd (remove_transaction q store t m))"
  unfolding old_ok_def using old_before_ok [OF assms] remove_old_set(1) [of q store t m] by auto

lemma remove_queue:
  assumes "active_ok m" and "recent_ok m" and "old_ok m" and "queue_ok m" and "ending t m" and "\<not> store \<Longrightarrow> tx_commit_id t \<noteq> 0 \<or> \<not> tx_changes_made t"
  shows "queue_ok (schedule_cleanup (remove_transaction q store t m))"
proof -
  let ?m = "snd (remove_transaction q store t m)"
  let ?c = "fst (remove_transaction q store t m)"
  have kept: "cleanup_ok ?m (ci_lowest_start_time c) r" if "c \<in> set (cleanup_queue m)" "r \<in> set (ci_transactions c)" for c r
    using assms(4) that others_subset [of m t] by (auto simp: queue_ok_def cleanup_ok_def)
  have freed: "cleanup_ok ?m lowest r" if "r \<in> set (freed_old q store t m)" for lowest r
    using old_before_ok [OF assms(1-3,5)] remove_old_set(2) that by (fastforce simp: cleanup_ok_def)
  have direct: "cleanup_ok ?m (lowest_other_start t m) (t\<lparr>tx_awaiting_cleanup := True\<rparr>)" if "\<not> store" "tx_changes_made t"
  proof -
    have "lowest_other_start t m < tx_commit_id t" if "a \<in> set (other_transactions m t)" for a
      using lowest_other_start_le [OF that] assms(5,6) \<open>\<not> store\<close> \<open>tx_changes_made t\<close> others_subset [of m t] that
      by (fastforce simp: ending_def)
    then show ?thesis using assms(5) by (simp add: cleanup_ok_def ending_def) (meson leD)
  qed
  have "cleanup_ok ?m (ci_lowest_start_time c) r" if "c \<in> set (cleanup_queue m @ [?c])" "r \<in> set (ci_transactions c)" for c r
    using that kept freed direct by (auto simp: remove_old_fields split: if_splits)
  then show ?thesis by (auto simp: schedule_cleanup_def queue_ok_def cleanup_ok_def)
qed

lemma schedule_fields [simp]:
  "counters_ok (schedule_cleanup r) = counters_ok (snd r)"
  "active_ok (schedule_cleanup r) = active_ok (snd r)" "recent_ok (schedule_cleanup r) = recent_ok (snd r)"
  "old_ok (schedule_cleanup r) = old_ok (snd r)"
  "active_transactions (schedule_cleanup r) = active_transactions (snd r)"
  "current_start_timestamp (schedule_cleanup r) = current_start_timestamp (snd r)"
  "recently_committed_transactions (schedule_cleanup r) = recently_committed_transactions (snd r)"
  "old_transactions (schedule_cleanup r) = old_transactions (snd r)"
  by (simp_all add: schedule_cleanup_def active_ok_def counters_ok_def recent_ok_def old_ok_def)

lemma remove_counters: "counters_ok m \<Longrightarrow> counters_ok (snd (remove_transaction q store t m))"
  using length_filter_le [of "\<lambda>a. tx_id a \<noteq> tx_id t" "active_transactions m"] unfolding counters_ok_def
  by (simp add: other_transactions_def del: length_filter_le)

lemma remove_inv:
  assumes "active_ok m" "recent_ok m" "old_ok m" "queue_ok m" and "counters_ok (snd (remove_transaction q store t m))"
    and "ending t m" and "\<not> store \<Longrightarrow> tx_commit_id t \<noteq> 0 \<or> \<not> tx_changes_made t"
  shows "tm_inv (schedule_cleanup (remove_transaction q store t m))"
  using assms remove_active remove_recent remove_old remove_queue by (simp add: tm_inv_def)

text \<open>The commit of a transaction ends it with the newest timestamp.\<close>

lemma commit_removes:
  assumes "commit_finish q undo wal_error storage_error rollback_error t m = Inr (err, t', m')"
  obtains v store where "m' = schedule_cleanup (remove_transaction q store t'
      (m\<lparr>current_start_timestamp := current_start_timestamp m + 1, last_commit := current_start_timestamp m, last_committed_version := v\<rparr>))"
    and "tx_commit_id t' = (if err = None then current_start_timestamp m else 0)" and "err \<noteq> None \<Longrightarrow> store"
    and "tx_awaiting_cleanup t' = tx_awaiting_cleanup t" and "tx_id t' = tx_id t" and "tx_start_time t' = tx_start_time t"
proof -
  let ?v = "if err = None \<and> transaction_id_start \<le> tx_catalog_version t then last_committed_version m + 1 else last_committed_version m"
  let ?store = "up_has_updates undo \<or> up_has_index_deletes undo \<or> up_has_catalog_changes undo \<or> err \<noteq> None"
  have keep: "m\<lparr>current_start_timestamp := a, last_commit := b, last_committed_version := last_committed_version m\<rparr> =
      m\<lparr>current_start_timestamp := a, last_commit := b\<rparr>" for a b
    by (cases m) simp
  have "m' = schedule_cleanup (remove_transaction q ?store t'
      (m\<lparr>current_start_timestamp := current_start_timestamp m + 1, last_commit := current_start_timestamp m, last_committed_version := ?v\<rparr>)) \<and>
    tx_commit_id t' = (if err = None then current_start_timestamp m else 0) \<and>
    tx_awaiting_cleanup t' = tx_awaiting_cleanup t \<and> tx_id t' = tx_id t \<and> tx_start_time t' = tx_start_time t"
    using assms unfolding commit_finish_def get_commit_timestamp_def transaction_commit_def Let_def prod.case
    by (auto simp: keep split: option.splits if_splits)
  then show ?thesis by (intro that [of ?store ?v]) auto
qed

lemma others_length:
  assumes "t \<in> set (active_transactions m)" and "tx_id t' = tx_id t"
  shows "length (other_transactions m t') < length (active_transactions m)"
  using assms length_filter_less [of t "active_transactions m" "\<lambda>a. tx_id a \<noteq> tx_id t'"] by (simp add: other_transactions_def)

lemma commit_inv:
  assumes "tm_inv m" and t: "t \<in> set (active_transactions m)"
    and commit: "commit_finish q undo wal_error storage_error rollback_error t m = Inr (err, t', m')"
  shows "tm_inv m'"
proof -
  from commit_removes [OF commit] obtain v store where
    m': "m' = schedule_cleanup (remove_transaction q store t'
      (m\<lparr>current_start_timestamp := current_start_timestamp m + 1, last_commit := current_start_timestamp m, last_committed_version := v\<rparr>))"
    and t': "tx_commit_id t' = (if err = None then current_start_timestamp m else 0)" "err \<noteq> None \<Longrightarrow> store"
    "tx_awaiting_cleanup t' = tx_awaiting_cleanup t" "tx_id t' = tx_id t" by metis
  let ?m = "m\<lparr>current_start_timestamp := current_start_timestamp m + 1, last_commit := current_start_timestamp m, last_committed_version := v\<rparr>"
  have inv: "active_ok ?m" "recent_ok ?m" "old_ok ?m" "queue_ok ?m"
    using assms(1) by (auto simp: tm_inv_defs less_SucI)
  have "other_transactions ?m t' = other_transactions m t'" by (simp add: other_transactions_def)
  then have counters: "counters_ok (snd (remove_transaction q store t' ?m))"
    using assms(1) others_length [OF t t'(4)] by (simp add: tm_inv_def counters_ok_def)
  have "ending t' ?m" using assms(1) t t' by (auto simp: ending_def tm_inv_defs)
  moreover have "tx_commit_id t' \<noteq> 0 \<or> \<not> tx_changes_made t'" if "\<not> store"
    using that t' assms(1) by (auto simp: tm_inv_defs)
  ultimately show ?thesis unfolding m' using remove_inv [OF inv counters] by blast
qed

lemma rollback_inv:
  assumes "tm_inv m" and "t \<in> set (active_transactions m)"
  shows "tm_inv (snd (rollback_transaction q rollback_error t m))"
proof -
  have "ending t m" using assms by (auto simp: ending_def tm_inv_defs)
  moreover have "active_ok m" "recent_ok m" "old_ok m" "queue_ok m" "counters_ok m" using assms(1) by (auto simp: tm_inv_def)
  ultimately show ?thesis using remove_inv [OF _ _ _ _ remove_counters] by (simp add: rollback_transaction_def)
qed

lemma cleanup_inv: "tm_inv m \<Longrightarrow> tm_inv (snd (run_cleanup m))"
  by (auto simp: tm_inv_defs run_cleanup_def split: list.splits)

lemma step_inv: "tm_step m m' \<Longrightarrow> tm_inv m \<Longrightarrow> tm_inv m'"
  by (induction rule: tm_step.induct) (blast intro: start_inv work_inv commit_inv rollback_inv cleanup_inv)+

lemma reachable_inv: "tm_reachable m \<Longrightarrow> tm_inv m"
  by (induction rule: tm_reachable.induct) (blast intro: new_manager_inv step_inv)+

lemmas reachable_invs = reachable_inv [unfolded tm_inv_def]

section \<open>What the manager guarantees\<close>

lemma commit_returns_ok: "\<exists>t' m'. commit_finish q undo None None rollback_error t m = Inr (None, t', m')"
  unfolding commit_finish_def get_commit_timestamp_def transaction_commit_def Let_def prod.case
  by (cases "transaction_id_start \<le> tx_catalog_version t") simp_all

text \<open>A manager that runs one transaction, for the witnesses.\<close>

definition one_active :: "duck_transaction \<times> transaction_manager" where
  "one_active = projr (start_transaction new_transaction_manager)"

lemma start_one: "start_transaction new_transaction_manager = Inr one_active"
  by (simp add: one_active_def start_transaction_def new_transaction_manager_def transaction_id_start_def Let_def)

lemma one_active_reachable: "tm_reachable (snd one_active)"
  using tm_reachable.step [OF tm_reachable.init tm_step.start [of _ "fst one_active" "snd one_active"]] start_one by simp

lemma one_active_fields:
  "active_transactions (snd one_active) = [fst one_active]" "current_start_timestamp (snd one_active) = 3"
  "tx_start_time (fst one_active) = 2" "tx_id (fst one_active) = transaction_id_start" "tx_commit_id (fst one_active) = 0"
  "tx_changes_made (fst one_active) = False" "recently_committed_transactions (snd one_active) = []"
  "cleanup_queue (snd one_active) = []" "old_transactions (snd one_active) = []" "tx_awaiting_cleanup (fst one_active) = False"
  by (simp_all add: one_active_def start_transaction_def new_transaction_manager_def transaction_id_start_def new_duck_transaction_def Let_def)

text \<open>
  C2. In every state the manager can reach, active transactions are in the order of their start
  times with distinct ids that are all larger than every start time, none has a commit id,
  recently committed transactions are in the order of their commits, and every transaction
  that waits for its cleanup, or whose queued cleanup has an effect, committed before every
  active transaction started.
\<close>

theorem reachable_invariant: "tm_reachable m \<Longrightarrow> active_ok m \<and> recent_ok m \<and> old_ok m \<and> queue_ok m"
  using reachable_invs by blast

theorem reachable_invariant_witness: "active_ok (snd one_active) \<and> active_transactions (snd one_active) = [fst one_active]"
  using reachable_invariant [OF one_active_reachable] one_active_fields by blast

text \<open>
  C34. The counters of the manager never wrap: in every state the manager can reach, the next
  timestamp and the next transaction id fit in 64 bits, start times stay below all transaction
  ids, and no transaction has an id that the version information uses as a mark.
\<close>

theorem counters_bounded:
  assumes "tm_reachable m"
  shows "current_start_timestamp m < max_transaction_id \<and> current_transaction_id m < max_transaction_id \<and>
    (\<forall>t \<in> set (active_transactions m). tx_start_time t < transaction_id_start \<and> transaction_id_start \<le> tx_id t \<and>
       tx_id t < not_deleted_id)"
proof -
  have "2 * transaction_id_start < max_transaction_id" "2 * transaction_id_start < not_deleted_id"
    by (simp_all add: transaction_id_start_def max_transaction_id_def not_deleted_id_def)
  then show ?thesis using reachable_invs [OF assms] by (fastforce simp: active_ok_def counters_ok_def)
qed

theorem counters_bounded_witness: "tx_id (fst one_active) < not_deleted_id"
  using counters_bounded [OF one_active_reachable] one_active_fields by simp

lemma start_active: "start_transaction m = Inr (u, m') \<Longrightarrow> u \<in> set (active_transactions m')"
  by (auto simp: start_transaction_def Let_def split: if_splits)

lemma commit_order:
  assumes "tm_reachable m" and "t \<in> set (active_transactions m)"
    and "commit_finish q undo wal_error storage_error rollback_error t m = Inr (err, t', m')"
  shows "(\<forall>a \<in> set (active_transactions m'). tx_id a \<noteq> tx_id t' \<and> (err = None \<longrightarrow> tx_start_time a < tx_commit_id t')) \<and>
    (\<forall>u m''. start_transaction m' = Inr (u, m'') \<longrightarrow> tx_commit_id t' < tx_start_time u) \<and>
    (tx_commit_id t' = 0 \<longleftrightarrow> err \<noteq> None)"
proof -
  from commit_removes [OF assms(3)] obtain v store where
    m': "m' = schedule_cleanup (remove_transaction q store t'
      (m\<lparr>current_start_timestamp := current_start_timestamp m + 1, last_commit := current_start_timestamp m, last_committed_version := v\<rparr>))"
    and t': "tx_commit_id t' = (if err = None then current_start_timestamp m else 0)" by metis
  show ?thesis
    using reachable_invs [OF assms(1)] t'
    by (auto simp: m' other_transactions_def active_ok_def start_transaction_def Let_def new_duck_transaction_def split: if_splits)
qed

text \<open>
  C29. A commit that succeeds gives the transaction a commit id that is larger than the start time
  of every transaction still active and smaller than the start time of every transaction that
  starts afterwards; the transaction is no longer active. A failed commit leaves it without a
  commit id.
\<close>

theorem commit_snapshot:
  assumes "tm_reachable m" and "t \<in> set (active_transactions m)"
    and "commit_finish q undo wal_error storage_error rollback_error t m = Inr (err, t', m')"
  shows "(\<forall>a \<in> set (active_transactions m'). tx_id a \<noteq> tx_id t' \<and> (err = None \<longrightarrow> tx_start_time a < tx_commit_id t')) \<and>
    (\<forall>u m''. start_transaction m' = Inr (u, m'') \<longrightarrow> tx_commit_id t' < tx_start_time u) \<and>
    (tx_commit_id t' = 0 \<longleftrightarrow> err \<noteq> None)"
  using assms by (rule commit_order)

theorem commit_snapshot_witness:
  "\<exists>t' m' u m''. commit_finish 1 \<lparr>up_estimated_size = 0, up_has_updates = False, up_has_deletes = False, up_has_index_deletes = False, up_has_catalog_changes = False, up_has_dropped_entries = False\<rparr>
      None None None (fst one_active) (snd one_active) = Inr (None, t', m') \<and> start_transaction m' = Inr (u, m'') \<and>
    0 < tx_commit_id t' \<and> tx_commit_id t' < tx_start_time u"
proof -
  let ?undo = "\<lparr>up_estimated_size = 0, up_has_updates = False, up_has_deletes = False, up_has_index_deletes = False, up_has_catalog_changes = False, up_has_dropped_entries = False\<rparr>"
  obtain t' m' where c: "commit_finish 1 ?undo None None None (fst one_active) (snd one_active) = Inr (None, t', m')"
    using commit_returns_ok by blast
  obtain v store where "m' = schedule_cleanup (remove_transaction 1 store t'
      ((snd one_active)\<lparr>current_start_timestamp := 4, last_commit := 3, last_committed_version := v\<rparr>))"
    using commit_removes [OF c] by (simp add: one_active_fields) metis
  then obtain u m'' where "start_transaction m' = Inr (u, m'')"
    by (simp add: start_transaction_def Let_def transaction_id_start_def)
  with c commit_snapshot [OF one_active_reachable _ c] show ?thesis by (auto simp: one_active_fields)
qed

lemma cleanup_older:
  assumes "tm_reachable m" and "(r, lowest) \<in> set (fst (run_cleanup m))" and "tx_commit_id r \<le> lowest"
  shows "\<forall>t \<in> set (active_transactions m). tx_commit_id r < tx_start_time t"
proof -
  obtain c cs where "cleanup_queue m = c # cs" "r \<in> set (ci_transactions c)" "tx_awaiting_cleanup r" "lowest = ci_lowest_start_time c"
    using assms(2) by (auto simp: run_cleanup_def split: list.splits)
  with reachable_invs [OF assms(1)] assms(3) show ?thesis by (auto simp: queue_ok_def cleanup_ok_def)
qed

text \<open>
  Cleanup is safe: whenever a run of the cleanup, which does not hold the transaction lock,
  takes a transaction whose commit is not later than the time it is cleaned for, that commit is
  older than the start of every transaction that is active then.
\<close>

theorem cleanup_before_active:
  assumes "tm_reachable m" and "(r, lowest) \<in> set (fst (run_cleanup m))" and "tx_commit_id r \<le> lowest"
  shows "\<forall>t \<in> set (active_transactions m). tx_commit_id r < tx_start_time t"
  using assms by (rule cleanup_older)

text \<open>A run for the witnesses: two transactions, the first appends and commits, then a third starts.\<close>

definition appends_only :: undo_buffer_properties where
  "appends_only = \<lparr>up_estimated_size = 10, up_has_updates = False, up_has_deletes = False, up_has_index_deletes = False, up_has_catalog_changes = False,
     up_has_dropped_entries = False\<rparr>"

definition with_changes :: "transaction_manager \<Rightarrow> transaction_manager" where
  "with_changes m = m\<lparr>active_transactions := map (\<lambda>t. t\<lparr>tx_changes_made := True\<rparr>) (active_transactions m), last_uncommitted_catalog_version := 0\<rparr>"

lemma with_changes_reachable: "tm_reachable m \<Longrightarrow> tm_reachable (with_changes m)"
  unfolding with_changes_def
  by (rule tm_reachable.step, assumption, rule tm_step.work) (simp add: list_all2_conv_all_nth same_transaction_def)

definition one_committed :: transaction_manager where
  "one_committed = (let m = with_changes (snd one_active) in
     snd (snd (projr (commit_finish 1 appends_only None None None (hd (active_transactions m)) m))))"

lemma one_committed_reachable: "tm_reachable one_committed"
proof -
  let ?m = "with_changes (snd one_active)"
  let ?c = "commit_finish 1 appends_only None None None (hd (active_transactions ?m)) ?m"
  obtain t' m' where c: "?c = Inr (None, t', m')"
    using commit_returns_ok by blast
  have "hd (active_transactions ?m) \<in> set (active_transactions ?m)" by (simp add: with_changes_def one_active_fields)
  from tm_step.commit [OF this c] with_changes_reachable [OF one_active_reachable] have "tm_reachable m'" by (rule tm_reachable.step [rotated])
  then show ?thesis unfolding one_committed_def Let_def c by simp
qed

lemma started_after_commit:
  obtains u m' where "start_transaction one_committed = Inr (u, m')" and "u \<in> set (active_transactions m')"
    and "(fst one_active\<lparr>tx_changes_made := True, tx_commit_id := 3, tx_awaiting_cleanup := True\<rparr>, transaction_id_start) \<in> set (fst (run_cleanup m'))"
    and "tm_reachable m'"
proof -
  obtain u m' where s: "start_transaction one_committed = Inr (u, m')" and u: "u \<in> set (active_transactions m')"
    and q: "(fst one_active\<lparr>tx_changes_made := True, tx_commit_id := 3, tx_awaiting_cleanup := True\<rparr>, transaction_id_start) \<in> set (fst (run_cleanup m'))"
    by (simp add: one_committed_def with_changes_def one_active_def start_transaction_def new_transaction_manager_def new_duck_transaction_def
        Let_def commit_finish_def appends_only_def get_commit_timestamp_def transaction_commit_def remove_transaction_def
        other_transactions_def schedule_cleanup_def run_cleanup_def transaction_id_start_def lowest_of_def)
  have "tm_reachable m'" using one_committed_reachable tm_step.start [OF s] by (rule tm_reachable.step)
  with s u q that show ?thesis by blast
qed

theorem cleanup_before_active_witness:
  "\<exists>u m' r lowest. start_transaction one_committed = Inr (u, m') \<and> (r, lowest) \<in> set (fst (run_cleanup m')) \<and>
     tx_commit_id r = 3 \<and> 3 \<le> lowest \<and> (\<forall>t \<in> set (active_transactions m'). 3 < tx_start_time t) \<and> u \<in> set (active_transactions m')"
proof -
  obtain u m' where s: "start_transaction one_committed = Inr (u, m')" and u: "u \<in> set (active_transactions m')"
    and q: "(fst one_active\<lparr>tx_changes_made := True, tx_commit_id := 3, tx_awaiting_cleanup := True\<rparr>, transaction_id_start) \<in> set (fst (run_cleanup m'))"
    and reach: "tm_reachable m'"
    by (rule started_after_commit)
  from cleanup_before_active [OF reach q] have "\<forall>t \<in> set (active_transactions m'). 3 < tx_start_time t"
    by (simp add: transaction_id_start_def)
  with s q u show ?thesis
    by (intro exI [of _ u] exI [of _ m'] exI [of _ "fst one_active\<lparr>tx_changes_made := True, tx_commit_id := 3, tx_awaiting_cleanup := True\<rparr>"]
        exI [of _ transaction_id_start]) (simp add: transaction_id_start_def)
qed

lemma cleanup_drains: "n = length (cleanup_queue m) \<Longrightarrow> cleanup_queue (((snd \<circ> run_cleanup) ^^ n) m) = []"
proof (induction n arbitrary: m)
  case (Suc n)
  then obtain c cs where q: "cleanup_queue m = c # cs" by (cases "cleanup_queue m") auto
  then have "n = length (cleanup_queue (snd (run_cleanup m)))" using Suc.prems by (simp add: run_cleanup_def)
  from Suc.IH [OF this] show ?case by (simp add: funpow_swap1 [symmetric] funpow_Suc_right del: funpow.simps)
qed simp

lemma remove_last:
  assumes "other_transactions m t = []" and "\<forall>r \<in> set (recent_before store t m). tx_commit_id r < transaction_id_start"
  shows "recently_committed_transactions (snd (remove_transaction q store t m)) = []"
    and "old_transactions (snd (remove_transaction q store t m)) = []"
    and "r \<in> set (recently_committed_transactions m) \<union> set (old_transactions m) \<Longrightarrow>
      \<exists>r' \<in> set (ci_transactions (fst (remove_transaction q store t m))). tx_id r' = tx_id r"
proof -
  have low: "lowest_other_start t m = transaction_id_start" using assms(1) by (simp add: lowest_other_start_def lowest_of_def)
  have all: "takeWhile (\<lambda>r. \<not> transaction_id_start \<le> tx_commit_id r) (recent_before store t m) = recent_before store t m"
    using assms(2) by (auto simp: takeWhile_eq_all_conv not_le)
  show "recently_committed_transactions (snd (remove_transaction q store t m)) = []"
    using assms(2) by (auto simp: low)
  show "old_transactions (snd (remove_transaction q store t m)) = []"
    using assms(1) by (simp add: remove_old_fields freed_old_def)
  show "\<exists>r' \<in> set (ci_transactions (fst (remove_transaction q store t m))). tx_id r' = tx_id r"
    if "r \<in> set (recently_committed_transactions m) \<union> set (old_transactions m)"
  proof (cases "r \<in> set (old_transactions m)")
    case True
    then show ?thesis using assms(1) by (auto simp: remove_old_fields freed_old_def old_before_def)
  next
    case False
    with that have "r \<in> set (recent_before store t m)" by (auto simp: recent_before_def)
    then show ?thesis
      using assms(1) by (intro bexI [of _ "r\<lparr>tx_awaiting_cleanup := True, tx_highest_active_query := q\<rparr>"])
        (simp_all add: remove_old_fields freed_old_def old_before_def low all)
  qed
qed

text \<open>
  C28. Nothing stays behind: when the last active transaction ends by a commit before the
  timestamps run out, no transaction is left in the lists of recently committed and old
  transactions, all of them are in the cleanup queue, and as many runs of the cleanup as the
  queue has entries empty it.
\<close>

theorem last_commit_drains:
  assumes "tm_reachable m" and "active_transactions m = [t]" and "current_start_timestamp m < transaction_id_start"
    and "commit_finish q undo wal_error storage_error rollback_error t m = Inr (err, t', m')"
  shows "active_transactions m' = [] \<and> recently_committed_transactions m' = [] \<and> old_transactions m' = [] \<and>
    (\<forall>r \<in> set (recently_committed_transactions m) \<union> set (old_transactions m).
       \<exists>c \<in> set (cleanup_queue m'). \<exists>r' \<in> set (ci_transactions c). tx_id r' = tx_id r) \<and>
    cleanup_queue (((snd \<circ> run_cleanup) ^^ length (cleanup_queue m')) m') = []"
proof -
  from commit_removes [OF assms(4)] obtain v store where
    m': "m' = schedule_cleanup (remove_transaction q store t'
      (m\<lparr>current_start_timestamp := current_start_timestamp m + 1, last_commit := current_start_timestamp m, last_committed_version := v\<rparr>))"
    and t': "tx_commit_id t' = (if err = None then current_start_timestamp m else 0)" "tx_id t' = tx_id t" by metis
  let ?m = "m\<lparr>current_start_timestamp := current_start_timestamp m + 1, last_commit := current_start_timestamp m, last_committed_version := v\<rparr>"
  have others: "other_transactions ?m t' = []" using assms(2) t'(2) by (simp add: other_transactions_def)
  have early: "\<forall>r \<in> set (recent_before store t' ?m). tx_commit_id r < transaction_id_start"
    using reachable_invs [OF assms(1)] assms(3) t'(1) by (auto simp: recent_before_def recent_ok_def split: if_splits)
  note last = remove_last [OF others early, where q = q]
  have "\<exists>c \<in> set (cleanup_queue m'). \<exists>r' \<in> set (ci_transactions c). tx_id r' = tx_id r"
    if "r \<in> set (recently_committed_transactions m) \<union> set (old_transactions m)" for r
    using last(3) [of r] that by (auto simp: m' schedule_cleanup_def)
  moreover have "active_transactions m' = []" using others by (simp add: m')
  ultimately show ?thesis using last(1,2) cleanup_drains [of _ m'] by (simp add: m')
qed

theorem last_commit_drains_witness:
  "\<exists>t' m'. commit_finish 1 appends_only None None None (fst one_active) (snd one_active) = Inr (None, t', m') \<and>
     active_transactions m' = [] \<and> cleanup_queue (((snd \<circ> run_cleanup) ^^ length (cleanup_queue m')) m') = []"
proof -
  obtain t' m' where c: "commit_finish 1 appends_only None None None (fst one_active) (snd one_active) = Inr (None, t', m')"
    using commit_returns_ok by blast
  from last_commit_drains [OF one_active_reachable one_active_fields(1) _ c] c show ?thesis
    by (simp add: one_active_fields(2) transaction_id_start_def)
qed

text \<open>
  Durability of a commit: a commit of changes to a database with a log either writes the log
  or decides to checkpoint. It decides on a full checkpoint only when no other transaction is
  active, and on a concurrent one only when the transaction updated no rows and dropped no
  catalog entry. A transaction that is read-only, or that has no write lock, is refused.
\<close>

theorem commit_durable:
  assumes "tx_changes_made t" and "\<not> db_is_system db" and "db_has_wal db"
  shows "case commit_check db m t undo of
      Inl e \<Rightarrow> (\<exists>msg. e = InternalException msg) \<and> (\<not> db_is_temporary db \<and> tx_read_only t \<or> \<not> tx_has_write_lock t)
    | Inr (CanCheckpoint c, w) \<Rightarrow> \<not> w \<and> tx_has_write_lock t \<and> \<not> tx_read_only t \<and>
        (if c = CONCURRENT_CHECKPOINT then \<not> up_has_updates undo \<and> \<not> up_has_dropped_entries undo else other_transactions m t = [])
    | Inr (NoCheckpoint reason, w) \<Rightarrow> w \<and> tx_has_write_lock t"
  using assms unfolding commit_check_def can_checkpoint_def try_get_checkpoint_lock_def should_write_to_wal_def Let_def
    try_upgrade_checkpoint_lock_def
  by (auto split: if_splits)

theorem commit_durable_witness:
  "commit_check
     \<lparr>db_is_system = False, db_is_temporary = False, db_is_read_only = False, db_storage_loaded = True, db_automatic_checkpoint = (\<lambda>n. 5 < n),
      db_skip_checkpoint_on_commit = False, db_checkpoint_lock = \<lparr>exclusive_lock = False, read_count = 1\<rparr>, db_has_wal = True, db_in_memory = False, db_compression_enabled = True\<rparr>
     (snd one_active) (fst one_active\<lparr>tx_changes_made := True, tx_read_only := False, tx_has_write_lock := True\<rparr>) appends_only
     = Inr (CanCheckpoint FULL_CHECKPOINT, False)"
  using commit_durable [of "fst one_active\<lparr>tx_changes_made := True, tx_read_only := False, tx_has_write_lock := True\<rparr>"
     "\<lparr>db_is_system = False, db_is_temporary = False, db_is_read_only = False, db_storage_loaded = True, db_automatic_checkpoint = (\<lambda>n. 5 < n),
      db_skip_checkpoint_on_commit = False, db_checkpoint_lock = \<lparr>exclusive_lock = False, read_count = 1\<rparr>, db_has_wal = True, db_in_memory = False, db_compression_enabled = True\<rparr>"
     appends_only "snd one_active"]
  by (simp add: commit_check_def can_checkpoint_def try_get_checkpoint_lock_def other_transactions_def one_active_fields
      automatic_checkpoint_def appends_only_def Let_def try_upgrade_checkpoint_lock_def)

text \<open>
  A checkpoint that a client asks for is a full one only when no active transaction started
  before the last commit, so none of them can need rows from before it; no client that has
  changes of its own in the database gets a checkpoint.
\<close>

theorem full_checkpoint_snapshot:
  assumes "tm_reachable m" and "checkpoint force current lock polls m = Some (Inr FULL_CHECKPOINT)"
  shows "(\<forall>t \<in> set (active_transactions m). last_commit m \<le> tx_start_time t) \<and>
    (\<forall>t. current = Some t \<longrightarrow> \<not> force \<and> \<not> tx_changes_made t)"
proof -
  have "checkpoint_options_type m = FULL_CHECKPOINT" "\<forall>t. current = Some t \<longrightarrow> \<not> force \<and> \<not> tx_changes_made t"
    using assms(2) by (auto simp: checkpoint_def result_bind_def split: if_splits option.splits sum.splits) (metis sumE old.unit.exhaust)
  moreover have "lowest_active_start m \<le> tx_start_time t" if "t \<in> set (active_transactions m)" for t
    using reachable_invs [OF assms(1)] that by (auto simp: active_ok_def)
  ultimately show ?thesis by (fastforce simp: checkpoint_options_type_def split: if_splits)
qed

theorem full_checkpoint_snapshot_witness:
  "checkpoint True None new_storage_lock [(False, \<lparr>exclusive_lock = False, read_count = 2\<rparr>), (False, new_storage_lock)] (snd one_active) = Some (Inr FULL_CHECKPOINT) \<and>
   last_commit (snd one_active) \<le> tx_start_time (fst one_active)"
proof -
  have c: "checkpoint True None new_storage_lock [(False, \<lparr>exclusive_lock = False, read_count = 2\<rparr>), (False, new_storage_lock)] (snd one_active) = Some (Inr FULL_CHECKPOINT)"
    by (simp add: checkpoint_def checkpoint_options_type_def one_active_def start_transaction_def new_transaction_manager_def
        transaction_id_start_def Let_def try_get_exclusive_lock_def new_storage_lock_def)
  from full_checkpoint_snapshot [OF one_active_reachable c] c show ?thesis by (simp add: one_active_fields)
qed

end
