(* ===== verification/UpdateSegment.thy ===== *)
theory UpdateSegment
  imports ChunkInfo
begin

text \<open>
  In-place updates of a column with versions (\<^verbatim>\<open>src/storage/table/update_segment.cpp\<close> and
  \<^verbatim>\<open>include/duckdb/transaction/update_info.hpp\<close>). Each vector of the column has a chain of update
  infos: the base info holds the newest values, and behind it each transaction that updated
  the vector has one info with the values from before its updates. A reader starts from
  the stored column, applies the newest values, and then undoes the updates it must not see.

  Memory is a map from addresses to infos, and the chain is linked both ways as in the
  code. The arrays of row numbers and values of an info are one list of pairs. A column of
  values and the validity column run through the same code, the latter with values of type
  bool that are always valid. \<^verbatim>\<open>std::sort\<close> leaves the order of equal elements open and is
  the argument \<open>sorter\<close>; memory that the code leaves uninitialised is the argument \<open>mem\<close>. Updates without a
  transaction and the column statistics are left out.
\<close>

section \<open>Update infos\<close>

record 'v update_info =
  ui_version :: transaction_t
  ui_vector_index :: nat
  ui_entries :: "(nat \<times> 'v) list"
  ui_prev :: "nat option"
  ui_next :: "nat option"

record 'v update_segment =
  seg_start :: idx_t
  seg_has_root :: bool
  seg_root :: "nat option list"
  seg_infos :: "nat \<rightharpoonup> 'v update_info"
  seg_fresh :: nat

definition new_update_segment :: "idx_t \<Rightarrow> 'v update_segment" where
  "new_update_segment start = \<lparr>seg_start = start, seg_has_root = False, seg_root = [], seg_infos = Map.empty, seg_fresh = 0\<rparr>"

definition applies_to_transaction :: "transaction_data \<Rightarrow> 'v update_info \<Rightarrow> bool" where
  "applies_to_transaction t info \<longleftrightarrow> td_start_time t < ui_version info \<and> ui_version info \<noteq> td_transaction_id t"

text \<open>The walk along the next pointers. It does not return on a cycle.\<close>

partial_function (option) chain_ptrs :: "(nat \<rightharpoonup> 'v update_info) \<Rightarrow> nat option \<Rightarrow> nat list option" where
  "chain_ptrs infos p =
     (case p of
        None \<Rightarrow> Some []
      | Some a \<Rightarrow>
          (case infos a of
             None \<Rightarrow> None
           | Some info \<Rightarrow> Option.bind (chain_ptrs infos (ui_next info)) (\<lambda>as. Some (a # as))))"

definition get_update_node :: "nat \<Rightarrow> 'v update_segment \<Rightarrow> nat option" where
  "get_update_node vector_idx seg =
     (if \<not> seg_has_root seg then None
      else if length (seg_root seg) \<le> vector_idx then None
      else seg_root seg ! vector_idx)"

section \<open>Fetching\<close>

text \<open>When an info has all rows of the vector its values are copied as a block.\<close>

definition merge_update_info :: "(nat \<times> 'v) list \<Rightarrow> 'v list \<Rightarrow> 'v list" where
  "merge_update_info entries result =
     (if length entries = standard_vector_size then map snd entries @ drop standard_vector_size result
      else fold (\<lambda>(row, v) res. res[row := v]) entries result)"

definition updates_for_transaction :: "(nat \<rightharpoonup> 'v update_info) \<Rightarrow> transaction_data \<Rightarrow> nat list \<Rightarrow> 'v update_info list" where
  "updates_for_transaction infos t as = filter (applies_to_transaction t) (List.map_filter infos as)"

definition fetch_updates :: "transaction_data \<Rightarrow> nat \<Rightarrow> 'v list \<Rightarrow> 'v update_segment \<Rightarrow> 'v list option" where
  "fetch_updates t vector_index result seg =
     (case get_update_node vector_index seg of
        None \<Rightarrow> Some result
      | Some b \<Rightarrow>
          map_option (\<lambda>as. fold (\<lambda>info res. merge_update_info (ui_entries info) res) (updates_for_transaction (seg_infos seg) t as) result)
            (chain_ptrs (seg_infos seg) (Some b)))"

definition fetch_committed :: "nat \<Rightarrow> 'v list \<Rightarrow> 'v update_segment \<Rightarrow> 'v list" where
  "fetch_committed vector_index result seg =
     (case get_update_node vector_index seg of
        None \<Rightarrow> result
      | Some b \<Rightarrow> (case seg_infos seg b of None \<Rightarrow> result | Some info \<Rightarrow> merge_update_info (ui_entries info) result))"

fun merge_update_info_range :: "(nat \<times> 'v) list \<Rightarrow> nat \<Rightarrow> nat \<Rightarrow> nat \<Rightarrow> 'v list \<Rightarrow> 'v list" where
  "merge_update_info_range [] start end' result_offset result = result"
| "merge_update_info_range ((row, v) # entries) start end' result_offset result =
     (if row < start then merge_update_info_range entries start end' result_offset result
      else if end' \<le> row then result
      else merge_update_info_range entries start end' result_offset (result[result_offset + row - start := v]))"

definition committed_range_vector :: "nat \<Rightarrow> nat \<Rightarrow> 'v update_segment \<Rightarrow> nat \<Rightarrow> 'v list \<Rightarrow> 'v list" where
  "committed_range_vector start_row end_row seg vector_idx result =
     (case get_update_node vector_idx seg of
        None \<Rightarrow> result
      | Some b \<Rightarrow>
          (case seg_infos seg b of
             None \<Rightarrow> result
           | Some info \<Rightarrow>
               (let start_vector = start_row div standard_vector_size;
                    end_vector = (end_row - 1) div standard_vector_size;
                    start_in_vector = (if vector_idx = start_vector then start_row - start_vector * standard_vector_size else 0);
                    end_in_vector = (if vector_idx = end_vector then end_row - end_vector * standard_vector_size else standard_vector_size);
                    result_offset = (vector_idx * standard_vector_size + start_in_vector) - start_row in
                merge_update_info_range (ui_entries info) start_in_vector end_in_vector result_offset result)))"

definition fetch_committed_range :: "nat \<Rightarrow> nat \<Rightarrow> 'v list \<Rightarrow> 'v update_segment \<Rightarrow> 'v list" where
  "fetch_committed_range start_row count result seg =
     (if \<not> seg_has_root seg then result
      else
        (let end_row = start_row + count;
             start_vector = start_row div standard_vector_size;
             end_vector = (end_row - 1) div standard_vector_size in
         fold (committed_range_vector start_row end_row seg) [start_vector..<Suc end_vector] result))"

fun find_row :: "(nat \<times> 'v) list \<Rightarrow> nat \<Rightarrow> 'v option" where
  "find_row [] row = None"
| "find_row ((x, v) # entries) row = (if x = row then Some v else if row < x then None else find_row entries row)"

definition fetch_row :: "transaction_data \<Rightarrow> nat \<Rightarrow> 'v list \<Rightarrow> nat \<Rightarrow> 'v update_segment \<Rightarrow> 'v list option" where
  "fetch_row t row_id result result_idx seg =
     (let vector_index = (row_id - seg_start seg) div standard_vector_size in
      case get_update_node vector_index seg of
        None \<Rightarrow> Some result
      | Some b \<Rightarrow>
          (let row_in_vector = (row_id - seg_start seg) - vector_index * standard_vector_size in
           map_option (\<lambda>as. fold (\<lambda>info res. case find_row (ui_entries info) row_in_vector of Some v \<Rightarrow> res[result_idx := v] | None \<Rightarrow> res)
               (updates_for_transaction (seg_infos seg) t as) result)
             (chain_ptrs (seg_infos seg) (Some b))))"

section \<open>Rollback and cleanup\<close>

text \<open>The loop over the rows of the rolled back info; its position in the base info only moves forward.\<close>

fun rollback_entries :: "(nat \<times> 'v) list \<Rightarrow> (nat \<times> 'v) list \<Rightarrow> (nat \<times> 'v) list result" where
  "rollback_entries base [] = Inr base"
| "rollback_entries [] (e # rollback) = Inl (UndefinedBehavior ''read past the rows of the base info'')"
| "rollback_entries ((x, w) # base) ((row, v) # rollback) =
     (if x < row then result_bind (rollback_entries base ((row, v) # rollback)) (\<lambda>es. Inr ((x, w) # es))
      else rollback_entries ((x, v) # base) rollback)"

definition cleanup_update_internal :: "nat \<Rightarrow> (nat \<rightharpoonup> 'v update_info) \<Rightarrow> (nat \<rightharpoonup> 'v update_info)" where
  "cleanup_update_internal a infos =
     (case infos a of
        None \<Rightarrow> infos
      | Some info \<Rightarrow>
          (let infos1 = (case ui_prev info of
                           None \<Rightarrow> infos
                         | Some p \<Rightarrow> infos(p := map_option (\<lambda>i. i\<lparr>ui_next := ui_next info\<rparr>) (infos p))) in
           case ui_next info of
             None \<Rightarrow> infos1
           | Some n \<Rightarrow> infos1(n := map_option (\<lambda>i. i\<lparr>ui_prev := ui_prev info\<rparr>) (infos1 n))))"

definition cleanup_update :: "nat \<Rightarrow> 'v update_segment \<Rightarrow> 'v update_segment" where
  "cleanup_update a seg = seg\<lparr>seg_infos := cleanup_update_internal a (seg_infos seg)\<rparr>"

definition rollback_update :: "nat \<Rightarrow> 'v update_segment \<Rightarrow> 'v update_segment result" where
  "rollback_update a seg =
     (case seg_infos seg a of
        None \<Rightarrow> Inl (UndefinedBehavior ''rollback of an info that does not exist'')
      | Some info \<Rightarrow>
          (case get_update_node (ui_vector_index info) seg of
             None \<Rightarrow> Inr seg
           | Some b \<Rightarrow>
               (case seg_infos seg b of
                  None \<Rightarrow> Inl (UndefinedBehavior ''dangling pointer'')
                | Some base \<Rightarrow>
                    result_bind (rollback_entries (ui_entries base) (ui_entries info)) (\<lambda>es.
                      Inr (cleanup_update a (seg\<lparr>seg_infos := (seg_infos seg)(b \<mapsto> base\<lparr>ui_entries := es\<rparr>)\<rparr>))))))"

section \<open>Updates\<close>

text \<open>The rows that an update changes: NULL values belong to the validity column.\<close>

definition data_updates :: "(nat \<times> 'v option) list \<Rightarrow> (nat \<times> 'v) list" where
  "data_updates update = List.map_filter (\<lambda>(row_id, v). map_option (Pair row_id) v) update"

definition validity_updates :: "(nat \<times> 'v option) list \<Rightarrow> (nat \<times> bool) list" where
  "validity_updates update = map (\<lambda>(row_id, v). (row_id, v \<noteq> None)) update"

fun dedup_sorted :: "(nat \<times> 'v) list \<Rightarrow> (nat \<times> 'v) list" where
  "dedup_sorted [] = []"
| "dedup_sorted [e] = [e]"
| "dedup_sorted ((x, v) # (y, w) # ups) = (if x = y then dedup_sorted ((x, v) # ups) else (x, v) # dedup_sorted ((y, w) # ups))"

definition sort_selection :: "((nat \<times> 'v) list \<Rightarrow> (nat \<times> 'v) list) \<Rightarrow> (nat \<times> 'v) list \<Rightarrow> (nat \<times> 'v) list" where
  "sort_selection sorter ups = (if sorted_wrt (<) (map fst ups) then ups else dedup_sorted (sorter ups))"

definition get_effective_updates :: "(nat \<Rightarrow> bool) \<Rightarrow> (nat \<Rightarrow> 'v) \<Rightarrow> nat \<Rightarrow> (nat \<times> 'v) list \<Rightarrow> (nat \<times> 'v) list" where
  "get_effective_updates base_valid base_data id_offset ups =
     filter (\<lambda>(row_id, v). \<not> (base_valid (row_id - id_offset) \<and> v = base_data (row_id - id_offset))) ups"

text \<open>The comparison of two sorted lists of rows.\<close>

fun ids_conflict :: "nat list \<Rightarrow> nat list \<Rightarrow> bool" where
  "ids_conflict (i # is) (j # js) =
     (if i = j then True else if i < j then ids_conflict is (j # js) else ids_conflict (i # is) js)"
| "ids_conflict _ _ = False"

fun check_for_conflicts :: "(nat \<rightharpoonup> 'v update_info) \<Rightarrow> transaction_data \<Rightarrow> nat list \<Rightarrow> nat list \<Rightarrow> nat option \<Rightarrow> nat option result" where
  "check_for_conflicts infos t ids [] node = Inr node"
| "check_for_conflicts infos t ids (a # as) node =
     (case infos a of
        None \<Rightarrow> Inl (UndefinedBehavior ''dangling pointer'')
      | Some info \<Rightarrow>
          if ui_version info = td_transaction_id t then check_for_conflicts infos t ids as (Some a)
          else if td_start_time t < ui_version info \<and> ids_conflict ids (map fst (ui_entries info))
          then Inl (TransactionException ''Conflict on update!'')
          else check_for_conflicts infos t ids as node)"

text \<open>The first half of the merge collects the old values in the info of the transaction: the rows
  \<open>us\<close> it has already, and for other updated rows the value of the base info or of the column.\<close>

fun merge_old :: "(nat \<Rightarrow> 'v) \<Rightarrow> nat list \<Rightarrow> (nat \<times> 'v) list \<Rightarrow> (nat \<times> 'v) list \<Rightarrow> (nat \<times> 'v) list" where
  "merge_old base_data [] us bs = us"
| "merge_old base_data (row # rows) us bs =
     takeWhile (\<lambda>(x, v). x < row) us @
     (let us' = dropWhile (\<lambda>(x, v). x < row) us; bs' = dropWhile (\<lambda>(y, w). y < row) bs in
      if us' \<noteq> [] \<and> fst (hd us') = row then hd us' # merge_old base_data rows (tl us') bs
      else (row, if bs' \<noteq> [] \<and> fst (hd bs') = row then snd (hd bs') else base_data row) # merge_old base_data rows us' bs')"

text \<open>The second half puts the new values into the base info.\<close>

fun merge_loop :: "(nat \<times> 'v) list \<Rightarrow> (nat \<times> 'v) list \<Rightarrow> (nat \<times> 'v) list" where
  "merge_loop ((a, v) # as) ((b, w) # bs) =
     (if a = b then (a, v) # merge_loop as bs
      else if a < b then (a, v) # merge_loop as ((b, w) # bs)
      else (b, w) # merge_loop ((a, v) # as) bs)"
| "merge_loop as [] = as"
| "merge_loop [] bs = bs"

definition relative_rows :: "nat \<Rightarrow> (nat \<times> 'v) list \<Rightarrow> (nat \<times> 'v) list" where
  "relative_rows vector_offset ups = map (\<lambda>(row_id, v). (row_id - vector_offset, v)) ups"

definition initialize_update_root :: "nat \<Rightarrow> 'v update_segment \<Rightarrow> 'v update_segment" where
  "initialize_update_root vector_idx seg =
     seg\<lparr>seg_has_root := True,
        seg_root := (let root = (if seg_has_root seg then seg_root seg else []) in root @ replicate (Suc vector_idx - length root) None)\<rparr>"

text \<open>A new node of a transaction behind the base info.\<close>

definition insert_node :: "transaction_data \<Rightarrow> nat \<Rightarrow> nat \<Rightarrow> 'v update_info \<Rightarrow> 'v update_segment \<Rightarrow> 'v update_segment" where
  "insert_node t vector_index b base seg =
     (let n = seg_fresh seg;
          node = \<lparr>ui_version = td_transaction_id t, ui_vector_index = vector_index, ui_entries = [], ui_prev = Some b, ui_next = ui_next base\<rparr>;
          infos1 = (seg_infos seg)(n \<mapsto> node);
          infos2 = (case ui_next base of
                      None \<Rightarrow> infos1
                    | Some m \<Rightarrow> infos1(m := map_option (\<lambda>i. i\<lparr>ui_prev := Some n\<rparr>) (infos1 m))) in
      seg\<lparr>seg_infos := infos2(b \<mapsto> base\<lparr>ui_next := Some n\<rparr>), seg_fresh := Suc n\<rparr>)"

definition merge_updates :: "(nat \<Rightarrow> 'v) \<Rightarrow> (nat \<times> 'v) list \<Rightarrow> nat \<Rightarrow> nat \<Rightarrow> 'v update_segment \<Rightarrow> 'v update_segment" where
  "merge_updates base_data ups b n seg =
     (case (seg_infos seg b, seg_infos seg n) of
        (Some base, Some node) \<Rightarrow>
          seg\<lparr>seg_infos := (seg_infos seg)
            (n \<mapsto> node\<lparr>ui_entries := merge_old base_data (map fst ups) (ui_entries node) (ui_entries base)\<rparr>,
             b \<mapsto> base\<lparr>ui_entries := merge_loop ups (ui_entries base)\<rparr>)\<rparr>
      | _ \<Rightarrow> seg)"

definition create_chain ::
  "transaction_data \<Rightarrow> (nat \<Rightarrow> bool) \<Rightarrow> (nat \<Rightarrow> 'v) \<Rightarrow> (nat \<Rightarrow> 'v) \<Rightarrow> nat \<Rightarrow> (nat \<times> 'v) list \<Rightarrow> 'v update_segment \<Rightarrow> 'v update_segment" where
  "create_chain t base_valid base_data mem vector_index ups seg =
     (let b = seg_fresh seg; n = Suc (seg_fresh seg);
          old = map (\<lambda>(row, v). (row, if base_valid row then base_data row else mem row)) ups;
          base = \<lparr>ui_version = transaction_id_start - 1, ui_vector_index = vector_index, ui_entries = ups, ui_prev = None, ui_next = Some n\<rparr>;
          node = \<lparr>ui_version = td_transaction_id t, ui_vector_index = vector_index, ui_entries = old, ui_prev = Some b, ui_next = None\<rparr> in
      seg\<lparr>seg_infos := (seg_infos seg)(b \<mapsto> base, n \<mapsto> node), seg_fresh := Suc n, seg_root := (seg_root seg)[vector_index := Some b]\<rparr>)"

text \<open>\<^verbatim>\<open>UpdateSegment::Update\<close> after the statistics. The result has the address of the info that the transaction
  got in its undo buffer, if it got one.\<close>

definition segment_update ::
  "((nat \<times> 'v) list \<Rightarrow> (nat \<times> 'v) list) \<Rightarrow> transaction_data \<Rightarrow> (nat \<Rightarrow> bool) \<Rightarrow> (nat \<Rightarrow> 'v) \<Rightarrow> (nat \<Rightarrow> 'v) \<Rightarrow> (nat \<times> 'v) list \<Rightarrow>
   'v update_segment \<Rightarrow> ('v update_segment \<times> nat option) result option" where
  "segment_update sorter t base_valid base_data mem update seg =
     (if update = [] then Some (Inr (seg, None))
      else
        (let sel = sort_selection sorter update;
             vector_index = (fst (hd sel) - seg_start seg) div standard_vector_size;
             vector_offset = seg_start seg + vector_index * standard_vector_size;
             chosen = (if get_update_node vector_index seg = None then get_effective_updates base_valid base_data vector_offset sel else sel);
             ups = relative_rows vector_offset chosen in
         if chosen = [] then Some (Inr (seg, None))
         else
           (let seg1 = initialize_update_root vector_index seg in
            case seg_root seg1 ! vector_index of
              None \<Rightarrow> Some (Inr (create_chain t base_valid base_data mem vector_index ups seg1, Some (Suc (seg_fresh seg1))))
            | Some b \<Rightarrow>
                (case seg_infos seg1 b of
                   None \<Rightarrow> Some (Inl (UndefinedBehavior ''dangling pointer''))
                 | Some base \<Rightarrow>
                     (case chain_ptrs (seg_infos seg1) (ui_next base) of
                        None \<Rightarrow> None
                      | Some as \<Rightarrow>
                          Some (result_bind (check_for_conflicts (seg_infos seg1) t (map fst ups) as None) (\<lambda>node.
                            Inr (case node of
                                   Some n \<Rightarrow> (merge_updates base_data ups b n seg1, None)
                                 | None \<Rightarrow> (merge_updates base_data ups b (seg_fresh seg1) (insert_node t vector_index b base seg1),
                                            Some (seg_fresh seg1))))))))))"

definition has_updates :: "nat \<Rightarrow> 'v update_segment \<Rightarrow> bool" where
  "has_updates vector_index seg = (get_update_node vector_index seg \<noteq> None)"

definition has_uncommitted_updates :: "nat \<Rightarrow> 'v update_segment \<Rightarrow> bool" where
  "has_uncommitted_updates vector_index seg =
     (case get_update_node vector_index seg of
        None \<Rightarrow> False
      | Some b \<Rightarrow> (case seg_infos seg b of None \<Rightarrow> False | Some info \<Rightarrow> ui_next info \<noteq> None))"

definition has_updates_range :: "nat \<Rightarrow> nat \<Rightarrow> 'v update_segment \<Rightarrow> bool" where
  "has_updates_range start_row_index end_row_index seg =
     (seg_has_root seg \<and>
      list_ex (\<lambda>i. get_update_node i seg \<noteq> None)
        [start_row_index div standard_vector_size..<Suc (end_row_index div standard_vector_size)])"

text \<open>The commit, and its reversal, write the version of the info.\<close>

definition set_version :: "transaction_t \<Rightarrow> nat \<Rightarrow> 'v update_segment \<Rightarrow> 'v update_segment" where
  "set_version commit_id a seg =
     seg\<lparr>seg_infos := (seg_infos seg)(a := map_option (\<lambda>i. i\<lparr>ui_version := commit_id\<rparr>) (seg_infos seg a))\<rparr>"

section \<open>Lists of rows with values\<close>

text \<open>The rows of an info are strictly ascending and lie in the vector.\<close>

definition entries_ok :: "(nat \<times> 'v) list \<Rightarrow> bool" where
  "entries_ok es \<longleftrightarrow> sorted_wrt (<) (map fst es) \<and> (\<forall>row \<in> fst ` set es. row < standard_vector_size)"

abbreviation rows_of :: "(nat \<times> 'v) list \<Rightarrow> nat set" where
  "rows_of es \<equiv> fst ` set es"

definition overlay :: "(nat \<times> 'v) list \<Rightarrow> nat \<Rightarrow> 'v \<Rightarrow> 'v" where
  "overlay es row d = (case map_of es row of Some v \<Rightarrow> v | None \<Rightarrow> d)"

lemma overlay_outside: "row \<notin> rows_of es \<Longrightarrow> overlay es row d = d"
  by (simp add: overlay_def map_of_eq_None_iff [symmetric])

lemma sorted_rows_distinct: "sorted_wrt (<) (map fst es) \<Longrightarrow> distinct (map fst (es :: (nat \<times> 'v) list))"
  by (simp add: strict_sorted_iff)

lemma entries_okD: "entries_ok es \<Longrightarrow> sorted_wrt (<) (map fst es)" "entries_ok es \<Longrightarrow> distinct (map fst es)"
  by (auto simp: entries_ok_def strict_sorted_iff)

lemma entries_ok_length: "entries_ok es \<Longrightarrow> length es \<le> standard_vector_size"
proof -
  assume ok: "entries_ok es"
  then have "card (set (map fst es)) = length es" using entries_okD(2) distinct_card by fastforce
  moreover have "set (map fst es) \<subseteq> {..<standard_vector_size}" using ok by (auto simp: entries_ok_def)
  ultimately show ?thesis by (metis card_lessThan card_mono finite_lessThan)
qed

lemma full_entries:
  assumes "entries_ok es" and "length es = standard_vector_size"
  shows "map fst es = [0..<standard_vector_size]"
proof -
  have sub: "set (map fst es) \<subseteq> {..<standard_vector_size}" using assms(1) by (auto simp: entries_ok_def)
  have "card (set (map fst es)) = standard_vector_size"
    using distinct_card [OF entries_okD(2) [OF assms(1)]] assms(2) by simp
  then have "set (map fst es) = {..<standard_vector_size}" using sub by (metis card_lessThan card_subset_eq finite_lessThan)
  then show ?thesis
    using entries_okD(1) [OF assms(1)] by (intro sorted_distinct_set_unique) (auto simp: strict_sorted_iff atLeast0LessThan)
qed

lemma fold_entries_nth:
  assumes "distinct (map fst es)"
  shows "length (fold (\<lambda>(row, v) res. res[row := v]) es result) = length result"
    and "row < length result \<Longrightarrow> fold (\<lambda>(row, v) res. res[row := v]) es result ! row = overlay es row (result ! row)"
proof -
  show len: "length (fold (\<lambda>(row, v) res. res[row := v]) es result) = length result" for es :: "(nat \<times> 'a) list"
    by (induction es arbitrary: result) auto
  show "row < length result \<Longrightarrow> fold (\<lambda>(row, v) res. res[row := v]) es result ! row = overlay es row (result ! row)"
    using assms
  proof (induction es arbitrary: result)
    case (Cons e es)
    obtain x v where e: "e = (x, v)" by (cases e)
    have "overlay es row (result[x := v] ! row) = overlay (e # es) row (result ! row)"
    proof (cases "row = x")
      case True
      have "map_of es x = None" using Cons.prems by (simp add: e map_of_eq_None_iff)
      then show ?thesis using True Cons.prems by (simp add: e overlay_def)
    qed (simp add: e overlay_def)
    then show ?case using Cons by (simp add: e)
  qed (simp add: overlay_def)
qed

lemma merge_update_info_nth:
  assumes "entries_ok es" and "length result = standard_vector_size"
  shows "length (merge_update_info es result) = standard_vector_size"
    and "row < standard_vector_size \<Longrightarrow> merge_update_info es result ! row = overlay es row (result ! row)"
proof -
  show "length (merge_update_info es result) = standard_vector_size"
    using fold_entries_nth(1) [OF entries_okD(2) [OF assms(1)]] assms(2) by (simp add: merge_update_info_def)
  show "merge_update_info es result ! row = overlay es row (result ! row)" if row: "row < standard_vector_size"
  proof (cases "length es = standard_vector_size")
    case True
    have "es ! row = (row, snd (es ! row))"
      using full_entries [OF assms(1) True] True row by (metis diff_zero length_upt nth_map nth_upt plus_nat.add_0 prod.collapse)
    then have "(row, snd (es ! row)) \<in> set es" using True row by (metis nth_mem)
    then have "map_of es row = Some (snd (es ! row))" using entries_okD(2) [OF assms(1)] by simp
    then show ?thesis using True row by (simp add: merge_update_info_def overlay_def nth_append)
  next
    case False
    then show ?thesis using fold_entries_nth(2) [OF entries_okD(2) [OF assms(1)]] row assms(2) by (simp add: merge_update_info_def)
  qed
qed

lemma find_row_map_of: "sorted_wrt (<) (map fst es) \<Longrightarrow> find_row es row = map_of es row"
proof (induction es)
  case (Cons e es)
  obtain x v where e: "e = (x, v)" by (cases e)
  have "map_of es row = None" if "row < x"
    using Cons.prems that by (force simp: e map_of_eq_None_iff)
  then show ?case using Cons by (auto simp: e)
qed simp

lemma ids_conflict_iff: "sorted_wrt (<) is \<Longrightarrow> sorted_wrt (<) js \<Longrightarrow> ids_conflict is js \<longleftrightarrow> set is \<inter> set js \<noteq> {}"
  by (induction "is" js rule: ids_conflict.induct) auto

lemma merge_loop_rows: "rows_of (merge_loop as bs) = rows_of as \<union> rows_of bs"
  by (induction as bs rule: merge_loop.induct) auto

lemma merge_loop_sorted:
  "sorted_wrt (<) (map fst as) \<Longrightarrow> sorted_wrt (<) (map fst bs) \<Longrightarrow> sorted_wrt (<) (map fst (merge_loop as bs))"
proof (induction as bs rule: merge_loop.induct)
  case (1 a v as b w bs)
  have "x \<in> rows_of (merge_loop as' bs') \<Longrightarrow> x \<in> rows_of as' \<union> rows_of bs'" for x and as' bs' :: "(nat \<times> 'a) list"
    by (simp only: merge_loop_rows)
  with 1 show ?case by (fastforce simp: ball_Un)
qed auto

lemma merge_loop_map_of:
  "sorted_wrt (<) (map fst as) \<Longrightarrow> sorted_wrt (<) (map fst bs) \<Longrightarrow>
   map_of (merge_loop as bs) row = (case map_of as row of Some v \<Rightarrow> Some v | None \<Rightarrow> map_of bs row)"
proof (induction as bs rule: merge_loop.induct)
  case (1 a v as b w bs)
  have "map_of as b = None" if "b < a" using 1 that by (force simp: map_of_eq_None_iff)
  with 1 show ?case by (auto split: option.splits)
qed (auto split: option.splits)

text \<open>The first half of the merge is a merge as well, of the old values with the current ones.\<close>

lemma dropWhile_rows:
  assumes "sorted_wrt (<) (map fst es)" and "es' = dropWhile (\<lambda>(x, v). x < row) es"
  shows "sorted_wrt (<) (map fst es')" and "row \<le> r \<Longrightarrow> map_of es' r = map_of es r"
    and "(if es' \<noteq> [] \<and> fst (hd es') = row then snd (hd es') else d) = overlay es row d"
proof -
  show "sorted_wrt (<) (map fst es')" using assms by (induction es arbitrary: es') auto
  show drop: "map_of es' r = map_of es r" if "row \<le> r" for r using that unfolding assms(2) by (induction es) auto
  show "(if es' \<noteq> [] \<and> fst (hd es') = row then snd (hd es') else d) = overlay es row d"
  proof (cases es')
    case Nil
    then show ?thesis using drop [of row] by (simp add: overlay_def)
  next
    case (Cons e fs)
    obtain x v where e: "e = (x, v)" by (cases e)
    have x: "row \<le> x" using Cons e assms(2) unfolding assms(2) dropWhile_eq_Cons_conv by auto
    have "sorted_wrt (<) (map fst ((x, v) # fs))"
      using \<open>sorted_wrt (<) (map fst es')\<close> Cons e by simp
    then have "map_of fs row = None" using x by (force simp: map_of_eq_None_iff)
    then show ?thesis using drop [of row] Cons e by (auto simp: overlay_def split: option.splits)
  qed
qed

lemma merge_loop_low:
  "\<forall>x \<in> rows_of low. x < row \<Longrightarrow> merge_loop (low @ us) ((row, w) # rs) = low @ merge_loop us ((row, w) # rs)"
  by (induction low) auto

lemma merge_old_eq:
  assumes "sorted_wrt (<) (map fst us)" and "sorted_wrt (<) (map fst bs)" and "sorted_wrt (<) rows"
  shows "merge_old base_data rows us bs = merge_loop us (map (\<lambda>r. (r, overlay bs r (base_data r))) rows)"
  using assms
proof (induction rows arbitrary: us bs)
  case Nil
  then show ?case by (cases us) auto
next
  case (Cons row rows)
  define low where "low = takeWhile (\<lambda>(x, v). x < row) us"
  define us' where "us' = dropWhile (\<lambda>(x, v). x < row) us"
  define bs' where "bs' = dropWhile (\<lambda>(x, v). x < row) bs"
  define cur where "cur = map (\<lambda>r. (r, overlay bs r (base_data r)))"
  have us: "us = low @ us'" by (simp add: low_def us'_def)
  have low: "\<forall>x \<in> rows_of low. x < row" by (auto simp: low_def dest: set_takeWhileD)
  note U = dropWhile_rows [OF Cons.prems(1) us'_def] and B = dropWhile_rows [OF Cons.prems(2) bs'_def]
  have rows: "sorted_wrt (<) rows" "\<forall>r \<in> set rows. row < r" using Cons.prems(3) by auto
  have cur': "map (\<lambda>r. (r, overlay bs' r (base_data r))) rows = cur rows"
    using B(2) rows(2) by (auto simp: cur_def overlay_def)
  have "merge_loop us (cur (row # rows)) = low @ merge_loop us' (cur (row # rows))"
    unfolding us cur_def list.map by (rule merge_loop_low [OF low])
  moreover have "merge_old base_data (row # rows) us bs = low @ merge_loop us' (cur (row # rows))"
  proof (cases "us' \<noteq> [] \<and> fst (hd us') = row")
    case True
    then obtain v es where e: "us' = (row, v) # es" by (cases us') auto
    have "sorted_wrt (<) (map fst es)" using U(1) by (simp add: e)
    from Cons.IH [OF this Cons.prems(2) rows(1)] have "merge_old base_data rows es bs = merge_loop es (cur rows)"
      by (simp add: cur_def)
    then show ?thesis using e by (simp add: Let_def cur_def flip: low_def us'_def bs'_def)
  next
    case False
    have "merge_old base_data rows us' bs' = merge_loop us' (cur rows)" using Cons.IH [OF U(1) B(1) rows(1)] cur' by simp
    then have "merge_old base_data (row # rows) us bs = low @ (row, overlay bs row (base_data row)) # merge_loop us' (cur rows)"
      using False B(3) [of "base_data row"] by (auto simp: Let_def simp flip: low_def us'_def bs'_def)
    moreover have "merge_loop us' (cur (row # rows)) = (row, overlay bs row (base_data row)) # merge_loop us' (cur rows)"
    proof (cases us')
      case (Cons e es)
      obtain x v where e: "e = (x, v)" by (cases e)
      have "row \<le> x" using Cons e unfolding us'_def dropWhile_eq_Cons_conv by auto
      then show ?thesis using False Cons e by (simp add: cur_def)
    qed (cases "cur rows"; simp add: cur_def)
    ultimately show ?thesis by simp
  qed
  ultimately show ?case by (simp add: cur_def)
qed

lemma rollback_entries_spec:
  assumes "sorted_wrt (<) (map fst base)" and "sorted_wrt (<) (map fst rb)" and "rows_of rb \<subseteq> rows_of base"
  shows "\<exists>es. rollback_entries base rb = Inr es \<and> map fst es = map fst base \<and>
    (\<forall>r. map_of es r = (case map_of rb r of Some v \<Rightarrow> Some v | None \<Rightarrow> map_of base r))"
  using assms
proof (induction base rb rule: rollback_entries.induct)
  case (3 x w base row v rb)
  show ?case
  proof (cases "x < row")
    case True
    have gt: "\<forall>r \<in> rows_of ((row, v) # rb). row \<le> r" using "3.prems"(2) by (auto simp: less_imp_le)
    have sub: "rows_of ((row, v) # rb) \<subseteq> rows_of base"
    proof
      fix r assume r: "r \<in> rows_of ((row, v) # rb)"
      then have "r \<in> insert x (rows_of base)" using "3.prems"(3) by auto
      moreover have "x < r" using gt r True by fastforce
      ultimately show "r \<in> rows_of base" by blast
    qed
    have "sorted_wrt (<) (map fst base)" using "3.prems"(1) by simp
    from "3.IH"(1) [OF True this "3.prems"(2) sub] obtain es where es: "rollback_entries base ((row, v) # rb) = Inr es" "map fst es = map fst base"
      "\<forall>r. map_of es r = (case map_of ((row, v) # rb) r of Some v \<Rightarrow> Some v | None \<Rightarrow> map_of base r)" by blast
    have none: "map_of ((row, v) # rb) x = None" using gt True by (force simp: map_of_eq_None_iff)
    have "map_of ((x, w) # es) r = (case map_of ((row, v) # rb) r of Some v \<Rightarrow> Some v | None \<Rightarrow> map_of ((x, w) # base) r)" for r
    proof (cases "r = x")
      case True
      show ?thesis unfolding True none by simp
    next
      case False
      then show ?thesis using es(3) [rule_format, of r] by (simp split: option.splits)
    qed
    with es(1,2) True show ?thesis by (intro exI [of _ "(x, w) # es"]) simp
  next
    case False
    have "row \<in> rows_of ((x, w) # base)" using "3.prems"(3) by simp
    moreover have "\<forall>r \<in> rows_of base. x < r" using "3.prems"(1) by auto
    ultimately have x: "x = row" using False by auto
    have sub: "rows_of rb \<subseteq> rows_of ((x, v) # base)" using "3.prems"(3) by auto
    have "sorted_wrt (<) (map fst ((x, v) # base))" "sorted_wrt (<) (map fst rb)" using "3.prems"(1,2) by simp_all
    from "3.IH"(2) [OF False this sub] obtain es where es: "rollback_entries ((x, v) # base) rb = Inr es" "map fst es = map fst ((x, v) # base)"
      "\<forall>r. map_of es r = (case map_of rb r of Some v \<Rightarrow> Some v | None \<Rightarrow> map_of ((x, v) # base) r)" by blast
    have none: "map_of rb row = None" using "3.prems"(2) by (force simp: map_of_eq_None_iff)
    have "map_of es r = (case map_of ((row, v) # rb) r of Some v \<Rightarrow> Some v | None \<Rightarrow> map_of ((x, w) # base) r)" for r
      using es(3) [rule_format, of r] none x by (cases "r = row") (simp_all split: option.splits)
    with es(1,2) False show ?thesis by (intro exI [of _ es]) simp
  qed
qed auto

section \<open>Chains as versions\<close>

text \<open>
  The meaning of a chain: the versions from the newest to the oldest, each with the values
  that hold without it; the first one is the base info. A reader undoes the versions that are hidden from it.
\<close>

type_synonym 'v versions = "(transaction_t \<times> (nat \<times> 'v) list) list"

definition hidden :: "transaction_data \<Rightarrow> transaction_t \<Rightarrow> bool" where
  "hidden t ver \<longleftrightarrow> td_start_time t < ver \<and> ver \<noteq> td_transaction_id t"

definition view :: "transaction_data \<Rightarrow> 'v versions \<Rightarrow> nat \<Rightarrow> 'v \<Rightarrow> 'v" where
  "view t vs row d = fold (\<lambda>(ver, es) d. if hidden t ver then overlay es row d else d) vs d"

lemma view_simps [simp]:
  "view t [] row d = d"
  "view t ((ver, es) # vs) row d = view t vs row (if hidden t ver then overlay es row d else d)"
  "view t (vs @ ws) row d = view t ws row (view t vs row d)"
  by (simp_all add: view_def)

lemma view_untouched: "\<forall>p \<in> set vs. hidden t (fst p) \<longrightarrow> row \<notin> rows_of (snd p) \<Longrightarrow> view t vs row d = d"
proof (induction vs arbitrary: d)
  case (Cons p vs)
  then show ?case by (cases p) (simp add: overlay_outside)
qed simp

text \<open>Two versions of one chain, the newer one first, with respect to the active transactions: whatever is in front of the
  version of an active transaction is invisible to it, and versions that are invisible to each other
  have no row in common.\<close>

definition compatible :: "transaction_data set \<Rightarrow> transaction_t \<times> (nat \<times> 'v) list \<Rightarrow> transaction_t \<times> (nat \<times> 'v) list \<Rightarrow> bool" where
  "compatible active newer older \<longleftrightarrow> (\<forall>t \<in> active.
     (td_transaction_id t = fst older \<longrightarrow> td_start_time t < fst newer \<and> rows_of (snd newer) \<inter> rows_of (snd older) = {}) \<and>
     (td_transaction_id t = fst newer \<and> td_start_time t < fst older \<longrightarrow> rows_of (snd newer) \<inter> rows_of (snd older) = {}))"

definition active_ids_ok :: "transaction_data set \<Rightarrow> bool" where
  "active_ids_ok active \<longleftrightarrow> inj_on td_transaction_id active \<and>
     (\<forall>t \<in> active. td_start_time t < transaction_id_start - 1 \<and> transaction_id_start \<le> td_transaction_id t)"

definition versions_ok :: "transaction_data set \<Rightarrow> 'v versions \<Rightarrow> bool" where
  "versions_ok active vs \<longleftrightarrow>
     (case vs of
        [] \<Rightarrow> True
      | (ver, bs) # nodes \<Rightarrow> ver = transaction_id_start - 1 \<and> entries_ok bs \<and> distinct (map fst nodes) \<and>
          (\<forall>p \<in> set nodes. entries_ok (snd p) \<and> rows_of (snd p) \<subseteq> rows_of bs) \<and> sorted_wrt (compatible active) nodes)"

lemma hidden_base: "active_ids_ok active \<Longrightarrow> t \<in> active \<Longrightarrow> hidden t (transaction_id_start - 1)"
  by (fastforce simp: active_ids_ok_def hidden_def)

lemma start_below_id: "active_ids_ok active \<Longrightarrow> t \<in> active \<Longrightarrow> u \<in> active \<Longrightarrow> td_start_time u < td_transaction_id t"
  unfolding active_ids_ok_def by (meson diff_le_self less_le_trans)

lemma hidden_other:
  "active_ids_ok active \<Longrightarrow> t \<in> active \<Longrightarrow> u \<in> active \<Longrightarrow> u \<noteq> t \<Longrightarrow> hidden t (td_transaction_id u)"
  unfolding active_ids_ok_def hidden_def by (metis diff_le_self inj_onD less_le_trans order.strict_trans2)

lemma versions_ok_split:
  "versions_ok active ((bver, bs) # pre @ (ver, us) # post) \<longleftrightarrow>
    bver = transaction_id_start - 1 \<and> entries_ok bs \<and> entries_ok us \<and> rows_of us \<subseteq> rows_of bs \<and>
    (\<forall>p \<in> set (pre @ post). entries_ok (snd p) \<and> rows_of (snd p) \<subseteq> rows_of bs) \<and>
    distinct (map fst (pre @ post)) \<and> ver \<notin> fst ` set (pre @ post) \<and> sorted_wrt (compatible active) (pre @ post) \<and>
    (\<forall>p \<in> set pre. compatible active p (ver, us)) \<and> (\<forall>q \<in> set post. compatible active (ver, us) q)"
  by (auto simp: versions_ok_def sorted_wrt_append)

text \<open>The update of a chain in which the transaction has a version.\<close>

definition updated_versions :: "(nat \<Rightarrow> 'v) \<Rightarrow> (nat \<times> 'v) list \<Rightarrow> transaction_t \<Rightarrow> 'v versions \<Rightarrow> 'v versions" where
  "updated_versions data ups ver vs =
     (case vs of
        [] \<Rightarrow> []
      | (bver, bs) # nodes \<Rightarrow> (bver, merge_loop ups bs) #
          map (\<lambda>(v, es). (v, if v = ver then merge_old data (map fst ups) es bs else es)) nodes)"

lemma merge_entries_ok:
  assumes "entries_ok ups" and "entries_ok bs"
  shows "entries_ok (merge_loop ups bs)"
  using assms merge_loop_sorted [of ups bs] by (auto simp: entries_ok_def merge_loop_rows)

lemma overlay_merge_loop:
  assumes "entries_ok ups" and "entries_ok bs"
  shows "overlay (merge_loop ups bs) row d = overlay ups row (overlay bs row d)"
  unfolding overlay_def merge_loop_map_of [OF entries_okD(1) [OF assms(1)] entries_okD(1) [OF assms(2)]]
  by (simp split: option.splits)

lemma merge_old_ok:
  assumes "entries_ok ups" and "entries_ok us" and "entries_ok bs"
  shows "entries_ok (merge_old data (map fst ups) us bs)" and "rows_of (merge_old data (map fst ups) us bs) = rows_of us \<union> rows_of ups"
    and "overlay (merge_old data (map fst ups) us bs) row d = overlay us row (if row \<in> rows_of ups then overlay bs row (data row) else d)"
proof -
  let ?cur = "map (\<lambda>r. (r, overlay bs r (data r))) (map fst ups)"
  have eq: "merge_old data (map fst ups) us bs = merge_loop us ?cur"
    using assms by (intro merge_old_eq) (auto simp: entries_ok_def)
  have cur: "map fst ?cur = map fst ups" by (simp add: comp_def)
  then have cur_rows: "rows_of ?cur = rows_of ups" by (metis list.set_map)
  have cur_ok: "entries_ok ?cur" unfolding entries_ok_def cur cur_rows using assms(1) by (simp add: entries_ok_def)
  show "entries_ok (merge_old data (map fst ups) us bs)" unfolding eq by (rule merge_entries_ok [OF assms(2) cur_ok])
  show "rows_of (merge_old data (map fst ups) us bs) = rows_of us \<union> rows_of ups" unfolding eq merge_loop_rows cur_rows ..
  have "map_of ?cur row = (if row \<in> rows_of ups then Some (overlay bs row (data row)) else None)"
  proof (cases "row \<in> rows_of ups")
    case True
    then have "(row, overlay bs row (data row)) \<in> set ?cur" by (auto simp: image_iff)
    then show ?thesis using True entries_okD(2) [OF cur_ok] by (simp only: map_of_eq_Some_iff if_True)
  next
    case False
    then show ?thesis using cur_rows by (metis map_of_eq_None_iff)
  qed
  then have "overlay ?cur row d = (if row \<in> rows_of ups then overlay bs row (data row) else d)"
    unfolding overlay_def [of ?cur] by (cases "row \<in> rows_of ups") (simp_all only: if_True if_False option.case)
  then show "overlay (merge_old data (map fst ups) us bs) row d = overlay us row (if row \<in> rows_of ups then overlay bs row (data row) else d)"
    unfolding eq by (simp only: overlay_merge_loop [OF assms(2) cur_ok])
qed

lemma overlay_inside: "row \<in> rows_of es \<Longrightarrow> overlay es row d = overlay es row d'"
  by (cases "map_of es row") (auto simp: overlay_def map_of_eq_None_iff)

lemma compatible_own:
  assumes "t \<in> active" and "sorted_wrt (compatible active) (pre @ (td_transaction_id t, us) # post)"
  shows "\<forall>p \<in> set pre. td_start_time t < fst p \<and> rows_of (snd p) \<inter> rows_of us = {}"
    and "\<forall>q \<in> set post. td_start_time t < fst q \<longrightarrow> rows_of (snd q) \<inter> rows_of us = {}"
proof -
  have c: "\<forall>p \<in> set pre. compatible active p (td_transaction_id t, us)" "\<forall>q \<in> set post. compatible active (td_transaction_id t, us) q"
    using assms(2) by (auto simp: sorted_wrt_append)
  show "\<forall>p \<in> set pre. td_start_time t < fst p \<and> rows_of (snd p) \<inter> rows_of us = {}"
    using c(1) assms(1) unfolding compatible_def by simp
  show "\<forall>q \<in> set post. td_start_time t < fst q \<longrightarrow> rows_of (snd q) \<inter> rows_of us = {}"
    using c(2) assms(1) unfolding compatible_def by (simp add: Int_commute)
qed

text \<open>What an update without conflicts does to the views: nothing for the others, the new values for the transaction.\<close>

lemma updated_versions_split:
  assumes "distinct (map fst (pre @ (ver, us) # post))"
  shows "updated_versions data ups ver ((bver, bs) # pre @ (ver, us) # post) =
    (bver, merge_loop ups bs) # pre @ (ver, merge_old data (map fst ups) us bs) # post"
proof -
  have "map (\<lambda>(v, es). (v, if v = ver then merge_old data (map fst ups) es bs else es)) xs = xs" if "ver \<notin> set (map fst xs)" for xs :: "'a versions"
    using that by (induction xs) auto
  then show ?thesis using assms by (simp add: updated_versions_def)
qed

lemma update_views:
  assumes "active_ids_ok active" and "t \<in> active" and "versions_ok active vs" and vs: "vs = (bver, bs) # pre @ (td_transaction_id t, us) # post"
    and "entries_ok ups" and no_conflict: "\<forall>p \<in> set (pre @ post). td_start_time t < fst p \<longrightarrow> rows_of (snd p) \<inter> rows_of ups = {}"
  shows "u \<in> active \<Longrightarrow> u \<noteq> t \<Longrightarrow> view u (updated_versions data ups (td_transaction_id t) vs) row (data row) = view u vs row (data row)"
    and "view t (updated_versions data ups (td_transaction_id t) vs) row d = overlay ups row (view t vs row d)"
    and "versions_ok active (updated_versions data ups (td_transaction_id t) vs)"
proof -
  have ok: "bver = transaction_id_start - 1" "entries_ok bs" "entries_ok us" "rows_of us \<subseteq> rows_of bs" "distinct (map fst (pre @ (td_transaction_id t, us) # post))"
    "\<forall>p \<in> set (pre @ post). entries_ok (snd p) \<and> rows_of (snd p) \<subseteq> rows_of bs"
    "sorted_wrt (compatible active) (pre @ (td_transaction_id t, us) # post)"
    using assms(3) by (auto simp: versions_ok_def vs)
  note old = merge_old_ok [OF assms(5) ok(3,2), of data]
  note split = updated_versions_split [OF ok(5), of data ups bver bs, folded vs]
  have pre: "\<forall>p \<in> set pre. rows_of (snd p) \<inter> rows_of ups = {}"
    using compatible_own(1) [OF assms(2) ok(7)] no_conflict by auto
  show "view u (updated_versions data ups (td_transaction_id t) vs) row (data row) = view u vs row (data row)" if "u \<in> active" "u \<noteq> t"
  proof -
    have h: "hidden u bver" "hidden u (td_transaction_id t)"
      using hidden_base hidden_other assms(1,2) that ok(1) by blast+
    show ?thesis
    proof (cases "row \<in> rows_of ups")
      case True
      then have p: "view u pre row d = d" for d using pre by (intro view_untouched) blast
      show ?thesis unfolding split using h True by (simp add: vs p old(3))
    next
      case False
      have "overlay (merge_loop ups bs) row d = overlay bs row d" for d
        using overlay_merge_loop [OF assms(5) ok(2)] overlay_outside [OF False] by metis
      then show ?thesis unfolding split using h False by (simp add: vs old(3))
    qed
  qed
  show "view t (updated_versions data ups (td_transaction_id t) vs) row d = overlay ups row (view t vs row d)"
  proof -
    have h: "hidden t bver" "\<not> hidden t (td_transaction_id t)"
      using hidden_base assms(1,2) ok(1) by (auto simp: hidden_def)
    have v: "view t vs row d = view t post row (view t pre row (overlay bs row d))"
      "view t (updated_versions data ups (td_transaction_id t) vs) row d = view t post row (view t pre row (overlay ups row (overlay bs row d)))" for d
      unfolding split using h by (simp_all add: vs overlay_merge_loop [OF assms(5) ok(2)])
    show ?thesis
    proof (cases "row \<in> rows_of ups")
      case True
      then have "view t pre row d = d" "view t post row d = d" for d
        using no_conflict by (intro view_untouched; simp add: hidden_def; blast)+
      then show ?thesis by (simp add: v)
    next
      case False
      then show ?thesis by (simp add: v overlay_outside)
    qed
  qed
  show "versions_ok active (updated_versions data ups (td_transaction_id t) vs)"
  proof -
    have new: "compatible active p (td_transaction_id t, merge_old data (map fst ups) us bs)" if p: "p \<in> set pre" for p
    proof -
      have "compatible active p (td_transaction_id t, us)" using ok(7) p by (auto simp: sorted_wrt_append)
      moreover have "rows_of (snd p) \<inter> rows_of ups = {}" using pre p by auto
      ultimately show ?thesis by (auto simp: compatible_def old(2))
    qed
    have new': "compatible active (td_transaction_id t, merge_old data (map fst ups) us bs) q" if q: "q \<in> set post" for q
    proof -
      have c: "compatible active (td_transaction_id t, us) q" using ok(7) q by (auto simp: sorted_wrt_append)
      have d: "td_start_time t < fst q \<Longrightarrow> rows_of (snd q) \<inter> rows_of ups = {}" using no_conflict q by auto
      have disjoint: "rows_of (merge_old data (map fst ups) us bs) \<inter> rows_of (snd q) = {}"
        if "td_start_time t < fst q" "rows_of us \<inter> rows_of (snd q) = {}"
        using d [OF that(1)] that(2) by (auto simp: old(2))
      show ?thesis unfolding compatible_def fst_conv snd_conv
      proof (intro ballI conjI impI)
        fix u assume u: "u \<in> active" "td_transaction_id u = fst q"
        then have "transaction_id_start \<le> fst q" using assms(1) by (auto simp: active_ids_ok_def)
        then have "td_start_time t < fst q" using assms(1,2) by (auto simp: active_ids_ok_def)
        then show "rows_of (merge_old data (map fst ups) us bs) \<inter> rows_of (snd q) = {}" "td_start_time u < td_transaction_id t"
          using c u disjoint unfolding compatible_def by auto
      next
        fix u assume u: "u \<in> active" "td_transaction_id u = td_transaction_id t \<and> td_start_time u < fst q"
        then have "u = t" using assms(1,2) by (auto simp: active_ids_ok_def dest: inj_onD)
        then show "rows_of (merge_old data (map fst ups) us bs) \<inter> rows_of (snd q) = {}"
          using c u disjoint unfolding compatible_def by auto
      qed
    qed
    show ?thesis
      unfolding split versions_ok_split merge_loop_rows old(2)
      using assms(3) [unfolded vs versions_ok_split] old(1) new new' merge_entries_ok [OF assms(5) ok(2)]
      by (elim conjE, intro conjI) (simp_all add: le_supI1 le_supI2 subset_trans)
  qed
qed

text \<open>A version without rows in front of the others changes nothing.\<close>

lemma insert_version_ok:
  assumes "active_ids_ok active" and "t \<in> active" and "versions_ok active ((bver, bs) # nodes)" and "td_transaction_id t \<notin> fst ` set nodes"
  shows "versions_ok active ((bver, bs) # (td_transaction_id t, []) # nodes)"
    and "view u ((bver, bs) # (td_transaction_id t, []) # nodes) row d = view u ((bver, bs) # nodes) row d"
proof -
  have "compatible active (td_transaction_id t, []) q" for q :: "transaction_t \<times> (nat \<times> 'a) list"
    using start_below_id [OF assms(1,2)] by (simp add: compatible_def)
  then show "versions_ok active ((bver, bs) # (td_transaction_id t, []) # nodes)"
    using assms(3,4) by (auto simp: versions_ok_def entries_ok_def)
  show "view u ((bver, bs) # (td_transaction_id t, []) # nodes) row d = view u ((bver, bs) # nodes) row d"
    by (simp add: overlay_def)
qed

text \<open>The commit of a version: the transactions that are active then see what they saw, and later ones
  see the rows of the transaction as it saw them.\<close>

lemma commit_views:
  assumes "active_ids_ok active" and "t \<in> active" and "versions_ok active vs" and vs: "vs = (bver, bs) # pre @ (td_transaction_id t, us) # post"
    and vs': "vs' = (bver, bs) # pre @ (c, us) # post"
    and "\<forall>u \<in> active. td_start_time u < c" and "c < transaction_id_start" and "c \<notin> fst ` set (pre @ post)"
  shows "u \<in> active \<Longrightarrow> u \<noteq> t \<Longrightarrow> view u vs' row d = view u vs row d"
    and "c \<le> td_start_time w \<Longrightarrow> td_start_time w < transaction_id_start - 1 \<Longrightarrow> transaction_id_start \<le> td_transaction_id w \<Longrightarrow>
      row \<in> rows_of us \<Longrightarrow> view w vs' row d = view t vs row d"
    and "versions_ok (active - {t}) vs'"
proof -
  have ok: "bver = transaction_id_start - 1" "sorted_wrt (compatible active) (pre @ (td_transaction_id t, us) # post)"
    using assms(3) by (auto simp: versions_ok_def vs)
  note own = compatible_own [OF assms(2) ok(2)]
  show "view u vs' row d = view u vs row d" if "u \<in> active" "u \<noteq> t"
  proof -
    have "hidden u (td_transaction_id t)" using hidden_other assms(1,2) that by blast
    moreover have "hidden u c" using assms(1,6,7) that by (fastforce simp: hidden_def active_ids_ok_def)
    ultimately show ?thesis by (simp add: vs vs')
  qed
  show "view w vs' row d = view t vs row d"
    if w: "c \<le> td_start_time w" "td_start_time w < transaction_id_start - 1" "transaction_id_start \<le> td_transaction_id w" "row \<in> rows_of us"
  proof -
    have start: "td_start_time t < c" using assms(2,6) by blast
    have untouched: "view x pre row d = d" "view x post row d = d" if "td_start_time t \<le> td_start_time x" for x d
      using own w(4) that by (intro view_untouched; force simp: hidden_def)+
    have "hidden t bver" "\<not> hidden t (td_transaction_id t)" "hidden w bver" "\<not> hidden w c"
      using hidden_base [OF assms(1,2)] ok(1) w by (auto simp: hidden_def)
    then show ?thesis using untouched start w(1) by (simp add: vs vs')
  qed
  have c: "td_transaction_id u \<noteq> c" if "u \<in> active" for u using assms(1,7) that by (auto simp: active_ids_ok_def)
  have less: "compatible active x y \<Longrightarrow> compatible (active - {t}) x y" for x y :: "transaction_t \<times> (nat \<times> 'a) list"
    unfolding compatible_def by blast
  have pre: "compatible (active - {t}) p (c, us)" if "compatible active p (td_transaction_id t, us)" for p
    using that c start_below_id [OF assms(1,2)] by (simp add: compatible_def) blast
  have post: "compatible (active - {t}) (c, us) q" if "compatible active (td_transaction_id t, us) q" for q
    using that c assms(6) by (simp add: compatible_def) blast
  have "sorted_wrt (compatible (active - {t})) (pre @ post)"
    using assms(3) less unfolding vs versions_ok_split by (metis (no_types, lifting) sorted_wrt_mono_rel)
  then show "versions_ok (active - {t}) vs'"
    using assms(3,8) pre post unfolding vs vs' versions_ok_split by blast
qed

text \<open>The removal of a version that no active transaction has to undo.\<close>

lemma compatible_mono: "compatible active x y \<Longrightarrow> active' \<subseteq> active \<Longrightarrow> compatible active' x y"
  unfolding compatible_def by blast

lemma cleanup_views:
  assumes "versions_ok active ((bver, bs) # pre @ (ver, us) # post)"
  shows "\<not> hidden u ver \<Longrightarrow> view u ((bver, bs) # pre @ post) row d = view u ((bver, bs) # pre @ (ver, us) # post) row d"
    and "active' \<subseteq> active \<Longrightarrow> versions_ok active' ((bver, bs) # pre @ post)"
proof -
  assume "active' \<subseteq> active"
  then have "sorted_wrt (compatible active') (pre @ post)"
    using assms compatible_mono unfolding versions_ok_split by (metis (no_types, lifting) sorted_wrt_mono_rel)
  then show "versions_ok active' ((bver, bs) # pre @ post)"
    using assms unfolding versions_ok_split by (simp add: versions_ok_def)
qed simp

text \<open>The rollback of a version: nobody else notices it.\<close>

lemma rollback_views:
  assumes "active_ids_ok active" and "t \<in> active" and "versions_ok active vs" and vs: "vs = (bver, bs) # pre @ (td_transaction_id t, us) # post"
  shows "\<exists>es. rollback_entries bs us = Inr es \<and> versions_ok active ((bver, es) # pre @ post) \<and>
    (\<forall>u row d. hidden u bver \<and> hidden u (td_transaction_id t) \<longrightarrow> view u ((bver, es) # pre @ post) row d = view u vs row d)"
proof -
  have ok: "entries_ok bs" "entries_ok us" "rows_of us \<subseteq> rows_of bs" "sorted_wrt (compatible active) (pre @ (td_transaction_id t, us) # post)"
    using assms(3) by (auto simp: versions_ok_def vs)
  obtain es where es: "rollback_entries bs us = Inr es" "map fst es = map fst bs"
    "\<forall>r. map_of es r = (case map_of us r of Some v \<Rightarrow> Some v | None \<Rightarrow> map_of bs r)"
    using rollback_entries_spec [OF entries_okD(1) [OF ok(1)] entries_okD(1) [OF ok(2)] ok(3)] by blast
  have ov: "overlay es row d = overlay us row (overlay bs row d)" for row d
    using es(3) by (simp add: overlay_def split: option.splits)
  have "view u ((bver, es) # pre @ post) row d = view u vs row d" if h: "hidden u bver" "hidden u (td_transaction_id t)" for u row d
  proof (cases "row \<in> rows_of us")
    case True
    then have "view u pre row d = d" for d
      using compatible_own(1) [OF assms(2) ok(4)] by (intro view_untouched) blast
    then show ?thesis using h by (simp add: vs ov)
  next
    case False
    then show ?thesis using h by (simp add: vs ov overlay_outside)
  qed
  moreover have "versions_ok active ((bver, es) # pre @ post)"
  proof -
    have rows: "rows_of es = rows_of bs" using es(2) by (metis list.set_map)
    then have "entries_ok es" using ok(1) es(2) by (simp add: entries_ok_def)
    moreover have "versions_ok active ((bver, bs) # pre @ post)" using cleanup_views(2) [OF _ subset_refl] assms(3) vs by blast
    ultimately show ?thesis using rows by (simp add: versions_ok_def)
  qed
  ultimately show ?thesis using es(1) by blast
qed

section \<open>Chains in memory\<close>

text \<open>A stretch of a chain between the addresses \<open>pv\<close> and \<open>nx\<close>.\<close>

definition first :: "'a list \<Rightarrow> 'a option \<Rightarrow> 'a option" where
  "first as nx = (case as of [] \<Rightarrow> nx | a # _ \<Rightarrow> Some a)"

fun linked :: "(nat \<rightharpoonup> 'v update_info) \<Rightarrow> nat option \<Rightarrow> nat list \<Rightarrow> nat option \<Rightarrow> bool" where
  "linked infos pv [] nx = True"
| "linked infos pv (a # as) nx =
     (case infos a of None \<Rightarrow> False | Some i \<Rightarrow> ui_prev i = pv \<and> ui_next i = first as nx \<and> linked infos (Some a) as nx)"

lemma linked_append:
  "linked infos pv (as @ bs) nx \<longleftrightarrow> linked infos pv as (first bs nx) \<and> linked infos (if as = [] then pv else Some (last as)) bs nx"
proof (induction as arbitrary: pv)
  case (Cons a as)
  have "first (as @ bs) nx = first as (first bs nx)" by (cases as) (simp_all add: first_def)
  with Cons show ?case by (auto split: option.splits)
qed simp

definition versions_at :: "(nat \<rightharpoonup> 'v update_info) \<Rightarrow> nat list \<Rightarrow> 'v versions" where
  "versions_at infos as = map (\<lambda>a. (ui_version (the (infos a)), ui_entries (the (infos a)))) as"

text \<open>The chains of a segment, one list of addresses per vector.\<close>

definition chains :: "'v update_segment \<Rightarrow> (nat \<Rightarrow> nat list) \<Rightarrow> bool" where
  "chains seg cs \<longleftrightarrow> (\<forall>v. get_update_node v seg = first (cs v) None \<and> linked (seg_infos seg) None (cs v) None \<and> distinct (cs v) \<and>
     (\<forall>a \<in> set (cs v). a < seg_fresh seg \<and> ui_vector_index (the (seg_infos seg a)) = v)) \<and>
     (\<forall>v w. v \<noteq> w \<longrightarrow> set (cs v) \<inter> set (cs w) = {})"

lemma linked_chain_ptrs: "linked infos pv as None \<Longrightarrow> chain_ptrs infos (first as None) = Some as"
proof (induction as arbitrary: pv)
  case (Cons a as)
  then show ?case by (auto simp: first_def [of "a # as"] chain_ptrs.simps [of _ "Some a"] split: option.splits)
qed (simp add: first_def chain_ptrs.simps)

lemma linked_same_links:
  assumes "\<And>a. a \<in> set as \<Longrightarrow> map_option (\<lambda>i. (ui_prev i, ui_next i)) (infos' a) = map_option (\<lambda>i. (ui_prev i, ui_next i)) (infos a)"
  shows "linked infos' pv as nx \<longleftrightarrow> linked infos pv as nx"
  using assms
proof (induction as arbitrary: pv)
  case (Cons a as)
  have "map_option (\<lambda>i. (ui_prev i, ui_next i)) (infos' a) = map_option (\<lambda>i. (ui_prev i, ui_next i)) (infos a)" using Cons.prems by simp
  with Cons show ?case by (cases "infos a"; cases "infos' a") auto
qed simp

lemma linked_exists: "linked infos pv as nx \<Longrightarrow> a \<in> set as \<Longrightarrow> \<exists>i. infos a = Some i"
  by (induction as arbitrary: pv) (auto split: option.splits)

lemma fold_overlay_nth:
  assumes "\<forall>i \<in> set is. entries_ok (ui_entries i)" and "length result = standard_vector_size"
  shows "length (fold (\<lambda>info res. merge_update_info (ui_entries info) res) is result) = standard_vector_size"
    and "row < standard_vector_size \<Longrightarrow> fold (\<lambda>info res. merge_update_info (ui_entries info) res) is result ! row =
      fold (\<lambda>info d. overlay (ui_entries info) row d) is (result ! row)"
  using assms by (induction "is" arbitrary: result) (simp_all add: merge_update_info_nth)

lemma view_infos:
  assumes "\<forall>a \<in> set as. \<exists>i. infos a = Some i"
  shows "fold (\<lambda>info d. overlay (ui_entries info) row d) (updates_for_transaction infos t as) d = view t (versions_at infos as) row d"
  using assms
proof (induction as arbitrary: d)
  case (Cons a as)
  then obtain i where "infos a = Some i" by auto
  with Cons show ?case
    by (simp add: updates_for_transaction_def versions_at_def applies_to_transaction_def hidden_def List.map_filter_simps)
qed (simp add: updates_for_transaction_def versions_at_def List.map_filter_simps)

text \<open>The invariant of a segment under a set of active transactions.\<close>

definition segment_ok :: "transaction_data set \<Rightarrow> 'v update_segment \<Rightarrow> (nat \<Rightarrow> nat list) \<Rightarrow> bool" where
  "segment_ok active seg cs \<longleftrightarrow> active_ids_ok active \<and> chains seg cs \<and> (\<forall>v. versions_ok active (versions_at (seg_infos seg) (cs v)))"

lemma versions_ok_entries: "versions_ok active vs \<Longrightarrow> \<forall>p \<in> set vs. entries_ok (snd p)"
  by (cases vs) (auto simp: versions_ok_def)

lemma segment_infos:
  assumes "segment_ok active seg cs" and "a \<in> set (cs v)"
  shows "\<exists>i. seg_infos seg a = Some i \<and> entries_ok (ui_entries i)"
proof -
  obtain i where i: "seg_infos seg a = Some i" using assms linked_exists unfolding segment_ok_def chains_def by meson
  have "(ui_version i, ui_entries i) \<in> set (versions_at (seg_infos seg) (cs v))" using i assms(2) by (force simp: versions_at_def)
  then have "entries_ok (ui_entries i)" using assms(1) versions_ok_entries unfolding segment_ok_def by fastforce
  with i show ?thesis by blast
qed

lemma fetch_updates_view:
  assumes "segment_ok active seg cs" and "length result = standard_vector_size"
  shows "\<exists>out. fetch_updates t v result seg = Some out \<and> length out = standard_vector_size \<and>
    (\<forall>row < standard_vector_size. out ! row = view t (versions_at (seg_infos seg) (cs v)) row (result ! row))"
proof (cases "cs v")
  case Nil
  then have "get_update_node v seg = None" using assms(1) by (simp add: segment_ok_def chains_def first_def)
  then show ?thesis using assms(2) Nil by (simp add: fetch_updates_def versions_at_def)
next
  case (Cons b as)
  have chain: "get_update_node v seg = first (cs v) None" "linked (seg_infos seg) None (cs v) None"
    using assms(1) by (auto simp: segment_ok_def chains_def)
  let ?us = "updates_for_transaction (seg_infos seg) t (cs v)"
  have "\<forall>i \<in> set ?us. entries_ok (ui_entries i)"
    using segment_infos [OF assms(1)] by (fastforce simp: updates_for_transaction_def List.map_filter_def)
  note f = fold_overlay_nth [OF this assms(2)]
  have "fetch_updates t v result seg = Some (fold (\<lambda>info res. merge_update_info (ui_entries info) res) ?us result)"
    using chain linked_chain_ptrs [OF chain(2)] Cons by (simp add: fetch_updates_def first_def)
  moreover have "\<forall>a \<in> set (cs v). \<exists>i. seg_infos seg a = Some i" using linked_exists [OF chain(2)] by blast
  ultimately show ?thesis using f view_infos by metis
qed

text \<open>The row fetch reads the same.\<close>

lemma fetch_row_view:
  assumes "segment_ok active seg cs" and "seg_start seg \<le> row_id" and "i < length result"
  shows "\<exists>out. fetch_row t row_id result i seg = Some out \<and> out = result[i := view t (versions_at (seg_infos seg)
    (cs ((row_id - seg_start seg) div standard_vector_size))) ((row_id - seg_start seg) mod standard_vector_size) (result ! i)]"
proof -
  define v where "v = (row_id - seg_start seg) div standard_vector_size"
  define row where "row = (row_id - seg_start seg) mod standard_vector_size"
  have row: "(row_id - seg_start seg) - v * standard_vector_size = row" by (simp add: v_def row_def minus_div_mult_eq_mod)
  let ?us = "updates_for_transaction (seg_infos seg) t (cs v)"
  let ?f = "\<lambda>info res. case find_row (ui_entries info) row of Some x \<Rightarrow> res[i := x] | None \<Rightarrow> res"
  have chain: "get_update_node v seg = first (cs v) None" "linked (seg_infos seg) None (cs v) None"
    using assms(1) by (auto simp: segment_ok_def chains_def)
  have "fold ?f is res = res[i := fold (\<lambda>info d. overlay (ui_entries info) row d) is (res ! i)]"
    if "\<forall>i \<in> set is. entries_ok (ui_entries i)" "i < length res" for "is" :: "'a update_info list" and res
    using that
  proof (induction "is" arbitrary: res)
    case (Cons j js)
    have "find_row (ui_entries j) row = map_of (ui_entries j) row"
      using Cons.prems(1) find_row_map_of entries_okD(1) by (metis list.set_intros(1))
    with Cons show ?case by (auto simp: overlay_def split: option.splits)
  qed simp
  moreover have "\<forall>i \<in> set ?us. entries_ok (ui_entries i)"
    using segment_infos [OF assms(1)] by (fastforce simp: updates_for_transaction_def List.map_filter_def)
  ultimately have "fold ?f ?us result = result[i := fold (\<lambda>info d. overlay (ui_entries info) row d) ?us (result ! i)]"
    using assms(3) by blast
  moreover have "\<forall>a \<in> set (cs v). \<exists>i. seg_infos seg a = Some i" using linked_exists [OF chain(2)] by blast
  ultimately have "fold ?f ?us result = result[i := view t (versions_at (seg_infos seg) (cs v)) row (result ! i)]"
    using view_infos by metis
  then show ?thesis
    using chain linked_chain_ptrs [OF chain(2)]
    unfolding fetch_row_def Let_def v_def [symmetric] row row_def [symmetric]
    by (cases "cs v") (simp_all add: first_def versions_at_def)
qed

end
