(* ===== verification/UpdateChains.thy ===== *)
theory UpdateChains
  imports UpdateSegment
begin

text \<open>
  What the operations of an update segment do to the chains in memory: each of them is refined by
  an operation on the lists of versions of \<^verbatim>\<open>UpdateSegment\<close>, on one vector at a time. The update, the
  commit, the rollback and the cleanup keep the invariant of the segment, and their effect on
  what the transactions read is stated with \<open>view\<close>.
\<close>

section \<open>Operations on chains in memory\<close>

lemma linked_change_prev:
  assumes "linked infos pv as nx" and "distinct as"
    and "as \<noteq> [] \<Longrightarrow> infos' (hd as) = map_option (\<lambda>i. i\<lparr>ui_prev := pv'\<rparr>) (infos (hd as))"
    and "\<And>a. a \<in> set (tl as) \<Longrightarrow> infos' a = infos a"
  shows "linked infos' pv' as nx"
proof (cases as)
  case (Cons m ms)
  have "linked infos' (Some m) ms nx \<longleftrightarrow> linked infos (Some m) ms nx"
    using assms(4) Cons by (intro linked_same_links) simp
  then show ?thesis using assms(1,3) Cons by (auto split: option.splits)
qed simp

lemma linked_change_next:
  assumes "linked infos pv (as @ [p]) nx" and "\<And>a. a \<in> set as \<Longrightarrow> infos' a = infos a"
    and "infos' p = map_option (\<lambda>i. i\<lparr>ui_next := nx'\<rparr>) (infos p)"
  shows "linked infos' pv (as @ [p]) nx'"
proof -
  have "linked infos' pv as (Some p) \<longleftrightarrow> linked infos pv as (Some p)"
    using assms(2) by (intro linked_same_links) simp
  then show ?thesis using assms(1,3) by (auto simp: linked_append first_def split: option.splits)
qed

text \<open>An operation on the chain of one vector leaves the others alone.\<close>

lemma chains_replace:
  assumes "chains seg cs" and "\<And>w. w \<noteq> v \<Longrightarrow> get_update_node w seg' = get_update_node w seg" and "get_update_node v seg' = first new None"
    and "\<And>a. a \<notin> set (cs v) \<Longrightarrow> a < seg_fresh seg \<Longrightarrow> seg_infos seg' a = seg_infos seg a" and "seg_fresh seg \<le> seg_fresh seg'"
    and "linked (seg_infos seg') None new None" and "distinct new"
    and "\<And>a. a \<in> set new \<Longrightarrow> a < seg_fresh seg' \<and> ui_vector_index (the (seg_infos seg' a)) = v \<and> (a \<in> set (cs v) \<or> seg_fresh seg \<le> a)"
  shows "chains seg' (cs(v := new))" and "w \<noteq> v \<Longrightarrow> versions_at (seg_infos seg') (cs w) = versions_at (seg_infos seg) (cs w)"
proof -
  have same: "seg_infos seg' a = seg_infos seg a \<and> a < seg_fresh seg" if "a \<in> set (cs w)" "w \<noteq> v" for a w
    using assms(1,4) that unfolding chains_def by blast
  show "versions_at (seg_infos seg') (cs w) = versions_at (seg_infos seg) (cs w)" if "w \<noteq> v"
    using same that by (simp add: versions_at_def)
  have "get_update_node w seg' = first ((cs(v := new)) w) None \<and> linked (seg_infos seg') None ((cs(v := new)) w) None \<and> distinct ((cs(v := new)) w) \<and>
    (\<forall>a \<in> set ((cs(v := new)) w). a < seg_fresh seg' \<and> ui_vector_index (the (seg_infos seg' a)) = w)" for w
  proof (cases "w = v")
    case True
    then show ?thesis using assms(3,6,7,8) by simp
  next
    case False
    have "linked (seg_infos seg') None (cs w) None \<longleftrightarrow> linked (seg_infos seg) None (cs w) None"
      using same False by (intro linked_same_links) simp
    moreover have "\<forall>a \<in> set (cs w). a < seg_fresh seg' \<and> ui_vector_index (the (seg_infos seg' a)) = w"
      using assms(1,5) same False unfolding chains_def by fastforce
    ultimately show ?thesis using assms(1,2) False by (simp add: chains_def)
  qed
  moreover have "set new \<inter> set (cs w) = {}" if "w \<noteq> v" for w
    using assms(1,8) same that unfolding chains_def by (meson disjoint_iff not_less)
  then have "set ((cs(v := new)) w1) \<inter> set ((cs(v := new)) w2) = {}" if "w1 \<noteq> w2" for w1 w2
    using assms(1) that by (auto simp: chains_def)
  ultimately show "chains seg' (cs(v := new))" unfolding chains_def by blast
qed

lemma chains_at:
  assumes "chains seg cs"
  shows "get_update_node v seg = first (cs v) None" and "linked (seg_infos seg) None (cs v) None" and "distinct (cs v)"
    and "a \<in> set (cs v) \<Longrightarrow> a < seg_fresh seg" and "a \<in> set (cs v) \<Longrightarrow> ui_vector_index (the (seg_infos seg a)) = v"
    and "a \<in> set (cs v) \<Longrightarrow> \<exists>i. seg_infos seg a = Some i"
  using assms linked_exists unfolding chains_def by blast+

lemma get_update_node_cong:
  "seg_has_root seg' = seg_has_root seg \<Longrightarrow> seg_root seg' = seg_root seg \<Longrightarrow> get_update_node w seg' = get_update_node w seg"
  by (simp add: get_update_node_def)

text \<open>A new node behind the base info.\<close>

lemma insert_node_chains:
  assumes "chains seg cs" and "cs v = b # as" and "seg_infos seg b = Some base" and "seg' = insert_node t v b base seg"
  shows "chains seg' (cs(v := b # seg_fresh seg # as))"
    and "w \<noteq> v \<Longrightarrow> versions_at (seg_infos seg') (cs w) = versions_at (seg_infos seg) (cs w)"
    and "versions_at (seg_infos seg') (b # seg_fresh seg # as) = (ui_version base, ui_entries base) # (td_transaction_id t, []) # versions_at (seg_infos seg) as"
    and "seg_fresh seg' = Suc (seg_fresh seg)"
proof -
  note c = chains_at [OF assms(1), where v = v, unfolded assms(2)]
  have fresh: "seg_fresh seg \<notin> set (b # as)" using c(4) by blast
  have next': "ui_next base = first as None" using c(2) assms(3) by simp
  show [simp]: "seg_fresh seg' = Suc (seg_fresh seg)" by (simp add: assms(4) insert_node_def Let_def)
  have n: "seg_infos seg' (seg_fresh seg) =
      Some \<lparr>ui_version = td_transaction_id t, ui_vector_index = v, ui_entries = [], ui_prev = Some b, ui_next = first as None\<rparr>"
    using fresh next' by (cases as) (auto simp: assms(4) insert_node_def Let_def first_def)
  have b: "seg_infos seg' b = Some (base\<lparr>ui_next := Some (seg_fresh seg)\<rparr>)" by (simp add: assms(4) insert_node_def Let_def)
  have other: "seg_infos seg' a = seg_infos seg a" if "a \<noteq> b" "a \<noteq> seg_fresh seg" "Some a \<noteq> first as None" for a
    using that next' by (cases as) (auto simp: assms(4) insert_node_def Let_def first_def)
  have head: "seg_infos seg' m = map_option (\<lambda>i. i\<lparr>ui_prev := Some (seg_fresh seg)\<rparr>) (seg_infos seg m)" if "as = m # ms" for m ms
    using that next' fresh c(3) by (auto simp: assms(4) insert_node_def Let_def first_def)
  have "linked (seg_infos seg') (Some (seg_fresh seg)) as None"
  proof (rule linked_change_prev [where pv = "Some b"])
    show "linked (seg_infos seg) (Some b) as None" using c(2) assms(3) by simp
    show "seg_infos seg' a = seg_infos seg a" if "a \<in> set (tl as)" for a
      using that c(3) fresh by (intro other; cases as) (auto simp: first_def)
    show "as \<noteq> [] \<Longrightarrow> seg_infos seg' (hd as) = map_option (\<lambda>i. i\<lparr>ui_prev := Some (seg_fresh seg)\<rparr>) (seg_infos seg (hd as))"
      using head by (cases as) auto
  qed (use c(3) in simp)
  then have linked: "linked (seg_infos seg') None (b # seg_fresh seg # as) None"
    using b n c(2) assms(3) by (simp add: first_def)
  have as: "\<exists>i j. seg_infos seg a = Some i \<and> seg_infos seg' a = Some j \<and> ui_version j = ui_version i \<and> ui_entries j = ui_entries i \<and>
      ui_vector_index j = ui_vector_index i" if a: "a \<in> set as" for a
  proof -
    obtain i where i: "seg_infos seg a = Some i" using c(6) a by auto
    show ?thesis
    proof (cases "Some a = first as None")
      case True
      then obtain ms where "as = a # ms" by (cases as) (auto simp: first_def)
      then show ?thesis using head i by simp
    next
      case False
      then show ?thesis using other [of a] i a c(3) fresh by auto
    qed
  qed
  have new: "a < seg_fresh seg' \<and> ui_vector_index (the (seg_infos seg' a)) = v \<and> (a \<in> set (cs v) \<or> seg_fresh seg \<le> a)"
    if "a \<in> set (b # seg_fresh seg # as)" for a
    using that as [of a] b n c(4,5) [of a] assms(2,3) by auto
  have root: "get_update_node w seg' = get_update_node w seg" for w
    by (rule get_update_node_cong) (simp_all add: assms(4) insert_node_def Let_def)
  have same: "seg_infos seg' a = seg_infos seg a" if "a \<notin> set (cs v)" "a < seg_fresh seg" for a
    using that assms(2) by (intro other) (auto simp: first_def split: list.splits)
  have dist: "distinct (b # seg_fresh seg # as)" using c(3) fresh by auto
  have f: "get_update_node v seg' = first (b # seg_fresh seg # as) None" using root c(1) by (simp add: first_def)
  have le: "seg_fresh seg \<le> seg_fresh seg'" by simp
  note r = chains_replace [OF assms(1) root f same le linked dist new]
  show "chains seg' (cs(v := b # seg_fresh seg # as))" by (rule r(1))
  show "w \<noteq> v \<Longrightarrow> versions_at (seg_infos seg') (cs w) = versions_at (seg_infos seg) (cs w)" by (rule r(2))
  show "versions_at (seg_infos seg') (b # seg_fresh seg # as) =
      (ui_version base, ui_entries base) # (td_transaction_id t, []) # versions_at (seg_infos seg) as"
    using as b n by (fastforce simp: versions_at_def)
qed

text \<open>Operations that keep the links.\<close>

lemma chains_same_links:
  assumes "chains seg cs" and "seg_has_root seg' = seg_has_root seg" and "seg_root seg' = seg_root seg" and "seg_fresh seg' = seg_fresh seg"
    and links: "\<And>a. map_option (\<lambda>i. (ui_prev i, ui_next i, ui_vector_index i)) (seg_infos seg' a) =
      map_option (\<lambda>i. (ui_prev i, ui_next i, ui_vector_index i)) (seg_infos seg a)"
  shows "chains seg' cs"
proof -
  have l: "linked (seg_infos seg') None (cs v) None \<longleftrightarrow> linked (seg_infos seg) None (cs v) None" for v
  proof (rule linked_same_links)
    show "map_option (\<lambda>i. (ui_prev i, ui_next i)) (seg_infos seg' a) = map_option (\<lambda>i. (ui_prev i, ui_next i)) (seg_infos seg a)" for a
      using links [of a] by (cases "seg_infos seg a"; cases "seg_infos seg' a") auto
  qed
  have "ui_vector_index (the (seg_infos seg' a)) = ui_vector_index (the (seg_infos seg a))" if "seg_infos seg a = Some i" for a i
    using links [of a] that by (cases "seg_infos seg' a") auto
  then have "\<forall>a \<in> set (cs v). ui_vector_index (the (seg_infos seg' a)) = v" for v
    using chains_at(5,6) [OF assms(1)] by metis
  then show ?thesis
    using assms(1) unfolding chains_def l get_update_node_cong [OF assms(2,3)] assms(4) by blast
qed

lemma versions_at_cong: "(\<And>a. a \<in> set as \<Longrightarrow> infos' a = infos a) \<Longrightarrow> versions_at infos' as = versions_at infos as"
  by (simp add: versions_at_def)

lemma versions_at_simps [simp]:
  "versions_at infos [] = []"
  "versions_at infos (a # as) = (ui_version (the (infos a)), ui_entries (the (infos a))) # versions_at infos as"
  "versions_at infos (as @ bs) = versions_at infos as @ versions_at infos bs"
  by (simp_all add: versions_at_def)

lemma versions_at_fst: "fst ` set (versions_at infos as) = (\<lambda>a. ui_version (the (infos a))) ` set as"
  by (simp add: versions_at_def image_image)

lemma chains_disjoint: "chains seg cs \<Longrightarrow> a \<in> set (cs v) \<Longrightarrow> a \<in> set (cs w) \<Longrightarrow> w = v"
  unfolding chains_def by blast

lemma merge_updates_chains:
  assumes "chains seg cs" and "cs v = b # pre @ n # post" and "seg' = merge_updates data ups b n seg"
    and "distinct (map fst (versions_at (seg_infos seg) (pre @ n # post)))"
  shows "chains seg' cs" and "w \<noteq> v \<Longrightarrow> versions_at (seg_infos seg') (cs w) = versions_at (seg_infos seg) (cs w)"
    and "versions_at (seg_infos seg') (cs v) = updated_versions data ups (ui_version (the (seg_infos seg n))) (versions_at (seg_infos seg) (cs v))"
    and "seg_fresh seg' = seg_fresh seg"
proof -
  note c = chains_at [OF assms(1), where v = v, unfolded assms(2)]
  obtain base node where bn: "seg_infos seg b = Some base" "seg_infos seg n = Some node" using c(6) [of b] c(6) [of n] by auto
  have ne: "b \<noteq> n" using c(3) by auto
  have seg': "seg' = seg\<lparr>seg_infos := (seg_infos seg)
      (n \<mapsto> node\<lparr>ui_entries := merge_old data (map fst ups) (ui_entries node) (ui_entries base)\<rparr>,
       b \<mapsto> base\<lparr>ui_entries := merge_loop ups (ui_entries base)\<rparr>)\<rparr>"
    using bn by (simp add: assms(3) merge_updates_def)
  show "chains seg' cs" using bn by (intro chains_same_links [OF assms(1)]) (auto simp: seg')
  show "seg_fresh seg' = seg_fresh seg" by (simp add: seg')
  show "versions_at (seg_infos seg') (cs w) = versions_at (seg_infos seg) (cs w)" if "w \<noteq> v"
  proof (rule versions_at_cong)
    fix a assume "a \<in> set (cs w)"
    then have "a \<noteq> b \<and> a \<noteq> n" using chains_disjoint [OF assms(1), of a v w] that assms(2) by auto
    then show "seg_infos seg' a = seg_infos seg a" by (simp add: seg')
  qed
  have "versions_at (seg_infos seg') pre = versions_at (seg_infos seg) pre" "versions_at (seg_infos seg') post = versions_at (seg_infos seg) post"
    using c(3) by (auto intro!: versions_at_cong simp: seg')
  moreover have "distinct (map fst (versions_at (seg_infos seg) pre @ (ui_version node, ui_entries node) # versions_at (seg_infos seg) post))"
    using assms(4) bn(2) by simp
  note updated_versions_split [OF this, of data ups "ui_version base" "ui_entries base"]
  ultimately show "versions_at (seg_infos seg') (cs v) = updated_versions data ups (ui_version (the (seg_infos seg n))) (versions_at (seg_infos seg) (cs v))"
    using bn ne by (simp add: assms(2) seg')
qed

lemma set_version_chains:
  assumes "chains seg cs" and "a \<in> set (cs v)" and "cs v = pre @ a # post" and "seg' = set_version c a seg"
  shows "chains seg' cs" and "w \<noteq> v \<Longrightarrow> versions_at (seg_infos seg') (cs w) = versions_at (seg_infos seg) (cs w)"
    and "versions_at (seg_infos seg') (cs v) =
      versions_at (seg_infos seg) pre @ (c, ui_entries (the (seg_infos seg a))) # versions_at (seg_infos seg) post"
    and "seg_fresh seg' = seg_fresh seg"
proof -
  note d = chains_at [OF assms(1), where v = v]
  obtain i where i: "seg_infos seg a = Some i" using d(6) assms(2) by blast
  show "chains seg' cs" using i by (intro chains_same_links [OF assms(1)]) (auto simp: assms(4) set_version_def)
  show "seg_fresh seg' = seg_fresh seg" by (simp add: assms(4) set_version_def)
  show "versions_at (seg_infos seg') (cs w) = versions_at (seg_infos seg) (cs w)" if "w \<noteq> v"
    using chains_disjoint [OF assms(1)] that assms(2) by (intro versions_at_cong) (auto simp: assms(4) set_version_def)
  have "versions_at (seg_infos seg') pre = versions_at (seg_infos seg) pre" "versions_at (seg_infos seg') post = versions_at (seg_infos seg) post"
    using d(3) assms(3) by (auto intro!: versions_at_cong simp: assms(4) set_version_def)
  then show "versions_at (seg_infos seg') (cs v) =
      versions_at (seg_infos seg) pre @ (c, ui_entries (the (seg_infos seg a))) # versions_at (seg_infos seg) post"
    using i by (simp add: assms(3,4) set_version_def)
qed

text \<open>The removal of a node that is not the base info.\<close>

lemma cleanup_update_chains:
  assumes "chains seg cs" and cs: "cs v = b # pre @ a # post" and seg': "seg' = cleanup_update a seg"
  shows "chains seg' (cs(v := b # pre @ post))"
    and "w \<noteq> v \<Longrightarrow> versions_at (seg_infos seg') (cs w) = versions_at (seg_infos seg) (cs w)"
    and "versions_at (seg_infos seg') (b # pre @ post) = versions_at (seg_infos seg) (b # pre @ post)"
    and "seg_fresh seg' = seg_fresh seg"
proof -
  obtain ms p where mp: "b # pre = ms @ [p]" by (metis append_butlast_last_id list.discI)
  have csv: "cs v = ms @ [p] @ a # post" using cs mp by (metis append.assoc append_Cons)
  note c = chains_at [OF assms(1), where v = v]
  have dist: "distinct (ms @ [p] @ a # post)" using c(3) csv by simp
  have linked: "linked (seg_infos seg) None (ms @ [p]) (Some a)" "linked (seg_infos seg) (Some p) (a # post) None"
    using c(2) unfolding csv append_assoc [symmetric] linked_append [of _ _ "ms @ [p]"] by (simp_all add: first_def)
  obtain ia where ia: "seg_infos seg a = Some ia" "ui_prev ia = Some p" "ui_next ia = first post None"
    and post: "linked (seg_infos seg) (Some a) post None"
    using linked(2) by (auto split: option.splits)
  have infos': "seg_infos seg' = (let infos1 = (seg_infos seg)(p := map_option (\<lambda>i. i\<lparr>ui_next := first post None\<rparr>) (seg_infos seg p)) in
      case first post None of None \<Rightarrow> infos1 | Some n \<Rightarrow> infos1(n := map_option (\<lambda>i. i\<lparr>ui_prev := Some p\<rparr>) (infos1 n)))"
    unfolding seg' cleanup_update_def cleanup_update_internal_def by (simp add: ia cong: option.case_cong)
  have other: "seg_infos seg' x = seg_infos seg x" if "x \<noteq> p" "Some x \<noteq> first post None" for x
    using that by (cases "first post None") (auto simp: infos')
  have p: "seg_infos seg' p = map_option (\<lambda>i. i\<lparr>ui_next := first post None\<rparr>) (seg_infos seg p)"
    using dist by (cases post) (auto simp: infos' first_def)
  have head: "seg_infos seg' m = map_option (\<lambda>i. i\<lparr>ui_prev := Some p\<rparr>) (seg_infos seg m)" if "post = m # ns" for m ns
    using that dist by (auto simp: infos' first_def)
  have "linked (seg_infos seg') None (ms @ [p]) (first post None)"
    using linked(1)
  proof (rule linked_change_next)
    show "seg_infos seg' x = seg_infos seg x" if "x \<in> set ms" for x
      using that dist by (intro other) (auto simp: first_def split: list.splits)
  qed (rule p)
  moreover have "linked (seg_infos seg') (Some p) post None"
    using post
  proof (rule linked_change_prev)
    show "distinct post" using dist by simp
    show "seg_infos seg' (hd post) = map_option (\<lambda>i. i\<lparr>ui_prev := Some p\<rparr>) (seg_infos seg (hd post))" if "post \<noteq> []"
      using that head by (cases post) auto
    show "seg_infos seg' x = seg_infos seg x" if "x \<in> set (tl post)" for x
      using that dist by (intro other; cases post) (auto simp: first_def)
  qed
  ultimately have l: "linked (seg_infos seg') None (b # pre @ post) None"
    unfolding append_Cons [symmetric] mp linked_append [of _ _ "ms @ [p]"] by simp
  have same: "map_option (\<lambda>i. (ui_version i, ui_entries i, ui_vector_index i)) (seg_infos seg' x) =
      map_option (\<lambda>i. (ui_version i, ui_entries i, ui_vector_index i)) (seg_infos seg x)" for x
  proof (cases "x = p")
    case True
    then show ?thesis by (simp add: p option.map_comp comp_def)
  next
    case False
    show ?thesis
    proof (cases "Some x = first post None")
      case True
      then obtain ns where "post = x # ns" by (cases post) (auto simp: first_def)
      then show ?thesis using head by (simp add: option.map_comp comp_def)
    next
      case f: False
      then show ?thesis using other False by simp
    qed
  qed
  have the: "ui_version (the (seg_infos seg' x)) = ui_version (the (seg_infos seg x)) \<and>
      ui_entries (the (seg_infos seg' x)) = ui_entries (the (seg_infos seg x)) \<and>
      ui_vector_index (the (seg_infos seg' x)) = ui_vector_index (the (seg_infos seg x))" if "x \<in> set (cs v)" for x
    using same [of x] c(6) [OF that] by auto
  show vs: "versions_at (seg_infos seg') (b # pre @ post) = versions_at (seg_infos seg) (b # pre @ post)"
    using the unfolding versions_at_def by (intro map_cong) (auto simp: cs)
  show fresh: "seg_fresh seg' = seg_fresh seg" by (simp add: seg' cleanup_update_def)
  have root: "get_update_node w seg' = get_update_node w seg" for w
    by (rule get_update_node_cong) (simp_all add: seg' cleanup_update_def)
  have unchanged: "seg_infos seg' x = seg_infos seg x" if "x \<notin> set (cs v)" "x < seg_fresh seg" for x
    using that csv by (intro other) (auto simp: first_def split: list.splits)
  have new: "x < seg_fresh seg' \<and> ui_vector_index (the (seg_infos seg' x)) = v \<and> (x \<in> set (cs v) \<or> seg_fresh seg \<le> x)"
    if "x \<in> set (b # pre @ post)" for x
  proof -
    have x: "x \<in> set (cs v)" using that cs by auto
    then show ?thesis using the [OF x] c(4,5) [OF x] fresh by simp
  qed
  have f: "get_update_node v seg' = first (b # pre @ post) None" using root c(1) cs by (simp add: first_def)
  have d: "distinct (b # pre @ post)" using c(3) cs by auto
  have le: "seg_fresh seg \<le> seg_fresh seg'" using fresh by simp
  note r = chains_replace [OF assms(1) root f unchanged le l d new]
  show "chains seg' (cs(v := b # pre @ post))" by (rule r(1))
  show "w \<noteq> v \<Longrightarrow> versions_at (seg_infos seg') (cs w) = versions_at (seg_infos seg) (cs w)" by (rule r(2))
qed

section \<open>Conflicts\<close>

definition conflicting :: "transaction_data \<Rightarrow> nat set \<Rightarrow> 'v versions \<Rightarrow> bool" where
  "conflicting t rows nodes \<longleftrightarrow> (\<exists>p \<in> set nodes. hidden t (fst p) \<and> rows_of (snd p) \<inter> rows \<noteq> {})"

lemma check_for_conflicts_spec:
  assumes "\<forall>a \<in> set as. \<exists>i. infos a = Some i" and "\<forall>p \<in> set (versions_at infos as). entries_ok (snd p)" and "sorted_wrt (<) ids"
  shows "check_for_conflicts infos t ids as node =
    (if conflicting t (set ids) (versions_at infos as) then Inl (TransactionException ''Conflict on update!'')
     else Inr (fold (\<lambda>a nd. if ui_version (the (infos a)) = td_transaction_id t then Some a else nd) as node))"
  using assms
proof (induction as arbitrary: node)
  case (Cons a as)
  obtain i where i: "infos a = Some i" using Cons.prems(1) by auto
  have "ids_conflict ids (map fst (ui_entries i)) \<longleftrightarrow> rows_of (ui_entries i) \<inter> set ids \<noteq> {}"
    using ids_conflict_iff [OF assms(3), of "map fst (ui_entries i)"] Cons.prems(2) i by (auto simp: entries_ok_def)
  moreover have "conflicting t (set ids) (versions_at infos (a # as)) \<longleftrightarrow>
      hidden t (ui_version i) \<and> rows_of (ui_entries i) \<inter> set ids \<noteq> {} \<or> conflicting t (set ids) (versions_at infos as)"
    using i by (simp add: conflicting_def)
  moreover note Cons.IH
  ultimately show ?case using Cons.prems i by (simp add: hidden_def)
qed (simp add: conflicting_def)

lemma own_node_fold:
  "td_transaction_id t \<notin> fst ` set (versions_at infos as) \<Longrightarrow>
    fold (\<lambda>a nd. if ui_version (the (infos a)) = td_transaction_id t then Some a else nd) as node = node"
  by (induction as arbitrary: node) auto

lemma own_node_split:
  "td_transaction_id t \<in> fst ` set (versions_at infos as) \<Longrightarrow>
    \<exists>pre n post. as = pre @ n # post \<and> ui_version (the (infos n)) = td_transaction_id t"
  by (auto simp: versions_at_def dest!: split_list) metis

section \<open>The rows of an update\<close>

definition sorts :: "((nat \<times> 'v) list \<Rightarrow> (nat \<times> 'v) list) \<Rightarrow> bool" where
  "sorts sorter \<longleftrightarrow> (\<forall>xs. set (sorter xs) = set xs \<and> sorted (map fst (sorter xs)))"

definition in_vector :: "'v update_segment \<Rightarrow> nat \<Rightarrow> (nat \<times> 'v) list \<Rightarrow> bool" where
  "in_vector seg v ups \<longleftrightarrow> (\<forall>row_id \<in> rows_of ups. seg_start seg + v * standard_vector_size \<le> row_id \<and>
     row_id < seg_start seg + v * standard_vector_size + standard_vector_size)"

lemma dedup_sorted_spec:
  "sorted (map fst xs) \<Longrightarrow> sorted_wrt (<) (map fst (dedup_sorted xs)) \<and> set (dedup_sorted xs) \<subseteq> set xs \<and> rows_of (dedup_sorted xs) = rows_of xs"
proof (induction xs rule: dedup_sorted.induct)
  case (3 x v y w ups)
  show ?case
  proof (cases "x = y")
    case True
    then show ?thesis using "3.IH"(1) "3.prems" by auto
  next
    case False
    have IH: "sorted_wrt (<) (map fst (dedup_sorted ((y, w) # ups)))" "set (dedup_sorted ((y, w) # ups)) \<subseteq> set ((y, w) # ups)"
      "rows_of (dedup_sorted ((y, w) # ups)) = rows_of ((y, w) # ups)"
      using "3.IH"(2) [OF False] "3.prems" by auto
    have "x < r" if "r \<in> rows_of ((y, w) # ups)" for r using that "3.prems" False by auto
    then have "\<forall>r \<in> rows_of (dedup_sorted ((y, w) # ups)). x < r" unfolding IH(3) by blast
    then show ?thesis using False IH by auto
  qed
qed auto

lemma sort_selection_spec:
  assumes "sorts sorter"
  shows "sorted_wrt (<) (map fst (sort_selection sorter ups))" and "set (sort_selection sorter ups) \<subseteq> set ups"
    and "rows_of (sort_selection sorter ups) = rows_of ups"
proof -
  have "set (sorter ups) = set ups" "sorted (map fst (sorter ups))" using assms by (auto simp: sorts_def)
  with dedup_sorted_spec [of "sorter ups"]
  show "sorted_wrt (<) (map fst (sort_selection sorter ups))" "set (sort_selection sorter ups) \<subseteq> set ups"
    "rows_of (sort_selection sorter ups) = rows_of ups"
    by (auto simp: sort_selection_def)
qed

lemma sorted_wrt_filter_rows: "sorted_wrt (<) (map fst es) \<Longrightarrow> sorted_wrt (<) (map fst (filter P es))"
  by (induction es) auto

lemma relative_rows_ok:
  assumes "sorted_wrt (<) (map fst es)" and "\<forall>row_id \<in> rows_of es. off \<le> row_id \<and> row_id < off + standard_vector_size"
  shows "entries_ok (relative_rows off es)" and "map_of (relative_rows off es) row = map_of es (off + row)"
proof -
  show "entries_ok (relative_rows off es)"
    using assms
  proof (induction es)
    case (Cons e es)
    obtain x v where e: "e = (x, v)" by (cases e)
    have ok: "entries_ok (relative_rows off es)" using Cons by simp
    have "x - off < y - off" if "y \<in> rows_of es" for y
      using that Cons.prems by (auto simp: e diff_less_mono)
    then have "\<forall>y \<in> rows_of (relative_rows off es). x - off < y" by (force simp: relative_rows_def)
    moreover have "x - off < standard_vector_size" using Cons.prems(2) e by auto
    ultimately show ?case using ok by (auto simp: entries_ok_def e relative_rows_def)
  qed (simp add: entries_ok_def relative_rows_def)
  show "map_of (relative_rows off es) row = map_of es (off + row)"
    using assms(2) by (induction es) (auto simp: relative_rows_def)
qed

section \<open>Updates of a segment\<close>

abbreviation versions_of :: "'v update_segment \<Rightarrow> (nat \<Rightarrow> nat list) \<Rightarrow> nat \<Rightarrow> 'v versions" where
  "versions_of seg cs v \<equiv> versions_at (seg_infos seg) (cs v)"

text \<open>The infos of transactions, with the versions they carry.\<close>

definition nodes :: "'v update_segment \<Rightarrow> (nat \<Rightarrow> nat list) \<Rightarrow> (nat \<times> transaction_t) set" where
  "nodes seg cs = (\<Union>w. set (zip (tl (cs w)) (map fst (tl (versions_of seg cs w)))))"

definition replaces :: "'v update_segment \<Rightarrow> (nat \<Rightarrow> nat list) \<Rightarrow> nat \<Rightarrow> 'v update_segment \<Rightarrow> (nat \<Rightarrow> nat list) \<Rightarrow> bool" where
  "replaces seg cs v seg' cs' \<longleftrightarrow> chains seg' cs' \<and> seg_start seg' = seg_start seg \<and>
     (\<forall>w. w \<noteq> v \<longrightarrow> cs' w = cs w \<and> versions_of seg' cs' w = versions_of seg cs w)"

text \<open>What a successful update of the rows \<open>ups\<close> of the vector \<open>v\<close> promises.\<close>

definition updated ::
  "transaction_data set \<Rightarrow> transaction_data \<Rightarrow> (nat \<Rightarrow> bool) \<Rightarrow> (nat \<Rightarrow> 'v) \<Rightarrow> (nat \<times> 'v) list \<Rightarrow> nat \<Rightarrow> nat option \<Rightarrow>
   'v update_segment \<Rightarrow> (nat \<Rightarrow> nat list) \<Rightarrow> 'v update_segment \<Rightarrow> (nat \<Rightarrow> nat list) \<Rightarrow> bool" where
  "updated active t base_valid base_data ups v n seg cs seg' cs' \<longleftrightarrow>
     segment_ok active seg' cs' \<and> replaces seg cs v seg' cs' \<and>
     (\<forall>u row. u \<in> active \<and> u \<noteq> t \<and> base_valid row \<longrightarrow>
        view u (versions_of seg' cs' v) row (base_data row) = view u (versions_of seg cs v) row (base_data row)) \<and>
     (\<forall>row d. (base_valid row \<longrightarrow> d = base_data row) \<longrightarrow>
        view t (versions_of seg' cs' v) row d = overlay ups row (view t (versions_of seg cs v) row d)) \<and>
     (case n of
        None \<Rightarrow> nodes seg' cs' = nodes seg cs
      | Some a \<Rightarrow> nodes seg' cs' = insert (a, td_transaction_id t) (nodes seg cs) \<and> (\<forall>w. a \<notin> set (cs w)))"

lemma nodes_replace:
  assumes "replaces seg cs v seg' cs'"
    and "set (zip (tl (cs' v)) (map fst (tl (versions_of seg' cs' v)))) = N \<union> set (zip (tl (cs v)) (map fst (tl (versions_of seg cs v))))"
  shows "nodes seg' cs' = N \<union> nodes seg cs"
proof -
  let ?f = "\<lambda>seg cs w. set (zip (tl (cs w)) (map fst (tl (versions_of seg cs w))))"
  have "?f seg' cs' w = ?f seg cs w" if "w \<noteq> v" for w
    using assms(1) that unfolding replaces_def by metis
  then have "(\<Union>w \<in> - {v}. ?f seg' cs' w) = (\<Union>w \<in> - {v}. ?f seg cs w)" by (intro SUP_cong) simp_all
  moreover have "(\<Union>w. ?f seg cs w) = ?f seg cs v \<union> (\<Union>w \<in> - {v}. ?f seg cs w)" for seg :: "'a update_segment" and cs by auto
  ultimately show ?thesis using assms(2) unfolding nodes_def by (simp add: Un_assoc)
qed

lemma replaces_segment_ok:
  assumes "segment_ok active seg cs" and "replaces seg cs v seg' cs'" and "versions_ok active (versions_of seg' cs' v)"
  shows "segment_ok active seg' cs'"
  using assms unfolding segment_ok_def replaces_def by metis

lemma initialize_update_root_node:
  shows "get_update_node w (initialize_update_root v seg) = get_update_node w seg"
    and "v < length (seg_root (initialize_update_root v seg))"
    and "seg_root (initialize_update_root v seg) ! v = get_update_node v seg"
    and "seg_infos (initialize_update_root v seg) = seg_infos seg" and "seg_fresh (initialize_update_root v seg) = seg_fresh seg"
    and "seg_start (initialize_update_root v seg) = seg_start seg" and "seg_has_root (initialize_update_root v seg)"
  by (auto simp: initialize_update_root_def get_update_node_def Let_def nth_append nth_replicate less_Suc_eq_le not_le simp del: replicate.simps replicate_Suc)

lemma initialize_update_root_ok:
  assumes "segment_ok active seg cs"
  shows "segment_ok active (initialize_update_root v seg) cs" and "nodes (initialize_update_root v seg) cs = nodes seg cs"
  using assms unfolding segment_ok_def chains_def nodes_def initialize_update_root_node by simp_all

text \<open>The merge into a chain in which the transaction has a node.\<close>

lemma merge_updates_updated:
  assumes "segment_ok active seg cs" and "t \<in> active" and "cs v = b # pre @ n # post" and "ui_version (the (seg_infos seg n)) = td_transaction_id t"
    and "entries_ok ups" and "\<not> conflicting t (rows_of ups) (tl (versions_of seg cs v))"
  shows "updated active t base_valid base_data ups v None seg cs (merge_updates base_data ups b n seg) cs"
proof -
  let ?seg' = "merge_updates base_data ups b n seg"
  let ?vs = "versions_of seg cs v"
  let ?es = "\<lambda>a. ui_entries (the (seg_infos seg a))"
  have ok: "active_ids_ok active" "chains seg cs" "versions_ok active ?vs" using assms(1) by (auto simp: segment_ok_def)
  have vs: "?vs = (ui_version (the (seg_infos seg b)), ?es b) # versions_at (seg_infos seg) pre @
      (td_transaction_id t, ?es n) # versions_at (seg_infos seg) post"
    using assms(3,4) by simp
  have dist: "distinct (map fst (versions_at (seg_infos seg) (pre @ n # post)))"
    using ok(3) unfolding assms(3) versions_at_simps versions_ok_def by simp
  note m = merge_updates_chains [OF ok(2) assms(3) refl dist, where data = base_data and ups = ups, unfolded assms(4)]
  have start: "seg_start ?seg' = seg_start seg" by (simp add: merge_updates_def split: option.splits)
  have r: "replaces seg cs v ?seg' cs" unfolding replaces_def using m(1,2) start by simp
  have none: "\<forall>p \<in> set (versions_at (seg_infos seg) pre @ versions_at (seg_infos seg) post).
      td_start_time t < fst p \<longrightarrow> rows_of (snd p) \<inter> rows_of ups = {}"
  proof (intro ballI impI)
    fix p assume p: "p \<in> set (versions_at (seg_infos seg) pre @ versions_at (seg_infos seg) post)" "td_start_time t < fst p"
    have "td_transaction_id t \<notin> fst ` set (versions_at (seg_infos seg) pre @ versions_at (seg_infos seg) post)"
      using ok(3) unfolding vs versions_ok_split by blast
    then have "fst p \<noteq> td_transaction_id t" using p(1) by (metis image_eqI)
    then show "rows_of (snd p) \<inter> rows_of ups = {}" using assms(6) p unfolding vs conflicting_def hidden_def by auto
  qed
  note views = update_views [OF ok(1) assms(2) ok(3) vs assms(5) none, where data = base_data, folded m(3)]
  have "nodes ?seg' cs = {} \<union> nodes seg cs"
    by (rule nodes_replace [OF r]) (simp add: m(3), simp add: updated_versions_def assms(3) comp_def case_prod_beta)
  then show ?thesis
    using views replaces_segment_ok [OF assms(1) r] r unfolding updated_def by simp
qed

lemma insert_node_updated:
  assumes "segment_ok active seg cs" and "t \<in> active" and "cs v = b # as" and "seg_infos seg b = Some base"
    and "td_transaction_id t \<notin> fst ` set (versions_at (seg_infos seg) as)"
    and "entries_ok ups" and "\<not> conflicting t (rows_of ups) (tl (versions_of seg cs v))"
  shows "updated active t base_valid base_data ups v (Some (seg_fresh seg)) seg cs
    (merge_updates base_data ups b (seg_fresh seg) (insert_node t v b base seg)) (cs(v := b # seg_fresh seg # as))"
proof -
  let ?seg1 = "insert_node t v b base seg" and ?cs1 = "cs(v := b # seg_fresh seg # as)"
  let ?seg2 = "merge_updates base_data ups b (seg_fresh seg) ?seg1"
  have ok: "active_ids_ok active" "chains seg cs" "versions_ok active (versions_of seg cs v)" using assms(1) by (auto simp: segment_ok_def)
  note i = insert_node_chains [OF ok(2) assms(3,4) refl, where t = t]
  have vs: "versions_of seg cs v = (ui_version base, ui_entries base) # versions_at (seg_infos seg) as" using assms(3,4) by simp
  have vs1: "versions_of ?seg1 ?cs1 v = (ui_version base, ui_entries base) # (td_transaction_id t, []) # versions_at (seg_infos seg) as"
    unfolding fun_upd_same by (rule i(3))
  note ins = insert_version_ok [OF ok(1) assms(2) ok(3) [unfolded vs] assms(5), folded vs1 vs]
  have "seg_start ?seg1 = seg_start seg" by (simp add: insert_node_def Let_def)
  then have r1: "replaces seg cs v ?seg1 ?cs1" unfolding replaces_def using i(1,2) by simp
  have ok1: "segment_ok active ?seg1 ?cs1" by (rule replaces_segment_ok [OF assms(1) r1 ins(1)])
  have own: "?cs1 v = b # [] @ seg_fresh seg # as" "ui_version (the (seg_infos ?seg1 (seg_fresh seg))) = td_transaction_id t"
    using i(3) by simp_all
  have "\<not> conflicting t (rows_of ups) (tl (versions_of ?seg1 ?cs1 v))"
    using assms(7) unfolding vs vs1 by (simp add: conflicting_def)
  note m = merge_updates_updated [OF ok1 assms(2) own assms(6) this, of base_valid base_data]
  have r: "replaces seg cs v ?seg2 ?cs1" using r1 m unfolding updated_def replaces_def by simp
  have "nodes ?seg1 ?cs1 = {(seg_fresh seg, td_transaction_id t)} \<union> nodes seg cs"
    by (rule nodes_replace [OF r1]) (simp only: vs vs1, simp add: assms(3))
  moreover have "\<forall>w. seg_fresh seg \<notin> set (cs w)" using chains_at(4) [OF ok(2)] by blast
  ultimately show ?thesis
    using m r unfolding updated_def ins(2) by simp
qed

text \<open>The first update of a vector.\<close>

lemma create_chain_updated:
  assumes "segment_ok active seg cs" and "t \<in> active" and "cs v = []" and "seg_has_root seg" and "v < length (seg_root seg)"
    and "entries_ok ups"
  shows "updated active t base_valid base_data ups v (Some (Suc (seg_fresh seg))) seg cs
    (create_chain t base_valid base_data mem v ups seg) (cs(v := [seg_fresh seg, Suc (seg_fresh seg)]))"
proof -
  let ?seg' = "create_chain t base_valid base_data mem v ups seg" and ?cs' = "cs(v := [seg_fresh seg, Suc (seg_fresh seg)])"
  let ?b = "seg_fresh seg" and ?n = "Suc (seg_fresh seg)"
  define old where "old = map (\<lambda>(row, v). (row, if base_valid row then base_data row else mem row)) ups"
  have ok: "active_ids_ok active" "chains seg cs" using assms(1) by (auto simp: segment_ok_def)
  have seg': "seg_infos ?seg' = (seg_infos seg)
      (?b \<mapsto> \<lparr>ui_version = transaction_id_start - 1, ui_vector_index = v, ui_entries = ups, ui_prev = None, ui_next = Some ?n\<rparr>,
       ?n \<mapsto> \<lparr>ui_version = td_transaction_id t, ui_vector_index = v, ui_entries = old, ui_prev = Some ?b, ui_next = None\<rparr>)"
    "seg_fresh ?seg' = Suc ?n" "seg_start ?seg' = seg_start seg"
    by (simp_all add: create_chain_def Let_def old_def)
  have node: "get_update_node w ?seg' = (if w = v then Some ?b else get_update_node w seg)" for w
    using assms(4,5) by (simp add: create_chain_def Let_def get_update_node_def)
  have "chains ?seg' ?cs' \<and> (\<forall>w. w \<noteq> v \<longrightarrow> versions_at (seg_infos ?seg') (cs w) = versions_at (seg_infos seg) (cs w))"
  proof (intro conjI allI impI)
    note rep = chains_replace [OF ok(2), of v ?seg' "[?b, ?n]"]
    show "chains ?seg' ?cs'" by (rule rep(1)) (auto simp: node seg' first_def)
    show "versions_at (seg_infos ?seg') (cs w) = versions_at (seg_infos seg) (cs w)" if "w \<noteq> v" for w
      by (rule rep(2)) (use that in \<open>auto simp: node seg' first_def\<close>)
  qed
  then have r: "replaces seg cs v ?seg' ?cs'" unfolding replaces_def using seg'(3) by simp
  have vs: "versions_of ?seg' ?cs' v = [(transaction_id_start - 1, ups), (td_transaction_id t, old)]" by (simp add: seg')
  have rows: "map fst old = map fst ups" by (simp add: old_def case_prod_beta comp_def)
  then have rows': "rows_of old = rows_of ups" by (metis list.set_map)
  have "entries_ok old" using assms(6) unfolding entries_ok_def rows rows' .
  then have "versions_ok active (versions_of ?seg' ?cs' v)"
    unfolding vs versions_ok_def using assms(6) rows' by simp
  note seg_ok = replaces_segment_ok [OF assms(1) r this]
  have hid: "hidden t (transaction_id_start - 1)" "\<not> hidden t (td_transaction_id t)" using hidden_base [OF ok(1) assms(2)] by (auto simp: hidden_def)
  have "view u (versions_of ?seg' ?cs' v) row (base_data row) = view u (versions_of seg cs v) row (base_data row)"
    if "u \<in> active" "u \<noteq> t" "base_valid row" for u row
  proof -
    have h: "hidden u (transaction_id_start - 1)" "hidden u (td_transaction_id t)"
      using hidden_base [OF ok(1)] hidden_other [OF ok(1)] assms(2) that by blast+
    have "overlay old row (overlay ups row (base_data row)) = base_data row"
    proof (cases "row \<in> rows_of ups")
      case True
      have "map_of old row = Some (base_data row)"
        using True that(3) unfolding old_def by (induction ups) (auto split: if_splits)
      then show ?thesis by (simp add: overlay_def)
    next
      case False
      then show ?thesis using rows' by (simp add: overlay_outside)
    qed
    then show ?thesis using h assms(3) unfolding vs by simp
  qed
  moreover have "view t (versions_of ?seg' ?cs' v) row d = overlay ups row (view t (versions_of seg cs v) row d)" for row d
    unfolding vs using hid assms(3) by simp
  moreover have "nodes ?seg' ?cs' = {(?n, td_transaction_id t)} \<union> nodes seg cs"
    by (rule nodes_replace [OF r]) (simp only: vs, simp add: assms(3))
  moreover have "\<forall>w. ?n \<notin> set (cs w)" using chains_at(4) [OF ok(2)] by (meson lessI less_asym)
  ultimately show ?thesis using r seg_ok unfolding updated_def option.case insert_is_Un [of _ "nodes seg cs"] by blast
qed

text \<open>The rows of an update, relative to the vector.\<close>

definition update_rows :: "((nat \<times> 'v) list \<Rightarrow> (nat \<times> 'v) list) \<Rightarrow> nat \<Rightarrow> (nat \<times> 'v) list \<Rightarrow> 'v update_segment \<Rightarrow> (nat \<times> 'v) list" where
  "update_rows sorter v update seg = relative_rows (seg_start seg + v * standard_vector_size) (sort_selection sorter update)"

lemma update_rows_ok:
  assumes "sorts sorter" and "in_vector seg v update"
  shows "entries_ok (update_rows sorter v update seg)"
    and "update \<noteq> [] \<Longrightarrow> (fst (hd (sort_selection sorter update)) - seg_start seg) div standard_vector_size = v"
    and "update \<noteq> [] \<Longrightarrow> sort_selection sorter update \<noteq> []"
proof -
  note s = sort_selection_spec [OF assms(1), of update]
  have rows: "\<forall>row_id \<in> rows_of (sort_selection sorter update). seg_start seg + v * standard_vector_size \<le> row_id \<and>
      row_id < seg_start seg + v * standard_vector_size + standard_vector_size"
    unfolding s(3) using assms(2) by (simp add: in_vector_def)
  show "entries_ok (update_rows sorter v update seg)" unfolding update_rows_def by (rule relative_rows_ok(1) [OF s(1) rows])
  show ne: "sort_selection sorter update \<noteq> []" if "update \<noteq> []" using s(3) that by (metis image_is_empty set_empty)
  show "(fst (hd (sort_selection sorter update)) - seg_start seg) div standard_vector_size = v" if "update \<noteq> []"
  proof -
    have "fst (hd (sort_selection sorter update)) \<in> rows_of (sort_selection sorter update)" using ne [OF that] by simp
    then obtain k where "fst (hd (sort_selection sorter update)) = seg_start seg + v * standard_vector_size + k" "k < standard_vector_size"
      using rows by (metis le_Suc_ex nat_add_left_cancel_less)
    then show ?thesis by simp
  qed
qed

text \<open>Without a chain the update keeps the rows that differ from the column.\<close>

lemma overlay_filter:
  assumes "distinct (map fst es)" and "P row \<longrightarrow> d = f row"
  shows "overlay (filter (\<lambda>(r, v). \<not> (P r \<and> v = f r)) es) row d = overlay es row d"
  using assms
proof (induction es)
  case (Cons e es)
  obtain x v where e: "e = (x, v)" by (cases e)
  have "overlay (filter (\<lambda>(r, v). \<not> (P r \<and> v = f r)) es) x d = d" if "x = row"
    using Cons.prems(1) that by (intro overlay_outside) (auto simp: e image_iff)
  with Cons show ?case by (auto simp: e overlay_def)
qed simp

lemma effective_rows:
  assumes "entries_ok (relative_rows off es)" and "\<forall>row_id \<in> rows_of es. off \<le> row_id"
    and "ups = relative_rows off (get_effective_updates base_valid base_data off es)"
  shows "entries_ok ups" and "(base_valid row \<longrightarrow> d = base_data row) \<Longrightarrow> overlay ups row d = overlay (relative_rows off es) row d"
proof -
  have ups: "ups = filter (\<lambda>(row, v). \<not> (base_valid row \<and> v = base_data row)) (relative_rows off es)"
    unfolding assms(3) using assms(2) by (induction es) (auto simp: relative_rows_def get_effective_updates_def)
  show "entries_ok ups" using assms(1) sorted_wrt_filter_rows unfolding ups entries_ok_def by auto
  show "overlay ups row d = overlay (relative_rows off es) row d" if d: "base_valid row \<longrightarrow> d = base_data row"
    unfolding ups by (rule overlay_filter [where P = base_valid and f = base_data, OF entries_okD(2) [OF assms(1)] d])
qed

lemma updated_initialize_root:
  assumes "updated active t base_valid base_data ups v n (initialize_update_root v seg) cs seg' cs'"
    and "\<And>row d. (base_valid row \<longrightarrow> d = base_data row) \<Longrightarrow> overlay ups row (view t (versions_of seg cs v) row d) =
      overlay rows row (view t (versions_of seg cs v) row d)"
  shows "updated active t base_valid base_data rows v n seg cs seg' cs'"
  using assms(1) assms(2) unfolding updated_def replaces_def nodes_def initialize_update_root_node
  by (elim conjE, intro conjI) simp_all

text \<open>The update of a vector without a chain.\<close>

lemma segment_update_first:
  assumes "segment_ok active seg cs" and "t \<in> active" and "sorts sorter" and "in_vector seg v update" and "update \<noteq> []" and "cs v = []"
  shows "\<exists>seg' n cs'. segment_update sorter t base_valid base_data mem update seg = Some (Inr (seg', n)) \<and>
    updated active t base_valid base_data (update_rows sorter v update seg) v n seg cs seg' cs'"
proof -
  note U = update_rows_ok [OF assms(3,4)]
  define off where "off = seg_start seg + v * standard_vector_size"
  define eff where "eff = get_effective_updates base_valid base_data off (sort_selection sorter update)"
  have node: "get_update_node v seg = None" using assms(1,6) by (simp add: segment_ok_def chains_def first_def)
  have low: "\<forall>row_id \<in> rows_of (sort_selection sorter update). off \<le> row_id"
    using assms(4) unfolding sort_selection_spec(3) [OF assms(3)] by (simp add: in_vector_def off_def)
  note E = effective_rows [OF U(1) [unfolded update_rows_def, folded off_def] low refl, where base_valid = base_valid and base_data = base_data, folded eff_def]
  have rows: "update_rows sorter v update seg = relative_rows off (sort_selection sorter update)" by (simp add: update_rows_def off_def)
  show ?thesis
  proof (cases "eff = []")
    case True
    have "segment_update sorter t base_valid base_data mem update seg = Some (Inr (seg, None))"
      using assms(5) U(2) node True by (simp add: segment_update_def Let_def flip: off_def eff_def)
    moreover have "overlay (update_rows sorter v update seg) row d = d" if "base_valid row \<longrightarrow> d = base_data row" for row d
      using E(2) [OF that] unfolding rows True by (simp add: relative_rows_def overlay_def)
    then have "updated active t base_valid base_data (update_rows sorter v update seg) v None seg cs seg cs"
      using assms(1,6) by (simp add: updated_def replaces_def segment_ok_def)
    ultimately show ?thesis by blast
  next
    case False
    let ?seg1 = "initialize_update_root v seg"
    note R = initialize_update_root_node [where v = v and seg = seg]
    have "segment_update sorter t base_valid base_data mem update seg =
        Some (Inr (create_chain t base_valid base_data mem v (relative_rows off eff) ?seg1, Some (Suc (seg_fresh ?seg1))))"
      using assms(5) U(2) node False R(3) by (simp add: segment_update_def Let_def flip: off_def eff_def)
    moreover have "updated active t base_valid base_data (relative_rows off eff) v (Some (Suc (seg_fresh ?seg1))) ?seg1 cs
        (create_chain t base_valid base_data mem v (relative_rows off eff) ?seg1) (cs(v := [seg_fresh ?seg1, Suc (seg_fresh ?seg1)]))"
      by (rule create_chain_updated [OF initialize_update_root_ok(1) [OF assms(1)] assms(2,6) R(7,2) E(1)])
    then have "updated active t base_valid base_data (update_rows sorter v update seg) v (Some (Suc (seg_fresh ?seg1))) seg cs
        (create_chain t base_valid base_data mem v (relative_rows off eff) ?seg1) (cs(v := [seg_fresh ?seg1, Suc (seg_fresh ?seg1)]))"
    proof (rule updated_initialize_root)
      show "overlay (relative_rows off eff) row (view t (versions_of seg cs v) row d) =
          overlay (update_rows sorter v update seg) row (view t (versions_of seg cs v) row d)" if "base_valid row \<longrightarrow> d = base_data row" for row d
        using E(2) [OF that] by (simp add: assms(6) rows)
    qed
    ultimately show ?thesis by blast
  qed
qed

lemma segment_update_chain:
  assumes "segment_ok active seg cs" and "t \<in> active" and "sorts sorter" and "in_vector seg v update" and "update \<noteq> []" and "cs v = b # as"
  shows "conflicting t (rows_of (update_rows sorter v update seg)) (tl (versions_of seg cs v)) \<Longrightarrow>
      segment_update sorter t base_valid base_data mem update seg = Some (Inl (TransactionException ''Conflict on update!''))"
    and "\<not> conflicting t (rows_of (update_rows sorter v update seg)) (tl (versions_of seg cs v)) \<Longrightarrow>
      \<exists>seg' n cs'. segment_update sorter t base_valid base_data mem update seg = Some (Inr (seg', n)) \<and>
        updated active t base_valid base_data (update_rows sorter v update seg) v n seg cs seg' cs'"
proof -
  note U = update_rows_ok [OF assms(3,4)]
  let ?ups = "update_rows sorter v update seg" and ?seg1 = "initialize_update_root v seg"
  note R = initialize_update_root_node [where v = v and seg = seg]
  have ok: "chains seg cs" "versions_ok active (versions_of seg cs v)" using assms(1) by (auto simp: segment_ok_def)
  note c = chains_at [OF ok(1), where v = v, unfolded assms(6)]
  have node: "get_update_node v seg = Some b" using c(1) by (simp add: first_def)
  obtain base where base: "seg_infos seg b = Some base" using c(6) by auto
  have as: "chain_ptrs (seg_infos seg) (ui_next base) = Some as"
    using c(2) base linked_chain_ptrs [of "seg_infos seg" "Some b" as] by simp
  have tl: "tl (versions_of seg cs v) = versions_at (seg_infos seg) as" by (simp add: assms(6))
  let ?own = "fold (\<lambda>a nd. if ui_version (the (seg_infos seg a)) = td_transaction_id t then Some a else nd) as None"
  have "check_for_conflicts (seg_infos seg) t (map fst ?ups) as None =
      (if conflicting t (rows_of ?ups) (versions_at (seg_infos seg) as) then Inl (TransactionException ''Conflict on update!'') else Inr ?own)"
    using check_for_conflicts_spec [of as "seg_infos seg" "map fst ?ups" t None] c(6) versions_ok_entries [OF ok(2)] entries_okD(1) [OF U(1)]
    by (simp add: assms(6))
  then have eq: "segment_update sorter t base_valid base_data mem update seg =
      Some (if conflicting t (rows_of ?ups) (versions_at (seg_infos seg) as) then Inl (TransactionException ''Conflict on update!'')
        else Inr (case ?own of
            Some n \<Rightarrow> (merge_updates base_data ?ups b n ?seg1, None)
          | None \<Rightarrow> (merge_updates base_data ?ups b (seg_fresh ?seg1) (insert_node t v b base ?seg1), Some (seg_fresh ?seg1))))"
    unfolding segment_update_def Let_def U(2) [OF assms(5)] node
    using assms(5) U(3) node R(3) base as by (simp add: R(4) cong: option.case_cong flip: update_rows_def)
  show "segment_update sorter t base_valid base_data mem update seg = Some (Inl (TransactionException ''Conflict on update!''))"
    if "conflicting t (rows_of ?ups) (tl (versions_of seg cs v))"
    using eq that unfolding tl by simp
  assume no: "\<not> conflicting t (rows_of ?ups) (tl (versions_of seg cs v))"
  note ok1 = initialize_update_root_ok(1) [OF assms(1), of v]
  have no1: "\<not> conflicting t (rows_of ?ups) (tl (versions_of ?seg1 cs v))" using no by (simp add: R(4))
  show "\<exists>seg' n cs'. segment_update sorter t base_valid base_data mem update seg = Some (Inr (seg', n)) \<and>
      updated active t base_valid base_data ?ups v n seg cs seg' cs'"
  proof (cases "td_transaction_id t \<in> fst ` set (versions_at (seg_infos seg) as)")
    case True
    then obtain pre n post where n: "as = pre @ n # post" "ui_version (the (seg_infos seg n)) = td_transaction_id t"
      using own_node_split by blast
    have "td_transaction_id t \<notin> fst ` set (versions_at (seg_infos seg) post)"
      using ok(2) n unfolding assms(6) versions_ok_def by auto
    then have "?own = Some n" using own_node_fold [of t "seg_infos seg" post "Some n"] n by simp
    moreover have cs: "cs v = b # pre @ n # post" using assms(6) n(1) by simp
    have "updated active t base_valid base_data ?ups v None ?seg1 cs (merge_updates base_data ?ups b n ?seg1) cs"
      using merge_updates_updated [OF ok1 assms(2) cs _ U(1) no1] n(2) by (simp add: R(4))
    then have "updated active t base_valid base_data ?ups v None seg cs (merge_updates base_data ?ups b n ?seg1) cs"
      by (rule updated_initialize_root) simp
    ultimately show ?thesis using eq no unfolding tl by auto
  next
    case False
    then have "?own = None" by (rule own_node_fold)
    moreover have "updated active t base_valid base_data ?ups v (Some (seg_fresh ?seg1)) ?seg1 cs
        (merge_updates base_data ?ups b (seg_fresh ?seg1) (insert_node t v b base ?seg1)) (cs(v := b # seg_fresh ?seg1 # as))"
      using insert_node_updated [OF ok1 assms(2,6) _ _ U(1) no1] base False by (simp add: R(4))
    then have "updated active t base_valid base_data ?ups v (Some (seg_fresh ?seg1)) seg cs
        (merge_updates base_data ?ups b (seg_fresh ?seg1) (insert_node t v b base ?seg1)) (cs(v := b # seg_fresh ?seg1 # as))"
      by (rule updated_initialize_root) simp
    ultimately show ?thesis using eq no unfolding tl by auto
  qed
qed

lemma segment_update_spec:
  assumes "segment_ok active seg cs" and "t \<in> active" and "sorts sorter" and "in_vector seg v update" and "update \<noteq> []"
  shows "conflicting t (rows_of (update_rows sorter v update seg)) (tl (versions_of seg cs v)) \<Longrightarrow>
      segment_update sorter t base_valid base_data mem update seg = Some (Inl (TransactionException ''Conflict on update!''))"
    and "\<not> conflicting t (rows_of (update_rows sorter v update seg)) (tl (versions_of seg cs v)) \<Longrightarrow>
      \<exists>seg' n cs'. segment_update sorter t base_valid base_data mem update seg = Some (Inr (seg', n)) \<and>
        updated active t base_valid base_data (update_rows sorter v update seg) v n seg cs seg' cs'"
  using segment_update_chain [OF assms] segment_update_first [OF assms]
  by (cases "cs v"; simp add: conflicting_def)+

section \<open>Commit, rollback and cleanup of a segment\<close>

text \<open>The entries of one transaction are committed in the order of its undo buffer and rolled back in the reverse order.\<close>

definition commit_updates :: "transaction_t \<Rightarrow> nat list \<Rightarrow> 'v update_segment \<Rightarrow> 'v update_segment" where
  "commit_updates commit_id as seg = fold (set_version commit_id) as seg"

fun rollback_updates :: "nat list \<Rightarrow> 'v update_segment \<Rightarrow> 'v update_segment result" where
  "rollback_updates [] seg = Inr seg"
| "rollback_updates (a # as) seg = result_bind (rollback_update a seg) (rollback_updates as)"

lemma nodes_iff: "(a, ver) \<in> nodes seg cs \<longleftrightarrow> (\<exists>w. a \<in> set (tl (cs w)) \<and> ver = ui_version (the (seg_infos seg a)))"
proof -
  have "zip (tl (cs w)) (map fst (tl (versions_of seg cs w))) = map (\<lambda>a. (a, ui_version (the (seg_infos seg a)))) (tl (cs w))" for w
    by (simp add: versions_at_def zip_map2 zip_same_conv_map flip: map_tl)
  then show ?thesis by (auto simp: nodes_def)
qed

lemma chain_node:
  assumes "chains seg cs" and "(a, ver) \<in> nodes seg cs"
  shows "\<exists>v b pre post. cs v = b # pre @ a # post \<and> ver = ui_version (the (seg_infos seg a))"
proof -
  obtain v where "a \<in> set (tl (cs v))" "ver = ui_version (the (seg_infos seg a))" using assms(2) nodes_iff by blast
  then show ?thesis by (metis list.collapse list.sel(2) list.set_cases neq_Nil_conv split_list tl_Nil)
qed

lemma commit_updates_infos:
  "seg_infos (commit_updates c as seg) a = (if a \<in> set as then map_option (\<lambda>i. i\<lparr>ui_version := c\<rparr>) (seg_infos seg a) else seg_infos seg a)"
  "seg_has_root (commit_updates c as seg) = seg_has_root seg" "seg_root (commit_updates c as seg) = seg_root seg"
  "seg_fresh (commit_updates c as seg) = seg_fresh seg" "seg_start (commit_updates c as seg) = seg_start seg"
  unfolding commit_updates_def by (induction as arbitrary: seg) (auto simp: set_version_def option.map_comp comp_def)

lemma commit_updates_chains:
  assumes "chains seg cs" and "set as = {a. (a, ver) \<in> nodes seg cs}"
  shows "chains (commit_updates c as seg) cs"
    and "cs v = b # bs \<Longrightarrow> versions_of (commit_updates c as seg) cs v =
      hd (versions_of seg cs v) # map (\<lambda>(x, es). (if x = ver then c else x, es)) (tl (versions_of seg cs v))"
proof -
  show "chains (commit_updates c as seg) cs"
    by (rule chains_same_links [OF assms(1) commit_updates_infos(2-4)])
      (simp add: commit_updates_infos(1) option.map_comp comp_def)
  assume v: "cs v = b # bs"
  have tails: "x \<in> set as \<longleftrightarrow> ui_version (the (seg_infos seg x)) = ver" if "x \<in> set bs" for x
    unfolding assms(2) mem_Collect_eq nodes_iff using that v by (metis list.sel(3))
  have "b \<notin> set as"
  proof
    assume "b \<in> set as"
    then obtain w where "b \<in> set (tl (cs w))" using assms(2) nodes_iff by blast
    moreover from this have "w = v" using chains_disjoint [OF assms(1), of b v w] v by (cases "cs w") auto
    ultimately show False using chains_at(3) [OF assms(1), of v] v by simp
  qed
  moreover have "\<exists>i. seg_infos seg x = Some i" if "x \<in> set bs" for x using chains_at(6) [OF assms(1), of x v] that v by simp
  ultimately show "versions_of (commit_updates c as seg) cs v =
      hd (versions_of seg cs v) # map (\<lambda>(x, es). (if x = ver then c else x, es)) (tl (versions_of seg cs v))"
    using tails by (fastforce simp: v versions_at_def commit_updates_infos(1))
qed

lemma relabel_versions:
  assumes "distinct (map fst (pre @ (ver, us) # post))"
  shows "map (\<lambda>(x, es). (if x = ver then c else x, es)) (pre @ (ver, us) # post) = pre @ (c, us) # post"
proof -
  have "map (\<lambda>(x, es). (if x = ver then c else x, es)) xs = xs" if "ver \<notin> set (map fst xs)" for xs :: "('a \<times> 'b) list"
    using that by (induction xs) auto
  then show ?thesis using assms by simp
qed

lemma relabel_absent: "ver \<notin> fst ` set xs \<Longrightarrow> map (\<lambda>(x, es). (if x = ver then c else x, es)) xs = xs"
  by (induction xs) auto

lemma versions_ok_mono:
  assumes "versions_ok active vs" and "active' \<subseteq> active"
  shows "versions_ok active' vs"
proof -
  have "sorted_wrt (compatible active') xs" if "sorted_wrt (compatible active) xs" for xs :: "'a versions"
    using that compatible_mono assms(2) by (metis (no_types, lifting) sorted_wrt_mono_rel)
  then show ?thesis using assms(1) unfolding versions_ok_def by (cases vs) auto
qed

lemma active_ids_ok_mono: "active_ids_ok active \<Longrightarrow> active' \<subseteq> active \<Longrightarrow> active_ids_ok active'"
  unfolding active_ids_ok_def by (meson inj_on_subset subset_iff)

lemma segment_ok_mono: "segment_ok active seg cs \<Longrightarrow> active' \<subseteq> active \<Longrightarrow> segment_ok active' seg cs"
  unfolding segment_ok_def using versions_ok_mono active_ids_ok_mono by blast

lemma commit_updates_ok:
  assumes "segment_ok active seg cs" and "t \<in> active" and "set as = {a. (a, td_transaction_id t) \<in> nodes seg cs}"
    and "\<forall>u \<in> active. td_start_time u < c" and "c < transaction_id_start" and "c \<notin> snd ` nodes seg cs"
  shows "segment_ok (active - {t}) (commit_updates c as seg) cs"
    and "nodes (commit_updates c as seg) cs = {(a, ver). (a, ver) \<in> nodes seg cs \<and> ver \<noteq> td_transaction_id t} \<union> {(a, c) |a. a \<in> set as}"
    and "u \<in> active \<Longrightarrow> u \<noteq> t \<Longrightarrow> view u (versions_of (commit_updates c as seg) cs v) row d = view u (versions_of seg cs v) row d"
    and "c \<le> td_start_time w \<Longrightarrow> td_start_time w < transaction_id_start - 1 \<Longrightarrow> transaction_id_start \<le> td_transaction_id w \<Longrightarrow>
      a \<in> set as \<Longrightarrow> a \<in> set (cs v) \<Longrightarrow> row \<in> rows_of (ui_entries (the (seg_infos seg a))) \<Longrightarrow>
      view w (versions_of (commit_updates c as seg) cs v) row d = view t (versions_of seg cs v) row d"
proof -
  let ?seg' = "commit_updates c as seg"
  have ok: "active_ids_ok active" "chains seg cs" "versions_ok active (versions_of seg cs v)" for v using assms(1) by (auto simp: segment_ok_def)
  note C = commit_updates_chains [OF ok(2) assms(3), where c = c]
  have absent: "versions_of ?seg' cs v = versions_of seg cs v"
    if "td_transaction_id t \<notin> fst ` set (tl (versions_of seg cs v))" for v
  proof (cases "cs v")
    case (Cons b bs)
    then show ?thesis unfolding C(2) [OF Cons] relabel_absent [OF that] by simp
  qed simp
  have present: "\<exists>bver bs pre us post. versions_of seg cs v = (bver, bs) # pre @ (td_transaction_id t, us) # post \<and>
      versions_of ?seg' cs v = (bver, bs) # pre @ (c, us) # post \<and> c \<notin> fst ` set (pre @ post) \<and>
      (\<forall>a \<in> set (cs v) \<inter> set as. ui_entries (the (seg_infos seg a)) = us)"
    if own: "td_transaction_id t \<in> fst ` set (tl (versions_of seg cs v))" for v
  proof -
    obtain b bs where v: "cs v = b # bs" using own by (cases "cs v") auto
    then have "td_transaction_id t \<in> fst ` set (versions_at (seg_infos seg) bs)" using own by simp
    then obtain pre n post where n: "bs = pre @ n # post" "ui_version (the (seg_infos seg n)) = td_transaction_id t"
      using own_node_split by blast
    let ?V = "versions_at (seg_infos seg)"
    have vs: "versions_of seg cs v = (ui_version (the (seg_infos seg b)), ui_entries (the (seg_infos seg b))) # ?V pre @
        (td_transaction_id t, ui_entries (the (seg_infos seg n))) # ?V post"
      using v n by simp
    have dist: "distinct (map fst (?V pre @ (td_transaction_id t, ui_entries (the (seg_infos seg n))) # ?V post))"
      using ok(3) [of v] unfolding vs versions_ok_def by simp
    have vs': "versions_of ?seg' cs v = (ui_version (the (seg_infos seg b)), ui_entries (the (seg_infos seg b))) # ?V pre @
        (c, ui_entries (the (seg_infos seg n))) # ?V post"
      unfolding C(2) [OF v] vs list.sel relabel_versions [OF dist] ..
    have "c \<notin> fst ` set (?V pre @ ?V post)"
    proof
      assume "c \<in> fst ` set (?V pre @ ?V post)"
      then have "\<exists>x \<in> set (tl (cs v)). c = ui_version (the (seg_infos seg x))"
        unfolding v n(1) by (auto simp: versions_at_def)
      then obtain x where "x \<in> set (tl (cs v))" "c = ui_version (the (seg_infos seg x))" by blast
      then have "(x, c) \<in> nodes seg cs" using nodes_iff by blast
      then show False using assms(6) by force
    qed
    moreover have "a = n" if a: "a \<in> set (cs v)" "a \<in> set as" for a
    proof -
      obtain w where w: "a \<in> set (tl (cs w))" "ui_version (the (seg_infos seg a)) = td_transaction_id t" using a(2) assms(3) nodes_iff by fastforce
      then have "w = v" using chains_disjoint [OF ok(2), of a v w] a(1) by (cases "cs w") auto
      then have "a \<in> set (pre @ n # post)" using w(1) v n(1) by simp
      moreover have "td_transaction_id t \<notin> fst ` set (?V pre @ ?V post)" using dist by auto
      then have "a \<notin> set pre" "a \<notin> set post" using w(2) unfolding set_append image_Un versions_at_fst by (metis UnI1 image_eqI, metis UnI2 image_eqI)
      ultimately show ?thesis by simp
    qed
    ultimately show ?thesis using vs vs' by blast
  qed
  show "view u (versions_of ?seg' cs v) row d = view u (versions_of seg cs v) row d" if "u \<in> active" "u \<noteq> t"
  proof (cases "td_transaction_id t \<in> fst ` set (tl (versions_of seg cs v))")
    case True
    from present [OF this] obtain bver bs pre us post where p: "versions_of seg cs v = (bver, bs) # pre @ (td_transaction_id t, us) # post"
      "versions_of ?seg' cs v = (bver, bs) # pre @ (c, us) # post" "c \<notin> fst ` set (pre @ post)" by blast
    show ?thesis by (rule commit_views(1) [OF ok(1) assms(2) ok(3) p(1,2) assms(4,5) p(3) that])
  qed (simp add: absent)
  have "versions_ok (active - {t}) (versions_of ?seg' cs v)" for v
  proof (cases "td_transaction_id t \<in> fst ` set (tl (versions_of seg cs v))")
    case True
    from present [OF this] obtain bver bs pre us post where p: "versions_of seg cs v = (bver, bs) # pre @ (td_transaction_id t, us) # post"
      "versions_of ?seg' cs v = (bver, bs) # pre @ (c, us) # post" "c \<notin> fst ` set (pre @ post)" by blast
    show ?thesis by (rule commit_views(3) [OF ok(1) assms(2) ok(3) p(1,2) assms(4,5) p(3)])
  next
    case False
    then show ?thesis unfolding absent [OF False] by (intro versions_ok_mono [OF ok(3)]) blast
  qed
  then show "segment_ok (active - {t}) ?seg' cs"
    using C(1) active_ids_ok_mono [OF ok(1)] unfolding segment_ok_def by blast
  show "view w (versions_of ?seg' cs v) row d = view t (versions_of seg cs v) row d"
    if w: "c \<le> td_start_time w" "td_start_time w < transaction_id_start - 1" "transaction_id_start \<le> td_transaction_id w"
      "a \<in> set as" "a \<in> set (cs v)" "row \<in> rows_of (ui_entries (the (seg_infos seg a)))"
  proof -
    obtain x where x: "a \<in> set (tl (cs x))" "ui_version (the (seg_infos seg a)) = td_transaction_id t"
      using w(4) assms(3) nodes_iff by fastforce
    then have "x = v" using chains_disjoint [OF ok(2), of a v x] w(5) by (cases "cs x") auto
    then have "td_transaction_id t \<in> fst ` set (tl (versions_of seg cs v))"
      using x by (cases "cs v") (simp_all add: versions_at_fst rev_image_eqI)
    from present [OF this] obtain bver bs pre us post where p: "versions_of seg cs v = (bver, bs) # pre @ (td_transaction_id t, us) # post"
      "versions_of ?seg' cs v = (bver, bs) # pre @ (c, us) # post" "c \<notin> fst ` set (pre @ post)" "ui_entries (the (seg_infos seg a)) = us"
      using w(4,5) by blast
    show ?thesis by (rule commit_views(2) [OF ok(1) assms(2) ok(3) p(1,2) assms(4,5) p(3) w(1,2,3)]) (use w(6) p(4) in simp)
  qed
  have "(a, ver) \<in> nodes ?seg' cs \<longleftrightarrow>
      (a, ver) \<in> nodes seg cs \<and> ver \<noteq> td_transaction_id t \<or> ver = c \<and> a \<in> set as" for a ver
  proof (cases "a \<in> set as")
    case True
    then have n: "(a, td_transaction_id t) \<in> nodes seg cs" using assms(3) by blast
    then obtain i where "seg_infos seg a = Some i"
      using chain_node [OF ok(2) n] chains_at(6) [OF ok(2)] by (metis in_set_conv_decomp list.set_intros(2))
    then show ?thesis using True n by (auto simp: nodes_iff commit_updates_infos(1))
  next
    case False
    then have "(a, td_transaction_id t) \<notin> nodes seg cs" using assms(3) by blast
    then show ?thesis using False by (auto simp: nodes_iff commit_updates_infos(1))
  qed
  then show "nodes ?seg' cs = {(a, ver). (a, ver) \<in> nodes seg cs \<and> ver \<noteq> td_transaction_id t} \<union> {(a, c) |a. a \<in> set as}"
    by auto
qed

lemma nodes_remove:
  assumes "chains seg cs" and "replaces seg cs v seg' cs'" and "cs v = b # pre @ a # post" and "cs' v = b # pre @ post"
    and "map fst (tl (versions_of seg' cs' v)) = map fst (versions_at (seg_infos seg) (pre @ post))"
  shows "nodes seg' cs' = nodes seg cs - {(a, ui_version (the (seg_infos seg a)))}"
proof -
  let ?f = "\<lambda>seg cs w. set (zip (tl (cs w)) (map fst (tl (versions_of seg cs w))))"
  let ?g = "\<lambda>x. (x, ui_version (the (seg_infos seg x)))"
  have z: "set (zip xs (map fst (versions_at (seg_infos seg) xs))) = ?g ` set xs" for xs
    by (simp add: versions_at_def zip_map2 zip_same_conv_map comp_def image_image)
  have v: "?f seg cs v = ?g ` set (pre @ a # post)" "?f seg' cs' v = ?g ` set (pre @ post)"
    unfolding assms(5) unfolding assms(3,4) versions_at_simps(2) list.sel z by (rule refl)+
  have same: "?f seg' cs' w = ?f seg cs w" if "w \<noteq> v" for w
    using assms(2) that unfolding replaces_def by metis
  have "a \<notin> set (cs w)" if "w \<noteq> v" for w using chains_disjoint [OF assms(1), of a v w] assms(3) that by auto
  then have other: "?g a \<notin> ?f seg cs w" if "w \<noteq> v" for w using that set_zip_leftD by (metis list.collapse list.sel(2) list.set_intros(2))
  have "a \<notin> set (pre @ post)" using chains_at(3) [OF assms(1), of v] assms(3) by simp
  then have "?f seg' cs' v = ?f seg cs v - {?g a}" unfolding v by auto
  then have "?f seg' cs' w = ?f seg cs w - {?g a}" for w using same other by (cases "w = v") simp_all
  then show ?thesis unfolding nodes_def by (simp only: UN_extend_simps)
qed

lemma cleanup_update_ok:
  assumes "segment_ok active seg cs" and "cs v = b # pre @ a # post" and "seg' = cleanup_update a seg" and "cs' = cs(v := b # pre @ post)"
    and ver: "ver = ui_version (the (seg_infos seg a))"
  shows "segment_ok active seg' cs'" and "nodes seg' cs' = nodes seg cs - {(a, ver)}"
    and "\<not> hidden u ver \<Longrightarrow> view u (versions_of seg' cs' w) row d = view u (versions_of seg cs w) row d"
    and "replaces seg cs v seg' cs'" and "versions_of seg' cs' v = versions_at (seg_infos seg) (b # pre @ post)"
proof -
  have ok: "chains seg cs" "versions_ok active (versions_of seg cs v)" using assms(1) by (auto simp: segment_ok_def)
  note c = cleanup_update_chains [OF ok(1) assms(2,3), folded assms(4)]
  have "seg_start seg' = seg_start seg" by (simp add: assms(3) cleanup_update_def)
  then show r: "replaces seg cs v seg' cs'" unfolding replaces_def using c(1,2) by (simp add: assms(4))
  show vs': "versions_of seg' cs' v = versions_at (seg_infos seg) (b # pre @ post)" using c(3) by (simp add: assms(4))
  have vs: "versions_of seg cs v = (ui_version (the (seg_infos seg b)), ui_entries (the (seg_infos seg b))) # versions_at (seg_infos seg) pre @
      (ver, ui_entries (the (seg_infos seg a))) # versions_at (seg_infos seg) post"
    by (simp add: assms(2) ver)
  note views = cleanup_views [OF ok(2) [unfolded vs]]
  have "versions_ok active (versions_of seg' cs' v)" using views(2) unfolding vs' by simp
  then show "segment_ok active seg' cs'" by (rule replaces_segment_ok [OF assms(1) r])
  show "nodes seg' cs' = nodes seg cs - {(a, ver)}"
    unfolding ver by (rule nodes_remove [OF ok(1) r assms(2)]) (unfold vs', simp_all add: assms(4))
  show "view u (versions_of seg' cs' w) row d = view u (versions_of seg cs w) row d" if "\<not> hidden u ver"
  proof (cases "w = v")
    case True
    show ?thesis unfolding True vs' using views(1) [OF that] vs by simp
  next
    case False
    then have "versions_of seg' cs' w = versions_of seg cs w" using r unfolding replaces_def by blast
    then show ?thesis by (rule arg_cong)
  qed
qed

lemma rollback_update_ok:
  assumes "segment_ok active seg cs" and "t \<in> active" and "(a, td_transaction_id t) \<in> nodes seg cs"
  shows "\<exists>seg' cs'. rollback_update a seg = Inr seg' \<and> segment_ok active seg' cs' \<and> seg_start seg' = seg_start seg \<and>
    nodes seg' cs' = nodes seg cs - {(a, td_transaction_id t)} \<and>
    (\<forall>u v row d. hidden u (transaction_id_start - 1) \<and> hidden u (td_transaction_id t) \<longrightarrow>
      view u (versions_of seg' cs' v) row d = view u (versions_of seg cs v) row d)"
proof -
  have ok: "active_ids_ok active" "chains seg cs" "versions_ok active (versions_of seg cs v)" for v using assms(1) by (auto simp: segment_ok_def)
  obtain v b pre post where v: "cs v = b # pre @ a # post" and own: "ui_version (the (seg_infos seg a)) = td_transaction_id t"
    using chain_node [OF ok(2) assms(3)] by metis
  let ?V = "versions_at (seg_infos seg)"
  note c = chains_at [OF ok(2), where v = v, unfolded v]
  obtain base info where bi: "seg_infos seg b = Some base" "seg_infos seg a = Some info" using c(6) [of b] c(6) [of a] by auto
  have vs: "versions_of seg cs v = (ui_version base, ui_entries base) # ?V pre @ (td_transaction_id t, ui_entries info) # ?V post"
    using v bi own by simp
  obtain es where es: "rollback_entries (ui_entries base) (ui_entries info) = Inr es" "versions_ok active ((ui_version base, es) # ?V pre @ ?V post)"
    "\<forall>u row d. hidden u (ui_version base) \<and> hidden u (td_transaction_id t) \<longrightarrow>
      view u ((ui_version base, es) # ?V pre @ ?V post) row d = view u (versions_of seg cs v) row d"
    using rollback_views [OF ok(1) assms(2) ok(3) vs] by blast
  define seg1 where "seg1 = seg\<lparr>seg_infos := (seg_infos seg)(b \<mapsto> base\<lparr>ui_entries := es\<rparr>)\<rparr>"
  let ?seg' = "cleanup_update a seg1" and ?cs' = "cs(v := b # pre @ post)"
  have eq: "rollback_update a seg = Inr ?seg'"
    using bi c(5) [of a] c(1) es(1) by (simp add: rollback_update_def first_def seg1_def)
  have ch1: "chains seg1 cs" using bi by (intro chains_same_links [OF ok(2)]) (auto simp: seg1_def)
  have ne: "b \<notin> set (pre @ a # post)" using c(3) by simp
  have other: "versions_of seg1 cs w = versions_of seg cs w" if "w \<noteq> v" for w
    using chains_disjoint [OF ok(2), of b v w] that v by (intro versions_at_cong) (auto simp: seg1_def)
  have vs1: "versions_at (seg_infos seg1) (b # pre @ post) = (ui_version base, es) # ?V pre @ ?V post"
  proof -
    have "versions_at (seg_infos seg1) (pre @ post) = ?V (pre @ post)" by (rule versions_at_cong) (use ne in \<open>auto simp: seg1_def\<close>)
    then show ?thesis by (simp add: seg1_def)
  qed
  have own1: "the (seg_infos seg1 a) = info" using ne bi by (auto simp: seg1_def)
  note cl = cleanup_update_chains [OF ch1 v refl]
  have start: "seg_start ?seg' = seg_start seg" by (simp add: cleanup_update_def seg1_def)
  have r: "replaces seg cs v ?seg' ?cs'" unfolding replaces_def using cl(1,2) other start by simp
  have vs': "versions_of ?seg' ?cs' v = (ui_version base, es) # ?V pre @ ?V post"
    unfolding vs1 [symmetric] using cl(3) by simp
  have "nodes ?seg' ?cs' = nodes seg cs - {(a, ui_version (the (seg_infos seg a)))}"
    by (rule nodes_remove [OF ok(2) r v]) (unfold vs', simp_all)
  moreover have "segment_ok active ?seg' ?cs'" by (rule replaces_segment_ok [OF assms(1) r]) (use es(2) vs' in simp)
  moreover have "view u (versions_of ?seg' ?cs' w) row d = view u (versions_of seg cs w) row d"
    if h: "hidden u (transaction_id_start - 1)" "hidden u (td_transaction_id t)" for u w row d
  proof (cases "w = v")
    case True
    have "ui_version base = transaction_id_start - 1" using ok(3) [of v] unfolding vs versions_ok_def by simp
    then show ?thesis unfolding True vs' using es(3) h by metis
  next
    case False
    then have "versions_of ?seg' ?cs' w = versions_of seg cs w" using r unfolding replaces_def by blast
    then show ?thesis by (rule arg_cong)
  qed
  ultimately show ?thesis using eq own start by metis
qed

lemma rollback_updates_ok:
  assumes "segment_ok active seg cs" and "t \<in> active" and "distinct as" and "\<forall>a \<in> set as. (a, td_transaction_id t) \<in> nodes seg cs"
  shows "\<exists>seg' cs'. rollback_updates as seg = Inr seg' \<and> segment_ok active seg' cs' \<and> seg_start seg' = seg_start seg \<and>
    nodes seg' cs' = nodes seg cs - (\<lambda>a. (a, td_transaction_id t)) ` set as \<and>
    (\<forall>u v row d. hidden u (transaction_id_start - 1) \<and> hidden u (td_transaction_id t) \<longrightarrow>
      view u (versions_of seg' cs' v) row d = view u (versions_of seg cs v) row d)"
  using assms
proof (induction as arbitrary: seg cs)
  case (Cons a as)
  from rollback_update_ok [OF Cons.prems(1,2)] Cons.prems(4) obtain seg1 cs1 where one: "rollback_update a seg = Inr seg1"
    "segment_ok active seg1 cs1" "seg_start seg1 = seg_start seg" "nodes seg1 cs1 = nodes seg cs - {(a, td_transaction_id t)}"
    "\<forall>u v row d. hidden u (transaction_id_start - 1) \<and> hidden u (td_transaction_id t) \<longrightarrow>
      view u (versions_of seg1 cs1 v) row d = view u (versions_of seg cs v) row d"
    by (metis list.set_intros(1))
  have "\<forall>x \<in> set as. (x, td_transaction_id t) \<in> nodes seg1 cs1" using Cons.prems(3,4) one(4) by auto
  from Cons.IH [OF one(2) Cons.prems(2) _ this] Cons.prems(3) obtain seg' cs' where rest: "rollback_updates as seg1 = Inr seg'"
    "segment_ok active seg' cs'" "seg_start seg' = seg_start seg1"
    "nodes seg' cs' = nodes seg1 cs1 - (\<lambda>a. (a, td_transaction_id t)) ` set as"
    "\<forall>u v row d. hidden u (transaction_id_start - 1) \<and> hidden u (td_transaction_id t) \<longrightarrow>
      view u (versions_of seg' cs' v) row d = view u (versions_of seg1 cs1 v) row d"
    by (metis distinct.simps(2))
  have "nodes seg' cs' = nodes seg cs - (\<lambda>a. (a, td_transaction_id t)) ` set (a # as)" using rest(4) one(4) by auto
  then show ?case using one(1,3,5) rest(1,2,3,5) by (intro exI [of _ seg'] exI [of _ cs']) simp
qed auto

end
