(* ===== verification/UpdateHistory.thy ===== *)
theory UpdateHistory
  imports UpdateChains
begin

text \<open>
  Histories of one update segment under concurrent transactions, over the operations of
  \<^verbatim>\<open>src/storage/table/update_segment.cpp\<close>. Transactions begin with the timestamps that
  the transaction manager hands out, update rows, and commit or roll back what their undo
  buffers list; the cleanup unlinks committed infos once every active transaction started after
  the commit. The stored column below the updates does not change.
\<close>

section \<open>States and steps\<close>

record 'v update_state =
  us_segment :: "'v update_segment"
  us_active :: "transaction_data list"
  us_undo :: "transaction_t \<Rightarrow> nat list"
  us_committed :: "(transaction_t \<times> nat) list"
  us_clock :: transaction_t
  us_next_id :: transaction_t

definition initial_updates :: "idx_t \<Rightarrow> 'v update_state" where
  "initial_updates start = \<lparr>us_segment = new_update_segment start, us_active = [], us_undo = (\<lambda>_. []), us_committed = [],
     us_clock = 2, us_next_id = transaction_id_start\<rparr>"

datatype 'v update_event =
    BeginUpdates
  | UpdateRows transaction_data nat "(nat \<times> 'v) list"
  | CommitUpdates transaction_data
  | RollbackUpdates transaction_data
  | CleanupUpdates transaction_t nat

fun event_of :: "transaction_data \<Rightarrow> 'v update_event \<Rightarrow> bool" where
  "event_of u (UpdateRows t v ups) = (t = u)"
| "event_of u (CommitUpdates t) = (t = u)"
| "event_of u (RollbackUpdates t) = (t = u)"
| "event_of u _ = False"

inductive update_step ::
  "((nat \<times> 'v) list \<Rightarrow> (nat \<times> 'v) list) \<Rightarrow> (nat \<Rightarrow> nat \<Rightarrow> bool) \<Rightarrow> (nat \<Rightarrow> nat \<Rightarrow> 'v) \<Rightarrow>
   'v update_event \<Rightarrow> 'v update_state \<Rightarrow> 'v update_state \<Rightarrow> bool"
  for sorter base_valid base_data where
  step_begin:
    "us_clock st < transaction_id_start - 1 \<Longrightarrow>
     update_step sorter base_valid base_data BeginUpdates st
       (st\<lparr>us_active := \<lparr>td_transaction_id = us_next_id st, td_start_time = us_clock st\<rparr> # us_active st,
          us_undo := (us_undo st)(us_next_id st := []), us_clock := us_clock st + 1, us_next_id := us_next_id st + 1\<rparr>)"
| step_update:
    "t \<in> set (us_active st) \<Longrightarrow> in_vector (us_segment st) v ups \<Longrightarrow> ups \<noteq> [] \<Longrightarrow>
     segment_update sorter t (base_valid v) (base_data v) mem ups (us_segment st) = Some (Inr (seg', n)) \<Longrightarrow>
     update_step sorter base_valid base_data (UpdateRows t v ups) st
       (st\<lparr>us_segment := seg', us_undo := (us_undo st)
          (td_transaction_id t := us_undo st (td_transaction_id t) @ (case n of None \<Rightarrow> [] | Some a \<Rightarrow> [a]))\<rparr>)"
| step_conflict:
    "t \<in> set (us_active st) \<Longrightarrow> in_vector (us_segment st) v ups \<Longrightarrow> ups \<noteq> [] \<Longrightarrow>
     segment_update sorter t (base_valid v) (base_data v) mem ups (us_segment st) = Some (Inl e) \<Longrightarrow>
     update_step sorter base_valid base_data (UpdateRows t v ups) st st"
| step_commit:
    "t \<in> set (us_active st) \<Longrightarrow> us_clock st < transaction_id_start - 1 \<Longrightarrow>
     update_step sorter base_valid base_data (CommitUpdates t) st
       (st\<lparr>us_segment := commit_updates (us_clock st) (us_undo st (td_transaction_id t)) (us_segment st),
          us_active := filter (\<lambda>u. u \<noteq> t) (us_active st),
          us_committed := us_committed st @ map (Pair (us_clock st)) (us_undo st (td_transaction_id t)), us_clock := us_clock st + 1\<rparr>)"
| step_rollback:
    "t \<in> set (us_active st) \<Longrightarrow> rollback_updates (rev (us_undo st (td_transaction_id t))) (us_segment st) = Inr seg' \<Longrightarrow>
     update_step sorter base_valid base_data (RollbackUpdates t) st
       (st\<lparr>us_segment := seg', us_active := filter (\<lambda>u. u \<noteq> t) (us_active st)\<rparr>)"
| step_cleanup:
    "(c, a) \<in> set (us_committed st) \<Longrightarrow> \<forall>u \<in> set (us_active st). c < td_start_time u \<Longrightarrow>
     update_step sorter base_valid base_data (CleanupUpdates c a) st
       (st\<lparr>us_segment := cleanup_update a (us_segment st), us_committed := filter (\<lambda>p. p \<noteq> (c, a)) (us_committed st)\<rparr>)"

inductive_cases update_stepE:
  "update_step sorter base_valid base_data BeginUpdates st st'"
  "update_step sorter base_valid base_data (UpdateRows t v ups) st st'"
  "update_step sorter base_valid base_data (CommitUpdates t) st st'"
  "update_step sorter base_valid base_data (RollbackUpdates t) st st'"
  "update_step sorter base_valid base_data (CleanupUpdates c a) st st'"

inductive update_run ::
  "((nat \<times> 'v) list \<Rightarrow> (nat \<times> 'v) list) \<Rightarrow> (nat \<Rightarrow> nat \<Rightarrow> bool) \<Rightarrow> (nat \<Rightarrow> nat \<Rightarrow> 'v) \<Rightarrow>
   'v update_event list \<Rightarrow> 'v update_state \<Rightarrow> 'v update_state \<Rightarrow> bool"
  for sorter base_valid base_data where
  run_nil: "update_run sorter base_valid base_data [] st st"
| run_step:
    "update_step sorter base_valid base_data e st st1 \<Longrightarrow> update_run sorter base_valid base_data es st1 st' \<Longrightarrow>
     update_run sorter base_valid base_data (e # es) st st'"

section \<open>The invariant of the histories\<close>

definition undo_nodes :: "transaction_data set \<Rightarrow> (transaction_t \<Rightarrow> nat list) \<Rightarrow> (nat \<times> transaction_t) set" where
  "undo_nodes active undo = (\<Union>t \<in> active. (\<lambda>a. (a, td_transaction_id t)) ` set (undo (td_transaction_id t)))"

lemma undo_nodes_iff: "(a, x) \<in> undo_nodes active undo \<longleftrightarrow> (\<exists>t \<in> active. x = td_transaction_id t \<and> a \<in> set (undo x))"
  by (auto simp: undo_nodes_def)

lemma undo_nodes_cong: "(\<And>u. u \<in> active \<Longrightarrow> undo' (td_transaction_id u) = undo (td_transaction_id u)) \<Longrightarrow> undo_nodes active undo' = undo_nodes active undo"
  by (simp add: undo_nodes_def)

definition history_ok :: "'v update_state \<Rightarrow> (nat \<Rightarrow> nat list) \<Rightarrow> bool" where
  "history_ok st cs \<longleftrightarrow>
     segment_ok (set (us_active st)) (us_segment st) cs \<and>
     nodes (us_segment st) cs = undo_nodes (set (us_active st)) (us_undo st) \<union> prod.swap ` set (us_committed st) \<and>
     (\<forall>t \<in> set (us_active st). td_start_time t < us_clock st \<and> td_transaction_id t < us_next_id st \<and> distinct (us_undo st (td_transaction_id t))) \<and>
     (\<forall>p \<in> set (us_committed st). fst p < us_clock st) \<and> us_clock st \<le> transaction_id_start - 1 \<and> transaction_id_start \<le> us_next_id st"

lemma history_okD:
  assumes "history_ok st cs"
  shows "segment_ok (set (us_active st)) (us_segment st) cs"
    and "nodes (us_segment st) cs = undo_nodes (set (us_active st)) (us_undo st) \<union> prod.swap ` set (us_committed st)"
    and "t \<in> set (us_active st) \<Longrightarrow> td_start_time t < us_clock st \<and> td_transaction_id t < us_next_id st \<and> distinct (us_undo st (td_transaction_id t))"
    and "(c, a) \<in> set (us_committed st) \<Longrightarrow> c < us_clock st"
    and "us_clock st \<le> transaction_id_start - 1" and "transaction_id_start \<le> us_next_id st"
  using assms unfolding history_ok_def by auto

lemma clock_below_ids:
  assumes "history_ok st cs" and "t \<in> set (us_active st)"
  shows "us_clock st < td_transaction_id t"
proof -
  have "transaction_id_start \<le> td_transaction_id t" using history_okD(1) [OF assms(1)] assms(2) by (auto simp: segment_ok_def active_ids_ok_def)
  then show ?thesis using history_okD(5) [OF assms(1)] by (simp add: transaction_id_start_def)
qed

lemma own_nodes:
  assumes "history_ok st cs" and "t \<in> set (us_active st)"
  shows "set (us_undo st (td_transaction_id t)) = {a. (a, td_transaction_id t) \<in> nodes (us_segment st) cs}"
proof -
  have inj: "inj_on td_transaction_id (set (us_active st))" using history_okD(1) [OF assms(1)] by (simp add: segment_ok_def active_ids_ok_def)
  have "(td_transaction_id t, a) \<notin> set (us_committed st)" for a
    using history_okD(4) [OF assms(1)] clock_below_ids [OF assms] by fastforce
  then show ?thesis unfolding history_okD(2) [OF assms(1)] using assms(2) inj by (auto simp: undo_nodes_def dest: inj_onD)
qed

lemma initial_history: "history_ok (initial_updates start) (\<lambda>_. [])"
  by (auto simp: history_ok_def initial_updates_def new_update_segment_def segment_ok_def active_ids_ok_def chains_def nodes_def
      get_update_node_def first_def versions_ok_def transaction_id_start_def undo_nodes_def)

definition reads_same ::
  "(nat \<Rightarrow> nat \<Rightarrow> bool) \<Rightarrow> (nat \<Rightarrow> nat \<Rightarrow> 'v) \<Rightarrow> transaction_data \<Rightarrow> 'v update_segment \<Rightarrow> (nat \<Rightarrow> nat list) \<Rightarrow>
   'v update_segment \<Rightarrow> (nat \<Rightarrow> nat list) \<Rightarrow> bool" where
  "reads_same base_valid base_data u seg cs seg' cs' \<longleftrightarrow>
     (\<forall>v row. base_valid v row \<longrightarrow>
        view u (versions_of seg' cs' v) row (base_data v row) = view u (versions_of seg cs v) row (base_data v row))"

lemma versions_ok_begin:
  assumes "versions_ok active vs" and "td_transaction_id t \<notin> fst ` set (tl vs)"
  shows "versions_ok (insert t active) vs"
proof (cases vs)
  case (Cons b ns)
  have "sorted_wrt (compatible (insert t active)) ns" if "sorted_wrt (compatible active) ns" "td_transaction_id t \<notin> fst ` set ns"
    using that(1)
  proof (rule sorted_wrt_mono_rel [rotated])
    fix x y assume "x \<in> set ns" "y \<in> set ns" "compatible active x y"
    then show "compatible (insert t active) x y" using that(2) unfolding compatible_def by (metis image_eqI insertE)
  qed
  then show ?thesis using assms Cons by (auto simp: versions_ok_def)
qed (simp add: versions_ok_def)

lemma begin_history:
  assumes "history_ok st cs" and "us_clock st < transaction_id_start - 1"
    and "st' = st\<lparr>us_active := \<lparr>td_transaction_id = us_next_id st, td_start_time = us_clock st\<rparr> # us_active st,
      us_undo := (us_undo st)(us_next_id st := []), us_clock := us_clock st + 1, us_next_id := us_next_id st + 1\<rparr>"
  shows "history_ok st' cs"
proof -
  note h = history_okD [OF assms(1)]
  define t where "t = \<lparr>td_transaction_id = us_next_id st, td_start_time = us_clock st\<rparr>"
  have old: "td_transaction_id u \<noteq> us_next_id st" if "u \<in> set (us_active st)" for u using h(3) [OF that] by simp
  have fresh: "(a, us_next_id st) \<notin> nodes (us_segment st) cs" for a
  proof
    assume "(a, us_next_id st) \<in> nodes (us_segment st) cs"
    then have "(us_next_id st, a) \<in> set (us_committed st)" unfolding h(2) using old by (force simp: undo_nodes_iff)
    then show False using h(4) [of "us_next_id st" a] h(5,6) by simp
  qed
  have "td_transaction_id t \<notin> fst ` set (tl (versions_of (us_segment st) cs v))" for v
  proof
    assume "td_transaction_id t \<in> fst ` set (tl (versions_of (us_segment st) cs v))"
    then have "us_next_id st \<in> (\<lambda>a. ui_version (the (seg_infos (us_segment st) a))) ` set (tl (cs v))"
      by (cases "cs v") (simp_all add: t_def versions_at_fst)
    then obtain a where "a \<in> set (tl (cs v))" "us_next_id st = ui_version (the (seg_infos (us_segment st) a))" by blast
    then have "(a, us_next_id st) \<in> nodes (us_segment st) cs" unfolding nodes_iff by blast
    then show False using fresh by blast
  qed
  then have "versions_ok (insert t (set (us_active st))) (versions_of (us_segment st) cs v)" for v
    using h(1) by (intro versions_ok_begin) (simp_all add: segment_ok_def)
  moreover have "active_ids_ok (insert t (set (us_active st)))"
    using h(1,6) assms(2) by (auto simp: segment_ok_def active_ids_ok_def t_def dest: old)
  ultimately have seg: "segment_ok (set (us_active st')) (us_segment st') cs"
    using h(1) by (simp add: segment_ok_def assms(3) flip: t_def)
  have undo: "us_undo st' (td_transaction_id u) = us_undo st (td_transaction_id u)" if "u \<in> set (us_active st)" for u
    using old [OF that] by (simp add: assms(3))
  have new: "us_undo st' (td_transaction_id t) = []" "us_active st' = t # us_active st" "us_committed st' = us_committed st" "us_segment st' = us_segment st"
    by (simp_all add: assms(3) t_def)
  have "nodes (us_segment st') cs = undo_nodes (set (us_active st')) (us_undo st') \<union> prod.swap ` set (us_committed st')"
    unfolding new(2-4) h(2) using undo_nodes_cong [of "set (us_active st)" "us_undo st'" "us_undo st"] undo new(1) by (simp add: undo_nodes_def)
  then show ?thesis
    unfolding history_ok_def using seg h(3-6) assms(2) undo by (auto simp: assms(3) less_Suc_eq dest: old)
qed

lemma update_history:
  assumes "sorts sorter" and "history_ok st cs" and "t \<in> set (us_active st)" and "in_vector (us_segment st) v ups" and "ups \<noteq> []"
    and "segment_update sorter t (base_valid v) (base_data v) mem ups (us_segment st) = Some (Inr (seg', n))"
    and st': "st' = st\<lparr>us_segment := seg', us_undo := (us_undo st)
      (td_transaction_id t := us_undo st (td_transaction_id t) @ (case n of None \<Rightarrow> [] | Some a \<Rightarrow> [a]))\<rparr>"
  shows "\<exists>cs'. history_ok st' cs' \<and>
    updated (set (us_active st)) t (base_valid v) (base_data v) (update_rows sorter v ups (us_segment st)) v n (us_segment st) cs seg' cs'"
proof -
  note h = history_okD [OF assms(2)]
  note spec = segment_update_spec [OF h(1) assms(3,1,4,5), of "base_valid v" "base_data v" mem]
  have "\<not> conflicting t (rows_of (update_rows sorter v ups (us_segment st))) (tl (versions_of (us_segment st) cs v))"
    using spec(1) assms(6) by auto
  from spec(2) [OF this] assms(6) obtain cs' where
    up: "updated (set (us_active st)) t (base_valid v) (base_data v) (update_rows sorter v ups (us_segment st)) v n (us_segment st) cs seg' cs'"
    by auto
  let ?new = "case n of None \<Rightarrow> [] | Some a \<Rightarrow> [a]"
  have ns: "nodes seg' cs' = nodes (us_segment st) cs \<union> {(a, td_transaction_id t) |a. a \<in> set ?new}" "\<And>w. set ?new \<inter> set (cs w) = {}"
    using up unfolding updated_def by (auto split: option.splits)
  have inj: "inj_on td_transaction_id (set (us_active st))" using h(1) by (simp add: segment_ok_def active_ids_ok_def)
  have "set ?new \<inter> set (us_undo st (td_transaction_id t)) = {}"
  proof -
    have "a \<notin> set (us_undo st (td_transaction_id t))" if "a \<in> set ?new" for a
    proof
      assume "a \<in> set (us_undo st (td_transaction_id t))"
      then obtain w where "a \<in> set (tl (cs w))" using own_nodes [OF assms(2,3)] nodes_iff by blast
      then have "a \<in> set (cs w)" by (cases "cs w") simp_all
      then show False using ns(2) [of w] that by blast
    qed
    then show ?thesis by blast
  qed
  then have d: "distinct (us_undo st (td_transaction_id t) @ ?new)" using h(3) [OF assms(3)] by (auto split: option.splits)
  have undo: "us_undo st' (td_transaction_id u) = us_undo st (td_transaction_id u) @ (if u = t then ?new else [])" if "u \<in> set (us_active st)" for u
    using inj that assms(3) by (auto simp: st' dest: inj_onD)
  have "nodes seg' cs' = undo_nodes (set (us_active st)) (us_undo st') \<union> prod.swap ` set (us_committed st)"
  proof -
    define extra where "extra = set ?new"
    have u: "set (us_undo st' x) = set (us_undo st x) \<union> (if x = td_transaction_id t then extra else {})" for x by (simp add: st' extra_def)
    have "(a, x) \<in> undo_nodes (set (us_active st)) (us_undo st') \<longleftrightarrow>
        (a, x) \<in> undo_nodes (set (us_active st)) (us_undo st) \<or> x = td_transaction_id t \<and> a \<in> extra" for a x
      unfolding undo_nodes_iff u using assms(3) by auto
    then have "undo_nodes (set (us_active st)) (us_undo st') = undo_nodes (set (us_active st)) (us_undo st) \<union> {(a, td_transaction_id t) |a. a \<in> set ?new}"
      unfolding extra_def by auto
    then show ?thesis unfolding ns(1) h(2) by blast
  qed
  moreover have "distinct (us_undo st' (td_transaction_id u))" if "u \<in> set (us_active st)" for u
    using undo [OF that] d h(3) [OF that] by (cases "u = t") simp_all
  moreover have "segment_ok (set (us_active st)) seg' cs'" using up unfolding updated_def by blast
  moreover have "us_segment st' = seg'" "us_active st' = us_active st" "us_committed st' = us_committed st" "us_clock st' = us_clock st"
    "us_next_id st' = us_next_id st" by (simp_all add: st')
  ultimately have "history_ok st' cs'" using assms(2) unfolding history_ok_def by simp
  then show ?thesis using up by blast
qed

lemma updated_reads_same:
  assumes "updated active t (base_valid v) (base_data v) ups v n seg cs seg' cs'" and "u \<in> active" and "u \<noteq> t"
  shows "reads_same base_valid base_data u seg cs seg' cs'"
  unfolding reads_same_def
proof (intro allI impI)
  fix w row assume "base_valid w row"
  then show "view u (versions_of seg' cs' w) row (base_data w row) = view u (versions_of seg cs w) row (base_data w row)"
    using assms unfolding updated_def replaces_def by (cases "w = v") metis+
qed

lemma commit_history:
  assumes "history_ok st cs" and "t \<in> set (us_active st)" and "us_clock st < transaction_id_start - 1"
    and st': "st' = st\<lparr>us_segment := commit_updates (us_clock st) (us_undo st (td_transaction_id t)) (us_segment st),
      us_active := filter (\<lambda>u. u \<noteq> t) (us_active st),
      us_committed := us_committed st @ map (Pair (us_clock st)) (us_undo st (td_transaction_id t)), us_clock := us_clock st + 1\<rparr>"
  shows "history_ok st' cs"
    and "u \<in> set (us_active st) \<Longrightarrow> u \<noteq> t \<Longrightarrow> view u (versions_of (us_segment st') cs v) row d = view u (versions_of (us_segment st) cs v) row d"
    and "us_clock st \<le> td_start_time w \<Longrightarrow> td_start_time w < transaction_id_start - 1 \<Longrightarrow> transaction_id_start \<le> td_transaction_id w \<Longrightarrow>
      a \<in> set (us_undo st (td_transaction_id t)) \<Longrightarrow> a \<in> set (cs v) \<Longrightarrow> row \<in> rows_of (ui_entries (the (seg_infos (us_segment st) a))) \<Longrightarrow>
      view w (versions_of (us_segment st') cs v) row d = view t (versions_of (us_segment st) cs v) row d"
proof -
  note h = history_okD [OF assms(1)]
  have starts: "\<forall>u \<in> set (us_active st). td_start_time u < us_clock st" using h(3) by blast
  have below: "us_clock st < transaction_id_start" using assms(3) by simp
  have fresh: "us_clock st \<notin> snd ` nodes (us_segment st) cs"
  proof
    assume "us_clock st \<in> snd ` nodes (us_segment st) cs"
    then obtain a where "(a, us_clock st) \<in> nodes (us_segment st) cs" by force
    then have "(us_clock st, a) \<in> set (us_committed st)" unfolding h(2) using clock_below_ids [OF assms(1)] by (force simp: undo_nodes_iff)
    then show False using h(4) by blast
  qed
  note c = commit_updates_ok [OF h(1) assms(2) own_nodes [OF assms(1,2)] starts below fresh]
  have seg: "us_segment st' = commit_updates (us_clock st) (us_undo st (td_transaction_id t)) (us_segment st)" by (simp add: st')
  show "view u (versions_of (us_segment st') cs v) row d = view u (versions_of (us_segment st) cs v) row d" if "u \<in> set (us_active st)" "u \<noteq> t"
    unfolding seg by (rule c(3) [OF that])
  show "view w (versions_of (us_segment st') cs v) row d = view t (versions_of (us_segment st) cs v) row d"
    if "us_clock st \<le> td_start_time w" "td_start_time w < transaction_id_start - 1" "transaction_id_start \<le> td_transaction_id w"
      "a \<in> set (us_undo st (td_transaction_id t))" "a \<in> set (cs v)" "row \<in> rows_of (ui_entries (the (seg_infos (us_segment st) a)))"
    unfolding seg by (rule c(4) [OF that])
  have inj: "inj_on td_transaction_id (set (us_active st))" using h(1) by (simp add: segment_ok_def active_ids_ok_def)
  have "(c, a) \<in> set (us_committed st) \<Longrightarrow> c \<noteq> td_transaction_id t" for c a
    using h(4) clock_below_ids [OF assms(1,2)] by fastforce
  then have "nodes (us_segment st') cs = undo_nodes (set (us_active st')) (us_undo st') \<union> prod.swap ` set (us_committed st')"
    unfolding seg c(2) h(2) using inj assms(2) by (fastforce simp: st' undo_nodes_def dest: inj_onD)
  moreover have "set (us_active st') = set (us_active st) - {t}" by (auto simp: st')
  then have "segment_ok (set (us_active st')) (us_segment st') cs" using c(1) seg by simp
  ultimately show "history_ok st' cs"
    unfolding history_ok_def using h(3-6) assms(3) by (auto simp: st' less_Suc_eq)
qed

lemma rollback_history:
  assumes "history_ok st cs" and "t \<in> set (us_active st)"
  shows "\<exists>seg' cs'. rollback_updates (rev (us_undo st (td_transaction_id t))) (us_segment st) = Inr seg' \<and>
    history_ok (st\<lparr>us_segment := seg', us_active := filter (\<lambda>u. u \<noteq> t) (us_active st)\<rparr>) cs' \<and>
    (\<forall>u v row d. hidden u (transaction_id_start - 1) \<and> hidden u (td_transaction_id t) \<longrightarrow>
      view u (versions_of seg' cs' v) row d = view u (versions_of (us_segment st) cs v) row d)"
proof -
  note h = history_okD [OF assms(1)]
  let ?undo = "us_undo st (td_transaction_id t)"
  have "distinct (rev ?undo)" using h(3) [OF assms(2)] by simp
  moreover have "\<forall>a \<in> set (rev ?undo). (a, td_transaction_id t) \<in> nodes (us_segment st) cs" using own_nodes [OF assms] by simp
  ultimately obtain seg' cs' where r: "rollback_updates (rev ?undo) (us_segment st) = Inr seg'" "segment_ok (set (us_active st)) seg' cs'"
    "nodes seg' cs' = nodes (us_segment st) cs - (\<lambda>a. (a, td_transaction_id t)) ` set (rev ?undo)"
    "\<forall>u v row d. hidden u (transaction_id_start - 1) \<and> hidden u (td_transaction_id t) \<longrightarrow>
      view u (versions_of seg' cs' v) row d = view u (versions_of (us_segment st) cs v) row d"
    using rollback_updates_ok [OF h(1) assms(2)] by blast
  let ?st' = "st\<lparr>us_segment := seg', us_active := filter (\<lambda>u. u \<noteq> t) (us_active st)\<rparr>"
  have inj: "inj_on td_transaction_id (set (us_active st))" using h(1) by (simp add: segment_ok_def active_ids_ok_def)
  have "(c, a) \<in> set (us_committed st) \<Longrightarrow> c \<noteq> td_transaction_id t" for c a
    using h(4) clock_below_ids [OF assms] by fastforce
  then have "nodes seg' cs' = undo_nodes (set (us_active ?st')) (us_undo ?st') \<union> prod.swap ` set (us_committed ?st')"
    unfolding r(3) h(2) using inj assms(2) by (fastforce simp: undo_nodes_def dest: inj_onD)
  moreover have "segment_ok (set (us_active ?st')) seg' cs'"
    by (rule segment_ok_mono [OF r(2)]) auto
  ultimately have "history_ok ?st' cs'" unfolding history_ok_def using h(3-6) by auto
  then show ?thesis using r(1,4) by blast
qed

lemma cleanup_history:
  assumes "history_ok st cs" and "(c, a) \<in> set (us_committed st)" and "\<forall>u \<in> set (us_active st). c < td_start_time u"
    and st': "st' = st\<lparr>us_segment := cleanup_update a (us_segment st), us_committed := filter (\<lambda>p. p \<noteq> (c, a)) (us_committed st)\<rparr>"
  shows "\<exists>cs'. history_ok st' cs' \<and> (\<forall>u \<in> set (us_active st). reads_same base_valid base_data u (us_segment st) cs (us_segment st') cs')"
proof -
  note h = history_okD [OF assms(1)]
  have n: "(a, c) \<in> nodes (us_segment st) cs" unfolding h(2) using assms(2) by force
  have ch: "chains (us_segment st) cs" using h(1) by (simp add: segment_ok_def)
  obtain v b pre post where v: "cs v = b # pre @ a # post" "c = ui_version (the (seg_infos (us_segment st) a))"
    using chain_node [OF ch n] by metis
  note c = cleanup_update_ok [OF h(1) v(1) refl refl v(2)]
  have ids: "td_transaction_id u \<noteq> c" if "u \<in> set (us_active st)" for u
    using clock_below_ids [OF assms(1) that] h(4) [OF assms(2)] by simp
  have "(a, c) \<notin> undo_nodes (set (us_active st)) (us_undo st)" using ids by (auto simp: undo_nodes_iff)
  then have "nodes (us_segment st') (cs(v := b # pre @ post)) = undo_nodes (set (us_active st')) (us_undo st') \<union> prod.swap ` set (us_committed st')"
    unfolding st' using c(2) h(2) by auto
  then have "history_ok st' (cs(v := b # pre @ post))"
    using h(3-6) c(1) unfolding history_ok_def by (auto simp: st')
  moreover have "reads_same base_valid base_data u (us_segment st) cs (us_segment st') (cs(v := b # pre @ post))" if "u \<in> set (us_active st)" for u
  proof -
    have "\<not> hidden u c" using assms(3) that by (fastforce simp: hidden_def)
    then show ?thesis unfolding reads_same_def using c(3) by (simp add: st')
  qed
  ultimately show ?thesis by blast
qed

lemma history_step:
  assumes "sorts sorter" and "history_ok st cs" and "update_step sorter base_valid base_data e st st'"
  shows "\<exists>cs'. history_ok st' cs' \<and> (\<forall>u \<in> set (us_active st). \<not> event_of u e \<longrightarrow>
    u \<in> set (us_active st') \<and> reads_same base_valid base_data u (us_segment st) cs (us_segment st') cs')"
  using assms(3)
proof cases
  case step_begin
  then show ?thesis using begin_history [OF assms(2) step_begin(3,2)] by (auto simp: reads_same_def)
next
  case (step_update t v ups mem seg' n)
  from update_history [where base_valid = base_valid and base_data = base_data, OF assms(1,2) step_update(3-6,2)] obtain cs' where u: "history_ok st' cs'"
    "updated (set (us_active st)) t (base_valid v) (base_data v) (update_rows sorter v ups (us_segment st)) v n (us_segment st) cs seg' cs'" by blast
  then show ?thesis using updated_reads_same [where base_valid = base_valid and base_data = base_data, OF u(2)] step_update(1,2) by auto
next
  case (step_conflict t v ups mem e)
  then show ?thesis using assms(2) by (auto simp: reads_same_def)
next
  case (step_commit t)
  note c = commit_history [OF assms(2) step_commit(3,4,2)]
  have "reads_same base_valid base_data u (us_segment st) cs (us_segment st') cs" if "u \<in> set (us_active st)" "u \<noteq> t" for u
    unfolding reads_same_def using c(2) [OF that] by blast
  then show ?thesis using c(1) step_commit(1,2) by (intro exI [of _ cs]) auto
next
  case (step_rollback t seg')
  from rollback_history [OF assms(2) step_rollback(3)] step_rollback(4) obtain cs' where
    r: "history_ok (st\<lparr>us_segment := seg', us_active := filter (\<lambda>u. u \<noteq> t) (us_active st)\<rparr>) cs'"
    "\<forall>u v row d. hidden u (transaction_id_start - 1) \<and> hidden u (td_transaction_id t) \<longrightarrow>
      view u (versions_of seg' cs' v) row d = view u (versions_of (us_segment st) cs v) row d" by auto
  have ids: "active_ids_ok (set (us_active st))" using history_okD(1) [OF assms(2)] by (simp add: segment_ok_def)
  have "reads_same base_valid base_data u (us_segment st) cs seg' cs'" if "u \<in> set (us_active st)" "u \<noteq> t" for u
    unfolding reads_same_def using r(2) hidden_base [OF ids that(1)] hidden_other [OF ids that(1) step_rollback(3)] that(2) by blast
  then show ?thesis using r(1) step_rollback(1,2) by (intro exI [of _ cs']) auto
next
  case (step_cleanup c a)
  from cleanup_history [OF assms(2) step_cleanup(3,4,2)] show ?thesis using step_cleanup(1,2) by auto
qed

lemma history_run:
  assumes "update_run sorter base_valid base_data es st st'" and "sorts sorter" and "history_ok st cs"
  shows "\<exists>cs'. history_ok st' cs' \<and> (\<forall>u \<in> set (us_active st). (\<forall>e \<in> set es. \<not> event_of u e) \<longrightarrow>
    u \<in> set (us_active st') \<and> reads_same base_valid base_data u (us_segment st) cs (us_segment st') cs')"
  using assms(1,3)
proof (induction arbitrary: cs rule: update_run.induct)
  case (run_nil st)
  then show ?case by (auto simp: reads_same_def)
next
  case (run_step e st st1 es st')
  from history_step [OF assms(2) run_step.prems run_step.hyps(1)] obtain cs1 where one: "history_ok st1 cs1"
    "\<forall>u \<in> set (us_active st). \<not> event_of u e \<longrightarrow> u \<in> set (us_active st1) \<and> reads_same base_valid base_data u (us_segment st) cs (us_segment st1) cs1"
    by blast
  from run_step.IH [OF one(1)] obtain cs' where rest: "history_ok st' cs'"
    "\<forall>u \<in> set (us_active st1). (\<forall>e \<in> set es. \<not> event_of u e) \<longrightarrow>
      u \<in> set (us_active st') \<and> reads_same base_valid base_data u (us_segment st1) cs1 (us_segment st') cs'" by blast
  have "u \<in> set (us_active st') \<and> reads_same base_valid base_data u (us_segment st) cs (us_segment st') cs'"
    if "u \<in> set (us_active st)" "\<forall>e \<in> set (e # es). \<not> event_of u e" for u
  proof -
    have a: "u \<in> set (us_active st1)" "reads_same base_valid base_data u (us_segment st) cs (us_segment st1) cs1" using one(2) that by simp_all
    have b: "u \<in> set (us_active st')" "reads_same base_valid base_data u (us_segment st1) cs1 (us_segment st') cs'" using rest(2) a(1) that(2) by simp_all
    show ?thesis using b a(2) unfolding reads_same_def by simp
  qed
  with rest(1) show ?case by blast
qed

lemma reachable_history:
  "update_run sorter base_valid base_data es (initial_updates start) st \<Longrightarrow> sorts sorter \<Longrightarrow> \<exists>cs. history_ok st cs"
  using history_run initial_history by blast

section \<open>Readers and writers\<close>

lemma fetch_history:
  assumes "history_ok st cs" and "length base = standard_vector_size"
  shows "\<exists>out. fetch_updates u v base (us_segment st) = Some out \<and> length out = standard_vector_size \<and>
    (\<forall>row < standard_vector_size. out ! row = view u (versions_of (us_segment st) cs v) row (base ! row))"
  using fetch_updates_view [OF history_okD(1) [OF assms(1)] assms(2)] by blast

lemma rows_of_update:
  assumes "sorts sorter" and "in_vector seg v ups"
  shows "row \<in> rows_of (update_rows sorter v ups seg) \<longleftrightarrow> seg_start seg + v * standard_vector_size + row \<in> rows_of ups"
    and "row \<in> rows_of (update_rows sorter v ups seg) \<Longrightarrow>
      (seg_start seg + v * standard_vector_size + row, overlay (update_rows sorter v ups seg) row d) \<in> set ups"
proof -
  let ?off = "seg_start seg + v * standard_vector_size" and ?sel = "sort_selection sorter ups"
  note s = sort_selection_spec [OF assms(1), of ups]
  have low: "\<forall>row_id \<in> rows_of ?sel. ?off \<le> row_id \<and> row_id < ?off + standard_vector_size"
    unfolding s(3) using assms(2) by (simp add: in_vector_def)
  note m = relative_rows_ok(2) [OF s(1) low, of row]
  have "row \<in> rows_of (update_rows sorter v ups seg) \<longleftrightarrow> map_of (update_rows sorter v ups seg) row \<noteq> None" by (simp add: map_of_eq_None_iff)
  also have "\<dots> \<longleftrightarrow> ?off + row \<in> rows_of ?sel" unfolding update_rows_def m by (simp add: map_of_eq_None_iff)
  finally show row: "row \<in> rows_of (update_rows sorter v ups seg) \<longleftrightarrow> ?off + row \<in> rows_of ups" unfolding s(3) .
  show "(?off + row, overlay (update_rows sorter v ups seg) row d) \<in> set ups" if "row \<in> rows_of (update_rows sorter v ups seg)"
  proof -
    have "?off + row \<in> rows_of ?sel" using that row s(3) by simp
    then obtain x where x: "map_of ?sel (?off + row) = Some x" by (metis map_of_eq_None_iff option.exhaust)
    then have "(?off + row, x) \<in> set ups" using s(2) map_of_SomeD by fast
    then show ?thesis unfolding overlay_def update_rows_def m x by simp
  qed
qed

text \<open>The conflict that an update of a transaction reports: another transaction has changed one of the rows
  and has not committed, or committed after the transaction began.\<close>

definition update_conflict :: "transaction_data \<Rightarrow> nat \<Rightarrow> (nat \<times> 'v) list \<Rightarrow> 'v update_state \<Rightarrow> bool" where
  "update_conflict t v ups st \<longleftrightarrow>
     (\<exists>a info row. seg_infos (us_segment st) a = Some info \<and> ui_vector_index info = v \<and> row \<in> rows_of (ui_entries info) \<and>
        seg_start (us_segment st) + v * standard_vector_size + row \<in> rows_of ups \<and>
        ((\<exists>u \<in> set (us_active st). u \<noteq> t \<and> a \<in> set (us_undo st (td_transaction_id u))) \<or>
         (\<exists>c. (c, a) \<in> set (us_committed st) \<and> td_start_time t < c)))"

lemma hidden_nodes:
  assumes "history_ok st cs" and "t \<in> set (us_active st)"
  shows "(\<exists>ver. (a, ver) \<in> nodes (us_segment st) cs \<and> hidden t ver) \<longleftrightarrow>
    (\<exists>u \<in> set (us_active st). u \<noteq> t \<and> a \<in> set (us_undo st (td_transaction_id u))) \<or> (\<exists>c. (c, a) \<in> set (us_committed st) \<and> td_start_time t < c)"
proof -
  note h = history_okD [OF assms(1)]
  have ids: "active_ids_ok (set (us_active st))" using h(1) by (simp add: segment_ok_def)
  have own: "hidden t (td_transaction_id u) \<longleftrightarrow> u \<noteq> t" if "u \<in> set (us_active st)" for u
    using hidden_other [OF ids assms(2) that] by (auto simp: hidden_def)
  have old: "hidden t c \<longleftrightarrow> td_start_time t < c" if "(c, a) \<in> set (us_committed st)" for c
    using h(4) [OF that] clock_below_ids [OF assms] by (simp add: hidden_def)
  have "(\<exists>ver. (a, ver) \<in> nodes (us_segment st) cs \<and> hidden t ver) \<longleftrightarrow>
      (\<exists>u \<in> set (us_active st). a \<in> set (us_undo st (td_transaction_id u)) \<and> hidden t (td_transaction_id u)) \<or>
      (\<exists>c. (c, a) \<in> set (us_committed st) \<and> hidden t c)"
    unfolding h(2) Un_iff undo_nodes_iff by force
  then show ?thesis using own old by blast
qed

lemma update_conflict_iff:
  assumes "sorts sorter" and "history_ok st cs" and "t \<in> set (us_active st)" and "in_vector (us_segment st) v ups"
  shows "conflicting t (rows_of (update_rows sorter v ups (us_segment st))) (tl (versions_of (us_segment st) cs v)) \<longleftrightarrow> update_conflict t v ups st"
proof -
  let ?seg = "us_segment st"
  have ch: "chains ?seg cs" using history_okD(1) [OF assms(2)] by (simp add: segment_ok_def)
  have list: "conflicting t R (tl (versions_of ?seg cs v)) \<longleftrightarrow>
      (\<exists>a \<in> set (tl (cs v)). hidden t (ui_version (the (seg_infos ?seg a))) \<and> rows_of (ui_entries (the (seg_infos ?seg a))) \<inter> R \<noteq> {})" for R
    unfolding conflicting_def versions_at_def map_tl [symmetric] by auto
  have node: "(\<exists>a \<in> set (tl (cs v)). hidden t (ui_version (the (seg_infos ?seg a))) \<and> rows_of (ui_entries (the (seg_infos ?seg a))) \<inter> R \<noteq> {}) \<longleftrightarrow>
      (\<exists>a info. seg_infos ?seg a = Some info \<and> ui_vector_index info = v \<and> rows_of (ui_entries info) \<inter> R \<noteq> {} \<and>
      (\<exists>ver. (a, ver) \<in> nodes ?seg cs \<and> hidden t ver))" for R
  proof (intro iffI; elim bexE exE conjE)
    fix a assume a: "a \<in> set (tl (cs v))" "hidden t (ui_version (the (seg_infos ?seg a)))"
      "rows_of (ui_entries (the (seg_infos ?seg a))) \<inter> R \<noteq> {}"
    then have "a \<in> set (cs v)" by (cases "cs v") simp_all
    then obtain i where "seg_infos ?seg a = Some i" "ui_vector_index i = v" using chains_at(5,6) [OF ch] by fastforce
    then show "\<exists>a info. seg_infos ?seg a = Some info \<and> ui_vector_index info = v \<and> rows_of (ui_entries info) \<inter> R \<noteq> {} \<and>
        (\<exists>ver. (a, ver) \<in> nodes ?seg cs \<and> hidden t ver)" using a nodes_iff by fastforce
  next
    fix a info ver assume a: "seg_infos ?seg a = Some info" "ui_vector_index info = v" "rows_of (ui_entries info) \<inter> R \<noteq> {}"
      "(a, ver) \<in> nodes ?seg cs" "hidden t ver"
    then obtain w where w: "a \<in> set (tl (cs w))" "ver = ui_version info" using nodes_iff by fastforce
    then have "a \<in> set (cs w)" by (cases "cs w") simp_all
    then have "w = v" using chains_at(5) [OF ch] a(1,2) by fastforce
    then show "\<exists>a \<in> set (tl (cs v)). hidden t (ui_version (the (seg_infos ?seg a))) \<and> rows_of (ui_entries (the (seg_infos ?seg a))) \<inter> R \<noteq> {}"
      using w a by fastforce
  qed
  have rows: "A \<inter> rows_of (update_rows sorter v ups ?seg) \<noteq> {} \<longleftrightarrow> (\<exists>row. row \<in> A \<and> seg_start ?seg + v * standard_vector_size + row \<in> rows_of ups)" for A
    using rows_of_update(1) [OF assms(1,4)] by blast
  show ?thesis unfolding list node unfolding update_conflict_def rows hidden_nodes [OF assms(2,3)] by blast
qed

section \<open>A history\<close>

text \<open>Two transactions begin, and the first one changes row 3 of a column of zeros.\<close>

definition demo_t1 :: transaction_data where
  "demo_t1 = \<lparr>td_transaction_id = transaction_id_start, td_start_time = 2\<rparr>"

definition demo_t2 :: transaction_data where
  "demo_t2 = \<lparr>td_transaction_id = transaction_id_start + 1, td_start_time = 3\<rparr>"

definition demo_begun :: "nat update_state" where
  "demo_begun = \<lparr>us_segment = new_update_segment 0, us_active = [demo_t2, demo_t1], us_undo = (\<lambda>_. []), us_committed = [],
     us_clock = 4, us_next_id = transaction_id_start + 2\<rparr>"

definition demo_segment :: "nat update_segment" where
  "demo_segment = \<lparr>seg_start = 0, seg_has_root = True, seg_root = [Some 0],
     seg_infos = [0 \<mapsto> \<lparr>ui_version = transaction_id_start - 1, ui_vector_index = 0, ui_entries = [(3, 7)], ui_prev = None, ui_next = Some 1\<rparr>,
                  1 \<mapsto> \<lparr>ui_version = transaction_id_start, ui_vector_index = 0, ui_entries = [(3, 0)], ui_prev = Some 0, ui_next = None\<rparr>],
     seg_fresh = 2\<rparr>"

definition demo_updated :: "nat update_state" where
  "demo_updated = demo_begun\<lparr>us_segment := demo_segment, us_undo := (\<lambda>_. [])(transaction_id_start := [1])\<rparr>"

lemma demo_sorts: "sorts (sort_key fst :: (nat \<times> nat) list \<Rightarrow> _)"
  by (simp add: sorts_def)

lemma demo_in_vector: "in_vector (us_segment demo_begun) 0 [(3, x)]" "in_vector demo_segment 0 [(3, x)]"
  by (simp_all add: in_vector_def demo_begun_def demo_segment_def new_update_segment_def standard_vector_size_def)

lemma demo_segment_update:
  "segment_update (sort_key fst) demo_t1 (\<lambda>_. True) (\<lambda>_. 0) (\<lambda>_. 0) [(3, 7)] (us_segment demo_begun) = Some (Inr (demo_segment, Some 1))"
  by (simp add: segment_update_def demo_begun_def demo_t1_def demo_segment_def new_update_segment_def sort_selection_def get_update_node_def
      get_effective_updates_def relative_rows_def initialize_update_root_def create_chain_def standard_vector_size_def Let_def)

lemma demo_begun_run:
  "update_run (sort_key fst) (\<lambda>_ _. True) (\<lambda>_ _. 0) [BeginUpdates, BeginUpdates] (initial_updates 0) demo_begun"
proof -
  let ?step = "update_step (sort_key fst) (\<lambda>_ _. True) (\<lambda>_ _. 0 :: nat)"
  let ?st1 = "initial_updates 0 \<lparr>us_active := [demo_t1], us_clock := 3, us_next_id := transaction_id_start + 1\<rparr>"
  have "?step BeginUpdates (initial_updates 0) ?st1"
    using step_begin [of "initial_updates 0" "sort_key fst"]
    by (simp add: initial_updates_def demo_t1_def transaction_id_start_def fun_upd_def)
  moreover have "?step BeginUpdates ?st1 demo_begun"
    using step_begin [of ?st1 "sort_key fst"]
    by (simp add: initial_updates_def demo_begun_def demo_t1_def demo_t2_def transaction_id_start_def fun_upd_def)
  ultimately show ?thesis by (meson run_step run_nil)
qed

lemma demo_update_step:
  "update_step (sort_key fst) (\<lambda>_ _. True) (\<lambda>_ _. 0) (UpdateRows demo_t1 0 [(3, 7)]) demo_begun demo_updated"
proof -
  have "demo_updated = demo_begun\<lparr>us_segment := demo_segment, us_undo := (us_undo demo_begun)
      (td_transaction_id demo_t1 := us_undo demo_begun (td_transaction_id demo_t1) @ (case Some 1 of None \<Rightarrow> [] | Some a \<Rightarrow> [a]))\<rparr>"
    by (simp add: demo_updated_def demo_begun_def demo_t1_def)
  moreover have "demo_t1 \<in> set (us_active demo_begun)" by (simp add: demo_begun_def)
  ultimately show ?thesis
    using step_update [where base_valid = "\<lambda>_ _. True" and base_data = "\<lambda>_ _. 0", OF _ demo_in_vector(1) _ demo_segment_update] by simp
qed

lemma run_append:
  "update_run sorter base_valid base_data es st st1 \<Longrightarrow> update_run sorter base_valid base_data fs st1 st' \<Longrightarrow>
   update_run sorter base_valid base_data (es @ fs) st st'"
  by (induction rule: update_run.induct) (auto intro: run_step)

lemma demo_updated_run:
  "update_run (sort_key fst) (\<lambda>_ _. True) (\<lambda>_ _. 0) [BeginUpdates, BeginUpdates, UpdateRows demo_t1 0 [(3, 7)]] (initial_updates 0) demo_updated"
  using run_append [OF demo_begun_run run_step [OF demo_update_step run_nil]] by simp

section \<open>Properties\<close>

text \<open>C3. Snapshot isolation of in-place updates. In every history of updates, commits, rollbacks and cleanups of
  a segment, an active transaction that does nothing itself keeps reading the same values, in every vector and in every row
  that the stored column has a value for.\<close>

theorem update_snapshot_isolation:
  assumes "sorts sorter" and "update_run sorter base_valid base_data hist (initial_updates start) st"
    and "update_run sorter base_valid base_data es st st'" and "u \<in> set (us_active st)" and "\<forall>e \<in> set es. \<not> event_of u e"
    and "length base = standard_vector_size" and "\<forall>row < standard_vector_size. base_valid v row \<longrightarrow> base ! row = base_data v row"
  shows "\<exists>out out'. fetch_updates u v base (us_segment st) = Some out \<and> fetch_updates u v base (us_segment st') = Some out' \<and>
    (\<forall>row < standard_vector_size. base_valid v row \<longrightarrow> out' ! row = out ! row)"
proof -
  obtain cs where cs: "history_ok st cs" using reachable_history assms(1,2) by blast
  from history_run [OF assms(3,1) cs] obtain cs' where cs': "history_ok st' cs'" "reads_same base_valid base_data u (us_segment st) cs (us_segment st') cs'"
    using assms(4,5) by blast
  show ?thesis using fetch_history [OF cs assms(6), of u v] fetch_history [OF cs'(1) assms(6), of u v] cs'(2) assms(7)
    unfolding reads_same_def by force
qed

theorem update_snapshot_isolation_witness:
  "\<exists>out out'. fetch_updates demo_t2 0 (replicate standard_vector_size 0) (us_segment demo_begun) = Some out \<and>
    fetch_updates demo_t2 0 (replicate standard_vector_size 0) (us_segment demo_updated) = Some out' \<and> out' ! 3 = out ! 3"
  using update_snapshot_isolation [OF demo_sorts demo_begun_run run_step [OF demo_update_step run_nil], of demo_t2 "replicate standard_vector_size 0" 0]
  by (auto simp: demo_begun_def demo_t1_def demo_t2_def standard_vector_size_def)

text \<open>C16. A transaction reads its own updates: after a successful update each updated row has one of the values that
  the update names for it, and every other row reads as before.\<close>

theorem update_reads_own:
  assumes "sorts sorter" and "update_run sorter base_valid base_data hist (initial_updates start) st"
    and "t \<in> set (us_active st)" and "in_vector (us_segment st) v ups" and "ups \<noteq> []"
    and "segment_update sorter t (base_valid v) (base_data v) mem ups (us_segment st) = Some (Inr (seg', n))"
    and "length base = standard_vector_size" and "\<forall>row < standard_vector_size. base_valid v row \<longrightarrow> base ! row = base_data v row"
  shows "\<exists>out out'. fetch_updates t v base (us_segment st) = Some out \<and> fetch_updates t v base seg' = Some out' \<and>
    (\<forall>row < standard_vector_size.
      let row_id = seg_start (us_segment st) + v * standard_vector_size + row in
      if row_id \<in> rows_of ups then (row_id, out' ! row) \<in> set ups else out' ! row = out ! row)"
proof -
  obtain cs where cs: "history_ok st cs" using reachable_history assms(1,2) by blast
  from update_history [where base_valid = base_valid and base_data = base_data, OF assms(1) cs assms(3-6) refl] obtain cs' where
    up: "updated (set (us_active st)) t (base_valid v) (base_data v) (update_rows sorter v ups (us_segment st)) v n (us_segment st) cs seg' cs'" by blast
  have ok: "segment_ok (set (us_active st)) seg' cs'" using up unfolding updated_def by blast
  obtain out where out: "fetch_updates t v base (us_segment st) = Some out"
    "\<forall>row < standard_vector_size. out ! row = view t (versions_of (us_segment st) cs v) row (base ! row)"
    using fetch_history [OF cs assms(7)] by blast
  obtain out' where out': "fetch_updates t v base seg' = Some out'"
    "\<forall>row < standard_vector_size. out' ! row = view t (versions_of seg' cs' v) row (base ! row)"
    using fetch_updates_view [OF ok assms(7)] by blast
  have "out' ! row = overlay (update_rows sorter v ups (us_segment st)) row (out ! row)" if "row < standard_vector_size" for row
    using up out(2) out'(2) assms(8) that unfolding updated_def by simp
  then show ?thesis
    using out(1) out'(1) rows_of_update [OF assms(1,4)] overlay_outside unfolding Let_def by metis
qed

theorem update_reads_own_witness:
  "\<exists>out'. fetch_updates demo_t1 0 (replicate standard_vector_size 0) demo_segment = Some out' \<and> out' ! 3 = 7"
proof -
  have t: "demo_t1 \<in> set (us_active demo_begun)" by (simp add: demo_begun_def)
  have "seg_start (us_segment demo_begun) = 0" "(3 :: nat) < standard_vector_size"
    by (simp_all add: demo_begun_def new_update_segment_def standard_vector_size_def)
  then show ?thesis
    using update_reads_own [OF demo_sorts demo_begun_run t demo_in_vector(1) _ demo_segment_update, of "replicate standard_vector_size 0"]
    by (auto simp: Let_def)
qed

text \<open>C18. A commit makes the updates of a transaction visible: a transaction that begins afterwards reads the rows that
  the transaction changed as the transaction itself read them.\<close>

theorem update_commit_visible:
  assumes "sorts sorter" and "update_run sorter base_valid base_data hist (initial_updates start) st"
    and "update_step sorter base_valid base_data (CommitUpdates t) st st1" and "update_step sorter base_valid base_data BeginUpdates st1 st2"
    and "a \<in> set (us_undo st (td_transaction_id t))" and "seg_infos (us_segment st) a = Some info" and "row \<in> rows_of (ui_entries info)"
    and "length base = standard_vector_size"
  shows "\<exists>out out'. fetch_updates t (ui_vector_index info) base (us_segment st) = Some out \<and>
    fetch_updates (hd (us_active st2)) (ui_vector_index info) base (us_segment st2) = Some out' \<and> out' ! row = out ! row"
proof -
  have 1: "st1 = st\<lparr>us_segment := commit_updates (us_clock st) (us_undo st (td_transaction_id t)) (us_segment st),
      us_active := filter (\<lambda>u. u \<noteq> t) (us_active st),
      us_committed := us_committed st @ map (Pair (us_clock st)) (us_undo st (td_transaction_id t)), us_clock := us_clock st + 1\<rparr>"
    "t \<in> set (us_active st)" "us_clock st < transaction_id_start - 1"
    using assms(3) by (auto elim: update_stepE(3))
  obtain cs where cs: "history_ok st cs" using reachable_history assms(1,2) by blast
  note c = commit_history [OF cs 1(2,3,1)]
  let ?w = "\<lparr>td_transaction_id = us_next_id st1, td_start_time = us_clock st1\<rparr>" and ?v = "ui_vector_index info"
  have st2: "us_segment st2 = us_segment st1" "hd (us_active st2) = ?w" "us_clock st1 < transaction_id_start - 1"
    using assms(4) by (auto elim!: update_stepE(1))
  have "(a, td_transaction_id t) \<in> nodes (us_segment st) cs" using own_nodes [OF cs 1(2)] assms(5) by blast
  then obtain w where w: "a \<in> set (tl (cs w))" using nodes_iff by blast
  then have a: "a \<in> set (cs w)" by (cases "cs w") simp_all
  have ch: "chains (us_segment st) cs" and ok: "segment_ok (set (us_active st)) (us_segment st) cs" using history_okD(1) [OF cs] by (auto simp: segment_ok_def)
  have v: "w = ?v" using chains_at(5) [OF ch a] assms(6) by simp
  have "entries_ok (ui_entries info)" using segment_infos [OF ok a] assms(6) by simp
  then have row: "row < standard_vector_size" using assms(7) by (auto simp: entries_ok_def)
  have "transaction_id_start \<le> us_next_id st1" using history_okD(6) [OF cs] 1(1) by simp
  then have same: "view ?w (versions_of (us_segment st1) cs ?v) row d = view t (versions_of (us_segment st) cs ?v) row d" for d
    using c(3) [of ?w a ?v row d] st2(3) assms(5,6,7) a v 1(1) by simp
  show ?thesis
    using fetch_history [OF cs assms(8), of t ?v] fetch_history [OF c(1) assms(8), of ?w ?v] same row unfolding st2 by auto
qed

theorem update_commit_visible_witness:
  "\<exists>st1 st2 out out'. update_step (sort_key fst) (\<lambda>_ _. True) (\<lambda>_ _. 0) (CommitUpdates demo_t1) demo_updated st1 \<and>
    update_step (sort_key fst) (\<lambda>_ _. True) (\<lambda>_ _. 0) BeginUpdates st1 st2 \<and>
    fetch_updates demo_t1 0 (replicate standard_vector_size 0) demo_segment = Some out \<and>
    fetch_updates (hd (us_active st2)) 0 (replicate standard_vector_size 0) (us_segment st2) = Some out' \<and> out' ! 3 = out ! 3"
proof -
  have clock: "us_clock demo_updated = 4" "demo_t1 \<in> set (us_active demo_updated)" "us_undo demo_updated (td_transaction_id demo_t1) = [1]"
    "us_segment demo_updated = demo_segment"
    by (simp_all add: demo_updated_def demo_begun_def demo_t1_def)
  then obtain st1 where st1: "update_step (sort_key fst) (\<lambda>_ _. True) (\<lambda>_ _. 0) (CommitUpdates demo_t1) demo_updated st1" "us_clock st1 = 5"
    using step_commit [of demo_t1 demo_updated "sort_key fst" "\<lambda>_ _. True" "\<lambda>_ _. 0"] by (fastforce simp: transaction_id_start_def)
  then obtain st2 where st2: "update_step (sort_key fst) (\<lambda>_ _. True) (\<lambda>_ _. 0) BeginUpdates st1 st2"
    using step_begin [of st1 "sort_key fst" "\<lambda>_ _. True" "\<lambda>_ _. 0"] by (auto simp: transaction_id_start_def)
  show ?thesis
    using update_commit_visible [OF demo_sorts demo_updated_run st1(1) st2, of 1 _ 3 "replicate standard_vector_size 0"] clock st1(1) st2
    by (fastforce simp: demo_segment_def)
qed

text \<open>C15. First updater wins: an update fails, with a transaction error, exactly when one of its rows has been changed by another
  transaction that is still active or that committed after the transaction began. Otherwise it succeeds.\<close>

theorem update_first_wins:
  assumes "sorts sorter" and "update_run sorter base_valid base_data hist (initial_updates start) st"
    and "t \<in> set (us_active st)" and "in_vector (us_segment st) v ups" and "ups \<noteq> []"
  shows "\<exists>r. segment_update sorter t (base_valid v) (base_data v) mem ups (us_segment st) = Some r \<and>
    (if update_conflict t v ups st then r = Inl (TransactionException ''Conflict on update!'') else \<exists>seg' n. r = Inr (seg', n))"
proof -
  obtain cs where cs: "history_ok st cs" using reachable_history assms(1,2) by blast
  show ?thesis
    using segment_update_spec [OF history_okD(1) [OF cs] assms(3,1,4,5), of "base_valid v" "base_data v" mem]
    unfolding update_conflict_iff [OF assms(1) cs assms(3,4)] by (cases "update_conflict t v ups st") auto
qed

theorem update_first_wins_witness:
  "segment_update (sort_key fst) demo_t2 (\<lambda>_. True) (\<lambda>_. 0) (\<lambda>_. 0) [(3, 9)] demo_segment = Some (Inl (TransactionException ''Conflict on update!''))"
proof -
  have st: "us_segment demo_updated = demo_segment" "us_active demo_updated = [demo_t2, demo_t1]" "us_undo demo_updated (td_transaction_id demo_t1) = [1]"
    by (simp_all add: demo_updated_def demo_begun_def demo_t1_def)
  have "demo_t1 \<noteq> demo_t2" by (simp add: demo_t1_def demo_t2_def)
  then have "update_conflict demo_t2 0 [(3, 9)] demo_updated"
    unfolding update_conflict_def st by (intro exI [of _ 1] exI [of _ "the (seg_infos demo_segment 1)"] exI [of _ 3]) (auto simp: st demo_segment_def)
  then show ?thesis
    using update_first_wins [OF demo_sorts demo_updated_run, of demo_t2 0 "[(3, 9)]" "\<lambda>_. 0"] demo_in_vector(2) [of 9] st by simp
qed

text \<open>C17. A rollback of the updates of a transaction always succeeds, and whoever does not share its identifier reads the same before
  and after it: a rolled back update leaves no trace.\<close>

theorem update_rollback_invisible:
  assumes "sorts sorter" and "update_run sorter base_valid base_data hist (initial_updates start) st"
    and "t \<in> set (us_active st)" and "td_start_time w < transaction_id_start - 1" and "transaction_id_start \<le> td_transaction_id w"
    and "td_transaction_id w \<noteq> td_transaction_id t" and "length base = standard_vector_size"
  shows "\<exists>seg' out. rollback_updates (rev (us_undo st (td_transaction_id t))) (us_segment st) = Inr seg' \<and>
    fetch_updates w v base (us_segment st) = Some out \<and> fetch_updates w v base seg' = Some out"
proof -
  obtain cs where cs: "history_ok st cs" using reachable_history assms(1,2) by blast
  from rollback_history [OF cs assms(3)] obtain seg' cs' where r: "rollback_updates (rev (us_undo st (td_transaction_id t))) (us_segment st) = Inr seg'"
    "history_ok (st\<lparr>us_segment := seg', us_active := filter (\<lambda>u. u \<noteq> t) (us_active st)\<rparr>) cs'"
    "\<forall>u v row d. hidden u (transaction_id_start - 1) \<and> hidden u (td_transaction_id t) \<longrightarrow>
      view u (versions_of seg' cs' v) row d = view u (versions_of (us_segment st) cs v) row d" by blast
  have "transaction_id_start \<le> td_transaction_id t"
    using history_okD(1) [OF cs] assms(3) by (auto simp: segment_ok_def active_ids_ok_def)
  then have "hidden w (transaction_id_start - 1)" "hidden w (td_transaction_id t)"
    using assms(4-6) by (auto simp: hidden_def transaction_id_start_def)
  then have same: "view w (versions_of seg' cs' v) row d = view w (versions_of (us_segment st) cs v) row d" for row d using r(3) by blast
  obtain out where out: "fetch_updates w v base (us_segment st) = Some out" "length out = standard_vector_size"
    "\<forall>row < standard_vector_size. out ! row = view w (versions_of (us_segment st) cs v) row (base ! row)"
    using fetch_history [OF cs assms(7)] by blast
  obtain out' where out': "fetch_updates w v base seg' = Some out'" "length out' = standard_vector_size"
    "\<forall>row < standard_vector_size. out' ! row = view w (versions_of seg' cs' v) row (base ! row)"
    using fetch_history [OF r(2) assms(7), of w v] by auto
  have "out' = out" using out(2,3) out'(2,3) same by (intro nth_equalityI) auto
  then show ?thesis using r(1) out(1) out'(1) by blast
qed

theorem update_rollback_invisible_witness:
  "\<exists>seg' out. rollback_updates [1] demo_segment = Inr seg' \<and>
    fetch_updates demo_t2 0 (replicate standard_vector_size 0) demo_segment = Some out \<and>
    fetch_updates demo_t2 0 (replicate standard_vector_size 0) seg' = Some out"
  using update_rollback_invisible [OF demo_sorts demo_updated_run, of demo_t1 demo_t2 "replicate standard_vector_size 0" 0]
  by (simp add: demo_updated_def demo_begun_def demo_t1_def demo_t2_def transaction_id_start_def)

text \<open>The fetch of a single row agrees with the scan of its vector.\<close>

theorem fetch_row_equals_scan:
  assumes "sorts sorter" and "update_run sorter base_valid base_data hist (initial_updates start) st"
    and "seg_start (us_segment st) \<le> row_id" and "i < length result" and "length base = standard_vector_size"
    and "base ! ((row_id - seg_start (us_segment st)) mod standard_vector_size) = result ! i"
  shows "\<exists>out. fetch_updates u ((row_id - seg_start (us_segment st)) div standard_vector_size) base (us_segment st) = Some out \<and>
    fetch_row u row_id result i (us_segment st) = Some (result[i := out ! ((row_id - seg_start (us_segment st)) mod standard_vector_size)])"
proof -
  obtain cs where cs: "history_ok st cs" using reachable_history assms(1,2) by blast
  have "(row_id - seg_start (us_segment st)) mod standard_vector_size < standard_vector_size" by (simp add: standard_vector_size_def)
  then show ?thesis
    using fetch_row_view [OF history_okD(1) [OF cs] assms(3,4), of u] fetch_history [OF cs assms(5), of u] assms(6) by fastforce
qed

theorem fetch_row_equals_scan_witness:
  "\<exists>out. fetch_updates demo_t1 0 (replicate standard_vector_size 0) demo_segment = Some out \<and>
    fetch_row demo_t1 3 [0] 0 demo_segment = Some [out ! 3]"
  using fetch_row_equals_scan [OF demo_sorts demo_updated_run, of 3 0 "[0]" "replicate standard_vector_size 0" demo_t1]
  by (simp add: demo_updated_def demo_begun_def demo_segment_def standard_vector_size_def)

end
