(* ===== verification/UndoBuffer.thy ===== *)
theory UndoBuffer
  imports PowerOfTwo
begin

text \<open>
  The memory of the undo buffer of a transaction (\<^verbatim>\<open>src/transaction/undo_buffer.cpp\<close> and \<^verbatim>\<open>undo_buffer_allocator.cpp\<close>):
  blocks in which entries lie one behind the other, each with a header that has its type and
  its length, and the walks over the entries in the order of their creation, up to a point of
  that order, and backwards.

  The chain of blocks is a list with the head first. The memory of a block is a map from
  positions to the header and the data that were stored there; storing an entry destroys every entry that shares a byte with
  it. A callback returns the exception
  that it throws, if it throws, and the state that it leaves.
\<close>

section \<open>Allocation\<close>

datatype undo_flags = EMPTY_ENTRY | CATALOG_ENTRY | INSERT_TUPLE | DELETE_TUPLE | UPDATE_TUPLE | SEQUENCE_VALUE | ATTACHED_DATABASE

record 'd undo_block =
  ub_position :: idx_t
  ub_capacity :: idx_t
  ub_data :: "nat \<rightharpoonup> undo_flags \<times> nat \<times> 'd"

definition align_value :: "idx_t \<Rightarrow> idx_t" where
  "align_value n = idx_add n 7 div 8 * 8"

definition undo_entry_header_size :: nat where
  "undo_entry_header_size = 8"

definition block_capacity :: "idx_t \<Rightarrow> idx_t \<Rightarrow> bool \<Rightarrow> idx_t result" where
  "block_capacity block_size alloc_len has_head =
     (let capacity = (if \<not> has_head \<and> alloc_len \<le> 4096 then 4096 else block_size) in
      if capacity < alloc_len then result_bind (next_power_of_two (of_nat alloc_len)) (\<lambda>w. Inr (unat w))
      else Inr capacity)"

definition undo_allocate :: "idx_t \<Rightarrow> idx_t \<Rightarrow> 'd undo_block list \<Rightarrow> ('d undo_block list \<times> idx_t) result" where
  "undo_allocate block_size alloc_len blocks =
     (let new = result_bind (block_capacity block_size alloc_len (blocks \<noteq> [])) (\<lambda>capacity.
                  Inr (\<lparr>ub_position = alloc_len, ub_capacity = capacity, ub_data = Map.empty\<rparr> # blocks, 0)) in
      case blocks of
        [] \<Rightarrow> new
      | b # bs \<Rightarrow>
          (if ub_capacity b < idx_add (ub_position b) alloc_len then new
           else Inr (b\<lparr>ub_position := idx_add (ub_position b) alloc_len\<rparr> # bs, ub_position b)))"

text \<open>An entry of a block takes the bytes from its position on, with its header and its length.\<close>

definition store_entry :: "nat \<Rightarrow> undo_flags \<times> nat \<times> 'd \<Rightarrow> (nat \<rightharpoonup> undo_flags \<times> nat \<times> 'd) \<Rightarrow> (nat \<rightharpoonup> undo_flags \<times> nat \<times> 'd)" where
  "store_entry pos e memory =
     (\<lambda>p. if p = pos then Some e
          else case memory p of
                 None \<Rightarrow> None
               | Some old \<Rightarrow>
                   (if p < pos + undo_entry_header_size + fst (snd e) \<and> pos < p + undo_entry_header_size + fst (snd old) then None else Some old))"

text \<open>A reference is the number of the block, counted from the tail, and the position of the data in it.\<close>

definition create_entry ::
  "idx_t \<Rightarrow> undo_flags \<Rightarrow> idx_t \<Rightarrow> 'd \<Rightarrow> 'd undo_block list \<Rightarrow> ('d undo_block list \<times> (nat \<times> idx_t)) result" where
  "create_entry block_size ty len x blocks =
     (let alloc_len = align_value (idx_add len undo_entry_header_size) in
      result_bind (undo_allocate block_size alloc_len blocks) (\<lambda>(blocks', pos).
        Inr (case blocks' of
               [] \<Rightarrow> ([], (0, 0))
             | b # bs \<Rightarrow>
                 (b\<lparr>ub_data := store_entry pos (ty, (alloc_len - undo_entry_header_size) mod 2 ^ 32, x) (ub_data b)\<rparr> # bs,
                  (length bs, pos + undo_entry_header_size)))))"

definition changes_made :: "'d undo_block list \<Rightarrow> bool" where
  "changes_made blocks = (blocks \<noteq> [])"

section \<open>Iteration\<close>

type_synonym ('d, 's) undo_callback = "undo_flags \<Rightarrow> 'd \<Rightarrow> 's \<Rightarrow> duck_error option \<times> 's"

text \<open>The walk over one block. The position that it returns is where the walk stopped: on an
  exception it is behind the header of the entry whose callback threw.\<close>

function iterate_block :: "('d, 's) undo_callback \<Rightarrow> (nat \<rightharpoonup> undo_flags \<times> nat \<times> 'd) \<Rightarrow> nat \<Rightarrow> nat \<Rightarrow> 's \<Rightarrow> duck_error option \<times> nat \<times> 's" where
  "iterate_block callback memory start end' s =
     (if start < end'
      then (case memory start of
              None \<Rightarrow> (Some (UndefinedBehavior ''no entry at this position''), start, s)
            | Some (ty, len, x) \<Rightarrow>
                (case callback ty x s of
                   (Some e, s') \<Rightarrow> (Some e, start + undo_entry_header_size, s')
                 | (None, s') \<Rightarrow> iterate_block callback memory (start + undo_entry_header_size + len) end' s'))
      else (None, start, s))"
  by pat_completeness auto

termination
  by (relation "measure (\<lambda>(callback, memory, start, end', s). end' - start)") (auto simp: undo_entry_header_size_def)

declare iterate_block.simps [simp del]

record iterator_state =
  it_current :: "nat option"
  it_start :: nat

definition new_iterator_state :: iterator_state where
  "new_iterator_state = \<lparr>it_current = None, it_start = 0\<rparr>"

text \<open>The blocks from the tail on, numbered from \<open>k\<close>.\<close>

fun iterate_blocks :: "('d, 's) undo_callback \<Rightarrow> nat \<Rightarrow> 'd undo_block list \<Rightarrow> 's \<Rightarrow> duck_error option \<times> iterator_state \<times> 's" where
  "iterate_blocks callback k [] s = (None, new_iterator_state, s)"
| "iterate_blocks callback k (b # bs) s =
     (case iterate_block callback (ub_data b) 0 (ub_position b) s of
        (Some e, pos, s') \<Rightarrow> (Some e, \<lparr>it_current = Some k, it_start = pos\<rparr>, s')
      | (None, _, s') \<Rightarrow> iterate_blocks callback (Suc k) bs s')"

definition iterate_entries :: "('d, 's) undo_callback \<Rightarrow> 'd undo_block list \<Rightarrow> 's \<Rightarrow> duck_error option \<times> iterator_state \<times> 's" where
  "iterate_entries callback blocks s = iterate_blocks callback 0 (rev blocks) s"

text \<open>The walk up to the position at which an earlier walk stopped.\<close>

fun iterate_blocks_until :: "('d, 's) undo_callback \<Rightarrow> iterator_state \<Rightarrow> nat \<Rightarrow> 'd undo_block list \<Rightarrow> 's \<Rightarrow> duck_error option \<times> 's" where
  "iterate_blocks_until callback end_state k [] s = (None, s)"
| "iterate_blocks_until callback end_state k (b # bs) s =
     (case iterate_block callback (ub_data b) 0 (if it_current end_state = Some k then it_start end_state else ub_position b) s of
        (Some e, pos, s') \<Rightarrow> (Some e, s')
      | (None, _, s') \<Rightarrow> (if it_current end_state = Some k then (None, s') else iterate_blocks_until callback end_state (Suc k) bs s'))"

definition iterate_entries_until :: "('d, 's) undo_callback \<Rightarrow> iterator_state \<Rightarrow> 'd undo_block list \<Rightarrow> 's \<Rightarrow> duck_error option \<times> 's" where
  "iterate_entries_until callback end_state blocks s = iterate_blocks_until callback end_state 0 (rev blocks) s"

text \<open>Backwards: the entries of a block are collected and then visited from the last one.\<close>

function block_nodes :: "(nat \<rightharpoonup> undo_flags \<times> nat \<times> 'd) \<Rightarrow> nat \<Rightarrow> nat \<Rightarrow> (undo_flags \<times> 'd) list" where
  "block_nodes memory start end' =
     (if start < end'
      then (case memory start of
              None \<Rightarrow> []
            | Some (ty, len, x) \<Rightarrow> (ty, x) # block_nodes memory (start + undo_entry_header_size + len) end')
      else [])"
  by pat_completeness auto

termination
  by (relation "measure (\<lambda>(memory, start, end'). end' - start)") (auto simp: undo_entry_header_size_def)

declare block_nodes.simps [simp del]

fun run_entries :: "('d, 's) undo_callback \<Rightarrow> (undo_flags \<times> 'd) list \<Rightarrow> 's \<Rightarrow> duck_error option \<times> 's" where
  "run_entries callback [] s = (None, s)"
| "run_entries callback ((ty, x) # items) s =
     (case callback ty x s of (Some e, s') \<Rightarrow> (Some e, s') | (None, s') \<Rightarrow> run_entries callback items s')"

definition reverse_iterate_entries :: "('d, 's) undo_callback \<Rightarrow> 'd undo_block list \<Rightarrow> 's \<Rightarrow> duck_error option \<times> 's" where
  "reverse_iterate_entries callback blocks s =
     run_entries callback (concat (map (\<lambda>b. rev (block_nodes (ub_data b) 0 (ub_position b))) blocks)) s"

section \<open>The layout of a buffer\<close>

fun laid_out :: "(nat \<rightharpoonup> undo_flags \<times> nat \<times> 'd) \<Rightarrow> nat \<Rightarrow> (undo_flags \<times> nat \<times> 'd) list \<Rightarrow> nat \<Rightarrow> bool" where
  "laid_out memory start [] end' = (start = end')"
| "laid_out memory start ((ty, len, x) # es) end' =
     (memory start = Some (ty, len, x) \<and> laid_out memory (start + undo_entry_header_size + len) es end')"

abbreviation contents :: "(undo_flags \<times> nat \<times> 'd) list \<Rightarrow> (undo_flags \<times> 'd) list" where
  "contents es \<equiv> map (\<lambda>(ty, len, x). (ty, x)) es"

lemma laid_out_le: "laid_out memory start es end' \<Longrightarrow> start \<le> end'"
  by (induction memory start es end' rule: laid_out.induct) auto

text \<open>How far a run gets.\<close>

fun run_length :: "('d, 's) undo_callback \<Rightarrow> (undo_flags \<times> 'd) list \<Rightarrow> 's \<Rightarrow> nat" where
  "run_length callback [] s = 0"
| "run_length callback ((ty, x) # items) s =
     (case callback ty x s of (Some e, s') \<Rightarrow> 1 | (None, s') \<Rightarrow> Suc (run_length callback items s'))"

text \<open>The position behind the header of an entry.\<close>

fun stop_at :: "nat \<Rightarrow> (undo_flags \<times> nat \<times> 'd) list \<Rightarrow> nat \<Rightarrow> nat" where
  "stop_at start ((ty, len, x) # es) (Suc (Suc n)) = stop_at (start + undo_entry_header_size + len) es (Suc n)"
| "stop_at start es n = start + undo_entry_header_size"

lemma stop_at_gt: "start < stop_at start es n"
proof (induction start es n rule: stop_at.induct)
  case (1 start ty len x es n)
  then show ?case by (metis add_lessD1 stop_at.simps(1))
qed (simp_all add: undo_entry_header_size_def)

lemma run_length_pos: "fst (run_entries callback items s) \<noteq> None \<Longrightarrow> 0 < run_length callback items s"
  by (induction callback items s rule: run_entries.induct) (auto split: prod.splits option.splits)

lemma run_length_le: "run_length callback items s \<le> length items"
  by (induction callback items s rule: run_length.induct) (auto split: prod.splits option.splits)

lemma iterate_block_laid_out:
  assumes "laid_out memory start es end'"
  shows "iterate_block callback memory start end' s =
    (let r = run_entries callback (contents es) s in
     (fst r, if fst r = None then end' else stop_at start es (run_length callback (contents es) s), snd r))"
  using assms
proof (induction es arbitrary: start s)
  case Nil
  then show ?case by (simp add: iterate_block.simps)
next
  case (Cons e es)
  obtain ty len x where e: "e = (ty, len, x)" by (cases e)
  have m: "memory start = Some (ty, len, x)" and rest: "laid_out memory (start + undo_entry_header_size + len) es end'"
    using Cons.prems e by auto
  have lt: "start < end'" using laid_out_le [OF rest] by (simp add: undo_entry_header_size_def)
  obtain err s' where cb: "callback ty x s = (err, s')" by fastforce
  show ?case
  proof (cases err)
    case None
    have "stop_at start (e # es) (Suc n) = stop_at (start + undo_entry_header_size + len) es n" if "0 < n" for n
      using that by (cases n) (simp_all add: e)
    then have "stop_at start (e # es) (Suc (run_length callback (contents es) s')) =
        stop_at (start + undo_entry_header_size + len) es (run_length callback (contents es) s')"
      if "fst (run_entries callback (contents es) s') \<noteq> None"
      using run_length_pos [OF that] by simp
    then show ?thesis using Cons.IH [OF rest, of s'] lt m cb None by (simp add: iterate_block.simps [of _ _ start] e Let_def)
  next
    case (Some er)
    then show ?thesis using lt m cb by (simp add: iterate_block.simps [of _ _ start] e)
  qed
qed

lemma iterate_block_stop:
  assumes "laid_out memory start es end'" and "0 < n" and "n \<le> length es"
  shows "\<exists>pos. iterate_block callback memory start (stop_at start es n) s =
    (fst (run_entries callback (take n (contents es)) s), pos, snd (run_entries callback (take n (contents es)) s))"
  using assms
proof (induction es arbitrary: start s n)
  case (Cons e es)
  obtain ty len x where e: "e = (ty, len, x)" by (cases e)
  have m: "memory start = Some (ty, len, x)" and rest: "laid_out memory (start + undo_entry_header_size + len) es end'"
    using Cons.prems e by auto
  obtain err s' where cb: "callback ty x s = (err, s')" by fastforce
  show ?case
  proof (cases "n = 1")
    case True
    have past: "iterate_block callback memory (start + undo_entry_header_size + len) (start + undo_entry_header_size) s' =
        (None, start + undo_entry_header_size + len, s')"
      by (simp add: iterate_block.simps)
    show ?thesis unfolding True using m cb past
      by (cases err) (simp_all add: e iterate_block.simps [of _ _ start], simp_all add: undo_entry_header_size_def)
  next
    case False
    then obtain n' where n: "n = Suc (Suc n')" using Cons.prems(2) by (metis One_nat_def Suc_pred not0_implies_Suc old.nat.exhaust)
    have lt: "start < stop_at (start + undo_entry_header_size + len) es (Suc n')" using stop_at_gt [of start "e # es" n] by (simp add: e n)
    from Cons.IH [OF rest, of "Suc n'" s'] Cons.prems(3) n show ?thesis
      using m cb lt by (cases err) (auto simp: e n iterate_block.simps [of _ _ start])
  qed
qed simp

lemma block_nodes_laid_out: "laid_out memory start es end' \<Longrightarrow> block_nodes memory start end' = contents es"
proof (induction es arbitrary: start)
  case (Cons e es)
  obtain ty len x where e: "e = (ty, len, x)" by (cases e)
  have rest: "laid_out memory (start + undo_entry_header_size + len) es end'" using Cons.prems e by auto
  then have "start < end'" using laid_out_le [OF rest] by (simp add: undo_entry_header_size_def)
  then show ?case using Cons.IH [OF rest] Cons.prems by (simp add: e block_nodes.simps [of _ start])
qed (simp add: block_nodes.simps)

text \<open>The entries of a buffer, with the invariant of its blocks: positions are multiples of eight, and no block is
  filled beyond its capacity.\<close>

definition block_ok :: "'d undo_block \<Rightarrow> (undo_flags \<times> nat \<times> 'd) list \<Rightarrow> bool" where
  "block_ok b es \<longleftrightarrow> laid_out (ub_data b) 0 es (ub_position b) \<and> ub_position b \<le> ub_capacity b \<and> ub_capacity b \<le> 2 ^ 63 \<and> 8 dvd ub_position b \<and>
     (\<forall>p e. ub_data b p = Some e \<longrightarrow> p + undo_entry_header_size + fst (snd e) \<le> ub_position b)"

definition buffer_ok :: "'d undo_block list \<Rightarrow> (undo_flags \<times> 'd) list \<Rightarrow> bool" where
  "buffer_ok blocks items \<longleftrightarrow> (\<exists>ess. list_all2 block_ok (rev blocks) ess \<and> items = contents (concat ess))"

lemma run_entries_append:
  "run_entries callback (xs @ ys) s =
    (case run_entries callback xs s of (Some e, s') \<Rightarrow> (Some e, s') | (None, s') \<Rightarrow> run_entries callback ys s')"
  by (induction callback xs s rule: run_entries.induct) (auto split: prod.splits option.splits)

lemma run_length_append:
  "run_length callback (xs @ ys) s =
    (case run_entries callback xs s of (Some e, s') \<Rightarrow> run_length callback xs s | (None, s') \<Rightarrow> length xs + run_length callback ys s')"
  by (induction callback xs s rule: run_entries.induct) (auto split: prod.splits option.splits)

lemma iterate_blocks_run:
  fixes callback :: "('d, 's) undo_callback"
  assumes "list_all2 block_ok bs ess"
  shows "\<exists>it. iterate_blocks callback k bs s = (fst (run_entries callback (contents (concat ess)) s), it, snd (run_entries callback (contents (concat ess)) s)) \<and>
    (it_current it = None \<longleftrightarrow> fst (run_entries callback (contents (concat ess)) s) = None) \<and> (\<forall>j. it_current it = Some j \<longrightarrow> k \<le> j) \<and>
    (\<forall>(cb :: ('d, 't) undo_callback) s2. iterate_blocks_until cb it k bs s2 =
      run_entries cb (if it_current it = None then contents (concat ess) else take (run_length callback (contents (concat ess)) s) (contents (concat ess))) s2)"
  using assms
proof (induction bs ess arbitrary: k s rule: list_all2_induct)
  case Nil
  then show ?case by (simp add: new_iterator_state_def)
next
  case (Cons b bs es ess)
  have laid: "laid_out (ub_data b) 0 es (ub_position b)" using Cons.hyps(1) by (simp add: block_ok_def)
  note it = iterate_block_laid_out [OF laid]
  obtain err s' where r: "run_entries callback (contents es) s = (err, s')" by fastforce
  show ?case
  proof (cases err)
    case (Some e)
    have n: "0 < run_length callback (contents es) s" "run_length callback (contents es) s \<le> length es"
      using run_length_pos [of callback "contents es" s] run_length_le [of callback "contents es" s] r Some by simp_all
    let ?it = "\<lparr>it_current = Some k, it_start = stop_at 0 es (run_length callback (contents es) s)\<rparr>"
    have "iterate_blocks_until cb ?it k (b # bs) s2 = run_entries cb (take (run_length callback (contents es) s) (contents es)) s2" for cb :: "('d, 't) undo_callback" and s2
    proof -
      obtain pos where p: "iterate_block cb (ub_data b) 0 (stop_at 0 es (run_length callback (contents es) s)) s2 =
          (fst (run_entries cb (take (run_length callback (contents es) s) (contents es)) s2), pos,
           snd (run_entries cb (take (run_length callback (contents es) s) (contents es)) s2))"
        using iterate_block_stop [OF laid n, of cb s2] by blast
      then show ?thesis by (cases "run_entries cb (take (run_length callback (contents es) s) (contents es)) s2") (auto split: option.splits)
    qed
    then show ?thesis using it [of callback s] r Some n(2)
      by (intro exI [of _ ?it]) (simp add: run_entries_append run_length_append Let_def)
  next
    case None
    from Cons.IH [of "Suc k" s'] obtain i where i: "iterate_blocks callback (Suc k) bs s' =
        (fst (run_entries callback (contents (concat ess)) s'), i, snd (run_entries callback (contents (concat ess)) s'))"
      "it_current i = None \<longleftrightarrow> fst (run_entries callback (contents (concat ess)) s') = None" "\<forall>j. it_current i = Some j \<longrightarrow> Suc k \<le> j"
      "\<forall>(cb :: ('d, 't) undo_callback) s2. iterate_blocks_until cb i (Suc k) bs s2 =
        run_entries cb (if it_current i = None then contents (concat ess) else take (run_length callback (contents (concat ess)) s') (contents (concat ess))) s2"
      by (elim exE conjE) (rule that)
    have ne: "it_current i \<noteq> Some k" using i(3) by auto
    have "iterate_blocks_until cb i k (b # bs) s2 =
        run_entries cb (contents es @ (if it_current i = None then contents (concat ess) else take (run_length callback (contents (concat ess)) s') (contents (concat ess)))) s2"
      for cb :: "('d, 't) undo_callback" and s2
      using it [of cb s2] ne i(4) by (cases "run_entries cb (contents es) s2") (auto simp: run_entries_append Let_def split: option.splits)
    then show ?thesis using it [of callback s] r None i(1,2) i(3) Suc_leD
      by (intro exI [of _ i]) (auto simp: run_entries_append run_length_append Let_def)
  qed
qed

text \<open>What a reference points to.\<close>

definition undo_load :: "'d undo_block list \<Rightarrow> nat \<times> idx_t \<Rightarrow> (undo_flags \<times> 'd) option" where
  "undo_load blocks ref =
     (if fst ref < length blocks
      then map_option (\<lambda>(ty, len, x). (ty, x)) (ub_data (rev blocks ! fst ref) (snd ref - undo_entry_header_size)) else None)"

lemma store_entry_same [simp]: "store_entry p e memory p = Some e"
  by (simp add: store_entry_def)

lemma store_entry_before:
  "memory p = Some old \<Longrightarrow> p + undo_entry_header_size + fst (snd old) \<le> pos \<Longrightarrow> store_entry pos e memory p = Some old"
  by (auto simp: store_entry_def undo_entry_header_size_def)

lemma laid_out_store: "laid_out memory start es end' \<Longrightarrow> end' \<le> p \<Longrightarrow> laid_out (store_entry p v memory) start es end'"
proof (induction es arbitrary: start)
  case (Cons e es)
  obtain ty len x where e: "e = (ty, len, x)" by (cases e)
  have rest: "laid_out memory (start + undo_entry_header_size + len) es end'" using Cons.prems e by auto
  then have "start + undo_entry_header_size + len \<le> p" using laid_out_le [OF rest] Cons.prems(2) by simp
  then show ?case using Cons.IH [OF rest] Cons.prems by (simp add: e store_entry_def undo_entry_header_size_def)
qed simp

lemma laid_out_append:
  "laid_out memory start es mid \<Longrightarrow> laid_out memory mid fs end' \<Longrightarrow> laid_out memory start (es @ fs) end'"
  by (induction memory start es mid rule: laid_out.induct) auto

lemma laid_out_snoc:
  "laid_out memory start es end' \<Longrightarrow> laid_out (store_entry end' (ty, len, x) memory) start (es @ [(ty, len, x)]) (end' + undo_entry_header_size + len)"
  by (rule laid_out_append [OF laid_out_store [OF _ order_refl]]) simp_all

lemma align_value_bounds:
  assumes "n < 2 ^ 33"
  shows "8 dvd align_value n" and "n \<le> align_value n" and "align_value n < n + 8"
  using assms by (simp_all add: align_value_def)

lemma block_capacity_ok:
  assumes "0 < alloc_len" and "alloc_len < 2 ^ 33" and "block_size \<le> 2 ^ 63"
  shows "\<exists>capacity. block_capacity block_size alloc_len has_head = Inr capacity \<and> alloc_len \<le> capacity \<and> capacity \<le> 2 ^ 63"
proof -
  have u: "unat (of_nat alloc_len :: 64 word) = alloc_len" using assms(2) by (simp add: unat_of_nat)
  then have pos: "0 < (of_nat alloc_len :: 64 word)" using assms(1) by (simp add: word_gt_0 unat_eq_zero [symmetric] del: unat_eq_zero)
  have "\<exists>w. next_power_of_two (of_nat alloc_len) = Inr w \<and> alloc_len \<le> unat w \<and> unat w \<le> 2 ^ 63"
  proof (cases "next_power_of_two (of_nat alloc_len)")
    case (Inl e)
    then show ?thesis using next_power_of_two_least [OF pos] assms(2) by (simp add: u)
  next
    case (Inr w)
    then obtain k where "k < 64" "unat w = 2 ^ k" "alloc_len \<le> 2 ^ k" using next_power_of_two_least [OF pos] by (auto simp: u)
    moreover from this have "(2 :: nat) ^ k \<le> 2 ^ 63" by (intro power_increasing) simp_all
    ultimately show ?thesis using Inr by simp
  qed
  then show ?thesis using assms(3) by (auto simp: block_capacity_def Let_def)
qed

lemma block_ok_snoc:
  assumes "block_ok b es" and "alloc_len = undo_entry_header_size + len" and "8 dvd alloc_len" and "ub_position b + alloc_len \<le> ub_capacity b"
  shows "block_ok (b\<lparr>ub_position := ub_position b + alloc_len, ub_data := store_entry (ub_position b) (ty, len, x) (ub_data b)\<rparr>) (es @ [(ty, len, x)])"
  using assms laid_out_snoc [of "ub_data b" 0 es "ub_position b" ty len x]
  by (auto simp: block_ok_def add.assoc store_entry_def undo_entry_header_size_def split: if_splits option.splits) fastforce+

text \<open>The buffer after one more entry, which is at the end of the block \<open>b\<close> in front.\<close>

lemma buffer_snoc:
  assumes "buffer_ok blocks items" and "blocks = b # bs \<or> blocks = bs \<and> b = \<lparr>ub_position = 0, ub_capacity = capacity, ub_data = Map.empty\<rparr> \<and> capacity \<le> 2 ^ 63"
    and "alloc_len = undo_entry_header_size + len" and "8 dvd alloc_len" and "ub_position b + alloc_len \<le> ub_capacity b"
    and "b' = b\<lparr>ub_position := ub_position b + alloc_len, ub_data := store_entry (ub_position b) (ty, len, x) (ub_data b)\<rparr>"
    and "ref = (length bs, ub_position b + undo_entry_header_size)"
  shows "buffer_ok (b' # bs) (items @ [(ty, x)])" and "undo_load (b' # bs) ref = Some (ty, x)" and "8 dvd snd ref"
    and "undo_load blocks r = Some y \<Longrightarrow> undo_load (b' # bs) r = Some y \<and> r \<noteq> ref"
    and "ub_data b' p = Some e \<Longrightarrow> p \<noteq> ub_position b \<Longrightarrow> p + undo_entry_header_size + fst (snd e) \<le> ub_position b"
proof -
  have "\<exists>ess es. list_all2 block_ok (rev bs) ess \<and> block_ok b es \<and> items = contents (concat ess @ es)"
    using assms(2)
  proof
    assume "blocks = b # bs"
    then obtain ess where l: "list_all2 block_ok (rev bs @ [b]) ess" "items = contents (concat ess)" using assms(1) by (auto simp: buffer_ok_def)
    obtain us vs where uv: "ess = us @ vs" "list_all2 block_ok (rev bs) us" "list_all2 block_ok [b] vs"
      using l(1) unfolding list_all2_append1 by blast
    obtain es where "vs = [es]" "block_ok b es" using uv(3) by (auto simp: list_all2_Cons1)
    then show ?thesis using uv l(2) by auto
  next
    assume new: "blocks = bs \<and> b = \<lparr>ub_position = 0, ub_capacity = capacity, ub_data = Map.empty\<rparr> \<and> capacity \<le> 2 ^ 63"
    then obtain ess where "list_all2 block_ok (rev bs) ess" "items = contents (concat ess)" using assms(1) by (auto simp: buffer_ok_def)
    moreover have "block_ok b []" using new by (simp add: block_ok_def)
    ultimately show ?thesis by (intro exI [of _ ess] exI [of _ "[]"]) simp
  qed
  then obtain ess es where l: "list_all2 block_ok (rev bs) ess" "block_ok b es" "items = contents (concat ess @ es)" by blast
  have b': "block_ok b' (es @ [(ty, len, x)])" unfolding assms(6) by (rule block_ok_snoc [OF l(2) assms(3-5)])
  have "list_all2 block_ok (rev (b' # bs)) (ess @ [es @ [(ty, len, x)]])" using l(1) b' by (simp add: list_all2_appendI)
  then show "buffer_ok (b' # bs) (items @ [(ty, x)])" unfolding buffer_ok_def l(3) by fastforce
  have nth: "(rev bs @ [c]) ! length bs = c" for c by (metis length_rev nth_append_length)
  show "undo_load (b' # bs) ref = Some (ty, x)" by (simp add: undo_load_def assms(6,7) nth)
  show "8 dvd snd ref" using l(2) by (auto simp: assms(7) block_ok_def undo_entry_header_size_def)
  show "undo_load (b' # bs) r = Some y \<and> r \<noteq> ref" if y: "undo_load blocks r = Some y"
  proof (cases "fst r < length bs")
    case True
    then have "rev blocks ! fst r = rev bs ! fst r" "fst r < length (rev bs)" using assms(2) by (auto simp: nth_append)
    then show ?thesis using y True by (auto simp: undo_load_def assms(7) nth_append split: if_splits)
  next
    case False
    have "blocks \<noteq> bs" using False y by (auto simp: undo_load_def split: if_splits)
    then have blocks: "blocks = b # bs" using assms(2) by blast
    then have f: "fst r = length bs" using False y by (auto simp: undo_load_def split: if_splits)
    obtain old where old: "ub_data b (snd r - undo_entry_header_size) = Some old" "(\<lambda>(ty, len, x). (ty, x)) old = y"
      using y f by (auto simp: undo_load_def blocks nth)
    then have end': "snd r - undo_entry_header_size + undo_entry_header_size + fst (snd old) \<le> ub_position b" using l(2) unfolding block_ok_def by blast
    then have "snd r - undo_entry_header_size < ub_position b" by (simp add: undo_entry_header_size_def)
    moreover note store_entry_before [of "ub_data b", OF old(1) end', where e = "(ty, len, x)"]
    moreover obtain p where "r = (length bs, p)" using f by (cases r) auto
    ultimately show ?thesis using old(2) by (auto simp: undo_load_def assms(6,7) nth)
  qed
  show "p + undo_entry_header_size + fst (snd e) \<le> ub_position b" if "ub_data b' p = Some e" "p \<noteq> ub_position b"
    using that l(2) by (auto simp: assms(6) store_entry_def block_ok_def split: option.splits if_splits)
qed

lemma create_entry_ok:
  assumes "buffer_ok blocks items" and "len < 2 ^ 32 - 16" and "block_size \<le> 2 ^ 63"
  shows "\<exists>blocks' ref. create_entry block_size ty len x blocks = Inr (blocks', ref) \<and> buffer_ok blocks' (items @ [(ty, x)]) \<and>
    undo_load blocks' ref = Some (ty, x) \<and> (\<forall>r y. undo_load blocks r = Some y \<longrightarrow> undo_load blocks' r = Some y \<and> r \<noteq> ref) \<and>
    8 dvd snd ref \<and> fst ref < length blocks' \<and>
    (\<exists>n. ub_data (rev blocks' ! fst ref) (snd ref - undo_entry_header_size) = Some (ty, n, x) \<and> len \<le> n \<and> snd ref + n \<le> ub_capacity (rev blocks' ! fst ref)) \<and>
    undo_entry_header_size \<le> snd ref \<and>
    (\<forall>p e. ub_data (rev blocks' ! fst ref) p = Some e \<and> p \<noteq> snd ref - undo_entry_header_size \<longrightarrow>
      p + undo_entry_header_size + fst (snd e) \<le> snd ref - undo_entry_header_size)"
proof -
  define alloc_len where "alloc_len = align_value (idx_add len undo_entry_header_size)"
  have add: "idx_add len undo_entry_header_size = len + 8" using assms(2) by (simp add: undo_entry_header_size_def)
  have a: "8 dvd alloc_len" "len + 8 \<le> alloc_len" "alloc_len < len + 16"
    using align_value_bounds [of "len + 8"] assms(2) unfolding alloc_len_def add by simp_all
  have stored: "(alloc_len - undo_entry_header_size) mod 2 ^ 32 = alloc_len - undo_entry_header_size" using a assms(2) by simp
  have split: "alloc_len = undo_entry_header_size + (alloc_len - undo_entry_header_size)" using a(2) by (simp add: undo_entry_header_size_def)
  have "\<exists>b bs capacity. (blocks = b # bs \<or> blocks = bs \<and> b = \<lparr>ub_position = 0, ub_capacity = capacity, ub_data = Map.empty\<rparr> \<and> capacity \<le> 2 ^ 63) \<and>
      ub_position b + alloc_len \<le> ub_capacity b \<and>
      undo_allocate block_size alloc_len blocks = Inr (b\<lparr>ub_position := ub_position b + alloc_len\<rparr> # bs, ub_position b)"
  proof -
    have "0 < alloc_len" "alloc_len < 2 ^ 33" using a assms(2) by auto
    then obtain capacity where cap: "block_capacity block_size alloc_len (blocks \<noteq> []) = Inr capacity" "alloc_len \<le> capacity" "capacity \<le> 2 ^ 63"
      using block_capacity_ok [of alloc_len block_size] assms(3) by blast
    show ?thesis
    proof (cases "blocks \<noteq> [] \<and> ub_position (hd blocks) + alloc_len \<le> ub_capacity (hd blocks)")
      case True
      then obtain b bs where blocks: "blocks = b # bs" by (cases blocks) auto
      obtain ess where "list_all2 block_ok (rev bs @ [b]) ess" using assms(1) blocks by (auto simp: buffer_ok_def)
      then have "\<exists>es. block_ok b es" by (auto simp: list_all2_append1 list_all2_Cons1)
      then have "ub_capacity b \<le> 2 ^ 63" by (auto simp: block_ok_def)
      then have "idx_add (ub_position b) alloc_len = ub_position b + alloc_len" using True blocks by (intro idx_add_small) simp
      then show ?thesis using True by (intro exI [of _ b] exI [of _ bs]) (simp add: undo_allocate_def blocks)
    next
      case False
      have "undo_allocate block_size alloc_len blocks = Inr (\<lparr>ub_position = alloc_len, ub_capacity = capacity, ub_data = Map.empty\<rparr> # blocks, 0)"
      proof (cases blocks)
        case (Cons b bs)
        obtain ess where "list_all2 block_ok (rev bs @ [b]) ess" using assms(1) Cons by (auto simp: buffer_ok_def)
        then have "\<exists>es. block_ok b es" by (auto simp: list_all2_append1 list_all2_Cons1)
        then have "ub_position b \<le> 2 ^ 63" by (auto simp: block_ok_def)
        then have "idx_add (ub_position b) alloc_len = ub_position b + alloc_len" using a assms(2) by (intro idx_add_small) simp
        then show ?thesis using False cap(1) Cons by (simp add: undo_allocate_def)
      qed (use cap(1) in \<open>simp add: undo_allocate_def\<close>)
      then show ?thesis using cap by (intro exI [of _ "\<lparr>ub_position = 0, ub_capacity = capacity, ub_data = Map.empty\<rparr>"] exI [of _ blocks]) auto
    qed
  qed
  then obtain b bs capacity where b: "blocks = b # bs \<or> blocks = bs \<and> b = \<lparr>ub_position = 0, ub_capacity = capacity, ub_data = Map.empty\<rparr> \<and> capacity \<le> 2 ^ 63"
      "ub_position b + alloc_len \<le> ub_capacity b"
      "undo_allocate block_size alloc_len blocks = Inr (b\<lparr>ub_position := ub_position b + alloc_len\<rparr> # bs, ub_position b)" by blast
  define b' where "b' = b\<lparr>ub_position := ub_position b + alloc_len, ub_data := store_entry (ub_position b) (ty, alloc_len - undo_entry_header_size, x) (ub_data b)\<rparr>"
  have create: "create_entry block_size ty len x blocks = Inr (b' # bs, (length bs, ub_position b + undo_entry_header_size))"
    using b(3) stored by (simp add: create_entry_def Let_def b'_def flip: alloc_len_def)
  note s = buffer_snoc [OF assms(1) b(1) split a(1) b(2) b'_def refl]
  have nth: "rev (b' # bs) ! length bs = b'" by (metis length_rev nth_append_length rev.simps(2))
  let ?ref = "(length bs, ub_position b + undo_entry_header_size)"
  have "\<exists>n. ub_data b' (ub_position b) = Some (ty, n, x) \<and> len \<le> n \<and> snd ?ref + n \<le> ub_capacity b'"
    using b(2) a(2) by (simp add: b'_def undo_entry_header_size_def)
  then show ?thesis using create s nth by (intro exI [of _ "b' # bs"] exI [of _ ?ref]) simp
qed

section \<open>Properties\<close>

fun create_entries :: "idx_t \<Rightarrow> (undo_flags \<times> idx_t \<times> 'd) list \<Rightarrow> 'd undo_block list \<Rightarrow> 'd undo_block list result" where
  "create_entries block_size [] blocks = Inr blocks"
| "create_entries block_size ((ty, len, x) # es) blocks =
     result_bind (create_entry block_size ty len x blocks) (\<lambda>(blocks', ref). create_entries block_size es blocks')"

lemma buffer_ok_Nil: "buffer_ok [] []"
  by (simp add: buffer_ok_def)

lemma create_entries_ok:
  assumes "buffer_ok blocks items" and "\<forall>e \<in> set es. fst (snd e) < 2 ^ 32 - 16" and "block_size \<le> 2 ^ 63"
  shows "\<exists>blocks'. create_entries block_size es blocks = Inr blocks' \<and> buffer_ok blocks' (items @ contents es)"
  using assms(1,2)
proof (induction es arbitrary: blocks items)
  case (Cons e es)
  obtain ty len x where e: "e = (ty, len, x)" by (cases e)
  have "len < 2 ^ 32 - 16" using Cons.prems(2) e by simp
  from create_entry_ok [OF Cons.prems(1) this assms(3), of ty x] obtain blocks1 ref where
    one: "create_entry block_size ty len x blocks = Inr (blocks1, ref)" "buffer_ok blocks1 (items @ [(ty, x)])" by blast
  from Cons.IH [OF one(2)] Cons.prems(2) show ?case using one(1) by (auto simp: e)
qed simp

lemma iterate_entries_run:
  assumes "buffer_ok blocks items"
  shows "\<exists>it. iterate_entries callback blocks s = (fst (run_entries callback items s), it, snd (run_entries callback items s)) \<and>
    (\<forall>cb s2. iterate_entries_until cb it blocks s2 =
      run_entries cb (if fst (run_entries callback items s) = None then items else take (run_length callback items s) items) s2)"
proof -
  obtain ess where l: "list_all2 block_ok (rev blocks) ess" "items = contents (concat ess)" using assms by (auto simp: buffer_ok_def)
  from iterate_blocks_run [OF l(1), of callback 0 s] show ?thesis
    unfolding iterate_entries_def iterate_entries_until_def l(2) by (elim exE conjE) (intro exI conjI, assumption, simp)
qed

lemma reverse_iterate_run:
  assumes "buffer_ok blocks items"
  shows "reverse_iterate_entries callback blocks s = run_entries callback (rev items) s"
proof -
  obtain ess where l: "list_all2 block_ok (rev blocks) ess" "items = contents (concat ess)" using assms by (auto simp: buffer_ok_def)
  have "map (\<lambda>b. block_nodes (ub_data b) 0 (ub_position b)) bs = map contents fss" if "list_all2 block_ok bs fss" for bs :: "'a undo_block list" and fss
    using that by (induction rule: list_all2_induct) (auto simp: block_ok_def dest: block_nodes_laid_out)
  from this [OF l(1)] have "map (\<lambda>b. block_nodes (ub_data b) 0 (ub_position b)) blocks = rev (map contents ess)"
    by (metis rev_map rev_rev_ident)
  then have "concat (map (\<lambda>b. rev (block_nodes (ub_data b) 0 (ub_position b))) blocks) = rev (contents (concat ess))"
    by (simp add: rev_concat map_concat flip: rev_map) (metis (no_types, lifting) comp_def list.map_comp map_eq_conv rev_map)
  then show ?thesis unfolding reverse_iterate_entries_def l(2) by simp
qed

text \<open>C21. The entries of an undo buffer are visited in the order of their creation, and backwards in the reverse order, for every
  sequence of entries and every size of the blocks; creating them succeeds.\<close>

theorem undo_iteration_order:
  assumes "\<forall>e \<in> set es. fst (snd e) < 2 ^ 32 - 16" and "block_size \<le> 2 ^ 63"
  shows "\<exists>blocks it. create_entries block_size es [] = Inr blocks \<and>
    iterate_entries callback blocks s = (fst (run_entries callback (contents es) s), it, snd (run_entries callback (contents es) s)) \<and>
    reverse_iterate_entries callback blocks s = run_entries callback (rev (contents es)) s"
proof -
  obtain blocks where b: "create_entries block_size es [] = Inr blocks" "buffer_ok blocks (contents es)"
    using create_entries_ok [OF buffer_ok_Nil assms] by auto
  show ?thesis using b(1) iterate_entries_run [OF b(2), of callback s] reverse_iterate_run [OF b(2), of callback s] by blast
qed

definition collect :: "undo_flags \<Rightarrow> nat \<Rightarrow> nat list \<Rightarrow> duck_error option \<times> nat list" where
  "collect ty x s = (None, x # s)"

theorem undo_iteration_order_witness:
  "\<exists>blocks it. create_entries 262144 [(INSERT_TUPLE, 24, 1), (DELETE_TUPLE, 5000, 2), (INSERT_TUPLE, 24, 3)] [] = Inr blocks \<and>
    iterate_entries collect blocks [] = (None, it, [3, 2, 1]) \<and> reverse_iterate_entries collect blocks [] = (None, [1, 2, 3])"
  using undo_iteration_order [of "[(INSERT_TUPLE, 24, 1), (DELETE_TUPLE, 5000, 2), (INSERT_TUPLE, 24, 3)]" 262144 collect "[]"]
  by (simp add: collect_def)

text \<open>C22. A new entry gets memory of its own: its data is aligned, has at least the length asked for and lies within the capacity of its
  block; the bytes of every other entry of the block end before the header of the new one; the entry is found again
  through the reference, and nothing that an earlier reference points to is overwritten.\<close>

theorem undo_entry_memory:
  assumes "\<forall>e \<in> set es. fst (snd e) < 2 ^ 32 - 16" and "block_size \<le> 2 ^ 63" and "len < 2 ^ 32 - 16"
  shows "\<exists>blocks blocks' ref. create_entries block_size es [] = Inr blocks \<and> create_entry block_size ty len x blocks = Inr (blocks', ref) \<and>
    8 dvd snd ref \<and> fst ref < length blocks' \<and>
    (\<exists>n. ub_data (rev blocks' ! fst ref) (snd ref - undo_entry_header_size) = Some (ty, n, x) \<and> len \<le> n \<and> snd ref + n \<le> ub_capacity (rev blocks' ! fst ref)) \<and>
    undo_entry_header_size \<le> snd ref \<and>
    (\<forall>p e. ub_data (rev blocks' ! fst ref) p = Some e \<and> p \<noteq> snd ref - undo_entry_header_size \<longrightarrow>
      p + undo_entry_header_size + fst (snd e) \<le> snd ref - undo_entry_header_size) \<and>
    undo_load blocks' ref = Some (ty, x) \<and> (\<forall>r y. undo_load blocks r = Some y \<longrightarrow> r \<noteq> ref \<and> undo_load blocks' r = Some y)"
proof -
  obtain blocks where b: "create_entries block_size es [] = Inr blocks" "buffer_ok blocks (contents es)"
    using create_entries_ok [OF buffer_ok_Nil assms(1,2)] by auto
  from create_entry_ok [OF b(2) assms(3,2), of ty x] b(1) show ?thesis by blast
qed

theorem undo_entry_memory_witness:
  "\<exists>blocks blocks' ref. create_entries 262144 [(INSERT_TUPLE, 24, 1)] [] = Inr blocks \<and>
    create_entry 262144 DELETE_TUPLE 300000 2 blocks = Inr (blocks', ref) \<and> undo_load blocks' ref = Some (DELETE_TUPLE, 2 :: nat)"
  using undo_entry_memory [of "[(INSERT_TUPLE, 24, 1 :: nat)]" 262144 300000 DELETE_TUPLE 2] by fastforce

text \<open>The reversal of a commit walks over the right entries: when the walk of the commit stops at an exception, the
  walk back to that state visits exactly the entries up to the one that failed, that one included; after a walk
  without an exception it visits all of them.\<close>

theorem undo_revert_range:
  assumes "\<forall>e \<in> set es. fst (snd e) < 2 ^ 32 - 16" and "block_size \<le> 2 ^ 63"
  shows "\<exists>blocks it s'. create_entries block_size es [] = Inr blocks \<and>
    iterate_entries callback blocks s = (fst (run_entries callback (contents es) s), it, s') \<and>
    iterate_entries_until cb it blocks s2 =
      run_entries cb (if fst (run_entries callback (contents es) s) = None then contents es
                      else take (run_length callback (contents es) s) (contents es)) s2"
proof -
  obtain blocks where b: "create_entries block_size es [] = Inr blocks" "buffer_ok blocks (contents es)"
    using create_entries_ok [OF buffer_ok_Nil assms] by auto
  from iterate_entries_run [OF b(2), of callback s] obtain it where
    "iterate_entries callback blocks s = (fst (run_entries callback (contents es) s), it, snd (run_entries callback (contents es) s))"
    "iterate_entries_until cb it blocks s2 =
      run_entries cb (if fst (run_entries callback (contents es) s) = None then contents es
                      else take (run_length callback (contents es) s) (contents es)) s2"
    by (elim exE conjE) (erule that, erule allE, erule allE, assumption)
  then show ?thesis using b(1) by blast
qed

definition refuse_two :: "undo_flags \<Rightarrow> nat \<Rightarrow> nat list \<Rightarrow> duck_error option \<times> nat list" where
  "refuse_two ty x s = (if x = 2 then (Some (TransactionException ''two''), s) else (None, x # s))"

theorem undo_revert_range_witness:
  "\<exists>blocks it s'. create_entries 262144 [(INSERT_TUPLE, 24, 1), (DELETE_TUPLE, 5000, 2), (INSERT_TUPLE, 24, 3)] [] = Inr blocks \<and>
    iterate_entries refuse_two blocks [] = (Some (TransactionException ''two''), it, s') \<and>
    iterate_entries_until collect it blocks [] = (None, [2, 1])"
  using undo_revert_range [of "[(INSERT_TUPLE, 24, 1), (DELETE_TUPLE, 5000, 2), (INSERT_TUPLE, 24, 3)]" 262144 refuse_two "[]" collect "[]"]
  by (simp add: collect_def refuse_two_def)

end
