(* ===== verification/UndoCommit.thy ===== *)
theory UndoCommit
  imports UndoBuffer TransactionManager UpdateSegment
begin

text \<open>
  The entries of an undo buffer: how a transaction writes them (\<^verbatim>\<open>src/transaction/duck_transaction.cpp\<close>) and what commit, the
  reversal of a commit, rollback and cleanup do with them (\<^verbatim>\<open>commit_state.cpp\<close>, \<^verbatim>\<open>rollback_state.cpp\<close>,
  \<^verbatim>\<open>cleanup_state.cpp\<close>). Deletes act on row version managers and updates on update segments, which an
  entry names by number. Catalog sets, the appends of tables, indexes and attached databases
  are the part \<open>ust_rest\<close> of the state, and their operations are the argument \<open>env\<close>. That a transaction
  writes to a table keeps the table alive and is not modelled further.
\<close>

section \<open>Entries\<close>

datatype 'c undo_data =
    CatalogData 'c
  | AppendData (ad_table: nat) (ad_start_row: nat) (ad_count: nat)
  | DeleteData (dd_table: nat) (dd_version_info: nat) (dd_vector_idx: nat) (dd_base_row: nat) (dd_info: delete_info)
  | UpdateData (ud_table: nat) (ud_segment: nat) (ud_info: nat)
  | SequenceData
  | AttachedData nat

record ('v, 'o) undo_store =
  ust_segments :: "nat \<Rightarrow> 'v update_segment"
  ust_versions :: "nat \<Rightarrow> row_version_manager"
  ust_rest :: 'o

record ('c, 'o) undo_env =
  ue_is_main_table :: "nat \<Rightarrow> bool"
  ue_conflict_message :: "nat \<Rightarrow> string"
  ue_has_indexes :: "nat \<Rightarrow> bool"
  ue_catalog_size :: "'c \<Rightarrow> nat"
  ue_catalog_dropped :: "'c \<Rightarrow> bool"
  ue_commit_catalog :: "transaction_t \<Rightarrow> 'c \<Rightarrow> 'o \<Rightarrow> duck_error option \<times> 'o"
  ue_revert_catalog :: "transaction_t \<Rightarrow> 'c \<Rightarrow> 'o \<Rightarrow> 'o"
  ue_undo_catalog :: "'c \<Rightarrow> 'o \<Rightarrow> duck_error option \<times> 'o"
  ue_cleanup_catalog :: "'c \<Rightarrow> 'o \<Rightarrow> 'o"
  ue_commit_append :: "transaction_t \<Rightarrow> nat \<Rightarrow> nat \<Rightarrow> nat \<Rightarrow> 'o \<Rightarrow> 'o"
  ue_revert_append :: "nat \<Rightarrow> nat \<Rightarrow> nat \<Rightarrow> 'o \<Rightarrow> 'o"
  ue_cleanup_append :: "transaction_t \<Rightarrow> nat \<Rightarrow> nat \<Rightarrow> nat \<Rightarrow> 'o \<Rightarrow> 'o"
  ue_remove_from_indexes :: "nat \<Rightarrow> nat list \<Rightarrow> 'o \<Rightarrow> string option \<times> 'o"
  ue_detach :: "nat \<Rightarrow> 'o \<Rightarrow> 'o"

section \<open>Writing entries\<close>

definition update_info_alloc_size :: "nat \<Rightarrow> nat" where
  "update_info_alloc_size type_size = align_value (80 + (4 + type_size) * standard_vector_size)"

definition push_catalog_undo :: "idx_t \<Rightarrow> 'c \<Rightarrow> nat \<Rightarrow> 'c undo_data undo_block list \<Rightarrow> 'c undo_data undo_block list result" where
  "push_catalog_undo block_size entry extra_data_size blocks =
     result_bind (create_entry block_size CATALOG_ENTRY (8 + (if 0 < extra_data_size then extra_data_size + 8 else 0)) (CatalogData entry) blocks)
       (\<lambda>(blocks', ref). Inr blocks')"

definition push_attach_undo :: "idx_t \<Rightarrow> nat \<Rightarrow> 'c undo_data undo_block list \<Rightarrow> 'c undo_data undo_block list result" where
  "push_attach_undo block_size db blocks =
     result_bind (create_entry block_size ATTACHED_DATABASE 8 (AttachedData db) blocks) (\<lambda>(blocks', ref). Inr blocks')"

definition push_delete ::
  "idx_t \<Rightarrow> nat \<Rightarrow> nat \<Rightarrow> nat \<Rightarrow> nat list \<Rightarrow> nat \<Rightarrow> nat \<Rightarrow> 'c undo_data undo_block list \<Rightarrow> 'c undo_data undo_block list result" where
  "push_delete block_size table info vector_idx rows count base_row blocks =
     (let di = make_delete_info rows count in
      if \<not> di_is_consecutive di \<and> list_ex (\<lambda>row. 2 ^ 16 \<le> row) (take count rows)
      then Inl (InternalException ''Information loss on integer cast'')
      else
        result_bind
          (create_entry block_size DELETE_TUPLE (48 + (if di_is_consecutive di then 0 else 2 * count))
            (DeleteData table info vector_idx base_row di) blocks)
          (\<lambda>(blocks', ref). Inr blocks'))"

definition push_append :: "idx_t \<Rightarrow> nat \<Rightarrow> nat \<Rightarrow> nat \<Rightarrow> 'c undo_data undo_block list \<Rightarrow> 'c undo_data undo_block list result" where
  "push_append block_size table start_row row_count blocks =
     result_bind (create_entry block_size INSERT_TUPLE 24 (AppendData table start_row row_count) blocks) (\<lambda>(blocks', ref). Inr blocks')"

text \<open>The reference of the new info is what the segment links into its chain.\<close>

definition create_update_info ::
  "idx_t \<Rightarrow> nat \<Rightarrow> nat \<Rightarrow> nat \<Rightarrow> nat \<Rightarrow> 'c undo_data undo_block list \<Rightarrow> ('c undo_data undo_block list \<times> (nat \<times> idx_t)) result" where
  "create_update_info block_size type_size table segment a blocks =
     create_entry block_size UPDATE_TUPLE (update_info_alloc_size type_size) (UpdateData table segment a) blocks"

section \<open>Commit, reversal, rollback and cleanup of an entry\<close>

definition modified_error :: "('c, 'o) undo_env \<Rightarrow> nat \<Rightarrow> duck_error" where
  "modified_error env table = TransactionException (ue_conflict_message env table)"

definition with_rest :: "('o \<Rightarrow> duck_error option \<times> 'o) \<Rightarrow> ('v, 'o) undo_store \<Rightarrow> duck_error option \<times> ('v, 'o) undo_store" where
  "with_rest f s = (case f (ust_rest s) of (err, r) \<Rightarrow> (err, s\<lparr>ust_rest := r\<rparr>))"

definition write_version :: "transaction_t \<Rightarrow> nat \<times> nat \<Rightarrow> (nat \<Rightarrow> 'v update_segment) \<Rightarrow> (nat \<Rightarrow> 'v update_segment)" where
  "write_version commit_id ga segs = segs(fst ga := set_version commit_id (snd ga) (segs (fst ga)))"

definition write_deletes :: "transaction_t \<Rightarrow> nat \<times> nat \<times> delete_info \<Rightarrow> (nat \<Rightarrow> row_version_manager) \<Rightarrow> (nat \<Rightarrow> row_version_manager)" where
  "write_deletes commit_id mxd vms = vms(fst mxd := rv_commit_delete (fst (snd mxd)) commit_id (snd (snd mxd)) (vms (fst mxd)))"

fun commit_entry :: "('c, 'o) undo_env \<Rightarrow> transaction_t \<Rightarrow> undo_flags \<Rightarrow> 'c undo_data \<Rightarrow> ('v, 'o) undo_store \<Rightarrow> duck_error option \<times> ('v, 'o) undo_store" where
  "commit_entry env commit_id CATALOG_ENTRY (CatalogData c) s = with_rest (ue_commit_catalog env commit_id c) s"
| "commit_entry env commit_id INSERT_TUPLE (AppendData table start_row n) s =
     (if \<not> ue_is_main_table env table then (Some (modified_error env table), s)
      else (None, s\<lparr>ust_rest := ue_commit_append env commit_id table start_row n (ust_rest s)\<rparr>))"
| "commit_entry env commit_id DELETE_TUPLE (DeleteData table m x base_row di) s =
     (if \<not> ue_is_main_table env table then (Some (modified_error env table), s)
      else (None, s\<lparr>ust_versions := write_deletes commit_id (m, x, di) (ust_versions s)\<rparr>))"
| "commit_entry env commit_id UPDATE_TUPLE (UpdateData table g a) s =
     (if \<not> ue_is_main_table env table then (Some (modified_error env table), s)
      else (None, s\<lparr>ust_segments := write_version commit_id (g, a) (ust_segments s)\<rparr>))"
| "commit_entry env commit_id ATTACHED_DATABASE x s = (None, s)"
| "commit_entry env commit_id SEQUENCE_VALUE x s = (None, s)"
| "commit_entry env commit_id EMPTY_ENTRY x s = (Some (InternalException ''UndoBuffer - don't know how to commit this type!''), s)"
| "commit_entry env commit_id ty x s = (Some (UndefinedBehavior ''data of another type''), s)"

fun revert_commit_entry :: "('c, 'o) undo_env \<Rightarrow> transaction_t \<Rightarrow> undo_flags \<Rightarrow> 'c undo_data \<Rightarrow> ('v, 'o) undo_store \<Rightarrow> duck_error option \<times> ('v, 'o) undo_store" where
  "revert_commit_entry env transaction_id CATALOG_ENTRY (CatalogData c) s = (None, s\<lparr>ust_rest := ue_revert_catalog env transaction_id c (ust_rest s)\<rparr>)"
| "revert_commit_entry env transaction_id INSERT_TUPLE (AppendData table start_row n) s =
     (None, s\<lparr>ust_rest := ue_revert_append env table start_row n (ust_rest s)\<rparr>)"
| "revert_commit_entry env transaction_id DELETE_TUPLE (DeleteData table m x base_row di) s =
     (None, s\<lparr>ust_versions := write_deletes transaction_id (m, x, di) (ust_versions s)\<rparr>)"
| "revert_commit_entry env transaction_id UPDATE_TUPLE (UpdateData table g a) s =
     (None, s\<lparr>ust_segments := write_version transaction_id (g, a) (ust_segments s)\<rparr>)"
| "revert_commit_entry env transaction_id ATTACHED_DATABASE x s = (None, s)"
| "revert_commit_entry env transaction_id SEQUENCE_VALUE x s = (None, s)"
| "revert_commit_entry env transaction_id EMPTY_ENTRY x s = (Some (InternalException ''UndoBuffer - don't know how to revert commit of this type!''), s)"
| "revert_commit_entry env transaction_id ty x s = (Some (UndefinedBehavior ''data of another type''), s)"

fun rollback_entry :: "('c, 'o) undo_env \<Rightarrow> undo_flags \<Rightarrow> 'c undo_data \<Rightarrow> ('v, 'o) undo_store \<Rightarrow> duck_error option \<times> ('v, 'o) undo_store" where
  "rollback_entry env CATALOG_ENTRY (CatalogData c) s = with_rest (ue_undo_catalog env c) s"
| "rollback_entry env INSERT_TUPLE (AppendData table start_row n) s =
     (None, s\<lparr>ust_rest := ue_revert_append env table start_row n (ust_rest s)\<rparr>)"
| "rollback_entry env DELETE_TUPLE (DeleteData table m x base_row di) s =
     (None, s\<lparr>ust_versions := write_deletes not_deleted_id (m, x, di) (ust_versions s)\<rparr>)"
| "rollback_entry env UPDATE_TUPLE (UpdateData table g a) s =
     (case rollback_update a (ust_segments s g) of
        Inl e \<Rightarrow> (Some e, s)
      | Inr seg \<Rightarrow> (None, s\<lparr>ust_segments := (ust_segments s)(g := seg)\<rparr>))"
| "rollback_entry env ATTACHED_DATABASE (AttachedData db) s = (None, s\<lparr>ust_rest := ue_detach env db (ust_rest s)\<rparr>)"
| "rollback_entry env SEQUENCE_VALUE x s = (None, s)"
| "rollback_entry env EMPTY_ENTRY x s = (None, s)"
| "rollback_entry env ty x s = (Some (UndefinedBehavior ''data of another type''), s)"

text \<open>The rows of a delete leave the indexes when nobody can see them any more.\<close>

definition cleanup_delete :: "('c, 'o) undo_env \<Rightarrow> nat \<Rightarrow> nat \<Rightarrow> delete_info \<Rightarrow> ('v, 'o) undo_store \<Rightarrow> duck_error option \<times> ('v, 'o) undo_store" where
  "cleanup_delete env table base_row di s =
     (if \<not> ue_has_indexes env table \<or> di_count di = 0 then (None, s)
      else
        (let row_numbers = map (\<lambda>i. base_row + (if di_is_consecutive di then i else di_rows di ! i)) [0..<di_count di] in
         case ue_remove_from_indexes env table row_numbers (ust_rest s) of
           (None, r) \<Rightarrow> (None, s\<lparr>ust_rest := r\<rparr>)
         | (Some message, r) \<Rightarrow> (Some (FatalException message), s\<lparr>ust_rest := r\<rparr>)))"

fun cleanup_entry :: "('c, 'o) undo_env \<Rightarrow> transaction_t \<Rightarrow> undo_flags \<Rightarrow> 'c undo_data \<Rightarrow> ('v, 'o) undo_store \<Rightarrow> duck_error option \<times> ('v, 'o) undo_store" where
  "cleanup_entry env lowest CATALOG_ENTRY (CatalogData c) s = (None, s\<lparr>ust_rest := ue_cleanup_catalog env c (ust_rest s)\<rparr>)"
| "cleanup_entry env lowest INSERT_TUPLE (AppendData table start_row n) s =
     (None, s\<lparr>ust_rest := ue_cleanup_append env lowest table start_row n (ust_rest s)\<rparr>)"
| "cleanup_entry env lowest DELETE_TUPLE (DeleteData table m x base_row di) s = cleanup_delete env table base_row di s"
| "cleanup_entry env lowest UPDATE_TUPLE (UpdateData table g a) s =
     (None, s\<lparr>ust_segments := (ust_segments s)(g := cleanup_update a (ust_segments s g))\<rparr>)"
| "cleanup_entry env lowest ty x s = (None, s)"

section \<open>The undo buffer of a transaction\<close>

definition undo_commit :: "('c, 'o) undo_env \<Rightarrow> transaction_t \<Rightarrow> 'c undo_data undo_block list \<Rightarrow> ('v, 'o) undo_store \<Rightarrow>
  duck_error option \<times> iterator_state \<times> ('v, 'o) undo_store" where
  "undo_commit env commit_id blocks s = iterate_entries (commit_entry env commit_id) blocks s"

definition undo_revert_commit :: "('c, 'o) undo_env \<Rightarrow> iterator_state \<Rightarrow> transaction_t \<Rightarrow> 'c undo_data undo_block list \<Rightarrow> ('v, 'o) undo_store \<Rightarrow>
  duck_error option \<times> ('v, 'o) undo_store" where
  "undo_revert_commit env end_state transaction_id blocks s = iterate_entries_until (revert_commit_entry env transaction_id) end_state blocks s"

definition undo_rollback :: "('c, 'o) undo_env \<Rightarrow> 'c undo_data undo_block list \<Rightarrow> ('v, 'o) undo_store \<Rightarrow> duck_error option \<times> ('v, 'o) undo_store" where
  "undo_rollback env blocks s = reverse_iterate_entries (rollback_entry env) blocks s"

definition undo_cleanup :: "('c, 'o) undo_env \<Rightarrow> transaction_t \<Rightarrow> 'c undo_data undo_block list \<Rightarrow> ('v, 'o) undo_store \<Rightarrow> duck_error option \<times> ('v, 'o) undo_store" where
  "undo_cleanup env lowest blocks s = (case iterate_entries (cleanup_entry env lowest) blocks s of (err, it, s') \<Rightarrow> (err, s'))"

fun properties_entry :: "('c, 'o) undo_env \<Rightarrow> undo_flags \<Rightarrow> 'c undo_data \<Rightarrow> undo_buffer_properties \<Rightarrow> duck_error option \<times> undo_buffer_properties" where
  "properties_entry env UPDATE_TUPLE x p = (None, p\<lparr>up_has_updates := True\<rparr>)"
| "properties_entry env DELETE_TUPLE (DeleteData table m v base_row di) p =
     (let p1 = (if di_is_consecutive di then p\<lparr>up_estimated_size := up_estimated_size p + 8 * di_count di\<rparr> else p) in
      (None, (if ue_has_indexes env table then p1\<lparr>up_has_index_deletes := True\<rparr> else p1)\<lparr>up_has_deletes := True\<rparr>))"
| "properties_entry env CATALOG_ENTRY (CatalogData c) p =
     (None, p\<lparr>up_has_catalog_changes := True, up_estimated_size := up_estimated_size p + ue_catalog_size env c,
        up_has_dropped_entries := (up_has_dropped_entries p \<or> ue_catalog_dropped env c)\<rparr>)"
| "properties_entry env ty x p = (None, p)"

definition get_properties :: "('c, 'o) undo_env \<Rightarrow> 'c undo_data undo_block list \<Rightarrow> undo_buffer_properties" where
  "get_properties env blocks =
     (let p = \<lparr>up_estimated_size = 0, up_has_updates = False, up_has_deletes = False, up_has_index_deletes = False, up_has_catalog_changes = False, up_has_dropped_entries = False\<rparr> in
      if \<not> changes_made blocks then p
      else snd (snd (iterate_entries (properties_entry env) blocks (p\<lparr>up_estimated_size := sum_list (map ub_position blocks)\<rparr>))))"

text \<open>\<^verbatim>\<open>DuckTransaction::Commit\<close>. The commit of the local storage is the argument \<open>storage_commit\<close>: it may write further entries and
  change the tables, and returns the exception that it throws, if any. \<open>flush_error\<close> is the exception of writing the log to disk. An
  exception of the reversal leaves a function that is declared \<^verbatim>\<open>noexcept\<close>.\<close>

definition revert_with ::
  "('c, 'o) undo_env \<Rightarrow> iterator_state \<Rightarrow> transaction_t \<Rightarrow> 'c undo_data undo_block list \<Rightarrow> duck_error \<Rightarrow> ('v, 'o) undo_store \<Rightarrow>
   duck_error option \<times> ('v, 'o) undo_store" where
  "revert_with env it transaction_id blocks e s =
     (case undo_revert_commit env it transaction_id blocks s of
        (None, s') \<Rightarrow> (Some e, s')
      | (Some _, s') \<Rightarrow> (Some (UndefinedBehavior ''std::terminate''), s'))"

definition commit_buffer ::
  "('c, 'o) undo_env \<Rightarrow> duck_error option \<Rightarrow> duck_error option \<Rightarrow> transaction_t \<Rightarrow> transaction_t \<Rightarrow> 'c undo_data undo_block list \<Rightarrow>
   ('v, 'o) undo_store \<Rightarrow> duck_error option \<times> ('v, 'o) undo_store" where
  "commit_buffer env storage_error flush_error commit_id transaction_id blocks s =
     (case storage_error of
        Some e \<Rightarrow> revert_with env new_iterator_state transaction_id blocks e s
      | None \<Rightarrow>
          (case undo_commit env commit_id blocks s of
             (Some e, it, s') \<Rightarrow> revert_with env it transaction_id blocks e s'
           | (None, it, s') \<Rightarrow>
               (case flush_error of
                  Some e \<Rightarrow> revert_with env it transaction_id blocks e s'
                | None \<Rightarrow> (None, s'))))"

definition duck_transaction_commit ::
  "('c, 'o) undo_env \<Rightarrow> bool \<Rightarrow>
   ('c undo_data undo_block list \<Rightarrow> ('v, 'o) undo_store \<Rightarrow> duck_error option \<times> 'c undo_data undo_block list \<times> ('v, 'o) undo_store) \<Rightarrow>
   duck_error option \<Rightarrow> transaction_t \<Rightarrow> transaction_t \<Rightarrow> 'c undo_data undo_block list \<Rightarrow> ('v, 'o) undo_store \<Rightarrow>
   duck_error option \<times> 'c undo_data undo_block list \<times> ('v, 'o) undo_store" where
  "duck_transaction_commit env storage_changed storage_commit flush_error commit_id transaction_id blocks0 s0 =
     (if \<not> (changes_made blocks0 \<or> storage_changed) then (None, blocks0, s0)
      else
        (case storage_commit blocks0 s0 of
           (storage_error, blocks, s) \<Rightarrow>
             (case commit_buffer env storage_error flush_error commit_id transaction_id blocks s of (err, s') \<Rightarrow> (err, blocks, s'))))"

section \<open>Stores of marks\<close>

text \<open>What the commit relies on in the stores: an entry names a set of marks, writing an entry sets exactly
  these to the given number, and the rest of the store stays as it is.\<close>

locale marked_store =
  fixes mark :: "'s \<Rightarrow> 'k \<Rightarrow> transaction_t" and frame :: "'s \<Rightarrow> 'f" and keys :: "'i \<Rightarrow> 'k set"
    and valid :: "'i \<Rightarrow> 's \<Rightarrow> bool" and put :: "transaction_t \<Rightarrow> 'i \<Rightarrow> 's \<Rightarrow> 's"
  assumes mark_put: "valid i s \<Longrightarrow> mark (put c i s) k = (if k \<in> keys i then c else mark s k)"
    and frame_put: "valid i s \<Longrightarrow> frame (put c i s) = frame s"
    and valid_put: "valid i s \<Longrightarrow> valid j s \<Longrightarrow> valid j (put c i s)"
begin

lemma fold_put:
  assumes "\<forall>i \<in> set is. valid i s"
  shows "mark (fold (put c) is s) k = (if \<exists>i \<in> set is. k \<in> keys i then c else mark s k)"
    and "frame (fold (put c) is s) = frame s" and "valid j s \<Longrightarrow> valid j (fold (put c) is s)"
proof -
  have "mark (fold (put c) is s) k = (if \<exists>i \<in> set is. k \<in> keys i then c else mark s k) \<and>
      frame (fold (put c) is s) = frame s \<and> (\<forall>j. valid j s \<longrightarrow> valid j (fold (put c) is s))"
    using assms
  proof (induction "is" arbitrary: s)
    case (Cons i "is")
    have v: "valid i s" "\<forall>j \<in> set is. valid j (put c i s)" using Cons.prems valid_put by auto
    from Cons.IH [OF v(2)] show ?case using mark_put [OF v(1)] frame_put [OF v(1)] valid_put [OF v(1)] by auto
  qed simp
  then show "mark (fold (put c) is s) k = (if \<exists>i \<in> set is. k \<in> keys i then c else mark s k)"
    "frame (fold (put c) is s) = frame s" "valid j s \<Longrightarrow> valid j (fold (put c) is s)" by blast+
qed

text \<open>Writing the old number over at least what was written restores the store.\<close>

lemma put_back:
  assumes "\<forall>i \<in> set js. valid i s \<and> (\<forall>k \<in> keys i. mark s k = t)" and "set is \<subseteq> set js"
  shows "mark (fold (put t) js (fold (put c) is s)) k = mark s k" and "frame (fold (put t) js (fold (put c) is s)) = frame s"
proof -
  have is_valid: "\<forall>i \<in> set is. valid i s" using assms by blast
  note first_put = fold_put [OF is_valid]
  have "\<forall>j \<in> set js. valid j (fold (put c) is s)" using assms(1) first_put(3) by blast
  note second_put = fold_put [OF this]
  show "mark (fold (put t) js (fold (put c) is s)) k = mark s k"
    unfolding second_put(1) first_put(1) using assms by auto
  show "frame (fold (put t) js (fold (put c) is s)) = frame s" unfolding second_put(2) first_put(2) ..
qed

end

text \<open>The versions of update infos.\<close>

definition info_mark :: "(nat \<Rightarrow> 'v update_segment) \<Rightarrow> nat \<times> nat \<Rightarrow> transaction_t" where
  "info_mark segs ga = (case seg_infos (segs (fst ga)) (snd ga) of None \<Rightarrow> 0 | Some info \<Rightarrow> ui_version info)"

definition without_versions :: "(nat \<Rightarrow> 'v update_segment) \<Rightarrow> (nat \<Rightarrow> 'v update_segment)" where
  "without_versions segs = (\<lambda>g. (segs g)\<lparr>seg_infos := (\<lambda>a. map_option (\<lambda>i. i\<lparr>ui_version := 0\<rparr>) (seg_infos (segs g) a))\<rparr>)"

definition info_exists :: "nat \<times> nat \<Rightarrow> (nat \<Rightarrow> 'v update_segment) \<Rightarrow> bool" where
  "info_exists ga segs \<longleftrightarrow> seg_infos (segs (fst ga)) (snd ga) \<noteq> None"

interpretation updates: marked_store info_mark without_versions "\<lambda>ga. {ga}" info_exists write_version
proof
  fix i j k c and s :: "nat \<Rightarrow> 'a update_segment"
  assume v: "info_exists i s"
  show "info_mark (write_version c i s) k = (if k \<in> {i} then c else info_mark s k)"
    using v by (cases i; cases k) (auto simp: info_mark_def write_version_def set_version_def info_exists_def split: option.splits)
  show "without_versions (write_version c i s) = without_versions s"
  proof
    fix g
    have "(\<lambda>a. map_option (\<lambda>i. i\<lparr>ui_version := 0\<rparr>) (((seg_infos seg)(b := map_option (\<lambda>i. i\<lparr>ui_version := c\<rparr>) (seg_infos seg b))) a)) =
        (\<lambda>a. map_option (\<lambda>i. i\<lparr>ui_version := 0\<rparr>) (seg_infos seg a))" for seg :: "'a update_segment" and b
      by (rule ext) (simp add: option.map_comp comp_def)
    then show "without_versions (write_version c i s) g = without_versions s g"
      by (simp add: without_versions_def write_version_def set_version_def del: fun_upd_apply) (simp add: without_versions_def)
  qed
  show "info_exists j (write_version c i s)" if "info_exists j s"
    using that by (auto simp: info_exists_def write_version_def set_version_def)
qed

lemma segments_eqI:
  assumes "\<And>k. info_mark segs' k = info_mark segs k" and "without_versions segs' = without_versions segs"
  shows "segs' = segs"
proof
  fix g
  have w: "(segs' g)\<lparr>seg_infos := (\<lambda>a. map_option (\<lambda>i. i\<lparr>ui_version := 0\<rparr>) (seg_infos (segs' g) a))\<rparr> =
      (segs g)\<lparr>seg_infos := (\<lambda>a. map_option (\<lambda>i. i\<lparr>ui_version := 0\<rparr>) (seg_infos (segs g) a))\<rparr>"
    using assms(2) unfolding without_versions_def by meson
  have "seg_infos (segs' g) a = seg_infos (segs g) a" for a
  proof -
    have "map_option (\<lambda>i. i\<lparr>ui_version := 0\<rparr>) (seg_infos (segs' g) a) = map_option (\<lambda>i. i\<lparr>ui_version := 0\<rparr>) (seg_infos (segs g) a)"
      using arg_cong [OF w, of seg_infos] by (simp add: fun_eq_iff)
    moreover have "info_mark segs' (g, a) = info_mark segs (g, a)" by (rule assms(1))
    moreover have "i = j" if "i\<lparr>ui_version := 0\<rparr> = j\<lparr>ui_version := 0\<rparr>" "ui_version i = ui_version j" for i j :: "'a update_info"
      using that by (cases i; cases j) simp
    ultimately show ?thesis by (cases "seg_infos (segs' g) a"; cases "seg_infos (segs g) a") (auto simp: info_mark_def)
  qed
  then have "seg_infos (segs' g) = seg_infos (segs g)" by blast
  then show "segs' g = segs g"
    using arg_cong [OF w, of seg_start] arg_cong [OF w, of seg_has_root] arg_cong [OF w, of seg_root] arg_cong [OF w, of seg_fresh]
    by (intro update_segment.equality) simp_all
qed

text \<open>The delete marks of rows.\<close>

definition delete_mark :: "(nat \<Rightarrow> row_version_manager) \<Rightarrow> nat \<times> nat \<Rightarrow> transaction_t" where
  "delete_mark vms mr = snd (rv_version (vms (fst mr)) (snd mr))"

definition insert_marks :: "(nat \<Rightarrow> row_version_manager) \<Rightarrow> nat \<times> nat \<Rightarrow> transaction_t" where
  "insert_marks vms mr = fst (rv_version (vms (fst mr)) (snd mr))"

definition delete_keys :: "nat \<times> nat \<times> delete_info \<Rightarrow> (nat \<times> nat) set" where
  "delete_keys mxd = {(m, row). m = fst mxd \<and> row div standard_vector_size = fst (snd mxd) \<and>
     row mod standard_vector_size \<in> delete_info_rows (snd (snd mxd))}"

definition delete_valid :: "nat \<times> nat \<times> delete_info \<Rightarrow> (nat \<Rightarrow> row_version_manager) \<Rightarrow> bool" where
  "delete_valid mxd vms \<longleftrightarrow> convertible (rv_get_chunk_info (fst (snd mxd)) (vms (fst mxd)))"

interpretation deletes: marked_store delete_mark insert_marks delete_keys delete_valid write_deletes
proof
  fix i j :: "nat \<times> nat \<times> delete_info" and k :: "nat \<times> nat" and c and s :: "nat \<Rightarrow> row_version_manager"
  assume v: "delete_valid i s"
  note d = commit_delete_info_version [OF v [unfolded delete_valid_def]]
  show "delete_mark (write_deletes c i s) k = (if k \<in> delete_keys i then c else delete_mark s k)"
    by (cases k) (auto simp: delete_mark_def write_deletes_def delete_keys_def d(1))
  show "insert_marks (write_deletes c i s) = insert_marks s"
    by (rule ext) (simp add: insert_marks_def write_deletes_def d(1))
  show "delete_valid j (write_deletes c i s)" if "delete_valid j s"
    using that d(2) by (cases "fst j = fst i") (auto simp: delete_valid_def write_deletes_def)
qed

section \<open>Runs over the entries\<close>

fun undo_type :: "'c undo_data \<Rightarrow> undo_flags" where
  "undo_type (CatalogData c) = CATALOG_ENTRY"
| "undo_type (AppendData table start_row n) = INSERT_TUPLE"
| "undo_type (DeleteData table m x base_row di) = DELETE_TUPLE"
| "undo_type (UpdateData table g a) = UPDATE_TUPLE"
| "undo_type SequenceData = SEQUENCE_VALUE"
| "undo_type (AttachedData db) = ATTACHED_DATABASE"

abbreviation items_ok :: "(undo_flags \<times> 'c undo_data) list \<Rightarrow> bool" where
  "items_ok items \<equiv> \<forall>item \<in> set items. fst item = undo_type (snd item)"

fun updates_in :: "(undo_flags \<times> 'c undo_data) list \<Rightarrow> (nat \<times> nat) list" where
  "updates_in [] = []"
| "updates_in ((ty, UpdateData table g a) # items) = (g, a) # updates_in items"
| "updates_in ((ty, x) # items) = updates_in items"

fun deletes_in :: "(undo_flags \<times> 'c undo_data) list \<Rightarrow> (nat \<times> nat \<times> delete_info) list" where
  "deletes_in [] = []"
| "deletes_in ((ty, DeleteData table m x base_row di) # items) = (m, x, di) # deletes_in items"
| "deletes_in ((ty, x) # items) = deletes_in items"

lemma updates_in_append: "updates_in (xs @ ys) = updates_in xs @ updates_in ys"
  by (induction xs rule: updates_in.induct) auto

lemma deletes_in_append: "deletes_in (xs @ ys) = deletes_in xs @ deletes_in ys"
  by (induction xs rule: deletes_in.induct) auto

lemma taken_in:
  assumes "n \<le> l"
  shows "set (updates_in (take n items)) \<subseteq> set (updates_in (take l items))" and "set (deletes_in (take n items)) \<subseteq> set (deletes_in (take l items))"
    and "set (updates_in (take l items)) \<subseteq> set (updates_in items)" and "set (deletes_in (take l items)) \<subseteq> set (deletes_in items)"
proof -
  have "take l items = take n items @ take (l - n) (drop n items)" using assms by (metis le_add_diff_inverse take_add)
  then show "set (updates_in (take n items)) \<subseteq> set (updates_in (take l items))" "set (deletes_in (take n items)) \<subseteq> set (deletes_in (take l items))"
    by (simp_all add: updates_in_append deletes_in_append)
  show "set (updates_in (take l items)) \<subseteq> set (updates_in items)" "set (deletes_in (take l items)) \<subseteq> set (deletes_in items)"
    by (metis append_take_drop_id le_sup_iff order_refl set_append updates_in_append, metis append_take_drop_id le_sup_iff order_refl set_append deletes_in_append)
qed

lemma commit_run:
  assumes "items_ok items" and "run_entries (commit_entry env c) items s = (err, s')"
  shows "\<exists>n \<le> run_length (commit_entry env c) items s. (err = None \<longrightarrow> n = length items) \<and>
    ust_segments s' = fold (write_version c) (updates_in (take n items)) (ust_segments s) \<and>
    ust_versions s' = fold (write_deletes c) (deletes_in (take n items)) (ust_versions s)"
  using assms
proof (induction items arbitrary: s)
  case (Cons item items)
  obtain ty x where item: "item = (ty, x)" by (cases item)
  obtain e1 s1 where one: "commit_entry env c ty x s = (e1, s1)" by fastforce
  have ty: "ty = undo_type x" using Cons.prems(1) item by simp
  show ?case
  proof (cases e1)
    case (Some e)
    have "ust_segments s1 = ust_segments s \<and> ust_versions s1 = ust_versions s"
      using one Some ty by (cases x) (auto simp: with_rest_def split: if_splits prod.splits)
    then show ?thesis using Cons.prems(2) one Some by (intro exI [of _ 0]) (auto simp: item)
  next
    case None
    have step: "ust_segments s1 = fold (write_version c) (updates_in [(ty, x)]) (ust_segments s) \<and>
        ust_versions s1 = fold (write_deletes c) (deletes_in [(ty, x)]) (ust_versions s)"
      using one None ty by (cases x) (auto simp: with_rest_def split: if_splits prod.splits)
    have "items_ok items" "run_entries (commit_entry env c) items s1 = (err, s')" using Cons.prems one None by (simp_all add: item)
    from Cons.IH [OF this] obtain n where n: "n \<le> run_length (commit_entry env c) items s1" "err = None \<longrightarrow> n = length items"
      "ust_segments s' = fold (write_version c) (updates_in (take n items)) (ust_segments s1)"
      "ust_versions s' = fold (write_deletes c) (deletes_in (take n items)) (ust_versions s1)" by blast
    have "take (Suc n) (item # items) = [(ty, x)] @ take n items" by (simp add: item)
    then have "ust_segments s' = fold (write_version c) (updates_in (take (Suc n) (item # items))) (ust_segments s)"
      "ust_versions s' = fold (write_deletes c) (deletes_in (take (Suc n) (item # items))) (ust_versions s)"
      using n(3,4) step by (simp_all only: updates_in_append deletes_in_append fold_append comp_def)
    then show ?thesis using n(1,2) one None by (intro exI [of _ "Suc n"]) (simp add: item)
  qed
qed simp

lemma revert_run:
  assumes "items_ok items" and "run_entries (revert_commit_entry env t) items s = (err, s')"
  shows "err = None \<and> ust_segments s' = fold (write_version t) (updates_in items) (ust_segments s) \<and>
    ust_versions s' = fold (write_deletes t) (deletes_in items) (ust_versions s)"
  using assms
proof (induction items arbitrary: s)
  case (Cons item items)
  obtain ty x where item: "item = (ty, x)" by (cases item)
  have ty: "ty = undo_type x" using Cons.prems(1) item by simp
  then obtain s1 where one: "revert_commit_entry env t ty x s = (None, s1)"
    "ust_segments s1 = fold (write_version t) (updates_in [(ty, x)]) (ust_segments s)"
    "ust_versions s1 = fold (write_deletes t) (deletes_in [(ty, x)]) (ust_versions s)"
    by (cases x) auto
  have "items_ok items" "run_entries (revert_commit_entry env t) items s1 = (err, s')" using Cons.prems one(1) by (simp_all add: item)
  from Cons.IH [OF this] one(2,3) show ?case
    using updates_in_append [of "[(ty, x)]" items] deletes_in_append [of "[(ty, x)]" items] by (simp add: item)
qed simp

lemma rollback_run:
  assumes "items_ok items" and "run_entries (rollback_entry env) items s = (None, s')"
  shows "ust_versions s' = fold (write_deletes not_deleted_id) (deletes_in items) (ust_versions s)"
  using assms
proof (induction items arbitrary: s)
  case (Cons item items)
  obtain ty x where item: "item = (ty, x)" by (cases item)
  have ty: "ty = undo_type x" using Cons.prems(1) item by simp
  obtain s1 where one: "rollback_entry env ty x s = (None, s1)" "run_entries (rollback_entry env) items s1 = (None, s')"
    using Cons.prems(2) by (auto simp: item split: prod.splits option.splits)
  have "ust_versions s1 = fold (write_deletes not_deleted_id) (deletes_in [(ty, x)]) (ust_versions s)"
    using one(1) ty by (cases x) (auto simp: with_rest_def split: if_splits prod.splits sum.splits)
  then show ?case using Cons.IH [OF _ one(2)] Cons.prems(1) deletes_in_append [of "[(ty, x)]" items] by (simp add: item)
qed simp

text \<open>A rollback takes back every delete of the transaction and touches no other delete mark.\<close>

lemma undo_rollback_deletes:
  assumes "buffer_ok blocks items" and "items_ok items" and "\<forall>d \<in> set (deletes_in items). delete_valid d (ust_versions s)"
    and "undo_rollback env blocks s = (None, s')"
  shows "delete_mark (ust_versions s') k =
      (if \<exists>d \<in> set (deletes_in items). k \<in> delete_keys d then not_deleted_id else delete_mark (ust_versions s) k)"
    and "insert_marks (ust_versions s') = insert_marks (ust_versions s)"
proof -
  have "set (deletes_in (rev items)) = set (deletes_in items)" by (induction items rule: deletes_in.induct) (auto simp: deletes_in_append)
  moreover have "ust_versions s' = fold (write_deletes not_deleted_id) (deletes_in (rev items)) (ust_versions s)"
    using rollback_run [of "rev items"] assms(2,4) unfolding undo_rollback_def reverse_iterate_run [OF assms(1)] by simp
  ultimately show "delete_mark (ust_versions s') k =
      (if \<exists>d \<in> set (deletes_in items). k \<in> delete_keys d then not_deleted_id else delete_mark (ust_versions s) k)"
    "insert_marks (ust_versions s') = insert_marks (ust_versions s)"
    using deletes.fold_put(1,2) [of "deletes_in (rev items)" "ust_versions s" not_deleted_id] assms(3) by simp_all
qed

text \<open>The entry of a delete names exactly the rows that were deleted, in the short form too.\<close>

lemma push_delete_entry:
  assumes "buffer_ok blocks items" and "count \<le> length rows" and "count < 2 ^ 30" and "block_size \<le> 2 ^ 63" and "\<forall>row \<in> set rows. row < 2 ^ 16"
  shows "\<exists>blocks' di. push_delete block_size table m x rows count base_row blocks = Inr blocks' \<and>
    buffer_ok blocks' (items @ [(DELETE_TUPLE, DeleteData table m x base_row di)]) \<and> delete_info_rows di = set (take count rows)"
proof -
  let ?di = "make_delete_info rows count"
  have cast: "\<not> list_ex (\<lambda>row. 2 ^ 16 \<le> row) (take count rows)"
    using assms(5) unfolding list_ex_iff by (meson in_set_takeD not_le)
  have len: "48 + (if di_is_consecutive ?di then 0 else 2 * count) < 2 ^ 32 - 16" using assms(3) by simp
  have "\<exists>blocks'. push_delete block_size table m x rows count base_row blocks = Inr blocks' \<and>
      buffer_ok blocks' (items @ [(DELETE_TUPLE, DeleteData table m x base_row ?di)])"
    using create_entry_ok [OF assms(1) len assms(4), of DELETE_TUPLE "DeleteData table m x base_row ?di"] cast
    unfolding push_delete_def Let_def by (elim exE conjE) simp
  then show ?thesis using make_delete_info_rows [OF assms(2)] by blast
qed

section \<open>A commit is all or nothing\<close>

text \<open>What the transaction wrote still carries its identifier.\<close>

definition owned :: "transaction_t \<Rightarrow> (undo_flags \<times> 'c undo_data) list \<Rightarrow> ('v, 'o) undo_store \<Rightarrow> bool" where
  "owned t items s \<longleftrightarrow>
     (\<forall>k \<in> set (updates_in items). info_exists k (ust_segments s) \<and> info_mark (ust_segments s) k = t) \<and>
     (\<forall>d \<in> set (deletes_in items). delete_valid d (ust_versions s) \<and> (\<forall>k \<in> delete_keys d. delete_mark (ust_versions s) k = t))"

definition same_store :: "('v, 'o) undo_store \<Rightarrow> ('v, 'o) undo_store \<Rightarrow> bool" where
  "same_store s s' \<longleftrightarrow> ust_segments s' = ust_segments s \<and> (\<forall>m row. rv_version (ust_versions s' m) row = rv_version (ust_versions s m) row)"

lemma revert_restores:
  assumes "items_ok items" and "owned t items s" and "n \<le> l"
    and "ust_segments s1 = fold (write_version c) (updates_in (take n items)) (ust_segments s)"
    and "ust_versions s1 = fold (write_deletes c) (deletes_in (take n items)) (ust_versions s)"
  shows "fst (run_entries (revert_commit_entry env t) (take l items) s1) = None"
    and "same_store s (snd (run_entries (revert_commit_entry env t) (take l items) s1))"
proof -
  obtain err s' where r: "run_entries (revert_commit_entry env t) (take l items) s1 = (err, s')" by fastforce
  have "items_ok (take l items)" using assms(1) by (auto dest: in_set_takeD)
  note rev = revert_run [OF this r]
  then show "fst (run_entries (revert_commit_entry env t) (take l items) s1) = None" using r by simp
  note sub = taken_in [OF assms(3), of items]
  have u: "\<forall>k \<in> set (updates_in (take l items)). info_exists k (ust_segments s) \<and> (\<forall>x \<in> {k}. info_mark (ust_segments s) x = t)"
    using assms(2) sub(3) unfolding owned_def by blast
  have d: "\<forall>d \<in> set (deletes_in (take l items)). delete_valid d (ust_versions s) \<and> (\<forall>k \<in> delete_keys d. delete_mark (ust_versions s) k = t)"
    using assms(2) sub(4) unfolding owned_def by blast
  note ub = updates.put_back [OF u sub(1), of c] and db = deletes.put_back [OF d sub(2), of c]
  have "ust_segments s' = ust_segments s"
  proof (rule segments_eqI)
    have s': "ust_segments s' = fold (write_version t) (updates_in (take l items)) (fold (write_version c) (updates_in (take n items)) (ust_segments s))"
      using rev unfolding assms(4) by blast
    show "info_mark (ust_segments s') k = info_mark (ust_segments s) k" for k unfolding s' by (rule ub(1))
    show "without_versions (ust_segments s') = without_versions (ust_segments s)" unfolding s' by (rule ub(2))
  qed
  moreover have "rv_version (ust_versions s' m) row = rv_version (ust_versions s m) row" for m row
  proof -
    have s': "ust_versions s' = fold (write_deletes t) (deletes_in (take l items)) (fold (write_deletes c) (deletes_in (take n items)) (ust_versions s))"
      using rev unfolding assms(5) by blast
    have "delete_mark (ust_versions s') (m, row) = delete_mark (ust_versions s) (m, row)" unfolding s' by (rule db(1))
    moreover have "insert_marks (ust_versions s') (m, row) = insert_marks (ust_versions s) (m, row)" unfolding s' db(2) ..
    ultimately show ?thesis by (simp add: delete_mark_def insert_marks_def prod_eq_iff)
  qed
  ultimately show "same_store s (snd (run_entries (revert_commit_entry env t) (take l items) s1))" unfolding r by (simp add: same_store_def)
qed

lemma commit_outcome:
  fixes s s' :: "('v, 'o) undo_store" and items :: "(undo_flags \<times> 'c undo_data) list"
  assumes "buffer_ok blocks items" and "items_ok items" and "owned t items s"
    and "commit_buffer env storage_error flush_error c t blocks s = (err, s')"
  shows "err = (case storage_error of Some e \<Rightarrow> Some e | None \<Rightarrow>
      (case fst (run_entries (commit_entry env c) items s) of Some e \<Rightarrow> Some e | None \<Rightarrow> flush_error))"
    and "err \<noteq> None \<Longrightarrow> same_store s s'"
    and "err = None \<Longrightarrow> ust_segments s' = fold (write_version c) (updates_in items) (ust_segments s) \<and>
      ust_versions s' = fold (write_deletes c) (deletes_in items) (ust_versions s)"
proof -
  obtain it where it: "undo_commit env c blocks s = (fst (run_entries (commit_entry env c) items s), it, snd (run_entries (commit_entry env c) items s))"
    "\<forall>s2 :: ('v, 'o) undo_store. undo_revert_commit env it t blocks s2 = run_entries (revert_commit_entry env t)
      (if fst (run_entries (commit_entry env c) items s) = None then items else take (run_length (commit_entry env c) items s) items) s2"
  proof -
    have "\<exists>it. iterate_entries (commit_entry env c) blocks s = (fst (run_entries (commit_entry env c) items s), it, snd (run_entries (commit_entry env c) items s)) \<and>
        (\<forall>(cb :: ('c undo_data, ('v, 'o) undo_store) undo_callback) s2. iterate_entries_until cb it blocks s2 =
          run_entries cb (if fst (run_entries (commit_entry env c) items s) = None then items else take (run_length (commit_entry env c) items s) items) s2)"
      by (rule iterate_entries_run [OF assms(1)])
    then show thesis unfolding undo_commit_def undo_revert_commit_def using that by (simp add: undo_commit_def undo_revert_commit_def) blast
  qed
  have upto: "(if e = None then items else take l items) = take (if e = None then length items else l) items"
    for e :: "duck_error option" and l :: nat by simp
  obtain e1 s1 where one: "run_entries (commit_entry env c) items s = (e1, s1)" by fastforce
  obtain n where n: "n \<le> run_length (commit_entry env c) items s" "e1 = None \<longrightarrow> n = length items"
    "ust_segments s1 = fold (write_version c) (updates_in (take n items)) (ust_segments s)"
    "ust_versions s1 = fold (write_deletes c) (deletes_in (take n items)) (ust_versions s)"
    using commit_run [OF assms(2) one] by blast
  define l where "l = (if e1 = None then length items else run_length (commit_entry env c) items s)"
  have rv: "undo_revert_commit env it t blocks s1 = run_entries (revert_commit_entry env t) (take l items) s1"
    unfolding it(2) [rule_format] one fst_conv upto l_def ..
  have "n \<le> l" using n(1,2) by (auto simp: l_def)
  note restored = revert_restores [OF assms(2,3) this n(3,4), of env, folded rv]
  have all: "fst (undo_revert_commit env new_iterator_state t blocks s) = None \<and> same_store s (snd (undo_revert_commit env new_iterator_state t blocks s))"
  proof -
    have quiet: "run_entries (\<lambda>ty x s. (None, s)) xs s = (None, s)" for xs :: "(undo_flags \<times> 'c undo_data) list"
      by (induction xs) auto
    have "\<exists>i. iterate_entries (\<lambda>ty x s. (None, s)) blocks s = (None, i, s) \<and>
        (\<forall>(cb :: ('c undo_data, ('v, 'o) undo_store) undo_callback) s2. iterate_entries_until cb i blocks s2 = run_entries cb items s2)"
      using iterate_entries_run [OF assms(1), of "\<lambda>ty x s. (None, s)" s] unfolding quiet fst_conv snd_conv if_P [OF refl] .
    then obtain i where i: "iterate_entries (\<lambda>ty x s. (None, s)) blocks s = (None, i, s)"
      "iterate_entries_until (revert_commit_entry env t) i blocks s = run_entries (revert_commit_entry env t) items s" by blast
    have "iterate_blocks cb k bs s0 = (None, j, s1) \<Longrightarrow> j = new_iterator_state"
      for cb :: "('c undo_data, ('v, 'o) undo_store) undo_callback" and k j s0 s1 and bs :: "'c undo_data undo_block list"
      by (induction bs arbitrary: k s0) (auto split: prod.splits option.splits)
    then have "i = new_iterator_state" using i(1) unfolding iterate_entries_def by blast
    then have "undo_revert_commit env new_iterator_state t blocks s = run_entries (revert_commit_entry env t) (take (length items) items) s"
      using i(2) by (simp add: undo_revert_commit_def)
    then show ?thesis using revert_restores [OF assms(2,3), of 0 "length items" s c env] by simp
  qed
  show "err = (case storage_error of Some e \<Rightarrow> Some e | None \<Rightarrow>
      (case fst (run_entries (commit_entry env c) items s) of Some e \<Rightarrow> Some e | None \<Rightarrow> flush_error))"
    using assms(4) all restored(1) it(1) one unfolding commit_buffer_def by (auto simp: revert_with_def split: option.splits prod.splits)
  show "same_store s s'" if "err \<noteq> None"
    using assms(4) that all restored(2) it(1) one unfolding commit_buffer_def by (auto simp: revert_with_def split: option.splits prod.splits)
  show "ust_segments s' = fold (write_version c) (updates_in items) (ust_segments s) \<and>
      ust_versions s' = fold (write_deletes c) (deletes_in items) (ust_versions s)" if "err = None"
    using assms(4) that it(1) one n unfolding commit_buffer_def by (auto simp: revert_with_def split: option.splits prod.splits)
qed

text \<open>C6. A commit is all or nothing. When it fails, in the local storage, at whatever entry or in the log, every version of an update and
  every delete mark is what it was when the local storage was done; when it succeeds, all updates and deletes of the transaction carry the
  commit number and nothing else changed. The error returned is the first one that was thrown.\<close>

theorem undo_commit_atomic:
  assumes "\<forall>e \<in> set es. fst (snd e) < 2 ^ 32 - 16" and "block_size \<le> 2 ^ 63" and "create_entries block_size es [] = Inr blocks"
    and "items_ok (contents es)" and "owned t (contents es) s"
    and "storage_commit blocks0 s0 = (storage_error, blocks, s)" and "changes_made blocks0 \<or> storage_changed"
    and "duck_transaction_commit env storage_changed storage_commit flush_error c t blocks0 s0 = (err, blocks', s')"
  shows "err = (case storage_error of Some e \<Rightarrow> Some e | None \<Rightarrow>
      (case fst (run_entries (commit_entry env c) (contents es) s) of Some e \<Rightarrow> Some e | None \<Rightarrow> flush_error)) \<and>
    (if err \<noteq> None then same_store s s'
     else (\<forall>k. info_mark (ust_segments s') k = (if k \<in> set (updates_in (contents es)) then c else info_mark (ust_segments s) k)) \<and>
         without_versions (ust_segments s') = without_versions (ust_segments s) \<and>
         (\<forall>m row. rv_version (ust_versions s' m) row =
            (fst (rv_version (ust_versions s m) row),
             if \<exists>d \<in> set (deletes_in (contents es)). (m, row) \<in> delete_keys d then c else snd (rv_version (ust_versions s m) row))))"
proof -
  have ok: "buffer_ok blocks (contents es)" using create_entries_ok [OF buffer_ok_Nil assms(1,2)] assms(3) by auto
  have "commit_buffer env storage_error flush_error c t blocks s = (err, s')"
    using assms(6-8) by (simp add: duck_transaction_commit_def split: prod.splits)
  note out = commit_outcome [OF ok assms(4,5) this]
  have u: "\<forall>k \<in> set (updates_in (contents es)). info_exists k (ust_segments s)"
    and d: "\<forall>d \<in> set (deletes_in (contents es)). delete_valid d (ust_versions s)" using assms(5) by (auto simp: owned_def)
  note uf = updates.fold_put [OF u, where c = c] and df = deletes.fold_put [OF d, where c = c]
  show ?thesis
  proof (cases err)
    case None
    have "rv_version (ust_versions s' m) row =
        (fst (rv_version (ust_versions s m) row),
         if \<exists>d \<in> set (deletes_in (contents es)). (m, row) \<in> delete_keys d then c else snd (rv_version (ust_versions s m) row))" for m row
    proof -
      have "insert_marks (ust_versions s') (m, row) = insert_marks (ust_versions s) (m, row)" using out(3) [OF None] df(2) by simp
      moreover have "delete_mark (ust_versions s') (m, row) =
          (if \<exists>d \<in> set (deletes_in (contents es)). (m, row) \<in> delete_keys d then c else delete_mark (ust_versions s) (m, row))"
        using out(3) [OF None] df(1) by simp
      ultimately show ?thesis by (simp add: insert_marks_def delete_mark_def prod_eq_iff)
    qed
    then show ?thesis using out(1) out(3) [OF None] uf(1,2) None by simp
  qed (use out(1,2) in simp)
qed

text \<open>A transaction that updated and deleted in one table and appended to another, which somebody else has altered.\<close>

definition altered_env :: "(nat, nat) undo_env" where
  "altered_env =
     \<lparr>ue_is_main_table = (\<lambda>table. table = 0), ue_conflict_message = (\<lambda>table. ''altered''), ue_has_indexes = (\<lambda>table. False),
      ue_catalog_size = (\<lambda>c. 0), ue_catalog_dropped = (\<lambda>c. False), ue_commit_catalog = (\<lambda>t c r. (None, r)), ue_revert_catalog = (\<lambda>t c r. r),
      ue_undo_catalog = (\<lambda>c r. (None, r)), ue_cleanup_catalog = (\<lambda>c r. r), ue_commit_append = (\<lambda>t table start n r. r + n),
      ue_revert_append = (\<lambda>table start n r. r), ue_cleanup_append = (\<lambda>t table start n r. r), ue_remove_from_indexes = (\<lambda>table rows r. (None, r)),
      ue_detach = (\<lambda>db r. r)\<rparr>"

definition written_store :: "transaction_t \<Rightarrow> (nat, nat) undo_store" where
  "written_store t =
     \<lparr>ust_segments = (\<lambda>g. (new_update_segment 0)\<lparr>seg_infos := [1 \<mapsto> \<lparr>ui_version = t, ui_vector_index = 0, ui_entries = [(3, 5)], ui_prev = None, ui_next = None\<rparr>]\<rparr>),
      ust_versions = (\<lambda>m. (new_row_version_manager 0)\<lparr>vector_info := [Some (VectorInfo ((new_vector_info 0)\<lparr>deleted := (\<lambda>r. if r < 2 then t else not_deleted_id)\<rparr>))]\<rparr>),
      ust_rest = 0\<rparr>"

definition written_entries :: "(undo_flags \<times> idx_t \<times> nat undo_data) list" where
  "written_entries =
     [(UPDATE_TUPLE, 80, UpdateData 0 0 1),
      (DELETE_TUPLE, 48, DeleteData 0 0 0 0 \<lparr>di_is_consecutive = True, di_count = 2, di_rows = []\<rparr>),
      (INSERT_TUPLE, 24, AppendData 1 0 5)]"

lemma written_owned: "owned t (contents written_entries) (written_store t)"
  by (auto simp: owned_def written_entries_def written_store_def info_exists_def info_mark_def delete_valid_def convertible_def rv_get_chunk_info_def
      delete_keys_def delete_mark_def rv_version_def delete_info_rows_def new_row_version_manager_def new_vector_info_def vector_version_def)

theorem undo_commit_atomic_witness:
  "\<exists>blocks s'. create_entries 262144 written_entries [] = Inr blocks \<and>
    duck_transaction_commit altered_env False (\<lambda>blocks s. (None, blocks, s)) None 7 4611686018427388000 blocks (written_store 4611686018427388000) =
      (Some (TransactionException ''altered''), blocks, s') \<and> same_store (written_store 4611686018427388000) s'"
proof -
  let ?t = "4611686018427388000 :: nat"
  have sizes: "\<forall>e \<in> set written_entries. fst (snd e) < 2 ^ 32 - 16" and ok: "items_ok (contents written_entries)"
    by (simp_all add: written_entries_def)
  obtain blocks where b: "create_entries 262144 written_entries [] = Inr blocks" "buffer_ok blocks (contents written_entries)"
    using create_entries_ok [OF buffer_ok_Nil sizes, of 262144] by auto
  have made: "changes_made blocks" using b(2) by (auto simp: changes_made_def buffer_ok_def written_entries_def)
  obtain err s' where r: "duck_transaction_commit altered_env False (\<lambda>blocks s. (None, blocks, s)) None 7 ?t blocks (written_store ?t) = (err, blocks, s')"
    using made by (cases "commit_buffer altered_env None None 7 ?t blocks (written_store ?t)") (simp add: duck_transaction_commit_def)
  have "fst (run_entries (commit_entry altered_env 7) (contents written_entries) (written_store ?t)) = Some (TransactionException ''altered'')"
    by (simp add: written_entries_def altered_env_def modified_error_def)
  then show ?thesis using undo_commit_atomic [OF sizes _ b(1) ok written_owned refl _ r] made b(1) r by simp
qed

end
