(* ===== verification/LlmJson.thy ===== *)
theory LlmJson
  imports DataChunk Prompt
begin

text \<open>
  Answers of a language model as rows (\<^verbatim>\<open>third_party/predictors/common/common.hpp\<close>): the prompt text of a
  row, the search for a JSON document in an answer, and the conversion of its fields into the
  values of the output columns.

  The JSON parser and printer and the conversions of doubles are an argument, \<open>json_lib\<close>; a
  double is a value of type \<open>'d\<close>. A \<^verbatim>\<open>std::runtime_error\<close> or parse error is caught where the code
  catches it; every other exception leaves the function. An access that C++ does not define is
  \<open>UndefinedBehavior\<close>.
\<close>

section \<open>JSON documents\<close>

datatype 'd json =
    JNull
  | JBool bool
  | JInt int
  | JFloat 'd
  | JString string
  | JArray "'d json list"
  | JObject "(string \<times> 'd json) list"

record 'd json_lib =
  parse :: "string \<Rightarrow> 'd json option"
  dump :: "'d json \<Rightarrow> string"
  stod :: "string \<Rightarrow> 'd option"
  double_of_int :: "int \<Rightarrow> 'd"
  int_of_double :: "'d \<Rightarrow> int"
  idx_of_double :: "'d \<Rightarrow> nat"

fun json_field :: "'d json \<Rightarrow> string \<Rightarrow> 'd json option" where
  "json_field (JObject kvs) k = map_of kvs k"
| "json_field _ k = None"

definition json_contains :: "'d json \<Rightarrow> string \<Rightarrow> bool" where
  "json_contains j k = (json_field j k \<noteq> None)"

definition to_int32 :: "int \<Rightarrow> int" where
  "to_int32 n = (n + 2 ^ 31) mod 2 ^ 32 - 2 ^ 31"

text \<open>The values of columns; values that the predictor never looks into are \<open>OtherValue\<close>.\<close>

datatype 'd val =
    NullValue
  | VarcharValue string
  | IntegerValue int
  | DoubleValue 'd
  | BooleanValue bool
  | OtherValue 'd

record predict_info =
  pi_model_path :: string
  pi_prompt :: string
  pi_base_api :: string
  pi_secret :: string
  pi_input_mask :: "idx_t list"
  pi_input_set_names :: "string list"
  pi_result_set_names :: "string list"
  pi_result_set_types :: "logical_type_id list"

section \<open>The JSON document of an answer\<close>

fun scan_json :: "char \<Rightarrow> char \<Rightarrow> nat \<Rightarrow> string \<Rightarrow> string option" where
  "scan_json open_char close_char depth [] = None"
| "scan_json open_char close_char depth (c # cs) =
     (if c = open_char then map_option (Cons c) (scan_json open_char close_char (depth + 1) cs)
      else if c = close_char
      then (if depth = 1 then Some [c] else map_option (Cons c) (scan_json open_char close_char (depth - 1) cs))
      else map_option (Cons c) (scan_json open_char close_char depth cs))"

definition extract_json :: "string \<Rightarrow> string option" where
  "extract_json text =
     (case dropWhile (\<lambda>c. c \<noteq> CHR ''{'' \<and> c \<noteq> CHR ''['') text of
        [] \<Rightarrow> None
      | c # cs \<Rightarrow> scan_json c (if c = CHR ''{'' then CHR ''}'' else CHR '']'') 0 (c # cs))"

text \<open>Extraction and parsing as the readers do them; both failures are caught alike.\<close>

definition answer_json :: "'d json_lib \<Rightarrow> string \<Rightarrow> 'd json option" where
  "answer_json lib llm_out = (case extract_json llm_out of None \<Rightarrow> None | Some s \<Rightarrow> parse lib s)"

section \<open>Conversions\<close>

function digit_runs :: "string \<Rightarrow> string list" where
  "digit_runs [] = []"
| "digit_runs (c # cs) =
     (if is_digit c then takeWhile is_digit (c # cs) # digit_runs (dropWhile is_digit (c # cs)) else digit_runs cs)"
  by pat_completeness auto
termination
  by (relation "measure length") (auto simp: le_imp_less_Suc length_dropWhile_le)

definition digits_value :: "string \<Rightarrow> int" where
  "digits_value ds = foldl (\<lambda>n c. n * 10 + (int (code c) - 48)) 0 ds"

definition extract_longest_integer :: "string \<Rightarrow> 'd val result" where
  "extract_longest_integer input =
     (let longest = fold (\<lambda>run best. if length best < length run then run else best) (digit_runs input) [] in
      if longest = [] then Inr NullValue
      else if digits_value longest < 2 ^ 31 then Inr (IntegerValue (digits_value longest))
      else Inl (StdException ''stoi''))"

text \<open>\<^verbatim>\<open>extract_double\<close>: its runtime errors are None.\<close>

fun extract_double :: "'d json_lib \<Rightarrow> 'd json \<Rightarrow> 'd option" where
  "extract_double lib (JFloat d) = Some d"
| "extract_double lib (JInt n) = Some (double_of_int lib n)"
| "extract_double lib (JString s) = stod lib s"
| "extract_double lib _ = None"

fun field_value :: "'d json_lib \<Rightarrow> logical_type_id \<Rightarrow> 'd json \<Rightarrow> 'd val result" where
  "field_value lib VARCHAR (JString s) = Inr (VarcharValue s)"
| "field_value lib INTEGER (JString s) = extract_longest_integer s"
| "field_value lib INTEGER (JInt n) = Inr (IntegerValue (to_int32 n))"
| "field_value lib INTEGER (JFloat d) = Inr (IntegerValue (int_of_double lib d))"
| "field_value lib DOUBLE j = Inr (case extract_double lib j of Some d \<Rightarrow> DoubleValue d | None \<Rightarrow> NullValue)"
| "field_value lib BOOLEAN (JBool b) = Inr (BooleanValue b)"
| "field_value lib _ _ = Inr NullValue"

section \<open>Rows\<close>

text \<open>The column of a chunk is checked, the row is not.\<close>

definition with_value :: "nat \<Rightarrow> nat \<Rightarrow> 'v \<Rightarrow> 'v data_chunk \<Rightarrow> 'v data_chunk" where
  "with_value col row v c = c\<lparr>chunk_data := (chunk_data c)[col := (chunk_data c ! col)[row := v]]\<rparr>"

definition set_value :: "nat \<Rightarrow> nat \<Rightarrow> 'v \<Rightarrow> 'v data_chunk \<Rightarrow> 'v data_chunk result" where
  "set_value col row v c =
     result_bind (vector_at (chunk_data c) col) (\<lambda>vec.
       if row < length vec then Inr (with_value col row v c) else Inl (UndefinedBehavior ''write past the end of a vector''))"

definition get_value :: "nat \<Rightarrow> nat \<Rightarrow> 'v data_chunk \<Rightarrow> 'v result" where
  "get_value col row c =
     result_bind (vector_at (chunk_data c) col) (\<lambda>vec.
       if row < length vec then Inr (vec ! row) else Inl (UndefinedBehavior ''read past the end of a vector''))"

definition field_result :: "'d json_lib \<Rightarrow> 'd json \<Rightarrow> predict_info \<Rightarrow> nat \<Rightarrow> 'd val result" where
  "field_result lib out_json info j =
     result_bind (vector_at (pi_result_set_types info) j) (\<lambda>output_type.
       case json_field out_json (pi_result_set_names info ! j) of
         None \<Rightarrow> Inr NullValue
       | Some field \<Rightarrow> field_value lib output_type field)"

definition populate_field :: "'d json_lib \<Rightarrow> 'd json \<Rightarrow> nat \<Rightarrow> predict_info \<Rightarrow> nat \<Rightarrow> 'd val data_chunk \<Rightarrow> 'd val data_chunk result" where
  "populate_field lib out_json row info j output =
     result_bind (field_result lib out_json info j) (\<lambda>v. set_value j row v output)"

definition populate_row_data :: "'d json_lib \<Rightarrow> 'd json \<Rightarrow> nat \<Rightarrow> predict_info \<Rightarrow> 'd val data_chunk \<Rightarrow> 'd val data_chunk result" where
  "populate_row_data lib out_json row info output =
     result_fold (populate_field lib out_json row info) [0..<length (pi_result_set_names info)] output"

definition fill_null :: "nat \<Rightarrow> predict_info \<Rightarrow> 'd val data_chunk \<Rightarrow> 'd val data_chunk result" where
  "fill_null row info output =
     result_fold (\<lambda>j out. result_bind (vector_at (pi_result_set_types info) j) (\<lambda>_. set_value j row NullValue out))
       [0..<length (pi_result_set_names info)] output"

definition extract_row_data :: "'d json_lib \<Rightarrow> string \<Rightarrow> nat \<Rightarrow> predict_info \<Rightarrow> 'd val data_chunk \<Rightarrow> 'd val data_chunk result" where
  "extract_row_data lib llm_out row info output =
     (case answer_json lib llm_out of
        None \<Rightarrow> fill_null row info output
      | Some j \<Rightarrow> populate_row_data lib j row info output)"

text \<open>The text of a row; the value of a cell is printed by \<^verbatim>\<open>to_sql\<close>.\<close>

definition embed_column :: "('v \<Rightarrow> string) \<Rightarrow> nat \<Rightarrow> 'v data_chunk \<Rightarrow> predict_info \<Rightarrow> bool \<Rightarrow> nat \<Rightarrow> string result" where
  "embed_column to_sql row input info is_multi col_i =
     result_bind (vector_at (pi_input_set_names info) col_i) (\<lambda>name.
     result_bind (get_value (pi_input_mask info ! col_i) row input) (\<lambda>v.
       Inr (name @ '' = `'' @ to_sql v @ (if is_multi then ''`, '' else ''`;'' @ [CHR 0x0A]))))"

definition embed_prompt :: "('v \<Rightarrow> string) \<Rightarrow> nat \<Rightarrow> 'v data_chunk \<Rightarrow> predict_info \<Rightarrow> bool \<Rightarrow> string result" where
  "embed_prompt to_sql row input info is_multi =
     result_bind (traverse (embed_column to_sql row input info is_multi) [0..<length (pi_input_mask info)]) (\<lambda>ss. Inr (concat ss))"

section \<open>Arrays of answers\<close>

text \<open>
  The reader of a batch under the cache: \<open>unprocessed\<close> is the map from prompts to the rows that
  have them, and the batch starts at position \<open>i\<close> of it. The rows that are set to NULL after a
  failure are the numbers of positions.
\<close>

definition cached_answer ::
  "'d json_lib \<Rightarrow> (string \<times> nat list) list \<Rightarrow> predict_info \<Rightarrow> nat \<Rightarrow> 'd json \<Rightarrow>
   (string \<rightharpoonup> string) \<times> 'd val data_chunk \<Rightarrow> ((string \<rightharpoonup> string) \<times> 'd val data_chunk) result" where
  "cached_answer lib unprocessed info row item st =
     (if row < length unprocessed then
        (let (key, tuple_ids) = unprocessed ! row in
         result_bind (result_fold (\<lambda>tuple_id out. populate_row_data lib item tuple_id info out) tuple_ids (snd st))
           (\<lambda>out. Inr ((fst st)(key \<mapsto> dump lib item), out)))
      else Inl (UndefinedBehavior ''std::next past the end of the map''))"

definition null_rows :: "nat list \<Rightarrow> predict_info \<Rightarrow> 'd val data_chunk \<Rightarrow> 'd val data_chunk result" where
  "null_rows rows info output = result_fold (\<lambda>row out. fill_null row info out) rows output"

definition extract_array_data_cached ::
  "'d json_lib \<Rightarrow> string \<Rightarrow> (string \<times> nat list) list \<Rightarrow> nat \<Rightarrow> predict_info \<Rightarrow> nat \<Rightarrow>
   (string \<rightharpoonup> string) \<times> 'd val data_chunk \<Rightarrow> ((string \<rightharpoonup> string) \<times> 'd val data_chunk) result" where
  "extract_array_data_cached lib llm_out unprocessed i info n_rows st =
     (let fail = (\<lambda>failed_from (cache, out). result_bind (null_rows [failed_from..<i + n_rows] info out) (\<lambda>out'. Inr (cache, out'))) in
      case answer_json lib llm_out of
        None \<Rightarrow> fail i st
      | Some out_json \<Rightarrow>
          (case (case json_field out_json ''output_array'' of Some a \<Rightarrow> a | None \<Rightarrow> out_json) of
             JArray items \<Rightarrow>
               result_bind (result_fold (\<lambda>(row, item). cached_answer lib unprocessed info row item) (zip [i..<i + length items] items) st)
                 (\<lambda>st'. let row = i + length items in if row + 1 < i + n_rows then fail row st' else Inr st')
           | _ \<Rightarrow> fail i st))"

text \<open>The reader without the cache; the rows of the batch are given.\<close>

definition extract_array_data_rows ::
  "'d json_lib \<Rightarrow> string \<Rightarrow> nat list \<Rightarrow> predict_info \<Rightarrow> nat \<Rightarrow> 'd val data_chunk \<Rightarrow> 'd val data_chunk result" where
  "extract_array_data_rows lib llm_out orig_rows info n_rows output =
     (case answer_json lib llm_out of
        None \<Rightarrow> null_rows (take n_rows orig_rows) info output
      | Some out_json \<Rightarrow>
          (case json_field out_json ''output_array'' of
             Some (JArray items) \<Rightarrow>
               result_bind (result_fold (\<lambda>(row, item) out. populate_row_data lib item row info out) (zip (take n_rows orig_rows) items) output)
                 (\<lambda>out. null_rows (drop (length items) (take n_rows orig_rows)) info out)
           | _ \<Rightarrow> null_rows (take n_rows orig_rows) info output))"

text \<open>The reader of a scan, which sizes the output by the answer; without rows to fill there is
  nothing to set to NULL. Too few types for the columns raise an exception in the first row, which
  the reader catches.\<close>

definition extract_array_data_scan :: "'d json_lib \<Rightarrow> string \<Rightarrow> predict_info \<Rightarrow> 'd val data_chunk \<Rightarrow> 'd val data_chunk result" where
  "extract_array_data_scan lib llm_out info output =
     (case answer_json lib llm_out of
        None \<Rightarrow> Inr output
      | Some out_json \<Rightarrow>
          (case json_field out_json ''output_array'' of
             Some (JArray items) \<Rightarrow>
               (let typed = length (pi_result_set_types info); out = set_cardinality (length items) output in
                if typed < length (pi_result_set_names info) \<and> items \<noteq> []
                then populate_row_data lib (hd items) 0 (info\<lparr>pi_result_set_names := take typed (pi_result_set_names info)\<rparr>) out
                else result_fold (\<lambda>(row, item) out. populate_row_data lib item row info out) (zip [0..<length items] items) out)
           | _ \<Rightarrow> Inr output))"

section \<open>Cells after writing\<close>

text \<open>The row of values that an answer stands for.\<close>

definition row_values :: "'d json_lib \<Rightarrow> predict_info \<Rightarrow> 'd json \<Rightarrow> 'd val list result" where
  "row_values lib info out_json = traverse (field_result lib out_json info) [0..<length (pi_result_set_names info)]"

definition cell :: "'v data_chunk \<Rightarrow> nat \<Rightarrow> nat \<Rightarrow> 'v" where
  "cell c j row = chunk_data c ! j ! row"

text \<open>An output chunk with room for the result columns and the rows.\<close>

definition output_ok :: "predict_info \<Rightarrow> nat \<Rightarrow> 'v data_chunk \<Rightarrow> bool" where
  "output_ok info rows c \<longleftrightarrow> (\<forall>j < length (pi_result_set_names info). j < length (chunk_data c) \<and> rows \<le> length (chunk_data c ! j))"

text \<open>\<open>c'\<close> is \<open>c\<close> with the values \<open>vs\<close> in the rows \<open>R\<close>.\<close>

definition same_shape :: "'v data_chunk \<Rightarrow> 'v data_chunk \<Rightarrow> bool" where
  "same_shape c c' \<longleftrightarrow> map length (chunk_data c') = map length (chunk_data c) \<and> chunk_count c' = chunk_count c \<and> chunk_capacity c' = chunk_capacity c"

lemma same_shape_refl [simp]: "same_shape c c"
  by (simp add: same_shape_def)

lemma same_shape_trans: "same_shape a b \<Longrightarrow> same_shape b c \<Longrightarrow> same_shape a c"
  by (simp add: same_shape_def)

definition wrote :: "predict_info \<Rightarrow> nat \<Rightarrow> nat set \<Rightarrow> 'v list \<Rightarrow> 'v data_chunk \<Rightarrow> 'v data_chunk \<Rightarrow> bool" where
  "wrote info rows R vs c c' \<longleftrightarrow> output_ok info rows c' \<and> same_shape c c' \<and>
     (\<forall>j r. cell c' j r = (if r \<in> R \<and> j < length (pi_result_set_names info) then vs ! j else cell c j r))"

lemma with_value_cell:
  assumes "col < length (chunk_data c)" and "row < length (chunk_data c ! col)"
  shows "cell (with_value col row v c) j r = (if j = col \<and> r = row then v else cell c j r)"
proof (cases "j = col")
  case True
  then show ?thesis using assms by (simp add: cell_def with_value_def nth_list_update)
qed (simp add: cell_def with_value_def)

lemma with_value_ok: "output_ok info rows c \<Longrightarrow> output_ok info rows (with_value col row v c)"
  by (cases "col < length (chunk_data c)") (auto simp: output_ok_def with_value_def nth_list_update)

lemma with_value_shape: "same_shape c (with_value col row v c)"
proof -
  have "length ((chunk_data c)[col := (chunk_data c ! col)[row := v]] ! i) = length (chunk_data c ! i)" for i
    by (cases "i = col"; cases "col < length (chunk_data c)") (simp_all add: list_update_beyond)
  then show ?thesis by (simp add: same_shape_def with_value_def list_eq_iff_nth_eq)
qed

lemma write_fields:
  assumes "\<forall>j < n. f j = Inr (vs ! j)" and "n \<le> length (pi_result_set_names info)" and "output_ok info rows c" and "row < rows"
  shows "\<exists>c'. result_fold (\<lambda>j out. result_bind (f j) (\<lambda>v. set_value j row v out)) [0..<n] c = Inr c' \<and> output_ok info rows c' \<and> same_shape c c' \<and>
    (\<forall>j r. cell c' j r = (if r = row \<and> j < n then vs ! j else cell c j r))"
  using assms(1,2)
proof (induction n)
  case (Suc n)
  let ?g = "\<lambda>j out. result_bind (f j) (\<lambda>v. set_value j row v out)"
  from Suc obtain c1 where c1: "result_fold ?g [0..<n] c = Inr c1" "output_ok info rows c1" "same_shape c c1"
    "\<forall>j r. cell c1 j r = (if r = row \<and> j < n then vs ! j else cell c j r)" by auto
  have len: "n < length (chunk_data c1)" "row < length (chunk_data c1 ! n)"
    using c1(2) Suc.prems assms(4) by (auto simp: output_ok_def intro: less_le_trans)
  have "result_fold ?g [0..<Suc n] c = Inr (with_value n row (vs ! n) c1)"
    using c1(1) len Suc.prems by (simp add: result_fold_append set_value_def vector_at_def)
  then show ?case
    using c1(4) with_value_cell [OF len] with_value_ok [OF c1(2)] same_shape_trans [OF c1(3) with_value_shape] by (auto simp: less_Suc_eq)
qed (use assms(3) in simp)

lemma write_row_wrote:
  assumes "\<forall>j < length (pi_result_set_names info). f j = Inr (vs ! j)" and "output_ok info rows c" and "row < rows"
  shows "\<exists>c'. result_fold (\<lambda>j out. result_bind (f j) (\<lambda>v. set_value j row v out)) [0..<length (pi_result_set_names info)] c = Inr c' \<and>
    wrote info rows {row} vs c c'"
  using write_fields [OF assms(1) order_refl assms(2,3)] by (auto simp: wrote_def)

lemma populate_wrote:
  assumes "row_values lib info item = Inr vs" and "output_ok info rows c" and "row < rows"
  shows "\<exists>c'. populate_row_data lib item row info c = Inr c' \<and> wrote info rows {row} vs c c'"
proof -
  have "\<forall>j < length (pi_result_set_names info). field_result lib item info j = Inr (vs ! j)"
    using traverse_nth [OF assms(1) [unfolded row_values_def]] by simp
  from write_row_wrote [OF this assms(2,3)] show ?thesis
    unfolding populate_row_data_def populate_field_def .
qed

lemma wrote_trans: "wrote info rows R vs c c1 \<Longrightarrow> wrote info rows S vs c1 c2 \<Longrightarrow> wrote info rows (R \<union> S) vs c c2"
  by (auto simp: wrote_def dest: same_shape_trans)

lemma wrote_empty: "output_ok info rows c \<Longrightarrow> wrote info rows {} vs c c"
  by (simp add: wrote_def)

lemma wrote_output_ok: "wrote info rows R vs c c' \<Longrightarrow> output_ok info rows c'"
  by (simp add: wrote_def)

lemma fold_wrote:
  assumes "\<And>row c. row \<in> set ids \<Longrightarrow> output_ok info rows c \<Longrightarrow> \<exists>c'. f row c = Inr c' \<and> wrote info rows {row} vs c c'"
    and "output_ok info rows c"
  shows "\<exists>c'. result_fold f ids c = Inr c' \<and> wrote info rows (set ids) vs c c'"
  using assms
proof (induction ids arbitrary: c)
  case (Cons row ids)
  then obtain c1 where c1: "f row c = Inr c1" "wrote info rows {row} vs c c1" by (meson list.set_intros(1))
  then obtain c2 where "result_fold f ids c1 = Inr c2" "wrote info rows (set ids) vs c1 c2"
    using Cons.IH [of c1] Cons.prems(1) wrote_output_ok by (metis list.set_intros(2))
  with c1 show ?case using wrote_trans [of info rows "{row}"] by fastforce
qed (simp add: wrote_empty)

lemma populate_all_wrote:
  assumes "row_values lib info item = Inr vs" and "output_ok info rows c" and "\<forall>row \<in> set ids. row < rows"
  shows "\<exists>c'. result_fold (\<lambda>row out. populate_row_data lib item row info out) ids c = Inr c' \<and> wrote info rows (set ids) vs c c'"
  using assms(2,3) populate_wrote [OF assms(1)] by (intro fold_wrote) auto

lemma extract_row_wrote:
  assumes "answer_json lib s = Some item" and "row_values lib info item = Inr vs" and "output_ok info rows c" and "row < rows"
  shows "\<exists>c'. extract_row_data lib s row info c = Inr c' \<and> wrote info rows {row} vs c c'"
  using populate_wrote [OF assms(2-4)] assms(1) by (simp add: extract_row_data_def)

lemma extract_rows_wrote:
  assumes "answer_json lib s = Some item" and "row_values lib info item = Inr vs" and "output_ok info rows c" and "\<forall>row \<in> set ids. row < rows"
  shows "\<exists>c'. result_fold (\<lambda>row out. extract_row_data lib s row info out) ids c = Inr c' \<and> wrote info rows (set ids) vs c c'"
  using assms(3,4) extract_row_wrote [OF assms(1,2)] by (intro fold_wrote) auto

section \<open>What is extracted\<close>

text \<open>A text is balanced when it is the shortest one that starts with an opening bracket and closes it.\<close>

definition surplus :: "char \<Rightarrow> char \<Rightarrow> string \<Rightarrow> int" where
  "surplus open_char close_char s = int (count_list s open_char) - int (count_list s close_char)"

definition balanced :: "char \<Rightarrow> char \<Rightarrow> int \<Rightarrow> string \<Rightarrow> bool" where
  "balanced open_char close_char d s \<longleftrightarrow> s \<noteq> [] \<and> d + surplus open_char close_char s = 0 \<and>
     (\<forall>n. 0 < n \<and> n < length s \<longrightarrow> 0 < d + surplus open_char close_char (take n s))"

lemma surplus_Cons:
  "open_char \<noteq> close_char \<Longrightarrow> surplus open_char close_char (c # s) =
    (if c = open_char then 1 else if c = close_char then -1 else 0) + surplus open_char close_char s"
  by (simp add: surplus_def)

lemma balanced_Cons:
  assumes "open_char \<noteq> close_char" and "s \<noteq> []"
  shows "balanced open_char close_char d (c # s) \<longleftrightarrow>
    (let d' = d + (if c = open_char then 1 else if c = close_char then -1 else 0) in 0 < d' \<and> balanced open_char close_char d' s)"
proof -
  have "(\<forall>n. 0 < n \<and> n < Suc (length s) \<longrightarrow> P n) \<longleftrightarrow> P 1 \<and> (\<forall>n. 0 < n \<and> n < length s \<longrightarrow> P (Suc n))" for P
    using assms(2) by (metis One_nat_def Suc_less_eq length_greater_0_conv not0_implies_Suc zero_less_Suc less_Suc_eq_0_disj)
  then show ?thesis
    using assms by (simp add: balanced_def surplus_Cons Let_def add.assoc) (simp add: surplus_def conj_ac)
qed

lemma balanced_single: "open_char \<noteq> close_char \<Longrightarrow> 0 < d \<Longrightarrow> balanced open_char close_char d [c] \<longleftrightarrow> c = close_char \<and> d = 1"
  by (auto simp: balanced_def surplus_def)

lemma balanced_Nil [simp]: "\<not> balanced open_char close_char d []"
  by (simp add: balanced_def)

lemma scan_json_balanced:
  assumes "open_char \<noteq> close_char" and "0 < d"
  shows "scan_json open_char close_char d input = Some s \<longleftrightarrow> (\<exists>post. input = s @ post \<and> balanced open_char close_char (int d) s)"
  using assms(2)
proof (induction input arbitrary: d s)
  case Nil
  then show ?case by (simp add: balanced_def)
next
  case (Cons c input)
  let ?d = "if c = open_char then d + 1 else if c = close_char then d - 1 else d"
  have step: "scan_json open_char close_char d (c # input) =
      (if ?d = 0 then Some [c] else map_option (Cons c) (scan_json open_char close_char ?d input))"
    using Cons.prems assms(1) by auto
  have delta: "int ?d = int d + (if c = open_char then 1 else if c = close_char then -1 else 0)"
    using Cons.prems assms(1) by auto
  show ?case
  proof (cases "?d = 0")
    case True
    then have "c = close_char" "d = 1" "c \<noteq> open_char" using Cons.prems by (auto split: if_splits)
    then have bal: "balanced open_char close_char (int d) (c # s') \<longleftrightarrow> s' = []" for s'
      using balanced_single [OF assms(1), of 1] balanced_Cons [OF assms(1), of s' 1 c] by (cases "s' = []") auto
    have "scan_json open_char close_char d (c # input) = Some [c]" unfolding step True by simp
    then show ?thesis by (cases s) (auto simp: bal)
  next
    case False
    then have IH: "scan_json open_char close_char ?d input = Some s' \<longleftrightarrow> (\<exists>post. input = s' @ post \<and> balanced open_char close_char (int ?d) s')" for s'
      using Cons.IH by blast
    have "balanced open_char close_char (int d) (c # s') \<longleftrightarrow> balanced open_char close_char (int ?d) s'" for s'
    proof (cases "s' = []")
      case True
      have "\<not> (c = close_char \<and> int d = 1)" using False assms(1) by auto
      then show ?thesis using True balanced_single [OF assms(1), of "int d" c] Cons.prems by (simp add: balanced_def)
    next
      case nonempty: False
      then show ?thesis using False balanced_Cons [OF assms(1) nonempty, of "int d" c] unfolding Let_def delta [symmetric] by auto
    qed
    then show ?thesis using False step IH by (cases s) auto
  qed
qed

definition bracketed :: "string \<Rightarrow> bool" where
  "bracketed s \<longleftrightarrow> (hd s = CHR ''{'' \<and> balanced CHR ''{'' CHR ''}'' 0 s) \<or> (hd s = CHR ''['' \<and> balanced CHR ''['' CHR '']'' 0 s)"

lemma scan_json_open:
  assumes "open_char \<noteq> close_char"
  shows "scan_json open_char close_char 0 (open_char # input) = Some s \<longleftrightarrow>
    (\<exists>post. open_char # input = s @ post \<and> balanced open_char close_char 0 s)"
proof -
  have "balanced open_char close_char 0 (open_char # s') \<longleftrightarrow> balanced open_char close_char 1 s'" for s'
  proof (cases "s' = []")
    case True
    then show ?thesis using assms by (simp add: balanced_def surplus_def)
  qed (use balanced_Cons [OF assms] in \<open>simp add: Let_def\<close>)
  then show ?thesis
    using scan_json_balanced [OF assms, of 1 input] by (cases s) auto
qed

text \<open>
  C38. The document that is cut out of an answer is the first bracketed one: nothing before it has an
  opening brace or bracket, and it is the shortest text from there whose brackets of its own
  kind close. Brackets inside of JSON strings are counted like the others.
\<close>

theorem extract_json_first_bracketed:
  "extract_json input = Some s \<longleftrightarrow>
    (\<exists>pre post. input = pre @ s @ post \<and> CHR ''{'' \<notin> set pre \<and> CHR ''['' \<notin> set pre \<and> bracketed s)"
proof -
  let ?no = "\<lambda>c. c \<noteq> CHR ''{'' \<and> c \<noteq> CHR ''[''"
  have first: "dropWhile ?no (pre @ s @ post) = s @ post" if "\<forall>c \<in> set pre. ?no c" "bracketed s" for pre post
    using that by (cases s) (auto simp: bracketed_def balanced_def dropWhile_append2)
  have "extract_json input = Some s \<longleftrightarrow> (\<exists>post. dropWhile ?no input = s @ post \<and> bracketed s)"
  proof (cases "dropWhile ?no input")
    case Nil
    then have "extract_json input = None" unfolding extract_json_def by (simp only: list.case)
    moreover have "\<not> bracketed []" by (simp add: bracketed_def balanced_def)
    ultimately show ?thesis unfolding Nil by auto
  next
    case (Cons c cs)
    then have "\<not> ?no c" unfolding dropWhile_eq_Cons_conv by blast
    then consider "c = CHR ''{''" | "c = CHR ''[''" by blast
    then show ?thesis
    proof cases
      case 1
      then show ?thesis using Cons scan_json_open [of "CHR ''{''" "CHR ''}''" cs s] by (cases s) (auto simp: extract_json_def bracketed_def)
    next
      case 2
      then show ?thesis using Cons scan_json_open [of "CHR ''[''" "CHR '']''" cs s] by (cases s) (auto simp: extract_json_def bracketed_def)
    qed
  qed
  also have "\<dots> \<longleftrightarrow> (\<exists>pre post. input = pre @ s @ post \<and> (\<forall>c \<in> set pre. ?no c) \<and> bracketed s)"
  proof
    assume "\<exists>post. dropWhile ?no input = s @ post \<and> bracketed s"
    then obtain post where d: "dropWhile ?no input = s @ post" "bracketed s" by blast
    have "input = takeWhile ?no input @ s @ post" unfolding d(1) [symmetric] by simp
    moreover have "\<forall>c \<in> set (takeWhile ?no input). ?no c" by (auto dest: set_takeWhileD)
    ultimately show "\<exists>pre post. input = pre @ s @ post \<and> (\<forall>c \<in> set pre. ?no c) \<and> bracketed s" using d(2) by blast
  next
    assume "\<exists>pre post. input = pre @ s @ post \<and> (\<forall>c \<in> set pre. ?no c) \<and> bracketed s"
    then obtain pre post where "input = pre @ s @ post" "\<forall>c \<in> set pre. ?no c" "bracketed s" by blast
    with first [of pre post] show "\<exists>post. dropWhile ?no input = s @ post \<and> bracketed s" by blast
  qed
  also have "\<dots> \<longleftrightarrow> (\<exists>pre post. input = pre @ s @ post \<and> CHR ''{'' \<notin> set pre \<and> CHR ''['' \<notin> set pre \<and> bracketed s)"
  proof -
    have "(\<forall>c \<in> set pre. ?no c) \<longleftrightarrow> CHR ''{'' \<notin> set pre \<and> CHR ''['' \<notin> set pre" for pre by metis
    then show ?thesis by (simp only: conj_assoc)
  qed
  finally show ?thesis .
qed

section \<open>Types of the values\<close>

text \<open>A value fits a column: it is NULL or of the type of the column, and integers fit 32 bits.\<close>

fun fits_column :: "logical_type_id \<Rightarrow> 'd val \<Rightarrow> bool" where
  "fits_column t NullValue = True"
| "fits_column t (VarcharValue s) = (t = VARCHAR)"
| "fits_column t (IntegerValue n) = (t = INTEGER \<and> - (2 ^ 31) \<le> n \<and> n < 2 ^ 31)"
| "fits_column t (DoubleValue d) = (t = DOUBLE)"
| "fits_column t (BooleanValue b) = (t = BOOLEAN)"
| "fits_column t (OtherValue d) = False"

lemma to_int32_bounds: "- (2 ^ 31) \<le> to_int32 n" "to_int32 n < 2 ^ 31"
  by (simp_all add: to_int32_def)

lemma digits_value_nonneg: "list_all is_digit ds \<Longrightarrow> 0 \<le> digits_value ds"
proof (induction ds rule: rev_induct)
  case (snoc d ds)
  then have "48 \<le> int (code d)" by (auto simp: is_digit_def)
  then show ?case using snoc by (simp add: digits_value_def)
qed (simp add: digits_value_def)

lemma digit_runs_digits: "run \<in> set (digit_runs s) \<Longrightarrow> list_all is_digit run"
proof (induction s rule: digit_runs.induct)
  case (2 c cs)
  show ?case
  proof (cases "is_digit c")
    case True
    then have "run = takeWhile is_digit (c # cs) \<or> run \<in> set (digit_runs (dropWhile is_digit (c # cs)))"
      using "2.prems" by (simp only: digit_runs.simps if_True set_simps insert_iff)
    then show ?thesis using "2.IH"(1) [OF True] by (auto simp only: list_all_iff dest: set_takeWhileD)
  next
    case False
    then show ?thesis using "2.IH"(2) "2.prems" by simp
  qed
qed simp

lemma longest_in: "longest = fold (\<lambda>run best. if length best < length run then run else best) runs b \<Longrightarrow> longest = b \<or> longest \<in> set runs"
  by (induction runs arbitrary: b) (auto split: if_splits)

lemma extract_longest_fits:
  assumes "extract_longest_integer s = Inr v"
  shows "fits_column INTEGER v"
proof -
  define longest where "longest = fold (\<lambda>run best. if length best < length run then run else best) (digit_runs s) []"
  have "list_all is_digit longest" using longest_in [OF longest_def] digit_runs_digits by auto
  then have "0 \<le> digits_value longest" by (rule digits_value_nonneg)
  with assms show ?thesis
    by (auto simp: extract_longest_integer_def simp flip: longest_def split: if_splits)
qed

lemma field_value_fits:
  "\<forall>d. - (2 ^ 31) \<le> int_of_double lib d \<and> int_of_double lib d < 2 ^ 31 \<Longrightarrow> field_value lib t j = Inr v \<Longrightarrow> fits_column t v"
  by (cases "(lib, t, j)" rule: field_value.cases) (auto simp: to_int32_bounds [simplified] extract_longest_fits split: option.splits)

text \<open>The digits that \<^verbatim>\<open>extract_longest_integer\<close> hands to \<^verbatim>\<open>std::stoi\<close>, and the fields whose digits it cannot read: 2147483648 and more.\<close>

definition longest_digits :: "string \<Rightarrow> string" where
  "longest_digits s = fold (\<lambda>run best. if length best < length run then run else best) (digit_runs s) []"

fun too_long_integer :: "logical_type_id \<Rightarrow> 'd json option \<Rightarrow> bool" where
  "too_long_integer INTEGER (Some (JString s)) = (2 ^ 31 \<le> digits_value (longest_digits s))"
| "too_long_integer _ _ = False"

lemma extract_longest_raises:
  "extract_longest_integer s = Inl e \<Longrightarrow> e = StdException ''stoi'' \<and> 2 ^ 31 \<le> digits_value (longest_digits s)"
  "extract_longest_integer s = Inr v \<Longrightarrow> digits_value (longest_digits s) < 2 ^ 31"
  unfolding extract_longest_integer_def Let_def longest_digits_def [symmetric] by (auto simp: digits_value_def split: if_splits)

lemma field_value_raises:
  "field_value lib t j = Inl e \<Longrightarrow> e = StdException ''stoi'' \<and> too_long_integer t (Some j)"
  "field_value lib t j = Inr v \<Longrightarrow> \<not> too_long_integer t (Some j)"
  by (cases "(lib, t, j)" rule: field_value.cases; auto dest: extract_longest_raises)+

lemma field_result_raises:
  assumes "j < length (pi_result_set_types info)"
  shows "field_result lib item info j = Inl e \<Longrightarrow>
      e = StdException ''stoi'' \<and> too_long_integer (pi_result_set_types info ! j) (json_field item (pi_result_set_names info ! j))"
    "field_result lib item info j = Inr v \<Longrightarrow> \<not> too_long_integer (pi_result_set_types info ! j) (json_field item (pi_result_set_names info ! j))"
  using assms by (auto simp: field_result_def vector_at_def split: option.splits dest: field_value_raises)

definition demo_json_lib :: "int json_lib" where
  "demo_json_lib = \<lparr>parse = (\<lambda>_. None), dump = (\<lambda>_. []), stod = (\<lambda>_. None), double_of_int = (\<lambda>n. n), int_of_double = to_int32, idx_of_double = nat\<rparr>"

definition demo_row_info :: predict_info where
  "demo_row_info = \<lparr>pi_model_path = [], pi_prompt = [], pi_base_api = [], pi_secret = [], pi_input_mask = [], pi_input_set_names = [],
     pi_result_set_names = [''age'', ''ok''], pi_result_set_types = [INTEGER, BOOLEAN]\<rparr>"

text \<open>
  C39. The values that a JSON item of an answer gives a row. With a type for every result column, the row exists unless the item has
  for an INTEGER column a string whose longest run of digits is 2147483648 or more: then \<^verbatim>\<open>std::stoi\<close> raises, which no caller
  catches. A row that exists has one value per column, each NULL or of the type of its column, and every
  integer within 32 bits, when the conversion of a double gives 32 bits.
\<close>

theorem row_values_fit:
  assumes "length (pi_result_set_names info) \<le> length (pi_result_set_types info)"
    and "\<forall>d. - (2 ^ 31) \<le> int_of_double lib d \<and> int_of_double lib d < 2 ^ 31"
  shows "case row_values lib info item of
      Inl e \<Rightarrow> e = StdException ''stoi'' \<and>
        (\<exists>j < length (pi_result_set_names info). too_long_integer (pi_result_set_types info ! j) (json_field item (pi_result_set_names info ! j)))
    | Inr vs \<Rightarrow> length vs = length (pi_result_set_names info) \<and>
        (\<forall>j < length vs. \<not> too_long_integer (pi_result_set_types info ! j) (json_field item (pi_result_set_names info ! j)) \<and>
          fits_column (pi_result_set_types info ! j) (vs ! j))"
proof (cases "row_values lib info item")
  case (Inl e)
  then obtain j where j: "j < length (pi_result_set_names info)" "field_result lib item info j = Inl e"
    using traverse_Inl [of "field_result lib item info" "[0..<length (pi_result_set_names info)]" e] by (auto simp: row_values_def)
  then show ?thesis using field_result_raises(1) [of j info lib item] assms(1) Inl by (auto intro!: exI [of _ j])
next
  case (Inr vs)
  have len: "length vs = length (pi_result_set_names info)"
    using traverse_length [OF Inr [unfolded row_values_def]] by simp
  have "\<not> too_long_integer (pi_result_set_types info ! j) (json_field item (pi_result_set_names info ! j)) \<and> fits_column (pi_result_set_types info ! j) (vs ! j)"
    if "j < length vs" for j
  proof -
    have f: "field_result lib item info j = Inr (vs ! j)"
      using traverse_nth [OF Inr [unfolded row_values_def], of j] that len by simp
    have "j < length (pi_result_set_types info)" using that len assms(1) by simp
    with f show ?thesis
      using field_value_fits [OF assms(2)] field_result_raises(2) [of j info lib item]
      by (auto simp: field_result_def vector_at_def split: if_splits option.splits)
  qed
  then show ?thesis using len Inr by simp
qed

text \<open>A field with prose around the number, and one with too many digits.\<close>

theorem row_values_fit_witness:
  "\<exists>vs :: int val list. row_values demo_json_lib demo_row_info (JObject [(''age'', JString ''about 42''), (''ok'', JInt 1)]) = Inr vs \<and>
    vs = [IntegerValue 42, NullValue] \<and> fits_column INTEGER (vs ! 0) \<and> fits_column BOOLEAN (vs ! 1) \<and>
    row_values demo_json_lib demo_row_info (JObject [(''age'', JString ''2147483648'')]) = Inl (StdException ''stoi'')"
proof -
  let ?vs = "[IntegerValue 42, NullValue] :: int val list"
  have types: "length (pi_result_set_names demo_row_info) \<le> length (pi_result_set_types demo_row_info)" by (simp add: demo_row_info_def)
  have lib: "\<forall>d. - (2 ^ 31) \<le> int_of_double demo_json_lib d \<and> int_of_double demo_json_lib d < 2 ^ 31"
    by (simp add: demo_json_lib_def to_int32_bounds [simplified])
  note fit = row_values_fit [OF types lib]
  have r: "row_values demo_json_lib demo_row_info (JObject [(''age'', JString ''about 42''), (''ok'', JInt 1)]) = Inr ?vs" by code_simp
  have f: "fits_column INTEGER (?vs ! 0)" "fits_column BOOLEAN (?vs ! 1)"
    using fit [of "JObject [(''age'', JString ''about 42''), (''ok'', JInt 1)]"] unfolding r by (auto simp: demo_row_info_def)
  have "row_values demo_json_lib demo_row_info (JObject [(''age'', JString ''2147483648'')]) = Inl (StdException ''stoi'')" by code_simp
  then show ?thesis using r f by (intro exI [of _ ?vs]) auto
qed

end
