(* ===== verification/LlmPredict.thy ===== *)
theory LlmPredict
  imports LlmJson
begin

text \<open>
  The predictor for language models behind an API (\<^verbatim>\<open>third_party/predictors/llm_api\<close>): the prompts and
  response formats of its requests, the calls for one row and for a batch, and \<^verbatim>\<open>PredictChunk\<close>, which
  answers the rows of a chunk from its cache or by batches that run on several threads and
  falls back to single calls. The code is modelled with the options of \<^verbatim>\<open>llm_common.hpp\<close>:
  threads, no clustering, JSON schemas; the task is the language model task.

  The network is the argument \<open>post\<close>, from a request to the document of the response. A
  request for a batch reads only the prompts, so the order in which the threads of one round
  run has no effect, and their results are processed in the order of the batches.
\<close>

section \<open>Requests\<close>

abbreviation newline :: string where
  "newline \<equiv> [CHR 0x0A]"

definition quoted :: "string \<Rightarrow> string" where
  "quoted s = [CHR 0x22] @ s @ [CHR 0x22]"

record llm_predictor =
  lp_prompt :: string
  lp_model_path :: string
  lp_grammar :: string
  lp_batch_size :: nat
  lp_use_cache :: bool
  lp_use_batch :: bool
  lp_n_threads :: nat
  lp_cache :: "string \<rightharpoonup> string"

record llm_request =
  rq_endpoint :: string
  rq_model :: string
  rq_system :: string
  rq_user :: string
  rq_format :: string

fun type_to_string :: "logical_type_id \<Rightarrow> string result" where
  "type_to_string VARCHAR = Inr ''string''"
| "type_to_string INTEGER = Inr ''integer''"
| "type_to_string DOUBLE = Inr ''number''"
| "type_to_string BOOLEAN = Inr ''boolean''"
| "type_to_string (OTHER_TYPE name) = Inl (InternalException ''Unsupported result type'')"

fun join_with :: "string \<Rightarrow> string list \<Rightarrow> string" where
  "join_with sep [] = []"
| "join_with sep [s] = s"
| "join_with sep (s # ss) = s @ sep @ join_with sep ss"

definition prompt_attributes :: "string \<Rightarrow> (string \<times> logical_type_id) list result" where
  "prompt_attributes prompt = traverse (\<lambda>(attr, type). result_bind (type_to_logical_type type) (\<lambda>t. Inr (attr, t))) (out_matches prompt)"

definition generate_grammar :: "string \<Rightarrow> string result" where
  "generate_grammar prompt =
     result_bind (prompt_attributes prompt) (\<lambda>attrs.
     result_bind (traverse (\<lambda>(attribute, type). result_bind (type_to_string type)
         (\<lambda>t. Inr (quoted attribute @ '': { '' @ quoted ''type'' @ '': '' @ quoted t @ '' }''))) attrs) (\<lambda>properties. Inr
       (''{'' @ quoted ''type'' @ '': '' @ quoted ''object'' @ '','' @ newline @
        quoted ''properties'' @ '': {'' @ newline @
        join_with ('','' @ newline) properties @
        newline @ ''},'' @ newline @ quoted ''required'' @ '': ['' @
        join_with '', '' (map (\<lambda>(attribute, type). quoted attribute) attrs) @ ''],'' @ newline @
        quoted ''additionalProperties'' @ '': false'' @ newline @ ''}'')))"

definition generate_system_message :: "llm_predictor \<Rightarrow> bool \<Rightarrow> string" where
  "generate_system_message pr is_array =
     (if is_array
      then ''You are a helpful assistant. Always respond **only** with valid single JSON array where each object is in format ''
      else ''You are a helpful assistant. Always respond **only** with valid JSON object (i.e. not an array) in format '') @
     lp_grammar pr @
     ''. Do not include any extra text, explanations, language specifier, produce {<key>: <single value>} for JSON objects. '' @
     ''The JSON must be parsable by a standard parser.''"

definition schema_start :: string where
  "schema_start = ''{'' @ quoted ''type'' @ '':'' @ quoted ''json_schema'' @ '','' @ quoted ''json_schema'' @ '':{'' @ quoted ''name'' @ '':'' @
     quoted ''json_response'' @ '','' @ quoted ''strict'' @ '':true,''"

definition build_single_response_format :: "llm_predictor \<Rightarrow> string" where
  "build_single_response_format pr = schema_start @ quoted ''schema'' @ '':'' @ lp_grammar pr @ ''}}''"

definition build_array_response_format :: "llm_predictor \<Rightarrow> nat \<Rightarrow> string" where
  "build_array_response_format pr n_rows =
     schema_start @ quoted ''schema'' @ '':{'' @ quoted ''type'' @ '':'' @ quoted ''object'' @ '','' @ quoted ''additionalProperties'' @ '':false,'' @
     quoted ''required'' @ '':['' @ quoted ''output_array'' @ ''],'' @ quoted ''strict'' @ '':false,'' @ quoted ''properties'' @ '':{'' @
     quoted ''output_array'' @ '':{'' @ quoted ''type'' @ '':'' @ quoted ''array'' @
     (if n_rows > 0
      then '','' @ quoted ''minItems'' @ '':'' @ to_string n_rows @ '','' @ quoted ''maxItems'' @ '':'' @ to_string n_rows
      else []) @
     '','' @ quoted ''items'' @ '':'' @ lp_grammar pr @ ''}}}}}''"

definition single_request :: "llm_predictor \<Rightarrow> string \<Rightarrow> llm_request" where
  "single_request pr input =
     \<lparr>rq_endpoint = ''chat/completions'', rq_model = lp_model_path pr, rq_system = generate_system_message pr False,
      rq_user = lp_prompt pr @ '';'' @ newline @ input, rq_format = build_single_response_format pr\<rparr>"

definition batch_request :: "llm_predictor \<Rightarrow> string list \<Rightarrow> llm_request" where
  "batch_request pr inputs =
     \<lparr>rq_endpoint = ''chat/completions'', rq_model = lp_model_path pr, rq_system = generate_system_message pr True,
      rq_user = lp_prompt pr @ ''; '' @ newline @ ''Respond with a JSON object for each the following '' @ to_string (length inputs) @
        '' inputs:'' @ newline @ ''['' @ concat (map (\<lambda>s. ''{'' @ s @ ''},'' @ newline) inputs) @ '']'',
      rq_format = build_array_response_format pr (length inputs)\<rparr>"

section \<open>Responses\<close>

definition type_error :: duck_error where
  "type_error = StdException ''nlohmann::json::type_error''"

fun json_empty :: "'d json \<Rightarrow> bool" where
  "json_empty JNull = True"
| "json_empty (JArray xs) = (xs = [])"
| "json_empty (JObject kvs) = (kvs = [])"
| "json_empty _ = False"

fun get_int :: "'d json_lib \<Rightarrow> 'd json \<Rightarrow> int result" where
  "get_int lib (JInt n) = Inr (to_int32 n)"
| "get_int lib (JFloat d) = Inr (int_of_double lib d)"
| "get_int lib (JBool b) = Inr (if b then 1 else 0)"
| "get_int lib _ = Inl type_error"

definition usage_tokens :: "'d json_lib \<Rightarrow> 'd json \<Rightarrow> string \<Rightarrow> int result" where
  "usage_tokens lib completion key =
     (case json_field completion ''usage'' of
        None \<Rightarrow> Inl type_error
      | Some usage \<Rightarrow> (case json_field usage key of None \<Rightarrow> Inl type_error | Some j \<Rightarrow> get_int lib j))"

fun json_elements :: "'d json \<Rightarrow> 'd json list" where
  "json_elements JNull = []"
| "json_elements (JArray xs) = xs"
| "json_elements (JObject kvs) = map snd kvs"
| "json_elements j = [j]"

definition message_content :: "'d json \<Rightarrow> string option result" where
  "message_content msg =
     (case json_field msg ''message'' of
        None \<Rightarrow> Inr None
      | Some (JObject kvs) \<Rightarrow>
          (case map_of kvs ''content'' of
             None \<Rightarrow> Inl (UndefinedBehavior ''const operator[] without the key'')
           | Some (JString s) \<Rightarrow> Inr (Some s)
           | Some _ \<Rightarrow> Inr None)
      | Some _ \<Rightarrow> Inl type_error)"

fun first_content :: "'d json list \<Rightarrow> string result" where
  "first_content [] = Inr []"
| "first_content (msg # msgs) =
     result_bind (message_content msg) (\<lambda>c. case c of Some s \<Rightarrow> Inr s | None \<Rightarrow> first_content msgs)"

definition extract_content :: "'d json \<Rightarrow> string result" where
  "extract_content completion =
     (case json_field completion ''choices'' of None \<Rightarrow> Inr [] | Some choices \<Rightarrow> first_content (json_elements choices))"

section \<open>Calls\<close>

record batch_result =
  br_tokens :: int
  br_in_tokens :: int
  br_out_tokens :: int
  br_frow :: nat
  br_n_rows :: nat
  br_n_calls :: nat
  br_is_concat :: bool
  br_outputs :: "string list"

definition new_batch_result :: "nat \<Rightarrow> nat \<Rightarrow> batch_result" where
  "new_batch_result frow n_rows =
     \<lparr>br_tokens = 0, br_in_tokens = 0, br_out_tokens = 0, br_frow = frow, br_n_rows = n_rows, br_n_calls = 0,
      br_is_concat = False, br_outputs = []\<rparr>"

text \<open>\<^verbatim>\<open>BatchResult::Success\<close> for the language model task, which leaves the embeddings empty.\<close>

definition batch_success :: "batch_result \<Rightarrow> bool" where
  "batch_success r = (br_n_calls r = length (br_outputs r) \<or> br_n_rows r = 0)"

definition with_usage :: "'d json_lib \<Rightarrow> 'd json \<Rightarrow> (int \<Rightarrow> int \<Rightarrow> int \<Rightarrow> 'b result) \<Rightarrow> 'b result" where
  "with_usage lib completion f =
     result_bind (usage_tokens lib completion ''total_tokens'') (\<lambda>tokens.
     result_bind (usage_tokens lib completion ''prompt_tokens'') (\<lambda>in_tokens.
     result_bind (usage_tokens lib completion ''completion_tokens'') (\<lambda>out_tokens. f tokens in_tokens out_tokens)))"

definition predict_one :: "'d json_lib \<Rightarrow> (llm_request \<Rightarrow> 'd json) \<Rightarrow> llm_predictor \<Rightarrow> string \<Rightarrow> nat \<Rightarrow> batch_result result" where
  "predict_one lib post pr input row =
     (let completion = post (single_request pr input);
          outputs = (if json_contains completion ''error'' then [[]] else []);
          result = (new_batch_result row 1)\<lparr>br_n_calls := 1, br_outputs := outputs\<rparr> in
      with_usage lib completion (\<lambda>tokens in_tokens out_tokens.
        result_bind (extract_content completion) (\<lambda>llm_out.
          Inr (if llm_out \<noteq> []
               then result\<lparr>br_outputs := outputs @ [llm_out], br_tokens := tokens, br_in_tokens := in_tokens,
                           br_out_tokens := out_tokens\<rparr>
               else result))))"

text \<open>One row of a batch that is not sent as one request.\<close>

definition add_single :: "batch_result \<Rightarrow> batch_result \<Rightarrow> batch_result" where
  "add_single single result =
     (let r = result\<lparr>br_tokens := br_tokens result + br_tokens single, br_in_tokens := br_in_tokens result + br_in_tokens single,
                     br_out_tokens := br_out_tokens result + br_out_tokens single,
                     br_n_calls := br_n_calls result + br_n_calls single\<rparr> in
      if batch_success single then r\<lparr>br_outputs := br_outputs r @ [br_outputs single ! 0]\<rparr> else r)"

definition predict_batch ::
  "'d json_lib \<Rightarrow> (llm_request \<Rightarrow> 'd json) \<Rightarrow> llm_predictor \<Rightarrow> string list \<Rightarrow> nat \<Rightarrow> nat \<Rightarrow> nat \<Rightarrow> batch_result result" where
  "predict_batch lib post pr input rows batch batch_size =
     (let frow = batch * batch_size;
          lrow = min (frow + batch_size) rows;
          result = new_batch_result frow (lrow - frow) in
      if lp_use_batch pr then
        (let completion = post (batch_request pr (drop frow (take lrow input)));
             failed = result\<lparr>br_is_concat := True, br_n_calls := 1\<rparr> in
         if json_empty completion \<or> json_contains completion ''error'' then Inr failed
         else with_usage lib completion (\<lambda>tokens in_tokens out_tokens.
                result_bind (extract_content completion) (\<lambda>llm_out.
                  Inr (if llm_out \<noteq> []
                       then failed\<lparr>br_outputs := [llm_out], br_tokens := tokens, br_in_tokens := in_tokens, br_out_tokens := out_tokens\<rparr>
                       else failed))))
      else
        result_fold (\<lambda>row r. result_bind (vector_at input row) (\<lambda>text.
            result_bind (predict_one lib post pr text row) (\<lambda>single. Inr (add_single single r))))
          [frow..<lrow] result)"

section \<open>The rows of a chunk\<close>

text \<open>The map from prompts to rows is ordered by the bytes of the prompts.\<close>

fun str_less :: "string \<Rightarrow> string \<Rightarrow> bool" where
  "str_less [] ys = (ys \<noteq> [])"
| "str_less (x # xs) [] = False"
| "str_less (x # xs) (y # ys) = (code x < code y \<or> (code x = code y \<and> str_less xs ys))"

fun map_push :: "string \<Rightarrow> nat \<Rightarrow> (string \<times> nat list) list \<Rightarrow> (string \<times> nat list) list" where
  "map_push k i [] = [(k, [i])]"
| "map_push k i ((k', ids) # m) =
     (if k = k' then (k', ids @ [i]) # m
      else if str_less k k' then (k, [i]) # (k', ids) # m
      else (k', ids) # map_push k i m)"

record 'd chunk_state =
  cs_cache :: "string \<rightharpoonup> string"
  cs_output :: "'d val data_chunk"
  cs_batch_fails :: "nat list"
  cs_calls :: nat
  cs_tokens :: int
  cs_in_tokens :: int
  cs_out_tokens :: int

text \<open>The rows that the cache answers are written at once, the others are collected.\<close>

definition group_row ::
  "'d json_lib \<Rightarrow> ('d val \<Rightarrow> string) \<Rightarrow> llm_predictor \<Rightarrow> 'd val data_chunk \<Rightarrow> predict_info \<Rightarrow> nat \<Rightarrow>
   (string \<times> nat list) list \<times> string list \<times> 'd val data_chunk \<Rightarrow> ((string \<times> nat list) list \<times> string list \<times> 'd val data_chunk) result" where
  "group_row lib to_sql pr input info i = (\<lambda>(tuple_id_map, unprocessed, output).
     result_bind (embed_prompt to_sql i input info True) (\<lambda>embedded.
       case lp_cache pr embedded of
         Some hit \<Rightarrow>
           (if lp_use_cache pr
            then result_bind (extract_row_data lib hit i info output) (\<lambda>out. Inr (tuple_id_map, unprocessed, out))
            else Inr (tuple_id_map, unprocessed @ [embedded], output))
       | None \<Rightarrow>
           (if lp_use_cache pr then Inr (map_push embedded i tuple_id_map, unprocessed, output)
            else Inr (tuple_id_map, unprocessed @ [embedded], output))))"

definition outputs_at :: "batch_result \<Rightarrow> nat \<Rightarrow> string result" where
  "outputs_at r i = (if i < length (br_outputs r) then Inr (br_outputs r ! i) else Inl (UndefinedBehavior ''outputs[i] past the end''))"

definition propagate_single_result ::
  "'d json_lib \<Rightarrow> llm_predictor \<Rightarrow> predict_info \<Rightarrow> (string \<times> nat list) list \<Rightarrow> string \<Rightarrow> nat \<Rightarrow> 'd chunk_state \<Rightarrow> 'd chunk_state result" where
  "propagate_single_result lib pr info tuple_id_map llm_out unprocessed_idx st =
     (if lp_use_cache pr then
        (if unprocessed_idx < length tuple_id_map then
           (let (key, tuple_ids) = tuple_id_map ! unprocessed_idx in
            result_bind (result_fold (\<lambda>tuple_id out. extract_row_data lib llm_out tuple_id info out) tuple_ids (cs_output st))
              (\<lambda>out. Inr (st\<lparr>cs_cache := (cs_cache st)(key \<mapsto> llm_out), cs_output := out\<rparr>)))
         else Inl (UndefinedBehavior ''std::next past the end of the map''))
      else result_bind (extract_row_data lib llm_out unprocessed_idx info (cs_output st)) (\<lambda>out. Inr (st\<lparr>cs_output := out\<rparr>)))"

definition add_usage :: "batch_result \<Rightarrow> 'd chunk_state \<Rightarrow> 'd chunk_state" where
  "add_usage r st = st\<lparr>cs_calls := cs_calls st + br_n_calls r, cs_tokens := cs_tokens st + br_tokens r,
     cs_in_tokens := cs_in_tokens st + br_in_tokens r, cs_out_tokens := cs_out_tokens st + br_out_tokens r\<rparr>"

definition handle_batch ::
  "'d json_lib \<Rightarrow> llm_predictor \<Rightarrow> predict_info \<Rightarrow> (string \<times> nat list) list \<Rightarrow> batch_result \<Rightarrow> 'd chunk_state \<Rightarrow> 'd chunk_state result" where
  "handle_batch lib pr info tuple_id_map r st0 =
     (let st = add_usage r st0; frow = br_frow r; n_rows = br_n_rows r in
      if br_is_concat r then
        (if \<not> batch_success r then Inr (st\<lparr>cs_batch_fails := cs_batch_fails st @ [frow..<frow + n_rows]\<rparr>)
         else
           result_bind (outputs_at r 0) (\<lambda>llm_out.
             if lp_use_cache pr then
               result_bind (extract_array_data_cached lib llm_out tuple_id_map frow info n_rows (cs_cache st, cs_output st))
                 (\<lambda>(cache, out). Inr (st\<lparr>cs_cache := cache, cs_output := out\<rparr>))
             else
               result_bind (extract_array_data_rows lib llm_out [frow..<frow + n_rows] info n_rows (cs_output st))
                 (\<lambda>out. Inr (st\<lparr>cs_output := out\<rparr>))))
      else
        result_fold (\<lambda>i st. result_bind (outputs_at r i) (\<lambda>llm_out.
            propagate_single_result lib pr info tuple_id_map llm_out (frow + i) st)) [0..<n_rows] st)"

text \<open>The size of the batches: the configured one, or less when that keeps all threads busy.\<close>

definition imp_batch_size :: "nat \<Rightarrow> nat \<Rightarrow> nat \<Rightarrow> nat" where
  "imp_batch_size batch_size n_threads unprocessed_rows =
     (if n_threads * batch_size > unprocessed_rows \<and> unprocessed_rows \<ge> n_threads
      then unprocessed_rows div n_threads + (if unprocessed_rows mod n_threads > 0 then 1 else 0)
      else batch_size)"

definition count_rounds :: "nat \<Rightarrow> nat \<Rightarrow> nat" where
  "count_rounds unprocessed_rows bsize =
     unprocessed_rows div bsize + (if unprocessed_rows mod bsize \<noteq> 0 then 1 else 0)"

text \<open>A counted loop whose step may be 0, in which case it does not end.\<close>

partial_function (option) strided_loop :: "(nat \<Rightarrow> 's \<Rightarrow> 's result) \<Rightarrow> nat \<Rightarrow> nat \<Rightarrow> nat \<Rightarrow> 's \<Rightarrow> 's result option" where
  "strided_loop body stride bound i s =
     (if i < bound
      then (case body i s of Inl e \<Rightarrow> Some (Inl e) | Inr s' \<Rightarrow> strided_loop body stride bound (i + stride) s')
      else Some (Inr s))"

definition run_batches ::
  "'d json_lib \<Rightarrow> (llm_request \<Rightarrow> 'd json) \<Rightarrow> llm_predictor \<Rightarrow> predict_info \<Rightarrow> (string \<times> nat list) list \<Rightarrow> string list \<Rightarrow> nat \<Rightarrow>
   nat \<Rightarrow> 'd chunk_state \<Rightarrow> 'd chunk_state result" where
  "run_batches lib post pr info tuple_id_map unprocessed bsize batch st =
     result_fold (\<lambda>batch_i st.
         result_bind (predict_batch lib post pr unprocessed (length unprocessed) batch_i bsize)
           (\<lambda>r. handle_batch lib pr info tuple_id_map r st))
       (takeWhile (\<lambda>batch_i. batch_i * bsize < length unprocessed) [batch..<batch + lp_n_threads pr]) st"

definition retry_rows ::
  "'d json_lib \<Rightarrow> (llm_request \<Rightarrow> 'd json) \<Rightarrow> llm_predictor \<Rightarrow> predict_info \<Rightarrow> (string \<times> nat list) list \<Rightarrow> string list \<Rightarrow> nat list \<Rightarrow>
   nat \<Rightarrow> 'd chunk_state \<Rightarrow> 'd chunk_state result" where
  "retry_rows lib post pr info tuple_id_map unprocessed fails frow st =
     result_fold (\<lambda>row st.
         let real_row = fails ! row in
         result_bind (vector_at unprocessed real_row) (\<lambda>text.
         result_bind (predict_one lib post pr text real_row) (\<lambda>r.
           let st' = add_usage r st in
           if batch_success r
           then result_bind (outputs_at r 0) (\<lambda>llm_out. propagate_single_result lib pr info tuple_id_map llm_out (br_frow r) st')
           else Inr st')))
       [frow..<min (frow + lp_n_threads pr) (length fails)] st"

record predict_stats =
  ps_llm_calls :: nat
  ps_inputs_used :: int
  ps_outputs_used :: int
  ps_tokens_used :: int

definition predict_chunk ::
  "'d json_lib \<Rightarrow> (llm_request \<Rightarrow> 'd json) \<Rightarrow> ('d val \<Rightarrow> string) \<Rightarrow> 'd val data_chunk \<Rightarrow> nat \<Rightarrow> predict_info \<Rightarrow>
   llm_predictor \<times> predict_stats \<times> 'd val data_chunk \<Rightarrow> (llm_predictor \<times> predict_stats \<times> 'd val data_chunk) result option" where
  "predict_chunk lib post to_sql input rows info = (\<lambda>(pr, stats, output).
     case result_fold (group_row lib to_sql pr input info) [0..<rows] ([], [], output) of
       Inl e \<Rightarrow> Some (Inl e)
     | Inr (tuple_id_map, texts, out) \<Rightarrow>
         (let unprocessed = (if lp_use_cache pr then texts @ map fst tuple_id_map else texts);
              bsize = imp_batch_size (lp_batch_size pr) (lp_n_threads pr) (length unprocessed) in
          if bsize = 0 then Some (Inl (UndefinedBehavior ''division by zero''))
          else
            (let st = \<lparr>cs_cache = lp_cache pr, cs_output = out, cs_batch_fails = [], cs_calls = 0, cs_tokens = 0,
                       cs_in_tokens = 0, cs_out_tokens = 0\<rparr> in
             case strided_loop (run_batches lib post pr info tuple_id_map unprocessed bsize) (lp_n_threads pr)
                    (count_rounds (length unprocessed) bsize) 0 st of
               None \<Rightarrow> None
             | Some (Inl e) \<Rightarrow> Some (Inl e)
             | Some (Inr st1) \<Rightarrow>
                 (case strided_loop (retry_rows lib post pr info tuple_id_map unprocessed (cs_batch_fails st1)) (lp_n_threads pr)
                         (length (cs_batch_fails st1)) 0 st1 of
                    None \<Rightarrow> None
                  | Some (Inl e) \<Rightarrow> Some (Inl e)
                  | Some (Inr st2) \<Rightarrow>
                      Some (Inr (pr\<lparr>lp_cache := cs_cache st2\<rparr>,
                        stats\<lparr>ps_llm_calls := ps_llm_calls stats + cs_calls st2, ps_inputs_used := ps_inputs_used stats + cs_in_tokens st2,
                              ps_outputs_used := ps_outputs_used stats + cs_out_tokens st2, ps_tokens_used := ps_tokens_used stats + cs_tokens st2\<rparr>,
                        cs_output st2))))))"

section \<open>A model that answers\<close>

text \<open>
  What the rows of a chunk rely on: \<open>answer\<close> gives the document of the answer to a prompt. A call for
  one row returns it; a call for a batch returns the answers in order, or fails. Documents that
  are printed into the cache can be read back, and every answer has a row of values.
\<close>

definition usage_ok :: "'d json_lib \<Rightarrow> 'd json \<Rightarrow> bool" where
  "usage_ok lib c \<longleftrightarrow> (\<forall>key \<in> {''total_tokens'', ''prompt_tokens'', ''completion_tokens''}. \<exists>n. usage_tokens lib c key = Inr n)"

definition faithful_single :: "'d json_lib \<Rightarrow> (llm_request \<Rightarrow> 'd json) \<Rightarrow> llm_predictor \<Rightarrow> (string \<Rightarrow> 'd json) \<Rightarrow> bool" where
  "faithful_single lib post pr answer \<longleftrightarrow> (\<forall>x. \<exists>c s. post (single_request pr x) = c \<and> \<not> json_contains c ''error'' \<and> usage_ok lib c \<and>
     extract_content c = Inr s \<and> s \<noteq> [] \<and> answer_json lib s = Some (answer x))"

definition faithful_batch :: "'d json_lib \<Rightarrow> (llm_request \<Rightarrow> 'd json) \<Rightarrow> llm_predictor \<Rightarrow> (string \<Rightarrow> 'd json) \<Rightarrow> bool" where
  "faithful_batch lib post pr answer \<longleftrightarrow> (\<forall>xs. xs \<noteq> [] \<longrightarrow> (\<exists>c. post (batch_request pr xs) = c \<and>
     (json_empty c \<or> json_contains c ''error'' \<or>
      usage_ok lib c \<and> (\<exists>s. extract_content c = Inr s \<and>
        (s = [] \<or> (\<exists>j. answer_json lib s = Some j \<and> json_field j ''output_array'' = Some (JArray (map answer xs))))))))"

definition readable :: "'d json_lib \<Rightarrow> predict_info \<Rightarrow> (string \<Rightarrow> 'd json) \<Rightarrow> (string \<Rightarrow> 'd val list) \<Rightarrow> bool" where
  "readable lib info answer vals \<longleftrightarrow> (\<forall>x. answer_json lib (dump lib (answer x)) = Some (answer x) \<and> row_values lib info (answer x) = Inr (vals x))"

definition cache_ok :: "'d json_lib \<Rightarrow> (string \<Rightarrow> 'd json) \<Rightarrow> (string \<rightharpoonup> string) \<Rightarrow> bool" where
  "cache_ok lib answer cache \<longleftrightarrow> (\<forall>k s. cache k = Some s \<longrightarrow> answer_json lib s = Some (answer k))"

lemma with_usage_ok: "usage_ok lib c \<Longrightarrow> \<exists>a b d. \<forall>f. with_usage lib c f = f a b d"
proof -
  assume "usage_ok lib c"
  then obtain a b d where "usage_tokens lib c ''total_tokens'' = Inr a" "usage_tokens lib c ''prompt_tokens'' = Inr b"
    "usage_tokens lib c ''completion_tokens'' = Inr d" by (auto simp: usage_ok_def)
  then show ?thesis by (intro exI [of _ a] exI [of _ b] exI [of _ d]) (simp add: with_usage_def)
qed

lemma predict_one_answers:
  assumes "faithful_single lib post pr answer"
  shows "\<exists>r s. predict_one lib post pr x row = Inr r \<and> batch_success r \<and> br_outputs r = [s] \<and> br_n_calls r = 1 \<and> br_frow r = row \<and>
    answer_json lib s = Some (answer x)"
proof -
  let ?c = "post (single_request pr x)"
  obtain s where c: "\<not> json_contains ?c ''error''" "usage_ok lib ?c" "extract_content ?c = Inr s" "s \<noteq> []"
    "answer_json lib s = Some (answer x)"
    using assms unfolding faithful_single_def by metis
  obtain a b d where "\<And>f :: int \<Rightarrow> int \<Rightarrow> int \<Rightarrow> batch_result result. with_usage lib ?c f = f a b d"
    using with_usage_ok [OF c(2)] by blast
  with c show ?thesis by (simp add: predict_one_def Let_def new_batch_result_def batch_success_def)
qed

text \<open>The batch \<open>b\<close> of a list of prompts.\<close>

definition batch_end :: "nat \<Rightarrow> nat \<Rightarrow> nat \<Rightarrow> nat" where
  "batch_end n bsize b = min (b * bsize + bsize) n"

lemma predict_batch_concat:
  assumes "faithful_batch lib post pr answer" and "lp_use_batch pr" and "b * bsize < length input" and "0 < bsize"
  shows "\<exists>r. predict_batch lib post pr input (length input) b bsize = Inr r \<and> br_frow r = b * bsize \<and>
    br_n_rows r = batch_end (length input) bsize b - b * bsize \<and> br_is_concat r \<and> br_n_calls r = 1 \<and>
    (br_outputs r = [] \<or> (\<exists>s j. br_outputs r = [s] \<and> answer_json lib s = Some j \<and>
       json_field j ''output_array'' = Some (JArray (map (\<lambda>p. answer (input ! p)) [b * bsize..<batch_end (length input) bsize b]))))"
proof -
  let ?e = "batch_end (length input) bsize b"
  let ?xs = "drop (b * bsize) (take ?e input)"
  have e: "b * bsize < ?e" "?e \<le> length input" using assms(3,4) by (auto simp: batch_end_def)
  have "?xs = map ((!) input) [b * bsize..<?e]" using map_nth_upt_drop [of "b * bsize" ?e input] e by simp
  then have xs: "map answer ?xs = map (\<lambda>p. answer (input ! p)) [b * bsize..<?e]" by (simp only: map_map comp_def)
  have "?xs \<noteq> []" using e by simp
  then have c: "json_empty (post (batch_request pr ?xs)) \<or> json_contains (post (batch_request pr ?xs)) ''error'' \<or>
      usage_ok lib (post (batch_request pr ?xs)) \<and> (\<exists>s. extract_content (post (batch_request pr ?xs)) = Inr s \<and>
        (s = [] \<or> (\<exists>j. answer_json lib s = Some j \<and> json_field j ''output_array'' = Some (JArray (map answer ?xs)))))"
    using assms(1) unfolding faithful_batch_def by blast
  show ?thesis
  proof (cases "json_empty (post (batch_request pr ?xs)) \<or> json_contains (post (batch_request pr ?xs)) ''error''")
    case True
    then show ?thesis
      using assms(2) by (simp add: predict_batch_def Let_def new_batch_result_def batch_end_def)
  next
    case False
    with c obtain s where u: "usage_ok lib (post (batch_request pr ?xs))" and s: "extract_content (post (batch_request pr ?xs)) = Inr s"
      "s = [] \<or> (\<exists>j. answer_json lib s = Some j \<and> json_field j ''output_array'' = Some (JArray (map answer ?xs)))" by blast
    have body: "predict_batch lib post pr input (length input) b bsize =
        with_usage lib (post (batch_request pr ?xs)) (\<lambda>tokens in_tokens out_tokens.
          Inr (if s \<noteq> [] then (new_batch_result (b * bsize) (?e - b * bsize))\<lparr>br_is_concat := True, br_n_calls := 1,
                 br_outputs := [s], br_tokens := tokens, br_in_tokens := in_tokens, br_out_tokens := out_tokens\<rparr>
               else (new_batch_result (b * bsize) (?e - b * bsize))\<lparr>br_is_concat := True, br_n_calls := 1\<rparr>))"
      using False assms(2) s(1) unfolding predict_batch_def Let_def batch_end_def by simp
    obtain a b d where "\<And>f :: int \<Rightarrow> int \<Rightarrow> int \<Rightarrow> batch_result result. with_usage lib (post (batch_request pr ?xs)) f = f a b d"
      using with_usage_ok [OF u] by blast
    with s(2) xs body show ?thesis by (auto simp: new_batch_result_def)
  qed
qed

lemma predict_batch_rows:
  assumes "faithful_single lib post pr answer" and "\<not> lp_use_batch pr"
  shows "\<exists>r. predict_batch lib post pr input (length input) b bsize = Inr r \<and> br_frow r = b * bsize \<and>
    br_n_rows r = batch_end (length input) bsize b - b * bsize \<and> \<not> br_is_concat r \<and> length (br_outputs r) = br_n_rows r \<and>
    (\<forall>i < br_n_rows r. answer_json lib (br_outputs r ! i) = Some (answer (input ! (b * bsize + i))))"
proof -
  let ?f = "b * bsize" and ?e = "batch_end (length input) bsize b"
  let ?g = "\<lambda>row r. result_bind (vector_at input row) (\<lambda>text. result_bind (predict_one lib post pr text row) (\<lambda>single. Inr (add_single single r)))"
  have "\<exists>r. result_fold ?g [?f..<?f + k] (new_batch_result ?f (?e - ?f)) = Inr r \<and> br_frow r = ?f \<and> br_n_rows r = ?e - ?f \<and> \<not> br_is_concat r \<and>
      length (br_outputs r) = k \<and> (\<forall>i < k. answer_json lib (br_outputs r ! i) = Some (answer (input ! (?f + i))))"
    if "k \<le> ?e - ?f" for k
    using that
  proof (induction k)
    case 0
    then show ?case by (simp add: new_batch_result_def)
  next
    case (Suc k)
    then obtain r where r: "result_fold ?g [?f..<?f + k] (new_batch_result ?f (?e - ?f)) = Inr r" "br_frow r = ?f" "br_n_rows r = ?e - ?f"
      "\<not> br_is_concat r" "length (br_outputs r) = k" "\<forall>i < k. answer_json lib (br_outputs r ! i) = Some (answer (input ! (?f + i)))" by auto
    have "?f + k < length input" using Suc.prems by (simp add: batch_end_def)
    moreover obtain r1 s where "predict_one lib post pr (input ! (?f + k)) (?f + k) = Inr r1" "batch_success r1" "br_outputs r1 = [s]"
      "answer_json lib s = Some (answer (input ! (?f + k)))"
      using predict_one_answers [OF assms(1)] by blast
    ultimately show ?case
      using r by (auto simp: result_fold_append vector_at_def add_single_def Let_def nth_append less_Suc_eq)
  qed
  from this [OF order_refl] show ?thesis
    using assms(2) unfolding predict_batch_def Let_def batch_end_def by (cases "?f \<le> ?e") (auto simp: batch_end_def)
qed

section \<open>Rows that are answered\<close>

text \<open>The rows \<open>D\<close> hold the values of the answers to their prompts, and no row outside the chunk has
  changed.\<close>

definition answered ::
  "predict_info \<Rightarrow> (nat \<Rightarrow> string) \<Rightarrow> (string \<Rightarrow> 'v list) \<Rightarrow> nat \<Rightarrow> 'v data_chunk \<Rightarrow> nat set \<Rightarrow> 'v data_chunk \<Rightarrow> bool" where
  "answered info key vals rows out0 D out \<longleftrightarrow> output_ok info rows out \<and> same_shape out0 out \<and>
     (\<forall>r \<in> D. \<forall>j < length (pi_result_set_names info). cell out j r = vals (key r) ! j) \<and>
     (\<forall>j r. rows \<le> r \<longrightarrow> cell out j r = cell out0 j r)"

lemma answered_wrote:
  assumes "answered info key vals rows out0 D out" and "wrote info rows R (vals k) out out'" and "\<forall>r \<in> R. key r = k \<and> r < rows"
  shows "answered info key vals rows out0 (D \<union> R) out'"
proof -
  have "cell out' j r = cell out0 j r" if "rows \<le> r" for j r
  proof -
    have "r \<notin> R" using assms(3) that by (auto simp: not_less [symmetric])
    then show ?thesis using assms(1,2) that by (simp add: answered_def wrote_def)
  qed
  moreover have "same_shape out0 out'" using assms(1,2) same_shape_trans by (auto simp: answered_def wrote_def)
  ultimately show ?thesis using assms unfolding answered_def wrote_def by auto
qed

lemma answered_output_ok: "answered info key vals rows out0 D out \<Longrightarrow> output_ok info rows out"
  by (simp add: answered_def)

text \<open>A state of the run: the rows that are answered and a cache of right answers.\<close>

definition run_ok ::
  "'d json_lib \<Rightarrow> predict_info \<Rightarrow> (string \<Rightarrow> 'd json) \<Rightarrow> (nat \<Rightarrow> string) \<Rightarrow> (string \<Rightarrow> 'd val list) \<Rightarrow> nat \<Rightarrow> 'd val data_chunk \<Rightarrow> nat set \<Rightarrow>
   (string \<rightharpoonup> string) \<times> 'd val data_chunk \<Rightarrow> bool" where
  "run_ok lib info answer key vals rows out0 D st \<longleftrightarrow> cache_ok lib answer (fst st) \<and> answered info key vals rows out0 D (snd st)"

text \<open>The rows at a position of the unprocessed prompts, and what the positions rely on.\<close>

definition rows_at :: "llm_predictor \<Rightarrow> (string \<times> nat list) list \<Rightarrow> nat \<Rightarrow> nat set" where
  "rows_at pr m p = (if lp_use_cache pr then set (snd (m ! p)) else {p})"

definition aligned :: "llm_predictor \<Rightarrow> (string \<times> nat list) list \<Rightarrow> string list \<Rightarrow> (nat \<Rightarrow> string) \<Rightarrow> nat \<Rightarrow> bool" where
  "aligned pr m unprocessed key rows \<longleftrightarrow> (lp_use_cache pr \<longrightarrow> map fst m = unprocessed) \<and>
     (\<forall>p < length unprocessed. \<forall>r \<in> rows_at pr m p. key r = unprocessed ! p \<and> r < rows)"

lemma fold_positions:
  assumes "\<And>p D s. p \<in> set ps \<Longrightarrow> P D s \<Longrightarrow> \<exists>s'. f p s = Inr s' \<and> P (D \<union> R p) s'" and "P D s"
  shows "\<exists>s'. result_fold f ps s = Inr s' \<and> P (D \<union> (\<Union>p \<in> set ps. R p)) s'"
  using assms
proof (induction ps arbitrary: D s)
  case (Cons p ps)
  then obtain s1 where s1: "f p s = Inr s1" "P (D \<union> R p) s1" by (meson list.set_intros(1))
  then obtain s2 where "result_fold f ps s1 = Inr s2" "P (D \<union> R p \<union> (\<Union>p \<in> set ps. R p)) s2"
    using Cons.IH [of "D \<union> R p" s1] Cons.prems(1) by (metis list.set_intros(2))
  with s1 show ?case by (simp add: Un_assoc)
qed simp

lemma result_fold_zip: "result_fold (\<lambda>(p, x). f p x) (zip ps (map g ps)) s = result_fold (\<lambda>p. f p (g p)) ps s"
  by (induction ps arbitrary: s) (auto simp: result_bind_def split: sum.splits)

lemma cached_answer_ok:
  assumes "readable lib info answer vals" and "aligned pr m unprocessed key rows" and "lp_use_cache pr" and "p < length unprocessed"
    and "run_ok lib info answer key vals rows out0 D st"
  shows "\<exists>st'. cached_answer lib m info p (answer (unprocessed ! p)) st = Inr st' \<and>
    run_ok lib info answer key vals rows out0 (D \<union> rows_at pr m p) st'"
proof -
  obtain k ids where mp: "m ! p = (k, ids)" by fastforce
  have m: "p < length m" "unprocessed ! p = k" using assms(2-4) mp by (auto simp: aligned_def)
  have ids: "\<forall>r \<in> set ids. key r = k \<and> r < rows" using assms(2-4) mp m by (auto simp: aligned_def rows_at_def)
  have vals: "row_values lib info (answer k) = Inr (vals k)" "answer_json lib (dump lib (answer k)) = Some (answer k)"
    using assms(1) by (auto simp: readable_def)
  have out: "output_ok info rows (snd st)" using assms(5) by (auto simp: run_ok_def answered_def)
  obtain c' where c': "result_fold (\<lambda>row out. populate_row_data lib (answer k) row info out) ids (snd st) = Inr c'"
    "wrote info rows (set ids) (vals k) (snd st) c'"
    using populate_all_wrote [OF vals(1) out] ids by blast
  have "answered info key vals rows out0 D (snd st)" using assms(5) by (simp add: run_ok_def)
  then have "answered info key vals rows out0 (D \<union> set ids) c'" using c'(2) ids by (rule answered_wrote)
  moreover have "cache_ok lib answer ((fst st)(k \<mapsto> dump lib (answer k)))"
    using assms(5) vals(2) by (simp add: run_ok_def cache_ok_def)
  ultimately show ?thesis
    using m mp c'(1) assms(3) by (simp add: cached_answer_def run_ok_def rows_at_def)
qed

lemma cached_array_ok:
  assumes "readable lib info answer vals" and "aligned pr m unprocessed key rows" and "lp_use_cache pr"
    and "f \<le> e" and "e \<le> length unprocessed" and "run_ok lib info answer key vals rows out0 D st"
    and "answer_json lib s = Some j" and "json_field j ''output_array'' = Some (JArray (map (\<lambda>p. answer (unprocessed ! p)) [f..<e]))"
  shows "\<exists>st'. extract_array_data_cached lib s m f info (e - f) st = Inr st' \<and>
    run_ok lib info answer key vals rows out0 (D \<union> (\<Union>p \<in> {f..<e}. rows_at pr m p)) st'"
proof -
  let ?g = "\<lambda>p. answer (unprocessed ! p)"
  have "\<exists>st'. result_fold (\<lambda>p. cached_answer lib m info p (?g p)) [f..<e] st = Inr st' \<and>
      run_ok lib info answer key vals rows out0 (D \<union> (\<Union>p \<in> set [f..<e]. rows_at pr m p)) st'"
    using assms(5,6) cached_answer_ok [OF assms(1-3)] by (intro fold_positions) auto
  then show ?thesis
    using assms(4,7,8) by (auto simp: extract_array_data_cached_def result_fold_zip)
qed

lemma rows_array_ok:
  assumes "readable lib info answer vals" and "aligned pr m unprocessed key rows" and "\<not> lp_use_cache pr"
    and "f \<le> e" and "e \<le> length unprocessed" and "answered info key vals rows out0 D out"
    and "answer_json lib s = Some j" and "json_field j ''output_array'' = Some (JArray (map (\<lambda>p. answer (unprocessed ! p)) [f..<e]))"
  shows "\<exists>out'. extract_array_data_rows lib s [f..<e] info (e - f) out = Inr out' \<and>
    answered info key vals rows out0 (D \<union> (\<Union>p \<in> {f..<e}. rows_at pr m p)) out'"
proof -
  let ?g = "\<lambda>p. answer (unprocessed ! p)"
  have step: "\<exists>out'. populate_row_data lib (?g p) p info out = Inr out' \<and> answered info key vals rows out0 (D \<union> rows_at pr m p) out'"
    if p_in: "p \<in> set [f..<e]" and prev: "answered info key vals rows out0 D out" for p D out
  proof -
    have p: "key p = unprocessed ! p" "p < rows" "rows_at pr m p = {p}"
      using assms(2,3,5) p_in by (auto simp: aligned_def rows_at_def)
    obtain c' where c': "populate_row_data lib (?g p) p info out = Inr c'" "wrote info rows {p} (vals (unprocessed ! p)) out c'"
      using populate_wrote [of lib info "?g p"] assms(1) answered_output_ok [OF prev] p(2) by (metis readable_def)
    have "answered info key vals rows out0 (D \<union> {p}) c'"
      using prev c'(2) by (rule answered_wrote) (use p in simp)
    with c'(1) p(3) show ?thesis by simp
  qed
  have "\<exists>out'. result_fold (\<lambda>p out. populate_row_data lib (?g p) p info out) [f..<e] out = Inr out' \<and>
      answered info key vals rows out0 (D \<union> (\<Union>p \<in> set [f..<e]. rows_at pr m p)) out'"
    using step assms(6) by (intro fold_positions [where P = "answered info key vals rows out0"]) auto
  then show ?thesis
    using assms(4,7,8) by (auto simp: extract_array_data_rows_def result_fold_zip null_rows_def)
qed

lemma propagate_ok:
  assumes "readable lib info answer vals" and "aligned pr m unprocessed key rows" and "p < length unprocessed"
    and "run_ok lib info answer key vals rows out0 D (cs_cache st, cs_output st)" and "answer_json lib s = Some (answer (unprocessed ! p))"
  shows "\<exists>st'. propagate_single_result lib pr info m s p st = Inr st' \<and> cs_batch_fails st' = cs_batch_fails st \<and>
    run_ok lib info answer key vals rows out0 (D \<union> rows_at pr m p) (cs_cache st', cs_output st')"
proof -
  let ?k = "unprocessed ! p"
  have vals: "row_values lib info (answer ?k) = Inr (vals ?k)" using assms(1) by (simp add: readable_def)
  have out: "answered info key vals rows out0 D (cs_output st)" and cache: "cache_ok lib answer (cs_cache st)"
    using assms(4) by (auto simp: run_ok_def)
  have rows: "\<forall>r \<in> rows_at pr m p. key r = ?k \<and> r < rows" using assms(2,3) by (auto simp: aligned_def)
  show ?thesis
  proof (cases "lp_use_cache pr")
    case True
    obtain k ids where mp: "m ! p = (k, ids)" by fastforce
    have m: "p < length m" "k = ?k" using True assms(2,3) mp by (auto simp: aligned_def)
    obtain c' where c': "result_fold (\<lambda>row out. extract_row_data lib s row info out) ids (cs_output st) = Inr c'"
      "wrote info rows (set ids) (vals ?k) (cs_output st) c'"
      using extract_rows_wrote [OF assms(5) vals answered_output_ok [OF out]] rows mp True by (auto simp: rows_at_def)
    have "answered info key vals rows out0 (D \<union> set ids) c'"
      using out c'(2) by (rule answered_wrote) (use rows mp True in \<open>simp add: rows_at_def\<close>)
    then show ?thesis
      using True m mp c'(1) cache assms(5) by (simp add: propagate_single_result_def run_ok_def rows_at_def cache_ok_def)
  next
    case False
    then have at: "rows_at pr m p = {p}" by (simp add: rows_at_def)
    obtain c' where c': "extract_row_data lib s p info (cs_output st) = Inr c'" "wrote info rows {p} (vals ?k) (cs_output st) c'"
      using extract_row_wrote [OF assms(5) vals answered_output_ok [OF out]] rows at by auto
    have "answered info key vals rows out0 (D \<union> {p}) c'"
      using out c'(2) by (rule answered_wrote) (use rows at in simp)
    with False c'(1) cache at show ?thesis by (simp add: propagate_single_result_def run_ok_def)
  qed
qed

section \<open>The rounds\<close>

text \<open>After the positions below \<open>pos\<close>, every row at a position is answered unless the position failed.\<close>

definition settled :: "llm_predictor \<Rightarrow> (string \<times> nat list) list \<Rightarrow> nat \<Rightarrow> nat list \<Rightarrow> nat \<Rightarrow> nat set" where
  "settled pr m n fails pos = (\<Union>p \<in> {p. p < pos \<and> p < n \<and> p \<notin> set fails}. rows_at pr m p)"

definition batches_ok ::
  "'d json_lib \<Rightarrow> llm_predictor \<Rightarrow> predict_info \<Rightarrow> (string \<times> nat list) list \<Rightarrow> nat \<Rightarrow> (string \<Rightarrow> 'd json) \<Rightarrow> (nat \<Rightarrow> string) \<Rightarrow> (string \<Rightarrow> 'd val list) \<Rightarrow>
   nat \<Rightarrow> 'd val data_chunk \<Rightarrow> nat set \<Rightarrow> nat \<Rightarrow> 'd chunk_state \<Rightarrow> bool" where
  "batches_ok lib pr info m n answer key vals rows out0 D pos st \<longleftrightarrow> (\<forall>p \<in> set (cs_batch_fails st). p < pos \<and> p < n) \<and>
     run_ok lib info answer key vals rows out0 (D \<union> settled pr m n (cs_batch_fails st) pos) (cs_cache st, cs_output st)"

lemma add_usage_fields [simp]:
  "cs_cache (add_usage r st) = cs_cache st" "cs_output (add_usage r st) = cs_output st" "cs_batch_fails (add_usage r st) = cs_batch_fails st"
  by (simp_all add: add_usage_def)

lemma settled_more:
  assumes "\<forall>p \<in> set fails. p < f" and "e = min (f + k) n"
  shows "settled pr m n fails (f + k) = settled pr m n fails f \<union> (\<Union>p \<in> {f..<e}. rows_at pr m p)"
    and "settled pr m n (fails @ [f..<e]) (f + k) = settled pr m n fails f"
proof -
  have "{p. p < f + k \<and> p < n \<and> p \<notin> set fails} = {p. p < f \<and> p < n \<and> p \<notin> set fails} \<union> {f..<e}"
    using assms by (auto simp: not_less)
  then show "settled pr m n fails (f + k) = settled pr m n fails f \<union> (\<Union>p \<in> {f..<e}. rows_at pr m p)"
    by (simp add: settled_def UN_Un)
  have "{p. p < f + k \<and> p < n \<and> p \<notin> set (fails @ [f..<e])} = {p. p < f \<and> p < n \<and> p \<notin> set fails}"
    using assms by (auto simp: not_le)
  then show "settled pr m n (fails @ [f..<e]) (f + k) = settled pr m n fails f"
    by (simp only: settled_def)
qed

lemma handle_batch_ok:
  assumes "readable lib info answer vals" and "aligned pr m unprocessed key rows" and "n = length unprocessed"
    and "f < n" and "e = min (f + k) n" and "0 < k"
    and st: "batches_ok lib pr info m n answer key vals rows out0 D f st"
    and r: "br_frow r = f" "br_n_rows r = e - f" "br_is_concat r" "br_n_calls r = 1"
    and out: "br_outputs r = [] \<or> (\<exists>s j. br_outputs r = [s] \<and> answer_json lib s = Some j \<and>
       json_field j ''output_array'' = Some (JArray (map (\<lambda>p. answer (unprocessed ! p)) [f..<e])))"
  shows "\<exists>st'. handle_batch lib pr info m r st = Inr st' \<and> batches_ok lib pr info m n answer key vals rows out0 D (f + k) st'"
proof -
  have fe: "f < e" "e \<le> length unprocessed" "f + (e - f) = e" using assms(3-6) by auto
  have fails: "\<forall>p \<in> set (cs_batch_fails st). p < f \<and> p < n" and ok: "run_ok lib info answer key vals rows out0
      (D \<union> settled pr m n (cs_batch_fails st) f) (cs_cache st, cs_output st)"
    using st by (auto simp: batches_ok_def)
  have "\<forall>p \<in> set (cs_batch_fails st). p < f" using fails by blast
  note more = settled_more [OF this assms(5), of pr m]
  from out show ?thesis
  proof (elim disjE exE conjE)
    assume "br_outputs r = []"
    then have "\<not> batch_success r" using r fe by (simp add: batch_success_def)
    moreover have "e \<le> f + k" "e \<le> n" using assms(5) by auto
    ultimately show ?thesis using r fe fails ok more by (auto simp: handle_batch_def Let_def batches_ok_def)
  next
    fix s j
    assume s: "br_outputs r = [s]" "answer_json lib s = Some j"
      "json_field j ''output_array'' = Some (JArray (map (\<lambda>p. answer (unprocessed ! p)) [f..<e]))"
    then have success: "batch_success r" "outputs_at r 0 = Inr s" using r by (simp_all add: batch_success_def outputs_at_def)
    show ?thesis
    proof (cases "lp_use_cache pr")
      case True
      from cached_array_ok [OF assms(1,2) True _ fe(2) ok s(2,3)] fe(1) obtain st' where
        "extract_array_data_cached lib s m f info (e - f) (cs_cache st, cs_output st) = Inr st'"
        "run_ok lib info answer key vals rows out0 (D \<union> settled pr m n (cs_batch_fails st) f \<union> (\<Union>p \<in> {f..<e}. rows_at pr m p)) st'"
        by auto
      with True success r fails more show ?thesis
        by (cases st') (auto simp: handle_batch_def Let_def batches_ok_def Un_assoc trans_less_add1)
    next
      case False
      have "answered info key vals rows out0 (D \<union> settled pr m n (cs_batch_fails st) f) (cs_output st)"
        using ok by (simp add: run_ok_def)
      from rows_array_ok [OF assms(1,2) False _ fe(2) this s(2,3)] fe(1) obtain out' where
        "extract_array_data_rows lib s [f..<e] info (e - f) (cs_output st) = Inr out'"
        "answered info key vals rows out0 (D \<union> settled pr m n (cs_batch_fails st) f \<union> (\<Union>p \<in> {f..<e}. rows_at pr m p)) out'"
        by auto
      with False success r fails more ok fe(3) show ?thesis
        by (auto simp: handle_batch_def Let_def batches_ok_def run_ok_def Un_assoc trans_less_add1)
    qed
  qed
qed

lemma handle_rows_ok:
  assumes "readable lib info answer vals" and "aligned pr m unprocessed key rows" and "n = length unprocessed"
    and "f < n" and "e = min (f + k) n"
    and st: "batches_ok lib pr info m n answer key vals rows out0 D f st"
    and r: "br_frow r = f" "br_n_rows r = e - f" "\<not> br_is_concat r" "length (br_outputs r) = br_n_rows r"
    and out: "\<forall>i < br_n_rows r. answer_json lib (br_outputs r ! i) = Some (answer (unprocessed ! (f + i)))"
  shows "\<exists>st'. handle_batch lib pr info m r st = Inr st' \<and> batches_ok lib pr info m n answer key vals rows out0 D (f + k) st'"
proof -
  let ?P = "\<lambda>D st'. cs_batch_fails st' = cs_batch_fails st \<and> run_ok lib info answer key vals rows out0 D (cs_cache st', cs_output st')"
  let ?S = "D \<union> settled pr m n (cs_batch_fails st) f"
  have fails: "\<forall>p \<in> set (cs_batch_fails st). p < f \<and> p < n" and ok: "?P ?S (add_usage r st)"
    using st by (auto simp: batches_ok_def)
  have step: "\<exists>st''. result_bind (outputs_at r i) (\<lambda>llm_out. propagate_single_result lib pr info m llm_out (f + i) st') = Inr st'' \<and>
      ?P (E \<union> rows_at pr m (f + i)) st''" if "i \<in> set [0..<e - f]" "?P E st'" for i E st'
  proof -
    have i: "f + i < length unprocessed" "outputs_at r i = Inr (br_outputs r ! i)"
      "answer_json lib (br_outputs r ! i) = Some (answer (unprocessed ! (f + i)))"
      using that(1) assms(3,5) r out by (auto simp: outputs_at_def)
    from propagate_ok [OF assms(1,2) i(1) conjunct2 [OF that(2)] i(3)] that(2) i(2) show ?thesis by auto
  qed
  obtain st' where st': "result_fold (\<lambda>i st. result_bind (outputs_at r i) (\<lambda>llm_out. propagate_single_result lib pr info m llm_out (f + i) st))
      [0..<e - f] (add_usage r st) = Inr st'" "?P (?S \<union> (\<Union>i \<in> set [0..<e - f]. rows_at pr m (f + i))) st'"
    using fold_positions [where P = ?P and R = "\<lambda>i. rows_at pr m (f + i)" and ps = "[0..<e - f]" and
        f = "\<lambda>i st. result_bind (outputs_at r i) (\<lambda>llm_out. propagate_single_result lib pr info m llm_out (f + i) st)", OF step ok] by blast
  have "(\<Union>i \<in> set [0..<e - f]. rows_at pr m (f + i)) = (\<Union>p \<in> {f..<e}. rows_at pr m p)"
  proof -
    have "(\<lambda>i. f + i) ` set [0..<e - f] = {f..<e}" by (cases "f \<le> e") (auto simp: image_iff intro: exI [of _ "_ - f"])
    then show ?thesis by (metis image_image)
  qed
  moreover have "\<forall>p \<in> set (cs_batch_fails st). p < f" using fails by blast
  note settled_more(1) [OF this assms(5), of pr m]
  ultimately show ?thesis
    using st' r fails by (auto simp: handle_batch_def Let_def batches_ok_def Un_assoc trans_less_add1)
qed

lemma batch_step_ok:
  assumes "readable lib info answer vals" and "faithful_single lib post pr answer" and "faithful_batch lib post pr answer"
    and "aligned pr m unprocessed key rows" and "0 < bsize" and "b * bsize < length unprocessed"
    and "batches_ok lib pr info m (length unprocessed) answer key vals rows out0 D (b * bsize) st"
  shows "\<exists>st'. result_bind (predict_batch lib post pr unprocessed (length unprocessed) b bsize) (\<lambda>r. handle_batch lib pr info m r st) = Inr st' \<and>
    batches_ok lib pr info m (length unprocessed) answer key vals rows out0 D (Suc b * bsize) st'"
proof (cases "lp_use_batch pr")
  case True
  from predict_batch_concat [OF assms(3) True assms(6,5)] obtain r where
    r: "predict_batch lib post pr unprocessed (length unprocessed) b bsize = Inr r" "br_frow r = b * bsize"
    "br_n_rows r = batch_end (length unprocessed) bsize b - b * bsize" "br_is_concat r" "br_n_calls r = 1"
    "br_outputs r = [] \<or> (\<exists>s j. br_outputs r = [s] \<and> answer_json lib s = Some j \<and>
       json_field j ''output_array'' = Some (JArray (map (\<lambda>p. answer (unprocessed ! p)) [b * bsize..<batch_end (length unprocessed) bsize b])))"
    by blast
  from handle_batch_ok [OF assms(1,4) refl assms(6) batch_end_def assms(5,7) r(2-6)] show ?thesis
    by (simp add: r(1) add.commute)
next
  case False
  from predict_batch_rows [OF assms(2) False] obtain r where
    r: "predict_batch lib post pr unprocessed (length unprocessed) b bsize = Inr r" "br_frow r = b * bsize"
    "br_n_rows r = batch_end (length unprocessed) bsize b - b * bsize" "\<not> br_is_concat r" "length (br_outputs r) = br_n_rows r"
    "\<forall>i < br_n_rows r. answer_json lib (br_outputs r ! i) = Some (answer (unprocessed ! (b * bsize + i)))"
    by blast
  from handle_rows_ok [OF assms(1,4) refl assms(6) batch_end_def assms(7) r(2-6)] show ?thesis
    by (simp add: r(1) add.commute)
qed

lemma batches_ok_beyond:
  assumes "n \<le> pos" and "pos \<le> pos'" and "batches_ok lib pr info m n answer key vals rows out0 D pos st"
  shows "batches_ok lib pr info m n answer key vals rows out0 D pos' st"
proof -
  have "{p. p < pos' \<and> p < n \<and> p \<notin> set (cs_batch_fails st)} = {p. p < pos \<and> p < n \<and> p \<notin> set (cs_batch_fails st)}"
    using assms(1,2) by auto
  then show ?thesis using assms(2,3) by (fastforce simp: batches_ok_def settled_def)
qed

lemma takeWhile_batches_all:
  assumes "(a + k) * bsize < n"
  shows "takeWhile (\<lambda>i. i * bsize < n) [a..<a + k] = [a..<a + k]" and "takeWhile (\<lambda>i. i * bsize < n) [a..<a + Suc k] = [a..<a + k] @ [a + k]"
proof -
  have lt: "i * bsize < n" if "i \<le> a + k" for i using that assms by (meson le_less_trans mult_le_mono1)
  show "takeWhile (\<lambda>i. i * bsize < n) [a..<a + k] = [a..<a + k]" using lt by (auto simp: takeWhile_eq_all_conv)
  have "takeWhile (\<lambda>i. i * bsize < n) [a..<a + Suc k] = [a..<a + Suc k]"
    unfolding takeWhile_eq_all_conv using lt by auto
  then show "takeWhile (\<lambda>i. i * bsize < n) [a..<a + Suc k] = [a..<a + k] @ [a + k]" by simp
qed

lemma takeWhile_batches_end:
  assumes "\<not> (a + k) * bsize < n"
  shows "takeWhile (\<lambda>i. i * bsize < n) [a..<a + Suc k] = takeWhile (\<lambda>i. i * bsize < n) [a..<a + k]"
proof -
  have "takeWhile P (xs @ [x]) = takeWhile P xs" if "\<not> P x" for P :: "nat \<Rightarrow> bool" and xs x
    using that by (induction xs) auto
  then show ?thesis using assms by simp
qed

lemma run_batches_ok:
  assumes "readable lib info answer vals" and "faithful_single lib post pr answer" and "faithful_batch lib post pr answer"
    and "aligned pr m unprocessed key rows" and "0 < bsize"
    and "batches_ok lib pr info m (length unprocessed) answer key vals rows out0 D (b * bsize) st"
  shows "\<exists>st'. run_batches lib post pr info m unprocessed bsize b st = Inr st' \<and>
    batches_ok lib pr info m (length unprocessed) answer key vals rows out0 D ((b + lp_n_threads pr) * bsize) st'"
proof -
  let ?P = "\<lambda>i. i * bsize < length unprocessed"
  let ?f = "\<lambda>batch_i st. result_bind (predict_batch lib post pr unprocessed (length unprocessed) batch_i bsize) (\<lambda>r. handle_batch lib pr info m r st)"
  let ?ok = "\<lambda>i. batches_ok lib pr info m (length unprocessed) answer key vals rows out0 D (i * bsize)"
  have "\<exists>st'. result_fold ?f (takeWhile ?P [b..<b + k]) st = Inr st' \<and> ?ok (b + k) st'" for k
  proof (induction k)
    case (Suc k)
    then obtain st1 where st1: "result_fold ?f (takeWhile ?P [b..<b + k]) st = Inr st1" "?ok (b + k) st1" by blast
    show ?case
    proof (cases "?P (b + k)")
      case True
      from batch_step_ok [OF assms(1-5) True st1(2)] obtain st2 where "?f (b + k) st1 = Inr st2" "?ok (Suc (b + k)) st2" by blast
      moreover have "takeWhile ?P [b..<b + Suc k] = takeWhile ?P [b..<b + k] @ [b + k]"
        by (simp only: takeWhile_batches_all [OF True])
      ultimately show ?thesis using st1(1) by (simp only: result_fold_append) simp
    next
      case False
      then have "length unprocessed \<le> (b + k) * bsize" "(b + k) * bsize \<le> (b + Suc k) * bsize" by auto
      note beyond = batches_ok_beyond [OF this st1(2)]
      have "takeWhile ?P [b..<b + Suc k] = takeWhile ?P [b..<b + k]" by (rule takeWhile_batches_end [OF False])
      then show ?thesis using st1(1) beyond by metis
    qed
  qed (use assms(6) in simp)
  then show ?thesis by (simp add: run_batches_def)
qed

text \<open>A strided loop with a positive stride returns, and an invariant of its steps holds at the end.\<close>

lemma strided_loop_rule:
  assumes "0 < stride" and "P i s" and "\<And>i s. P i s \<Longrightarrow> i < bound \<Longrightarrow> \<exists>s'. body i s = Inr s' \<and> P (i + stride) s'"
  shows "\<exists>i' s'. strided_loop body stride bound i s = Some (Inr s') \<and> bound \<le> i' \<and> P i' s'"
  using assms(2)
proof (induction "bound - i" arbitrary: i s rule: less_induct)
  case less
  show ?case
  proof (cases "i < bound")
    case True
    then obtain s' where s': "body i s = Inr s'" "P (i + stride) s'" using assms(3) less.prems by blast
    have "bound - (i + stride) < bound - i" using True assms(1) by simp
    from less.hyps [OF this s'(2)] s'(1) True show ?thesis by (simp add: strided_loop.simps [of _ _ _ i])
  next
    case False
    then show ?thesis using less.prems by (auto simp: strided_loop.simps [of _ _ _ i] not_less)
  qed
qed

lemma rounds_cover: "0 < bsize \<Longrightarrow> n \<le> count_rounds n bsize * bsize"
proof -
  define q r where "q = n div bsize" and "r = n mod bsize"
  assume "0 < bsize"
  then have "n = q * bsize + r" "r < bsize" by (simp_all add: q_def r_def)
  then have "n \<le> (q + (if r \<noteq> 0 then 1 else 0)) * bsize" by (simp add: add_mult_distrib)
  then show ?thesis by (simp only: count_rounds_def q_def r_def)
qed

lemma imp_batch_size_pos: "0 < batch_size \<Longrightarrow> 0 < n_threads \<Longrightarrow> 0 < imp_batch_size batch_size n_threads n"
  by (auto simp: imp_batch_size_def div_greater_zero_iff)

lemma all_batches_ok:
  assumes "readable lib info answer vals" and "faithful_single lib post pr answer" and "faithful_batch lib post pr answer"
    and "aligned pr m unprocessed key rows" and "0 < bsize" and "0 < lp_n_threads pr"
    and "batches_ok lib pr info m (length unprocessed) answer key vals rows out0 D 0 st"
  shows "\<exists>st'. strided_loop (run_batches lib post pr info m unprocessed bsize) (lp_n_threads pr)
      (count_rounds (length unprocessed) bsize) 0 st = Some (Inr st') \<and>
    batches_ok lib pr info m (length unprocessed) answer key vals rows out0 D (length unprocessed) st'"
proof -
  let ?n = "length unprocessed"
  let ?P = "\<lambda>i. batches_ok lib pr info m ?n answer key vals rows out0 D (i * bsize)"
  have "?P 0 st" using assms(7) by simp
  then have "\<exists>i' s'. strided_loop (run_batches lib post pr info m unprocessed bsize) (lp_n_threads pr) (count_rounds ?n bsize) 0 st = Some (Inr s') \<and>
      count_rounds ?n bsize \<le> i' \<and> ?P i' s'"
    using run_batches_ok [OF assms(1-5)] by (intro strided_loop_rule [OF assms(6)]) auto
  then obtain i' s' where s': "strided_loop (run_batches lib post pr info m unprocessed bsize) (lp_n_threads pr) (count_rounds ?n bsize) 0 st = Some (Inr s')"
    "count_rounds ?n bsize \<le> i'" "?P i' s'" by blast
  have "?n \<le> i' * bsize" using rounds_cover [OF assms(5), of ?n] s'(2) by (meson le_trans mult_le_mono1)
  then have "{p. p < ?n \<and> p < ?n \<and> p \<notin> set (cs_batch_fails s')} = {p. p < i' * bsize \<and> p < ?n \<and> p \<notin> set (cs_batch_fails s')}" by auto
  with s' show ?thesis by (auto simp: batches_ok_def settled_def)
qed

section \<open>Retries\<close>

lemma retry_step_ok:
  assumes "readable lib info answer vals" and "faithful_single lib post pr answer" and "aligned pr m unprocessed key rows"
    and "p < length unprocessed" and "run_ok lib info answer key vals rows out0 D (cs_cache st, cs_output st)"
  shows "\<exists>st'. result_bind (vector_at unprocessed p) (\<lambda>text. result_bind (predict_one lib post pr text p) (\<lambda>r.
        let st' = add_usage r st in
        if batch_success r then result_bind (outputs_at r 0) (\<lambda>llm_out. propagate_single_result lib pr info m llm_out (br_frow r) st')
        else Inr st')) = Inr st' \<and>
    run_ok lib info answer key vals rows out0 (D \<union> rows_at pr m p) (cs_cache st', cs_output st')"
proof -
  obtain r s where r: "predict_one lib post pr (unprocessed ! p) p = Inr r" "batch_success r" "br_outputs r = [s]" "br_frow r = p"
    "answer_json lib s = Some (answer (unprocessed ! p))"
    using predict_one_answers [OF assms(2)] by blast
  from propagate_ok [OF assms(1,3,4), of out0 D "add_usage r st" s] assms(5) r(5) obtain st' where
    "propagate_single_result lib pr info m s p (add_usage r st) = Inr st'"
    "run_ok lib info answer key vals rows out0 (D \<union> rows_at pr m p) (cs_cache st', cs_output st')" by auto
  with r assms(4) show ?thesis by (simp add: vector_at_def Let_def outputs_at_def)
qed

lemma retries_ok:
  assumes "readable lib info answer vals" and "faithful_single lib post pr answer" and "aligned pr m unprocessed key rows"
    and "0 < lp_n_threads pr" and "\<forall>p \<in> set fails. p < length unprocessed"
    and "run_ok lib info answer key vals rows out0 D (cs_cache st, cs_output st)"
  shows "\<exists>st'. strided_loop (retry_rows lib post pr info m unprocessed fails) (lp_n_threads pr) (length fails) 0 st = Some (Inr st') \<and>
    run_ok lib info answer key vals rows out0 (D \<union> (\<Union>p \<in> set fails. rows_at pr m p)) (cs_cache st', cs_output st')"
proof -
  let ?ok = "\<lambda>D (st :: _ chunk_state). run_ok lib info answer key vals rows out0 D (cs_cache st, cs_output st)"
  let ?R = "\<lambda>i. \<Union>k \<in> {k. k < i \<and> k < length fails}. rows_at pr m (fails ! k)"
  have step: "\<exists>s'. retry_rows lib post pr info m unprocessed fails i s = Inr s' \<and> ?ok (D \<union> ?R (i + lp_n_threads pr)) s'"
    if i: "?ok (D \<union> ?R i) s" for i s
  proof -
    let ?ks = "[i..<min (i + lp_n_threads pr) (length fails)]"
    have "\<exists>s'. retry_rows lib post pr info m unprocessed fails i s = Inr s' \<and> ?ok (D \<union> ?R i \<union> (\<Union>k \<in> set ?ks. rows_at pr m (fails ! k))) s'"
      unfolding retry_rows_def
    proof (rule fold_positions [where P = ?ok, OF _ i])
      fix k E and st' :: "_ chunk_state"
      assume "k \<in> set ?ks" and e: "?ok E st'"
      then have "fails ! k < length unprocessed" using assms(5) by simp
      from retry_step_ok [OF assms(1-3) this e] show "\<exists>s'. (let real_row = fails ! k in
         result_bind (vector_at unprocessed real_row) (\<lambda>text. result_bind (predict_one lib post pr text real_row) (\<lambda>r.
           let st'' = add_usage r st' in
           if batch_success r then result_bind (outputs_at r 0) (\<lambda>llm_out. propagate_single_result lib pr info m llm_out (br_frow r) st'')
           else Inr st''))) = Inr s' \<and> ?ok (E \<union> rows_at pr m (fails ! k)) s'"
        by (simp add: Let_def)
    qed
    moreover have "{k. k < i \<and> k < length fails} \<union> set ?ks = {k. k < i + lp_n_threads pr \<and> k < length fails}" by auto
    then have "?R i \<union> (\<Union>k \<in> set ?ks. rows_at pr m (fails ! k)) = ?R (i + lp_n_threads pr)" by (metis (no_types) UN_Un)
    ultimately show ?thesis by (simp only: Un_assoc)
  qed
  have "?ok (D \<union> ?R 0) st" using assms(6) by simp
  then have "\<exists>i' s'. strided_loop (retry_rows lib post pr info m unprocessed fails) (lp_n_threads pr) (length fails) 0 st = Some (Inr s') \<and>
      length fails \<le> i' \<and> ?ok (D \<union> ?R i') s'"
    using step by (intro strided_loop_rule [OF assms(4)]) auto
  then obtain i' s' where s': "strided_loop (retry_rows lib post pr info m unprocessed fails) (lp_n_threads pr) (length fails) 0 st = Some (Inr s')"
    "length fails \<le> i'" "?ok (D \<union> ?R i') s'" by blast
  have "?R i' = (\<Union>p \<in> set fails. rows_at pr m p)" using s'(2) by (force simp: in_set_conv_nth)
  with s' show ?thesis by auto
qed

section \<open>Grouping\<close>

text \<open>The map holds only rows of the right prompts, and every row that is not answered yet.\<close>

definition grouped_ok :: "(nat \<Rightarrow> string) \<Rightarrow> nat set \<Rightarrow> (string \<times> nat list) list \<Rightarrow> bool" where
  "grouped_ok key W m \<longleftrightarrow> (\<forall>(k, ids) \<in> set m. \<forall>i \<in> set ids. key i = k) \<and> (\<Union>(k, ids) \<in> set m. set ids) = W"

lemma map_push_ok: "grouped_ok key W m \<Longrightarrow> grouped_ok key (insert i W) (map_push (key i) i m)"
proof (induction m arbitrary: W)
  case (Cons e m)
  obtain k ids where e: "e = (k, ids)" by (cases e)
  have "grouped_ok key (\<Union>(k, ids) \<in> set m. set ids) m" using Cons.prems by (auto simp: grouped_ok_def)
  from Cons.IH [OF this] Cons.prems show ?case by (auto simp: grouped_ok_def e)
qed (simp add: grouped_ok_def)

text \<open>The loop over the rows: each row is answered by the cache, in the map, or in the list of prompts.\<close>

definition group_ok ::
  "'d json_lib \<Rightarrow> llm_predictor \<Rightarrow> predict_info \<Rightarrow> (nat \<Rightarrow> string) \<Rightarrow> (string \<Rightarrow> 'd val list) \<Rightarrow> nat \<Rightarrow> 'd val data_chunk \<Rightarrow> nat \<Rightarrow>
   (string \<times> nat list) list \<times> string list \<times> 'd val data_chunk \<Rightarrow> bool" where
  "group_ok lib pr info key vals rows out0 i = (\<lambda>(m, texts, out). \<exists>D W.
     answered info key vals rows out0 D out \<and> grouped_ok key W m \<and>
     (if lp_use_cache pr then texts = [] \<and> D \<union> W = {..<i} else texts = map key [0..<i] \<and> m = []))"

lemma group_row_ok:
  assumes "readable lib info answer vals" and "cache_ok lib answer (lp_cache pr)" and "i < rows"
    and "embed_prompt to_sql i input info True = Inr (key i)" and "group_ok lib pr info key vals rows out0 i st"
  shows "\<exists>st'. group_row lib to_sql pr input info i st = Inr st' \<and> group_ok lib pr info key vals rows out0 (Suc i) st'"
proof -
  obtain m texts out where st: "st = (m, texts, out)" by (cases st)
  obtain D W where ok: "answered info key vals rows out0 D out" "grouped_ok key W m"
    "if lp_use_cache pr then texts = [] \<and> D \<union> W = {..<i} else texts = map key [0..<i] \<and> m = []"
    using assms(5) by (auto simp: group_ok_def st)
  show ?thesis
  proof (cases "lp_use_cache pr")
    case False
    then have "group_row lib to_sql pr input info i st = Inr (m, texts @ [key i], out)"
      using assms(4) by (simp add: group_row_def st split: option.split)
    moreover have "group_ok lib pr info key vals rows out0 (Suc i) (m, texts @ [key i], out)"
      unfolding group_ok_def prod.case using ok False by (intro exI [of _ D] exI [of _ W]) simp
    ultimately show ?thesis by blast
  next
    case True
    show ?thesis
    proof (cases "lp_cache pr (key i)")
      case None
      have "D \<union> insert i W = {..<Suc i}" using ok(3) True by (simp add: lessThan_Suc)
      then have "group_ok lib pr info key vals rows out0 (Suc i) (map_push (key i) i m, texts, out)"
        unfolding group_ok_def prod.case using ok map_push_ok [OF ok(2), of i] True
        by (intro exI [of _ D] exI [of _ "insert i W"] conjI) simp_all
      with None True assms(4) show ?thesis by (simp add: group_row_def st)
    next
      case (Some hit)
      then have "answer_json lib hit = Some (answer (key i))" "row_values lib info (answer (key i)) = Inr (vals (key i))"
        using assms(1,2) by (auto simp: cache_ok_def readable_def)
      from extract_row_wrote [OF this answered_output_ok [OF ok(1)] assms(3)] obtain c' where
        c': "extract_row_data lib hit i info out = Inr c'" "wrote info rows {i} (vals (key i)) out c'" by blast
      have "answered info key vals rows out0 (D \<union> {i}) c'" using ok(1) c'(2) by (rule answered_wrote) (use assms(3) in simp)
      moreover have "D \<union> {i} \<union> W = {..<Suc i}" using ok(3) True by (simp add: lessThan_Suc)
      ultimately have "group_ok lib pr info key vals rows out0 (Suc i) (m, texts, c')"
        unfolding group_ok_def prod.case using ok True
        by (intro exI [of _ "D \<union> {i}"] exI [of _ W] conjI) simp_all
      with Some True assms(4) c'(1) show ?thesis by (simp add: group_row_def st)
    qed
  qed
qed

lemma grouping_ok:
  assumes "readable lib info answer vals" and "cache_ok lib answer (lp_cache pr)" and "output_ok info rows out0"
    and "\<forall>i < rows. embed_prompt to_sql i input info True = Inr (key i)"
  shows "\<exists>st. result_fold (group_row lib to_sql pr input info) [0..<rows] ([], [], out0) = Inr st \<and>
    group_ok lib pr info key vals rows out0 rows st"
proof -
  have "\<exists>st. result_fold (group_row lib to_sql pr input info) [0..<i] ([], [], out0) = Inr st \<and>
      group_ok lib pr info key vals rows out0 i st" if "i \<le> rows" for i
    using that
  proof (induction i)
    case 0
    then show ?case using assms(3) by (auto simp: group_ok_def answered_def grouped_ok_def)
  next
    case (Suc i)
    then obtain st where st: "result_fold (group_row lib to_sql pr input info) [0..<i] ([], [], out0) = Inr st"
      "group_ok lib pr info key vals rows out0 i st" by auto
    from Suc.prems assms(4) have "i < rows" "embed_prompt to_sql i input info True = Inr (key i)" by auto
    from group_row_ok [OF assms(1,2) this st(2)] st(1) show ?case by (auto simp: result_fold_append)
  qed
  then show ?thesis by blast
qed

text \<open>After the grouping, the positions and the rows that are already answered cover the chunk.\<close>

lemma grouping_positions:
  assumes "group_ok lib pr info key vals rows out0 rows (m, texts, out)"
    and "unprocessed = (if lp_use_cache pr then texts @ map fst m else texts)"
  shows "\<exists>D. answered info key vals rows out0 D out \<and> aligned pr m unprocessed key rows \<and>
    D \<union> (\<Union>p \<in> {..<length unprocessed}. rows_at pr m p) = {..<rows}"
proof -
  obtain D W where ok: "answered info key vals rows out0 D out" "grouped_ok key W m"
    "if lp_use_cache pr then texts = [] \<and> D \<union> W = {..<rows} else texts = map key [0..<rows] \<and> m = []"
    using assms(1) by (auto simp: group_ok_def)
  show ?thesis
  proof (cases "lp_use_cache pr")
    case True
    have W: "(\<Union>p \<in> {..<length m}. set (snd (m ! p))) = W"
    proof -
      have "set m = (\<lambda>p. m ! p) ` {..<length m}" by (metis list.set_map lessThan_atLeast0 map_nth set_upt)
      then have "(\<Union>p \<in> {..<length m}. set (snd (m ! p))) = (\<Union>e \<in> set m. set (snd e))" by simp
      then show ?thesis using ok(2) by (auto simp: grouped_ok_def case_prod_beta)
    qed
    have k: "key r = fst (m ! p)" if "p < length m" "r \<in> set (snd (m ! p))" for p r
    proof -
      have "\<forall>e \<in> set m. \<forall>i \<in> set (snd e). key i = fst e" using ok(2) by (simp add: grouped_ok_def case_prod_beta)
      with that show ?thesis by simp
    qed
    have r: "r < rows" if "p < length m" "r \<in> set (snd (m ! p))" for p r
    proof -
      have "r \<in> W" using W that by blast
      with ok(3) True show ?thesis by auto
    qed
    have un: "unprocessed = map fst m" using assms(2) ok(3) True by simp
    have "aligned pr m unprocessed key rows" unfolding aligned_def rows_at_def un using True k r by simp
    moreover have "D \<union> (\<Union>p \<in> {..<length unprocessed}. rows_at pr m p) = {..<rows}"
      using ok(3) True W by (simp add: un rows_at_def)
    ultimately show ?thesis using ok(1) by blast
  next
    case False
    have "answered info key vals rows out0 {} out" using ok(1) by (simp add: answered_def)
    moreover have "aligned pr m unprocessed key rows" "(\<Union>p \<in> {..<length unprocessed}. rows_at pr m p) = {..<rows}"
      using False ok(3) assms(2) by (simp_all add: aligned_def rows_at_def)
    ultimately show ?thesis by (intro exI [of _ "{}"]) simp
  qed
qed

section \<open>Chunks\<close>

lemma predict_chunk_rows:
  assumes "readable lib info answer vals" and "faithful_single lib post pr answer" and "faithful_batch lib post pr answer"
    and "cache_ok lib answer (lp_cache pr)" and "output_ok info rows output"
    and "\<forall>i < rows. embed_prompt to_sql i input info True = Inr (key i)"
    and "0 < lp_batch_size pr" and "0 < lp_n_threads pr"
  shows "\<exists>pr' stats' output'. predict_chunk lib post to_sql input rows info (pr, stats, output) = Some (Inr (pr', stats', output')) \<and>
    (\<forall>i < rows. \<forall>j < length (pi_result_set_names info). cell output' j i = vals (key i) ! j) \<and>
    (\<forall>i j. rows \<le> i \<longrightarrow> cell output' j i = cell output j i) \<and> same_shape output output' \<and> (\<exists>cache. pr' = pr\<lparr>lp_cache := cache\<rparr>) \<and> cache_ok lib answer (lp_cache pr')"
proof -
  obtain m texts out where g: "result_fold (group_row lib to_sql pr input info) [0..<rows] ([], [], output) = Inr (m, texts, out)"
    "group_ok lib pr info key vals rows output rows (m, texts, out)"
    using grouping_ok [OF assms(1,4-6)] by (metis prod_cases3)
  define unprocessed where "unprocessed = (if lp_use_cache pr then texts @ map fst m else texts)"
  define bsize where "bsize = imp_batch_size (lp_batch_size pr) (lp_n_threads pr) (length unprocessed)"
  let ?n = "length unprocessed"
  let ?st = "\<lparr>cs_cache = lp_cache pr, cs_output = out, cs_batch_fails = [], cs_calls = 0, cs_tokens = 0, cs_in_tokens = 0, cs_out_tokens = 0\<rparr>"
  have bsize: "0 < bsize" unfolding bsize_def using assms(7,8) by (rule imp_batch_size_pos)
  obtain D where D: "answered info key vals rows output D out" "aligned pr m unprocessed key rows"
    "D \<union> (\<Union>p \<in> {..<?n}. rows_at pr m p) = {..<rows}"
    using grouping_positions [OF g(2) unprocessed_def] by blast
  have "batches_ok lib pr info m ?n answer key vals rows output D 0 ?st"
    using D(1) assms(4) by (simp add: batches_ok_def run_ok_def settled_def)
  from all_batches_ok [OF assms(1-3) D(2) bsize assms(8) this] obtain st1 where
    st1: "strided_loop (run_batches lib post pr info m unprocessed bsize) (lp_n_threads pr) (count_rounds ?n bsize) 0 ?st = Some (Inr st1)"
    "batches_ok lib pr info m ?n answer key vals rows output D ?n st1" by blast
  let ?S = "D \<union> settled pr m ?n (cs_batch_fails st1) ?n"
  have fails: "\<forall>p \<in> set (cs_batch_fails st1). p < ?n" and ok1: "run_ok lib info answer key vals rows output ?S (cs_cache st1, cs_output st1)"
    using st1(2) by (auto simp: batches_ok_def)
  from retries_ok [OF assms(1,2) D(2) assms(8) fails ok1] obtain st2 where
    st2: "strided_loop (retry_rows lib post pr info m unprocessed (cs_batch_fails st1)) (lp_n_threads pr) (length (cs_batch_fails st1)) 0 st1 = Some (Inr st2)"
    "run_ok lib info answer key vals rows output (?S \<union> (\<Union>p \<in> set (cs_batch_fails st1). rows_at pr m p)) (cs_cache st2, cs_output st2)" by blast
  have "{p. p < ?n \<and> p < ?n \<and> p \<notin> set (cs_batch_fails st1)} \<union> set (cs_batch_fails st1) = {..<?n}" using fails by auto
  then have "?S \<union> (\<Union>p \<in> set (cs_batch_fails st1). rows_at pr m p) = {..<rows}"
    using D(3) by (simp add: settled_def Un_assoc flip: UN_Un)
  with st2(2) have final: "run_ok lib info answer key vals rows output {..<rows} (cs_cache st2, cs_output st2)" by simp
  have "predict_chunk lib post to_sql input rows info (pr, stats, output) = Some (Inr (pr\<lparr>lp_cache := cs_cache st2\<rparr>,
      stats\<lparr>ps_llm_calls := ps_llm_calls stats + cs_calls st2, ps_inputs_used := ps_inputs_used stats + cs_in_tokens st2,
        ps_outputs_used := ps_outputs_used stats + cs_out_tokens st2, ps_tokens_used := ps_tokens_used stats + cs_tokens st2\<rparr>, cs_output st2))"
    using g(1) st1(1) st2(1) bsize by (simp add: predict_chunk_def Let_def flip: unprocessed_def bsize_def)
  with final show ?thesis by (auto simp: run_ok_def answered_def)
qed

text \<open>
  C9. Caching, grouping, batching, threads and retries do not change the answers. When the model answers
  every prompt of one row, answers batches in order or fails them, and the cache holds right
  answers, \<^verbatim>\<open>PredictChunk\<close> returns; every row of the chunk then holds the values of the answer
  to its own prompt, the cells beyond the rows are as before, and the new cache holds right
  answers.
\<close>

theorem predict_chunk_correct:
  assumes "readable lib info answer vals" and "faithful_single lib post pr answer" and "faithful_batch lib post pr answer"
    and "cache_ok lib answer (lp_cache pr)" and "output_ok info rows output"
    and "\<forall>i < rows. embed_prompt to_sql i input info True = Inr (key i)"
    and "0 < lp_batch_size pr" and "0 < lp_n_threads pr"
  shows "\<exists>pr' stats' output'. predict_chunk lib post to_sql input rows info (pr, stats, output) = Some (Inr (pr', stats', output')) \<and>
    (\<forall>i < rows. \<forall>j < length (pi_result_set_names info). cell output' j i = vals (key i) ! j) \<and>
    (\<forall>i j. rows \<le> i \<longrightarrow> cell output' j i = cell output j i) \<and> cache_ok lib answer (lp_cache pr')"
  using predict_chunk_rows [OF assms, of stats] by blast

text \<open>A model that tells whether a prompt has a 7 and cannot answer batches.\<close>

definition demo_lib :: "int json_lib" where
  "demo_lib = \<lparr>parse = (\<lambda>s. if s = ''{yes}'' then Some (JObject [(''n'', JInt 1)])
       else if s = ''{no}'' then Some (JObject [(''n'', JInt 0)]) else None),
     dump = (\<lambda>j. if json_field j ''n'' = Some (JInt 1) then ''{yes}'' else ''{no}''),
     stod = (\<lambda>_. None), double_of_int = (\<lambda>n. n), int_of_double = (\<lambda>d. d), idx_of_double = nat\<rparr>"

definition demo_info :: predict_info where
  "demo_info = \<lparr>pi_model_path = ''m'', pi_prompt = ''p'', pi_base_api = [], pi_secret = [], pi_input_mask = [0],
     pi_input_set_names = [''x''], pi_result_set_names = [''n''], pi_result_set_types = [INTEGER]\<rparr>"

definition demo_predictor :: llm_predictor where
  "demo_predictor = \<lparr>lp_prompt = ''p'', lp_model_path = ''m'', lp_grammar = ''g'', lp_batch_size = 2, lp_use_cache = True,
     lp_use_batch = True, lp_n_threads = 2, lp_cache = Map.empty\<rparr>"

definition demo_text :: "string \<Rightarrow> string" where
  "demo_text x = (if CHR ''7'' \<in> set x then ''{yes}'' else ''{no}'')"

definition single_start :: string where
  "single_start = ''You are a helpful assistant. Always respond **only** with valid JSON object''"

definition demo_post :: "llm_request \<Rightarrow> int json" where
  "demo_post rq =
     (if take (length single_start) (rq_system rq) = single_start
      then JObject [(''choices'', JArray [JObject [(''message'', JObject [(''content'', JString (demo_text (rq_user rq)))])]]),
        (''usage'', JObject [(''total_tokens'', JInt 3), (''prompt_tokens'', JInt 2), (''completion_tokens'', JInt 1)])]
      else JNull)"

definition demo_answer :: "string \<Rightarrow> int json" where
  "demo_answer x = JObject [(''n'', JInt (if CHR ''7'' \<in> set x then 1 else 0))]"

lemma demo_system:
  "take (length single_start) (generate_system_message pr False) = single_start"
  "take (length single_start) (generate_system_message pr True) \<noteq> single_start"
  by (simp_all add: generate_system_message_def single_start_def)

lemma demo_answer_json: "answer_json demo_lib (demo_text x) = Some (demo_answer x)"
  by (simp add: answer_json_def demo_text_def extract_json_def demo_lib_def demo_answer_def)

lemma demo_readable: "readable demo_lib demo_info demo_answer (\<lambda>x. [IntegerValue (if CHR ''7'' \<in> set x then 1 else 0)])"
proof -
  have "dump demo_lib (demo_answer x) = demo_text x" for x by (simp add: demo_lib_def demo_answer_def demo_text_def)
  moreover have "row_values demo_lib demo_info (demo_answer x) = Inr [IntegerValue (if CHR ''7'' \<in> set x then 1 else 0)]" for x
    by (simp add: row_values_def demo_info_def field_result_def vector_at_def demo_answer_def to_int32_def)
  ultimately show ?thesis by (simp add: readable_def demo_answer_json)
qed

lemma demo_text_nonempty: "demo_text x \<noteq> []"
  by (simp add: demo_text_def)

lemma demo_single:
  assumes "CHR ''7'' \<notin> set (lp_prompt pr)"
  shows "faithful_single demo_lib demo_post pr demo_answer"
proof -
  have "demo_text (rq_user (single_request pr x)) = demo_text x" for x
    using assms by (simp add: demo_text_def single_request_def)
  then have "demo_post (single_request pr x) =
    JObject [(''choices'', JArray [JObject [(''message'', JObject [(''content'', JString (demo_text x))])]]),
        (''usage'', JObject [(''total_tokens'', JInt 3), (''prompt_tokens'', JInt 2), (''completion_tokens'', JInt 1)])]" for x
    by (simp add: demo_post_def single_request_def demo_system)
  then show ?thesis unfolding faithful_single_def
    by (auto simp: json_contains_def usage_ok_def usage_tokens_def extract_content_def message_content_def demo_answer_json demo_text_nonempty)
qed

lemma demo_batch: "faithful_batch demo_lib demo_post pr demo_answer"
  by (simp add: faithful_batch_def demo_post_def batch_request_def demo_system)

definition demo_chunk :: "string list \<Rightarrow> int val data_chunk" where
  "demo_chunk ss = \<lparr>chunk_data = [map VarcharValue ss], chunk_count = length ss, chunk_capacity = length ss\<rparr>"

fun demo_sql :: "int val \<Rightarrow> string" where
  "demo_sql (VarcharValue s) = s"
| "demo_sql _ = []"

theorem predict_chunk_correct_witness:
  "\<exists>pr' stats' output'. predict_chunk demo_lib demo_post demo_sql (demo_chunk [''7'', ''8'', ''7'']) 3 demo_info
      (demo_predictor, \<lparr>ps_llm_calls = 0, ps_inputs_used = 0, ps_outputs_used = 0, ps_tokens_used = 0\<rparr>, demo_chunk [[], [], [], []]) =
      Some (Inr (pr', stats', output')) \<and>
    cell output' 0 0 = IntegerValue 1 \<and> cell output' 0 1 = IntegerValue 0 \<and> cell output' 0 2 = IntegerValue 1 \<and>
    cell output' 0 3 = VarcharValue [] \<and> cache_ok demo_lib demo_answer (lp_cache pr')"
proof -
  let ?key = "\<lambda>i. ''x = `'' @ [''7'', ''8'', ''7''] ! i @ ''`, ''"
  have embed: "\<forall>i < 3. embed_prompt demo_sql i (demo_chunk [''7'', ''8'', ''7'']) demo_info True = Inr (?key i)"
    by (simp add: embed_prompt_def embed_column_def demo_info_def demo_chunk_def vector_at_def get_value_def less_Suc_eq numeral_3_eq_3)
  have single: "faithful_single demo_lib demo_post demo_predictor demo_answer" by (rule demo_single) (simp add: demo_predictor_def)
  have cache: "cache_ok demo_lib demo_answer (lp_cache demo_predictor)" by (simp add: cache_ok_def demo_predictor_def)
  have out: "output_ok demo_info 3 (demo_chunk [[], [], [], []])" by (simp add: output_ok_def demo_info_def demo_chunk_def)
  have pos: "0 < lp_batch_size demo_predictor" "0 < lp_n_threads demo_predictor" by (simp_all add: demo_predictor_def)
  obtain pr' stats' output' where r: "predict_chunk demo_lib demo_post demo_sql (demo_chunk [''7'', ''8'', ''7'']) 3 demo_info
      (demo_predictor, \<lparr>ps_llm_calls = 0, ps_inputs_used = 0, ps_outputs_used = 0, ps_tokens_used = 0\<rparr>, demo_chunk [[], [], [], []]) =
      Some (Inr (pr', stats', output'))"
    "\<forall>i < 3. \<forall>j < length (pi_result_set_names demo_info). cell output' j i = [IntegerValue (if CHR ''7'' \<in> set (?key i) then 1 else 0)] ! j"
    "\<forall>i j. 3 \<le> i \<longrightarrow> cell output' j i = cell (demo_chunk [[], [], [], []]) j i" "cache_ok demo_lib demo_answer (lp_cache pr')"
    using predict_chunk_correct [OF demo_readable single demo_batch cache out embed pos] by blast
  have n: "length (pi_result_set_names demo_info) = 1" by (simp add: demo_info_def)
  have "cell output' 0 0 = IntegerValue 1" using r(2) [rule_format, of 0 0] n by simp
  moreover have "cell output' 0 1 = IntegerValue 0" using r(2) [rule_format, of 1 0] n by simp
  moreover have "cell output' 0 2 = IntegerValue 1" using r(2) [rule_format, of 2 0] n by simp
  moreover have "cell output' 0 3 = VarcharValue []" using r(3) by (simp add: cell_def demo_chunk_def)
  ultimately show ?thesis using r(1,4) by blast
qed

end
