(* ===== verification/LlmTasks.thy ===== *)
theory LlmTasks
  imports LlmPredict
begin

text \<open>
  The other entry points of the predictor for language models behind an API: its configuration,
  the scan that lets the model produce rows, the calls of the aggregate function, the semantic
  join of \<^verbatim>\<open>PredictJoin\<close>, and the reordering of prompts. \<^verbatim>\<open>std::sort\<close> leaves the order of equal
  elements open and is the argument \<open>sorter\<close>.
\<close>

section \<open>Configuration\<close>

datatype option_value = IntegerOption int | BooleanOption bool

record llm_client_config =
  cc_ml_batch_size :: nat
  cc_llm_use_cache :: bool
  cc_llm_use_batch :: bool
  cc_llm_no_threads :: nat

text \<open>\<^verbatim>\<open>IntegerValue::Get\<close> and \<^verbatim>\<open>BooleanValue::Get\<close> read a union without a check; a negative integer wraps. The
  options are given by their names in lower case.\<close>

fun idx_option :: "option_value option \<Rightarrow> nat \<Rightarrow> nat result" where
  "idx_option None dflt = Inr dflt"
| "idx_option (Some (IntegerOption n)) dflt = Inr (nat (n mod 2 ^ 64))"
| "idx_option (Some (BooleanOption b)) dflt = Inl (UndefinedBehavior ''integer read of a boolean value'')"

fun bool_option :: "option_value option \<Rightarrow> bool \<Rightarrow> bool result" where
  "bool_option None dflt = Inr dflt"
| "bool_option (Some (BooleanOption b)) dflt = Inr b"
| "bool_option (Some (IntegerOption n)) dflt = Inl (UndefinedBehavior ''boolean read of an integer value'')"

definition llm_config :: "llm_client_config \<Rightarrow> (string \<rightharpoonup> option_value) \<Rightarrow> llm_predictor \<Rightarrow> llm_predictor result" where
  "llm_config config options pr =
     result_bind (idx_option (options ''batch_size'') (cc_ml_batch_size config)) (\<lambda>batch_size.
     result_bind (bool_option (options ''use_cache'') (cc_llm_use_cache config)) (\<lambda>use_cache.
     result_bind (bool_option (options ''use_batch'') (cc_llm_use_batch config)) (\<lambda>use_batch.
     result_bind (idx_option (options ''n_threads'') (cc_llm_no_threads config)) (\<lambda>n_threads.
       Inr (pr\<lparr>lp_batch_size := batch_size, lp_use_cache := use_cache, lp_use_batch := use_batch, lp_n_threads := n_threads\<rparr>)))))"

section \<open>Aggregates\<close>

text \<open>A request without a response format has an empty one here.\<close>

definition agg_request :: "llm_predictor \<Rightarrow> string \<Rightarrow> llm_request" where
  "agg_request pr input =
     \<lparr>rq_endpoint = ''chat/completions'', rq_model = lp_model_path pr,
      rq_system = ''You are a helpful assistant. Always respond with a plain text. '' @
        ''Do not include any explanations, given inputs or language specifiers.'',
      rq_user = lp_prompt pr @ ''; Consider all of the following inputs and produce a single output: '' @ newline @ input,
      rq_format = []\<rparr>"

definition predict_agg :: "'d json_lib \<Rightarrow> (llm_request \<Rightarrow> 'd json) \<Rightarrow> llm_predictor \<Rightarrow> string \<Rightarrow> batch_result result" where
  "predict_agg lib post pr input =
     (let completion = post (agg_request pr input) in
      result_bind (extract_content completion) (\<lambda>llm_out.
      with_usage lib completion (\<lambda>tokens in_tokens out_tokens.
        Inr ((new_batch_result 0 1)\<lparr>br_outputs := [llm_out], br_tokens := tokens, br_in_tokens := in_tokens,
               br_out_tokens := out_tokens, br_n_calls := 1\<rparr>))))"

definition predict_string :: "'d json_lib \<Rightarrow> (llm_request \<Rightarrow> 'd json) \<Rightarrow> llm_predictor \<Rightarrow> string list \<Rightarrow> string list result" where
  "predict_string lib post pr input =
     traverse (\<lambda>call. result_bind (predict_agg lib post pr call) (\<lambda>r. outputs_at r 0)) input"

section \<open>Scans\<close>

definition scan_request :: "llm_predictor \<Rightarrow> llm_request" where
  "scan_request pr =
     \<lparr>rq_endpoint = ''chat/completions'', rq_model = lp_model_path pr, rq_system = generate_system_message pr True,
      rq_user = lp_prompt pr, rq_format = build_array_response_format pr 0\<rparr>"

definition scan_chunk ::
  "'d json_lib \<Rightarrow> (llm_request \<Rightarrow> 'd json) \<Rightarrow> llm_predictor \<Rightarrow> predict_info \<Rightarrow> predict_stats \<times> 'd val data_chunk \<Rightarrow>
   (predict_stats \<times> 'd val data_chunk) result" where
  "scan_chunk lib post pr info = (\<lambda>(stats, output).
     let completion = post (scan_request pr) in
     result_bind (extract_content completion) (\<lambda>llm_out.
     with_usage lib completion (\<lambda>tokens in_tokens out_tokens.
     result_bind (extract_array_data_scan lib llm_out info output) (\<lambda>out.
       Inr (stats\<lparr>ps_llm_calls := ps_llm_calls stats + 1, ps_tokens_used := ps_tokens_used stats + tokens,
                  ps_inputs_used := ps_inputs_used stats + in_tokens, ps_outputs_used := ps_outputs_used stats + out_tokens\<rparr>, out)))))"

section \<open>Semantic joins\<close>

definition join_column :: "('v \<Rightarrow> string) \<Rightarrow> 'v data_chunk \<Rightarrow> nat \<Rightarrow> predict_info \<Rightarrow> nat \<Rightarrow> string result" where
  "join_column to_sql input row info j =
     result_bind (vector_at (pi_input_set_names info) j) (\<lambda>name.
     result_bind (vector_at (pi_input_mask info) j) (\<lambda>col.
     result_bind (get_value col row input) (\<lambda>v. Inr (name @ '' = `'' @ to_sql v @ ''`, ''))))"

definition build_join_repr :: "('v \<Rightarrow> string) \<Rightarrow> 'v data_chunk \<Rightarrow> nat \<Rightarrow> nat \<Rightarrow> predict_info \<Rightarrow> (string \<times> string) result" where
  "build_join_repr to_sql input row n_left_cols info =
     result_bind (traverse (join_column to_sql input row info) [0..<n_left_cols]) (\<lambda>left.
     result_bind (traverse (join_column to_sql input row info) [n_left_cols..<length (pi_input_mask info)]) (\<lambda>right.
       Inr (concat left, concat right)))"

text \<open>The distinct representations of one side, numbered in the order they appear.\<close>

record unique_side =
  us_map :: "string \<rightharpoonup> nat"
  us_items :: "string list"

definition unique_id :: "string \<Rightarrow> unique_side \<Rightarrow> nat \<times> unique_side" where
  "unique_id repr u =
     (case us_map u repr of
        Some i \<Rightarrow> (i, u)
      | None \<Rightarrow> (length (us_items u), u\<lparr>us_map := (us_map u)(repr \<mapsto> length (us_items u)), us_items := us_items u @ [repr]\<rparr>))"

definition join_row ::
  "('v \<Rightarrow> string) \<Rightarrow> 'v data_chunk \<Rightarrow> nat \<Rightarrow> predict_info \<Rightarrow> nat \<Rightarrow> unique_side \<times> unique_side \<times> (nat \<times> nat) list \<Rightarrow>
   (unique_side \<times> unique_side \<times> (nat \<times> nat) list) result" where
  "join_row to_sql input n_left_cols info i = (\<lambda>(left, right, row_ids).
     result_bind (build_join_repr to_sql input i n_left_cols info) (\<lambda>(left_repr, right_repr).
       let (l, left') = unique_id left_repr left; (r, right') = unique_id right_repr right in
       Inr (left', right', row_ids @ [(l, r)])))"

definition enumerate_items :: "string list \<Rightarrow> string" where
  "enumerate_items items =
     concat (map (\<lambda>i. ''['' @ to_string i @ ''] '' @ items ! i @ newline) [0..<length items])"

definition join_schema :: string where
  "join_schema =
     ''{'' @ quoted ''type'' @ '':'' @ quoted ''object'' @ '','' @ quoted ''additionalProperties'' @ '':false,'' @
     quoted ''required'' @ '':['' @ quoted ''matching_pairs'' @ ''],'' @
     quoted ''properties'' @ '':{'' @ quoted ''matching_pairs'' @ '':{'' @ quoted ''type'' @ '':'' @ quoted ''array'' @ '','' @
     quoted ''items'' @ '':{'' @ quoted ''type'' @ '':'' @ quoted ''object'' @ '','' @
     quoted ''additionalProperties'' @ '':false,'' @ quoted ''required'' @ '':['' @ quoted ''left_id'' @ '','' @ quoted ''right_id'' @ ''],'' @
     quoted ''properties'' @ '':{'' @ quoted ''left_id'' @ '':{'' @ quoted ''type'' @ '':'' @ quoted ''integer'' @ ''},'' @
     quoted ''right_id'' @ '':{'' @ quoted ''type'' @ '':'' @ quoted ''integer'' @ ''}}}}}}''"

definition join_request :: "llm_predictor \<Rightarrow> string list \<Rightarrow> string list \<Rightarrow> llm_request" where
  "join_request pr left_items right_items =
     \<lparr>rq_endpoint = ''chat/completions'', rq_model = lp_model_path pr,
      rq_system = ''You are a data matching assistant. Given enumerated left items and right items, '' @
        ''return only the index pairs that match according to the user'' @ [CHR 0x27] @ ''s criteria. '' @
        ''Respond with matching_pairs as an array of {'' @ quoted ''left_id'' @ '': <int>, '' @ quoted ''right_id'' @ '': <int>} objects. '' @
        ''Omit non-matching pairs entirely.'',
      rq_user = lp_prompt pr @ newline @ newline @ ''Left items:'' @ newline @ enumerate_items left_items @
        newline @ ''Right items:'' @ newline @ enumerate_items right_items @
        newline @ ''Return only the (left_id, right_id) index pairs that match according to the prompt above.'',
      rq_format = ''{'' @ quoted ''type'' @ '':'' @ quoted ''json_schema'' @ '','' @ quoted ''json_schema'' @ '':{'' @ quoted ''name'' @ '':'' @
        quoted ''join_response'' @ '','' @ quoted ''strict'' @ '':true,'' @ quoted ''schema'' @ '':'' @ join_schema @ ''}}''\<rparr>"

text \<open>The pairs of the answer. The conversion of an entry may throw; the exception is caught outside of the loop
  and the pairs before it stay.\<close>

fun get_idx :: "'d json_lib \<Rightarrow> 'd json option \<Rightarrow> nat option" where
  "get_idx lib (Some (JInt n)) = Some (nat (n mod 2 ^ 64))"
| "get_idx lib (Some (JFloat d)) = Some (idx_of_double lib d)"
| "get_idx lib (Some (JBool b)) = Some (if b then 1 else 0)"
| "get_idx lib _ = None"

fun read_pairs :: "'d json_lib \<Rightarrow> nat \<Rightarrow> nat \<Rightarrow> 'd json list \<Rightarrow> (nat \<times> nat) list" where
  "read_pairs lib n_left n_right [] = []"
| "read_pairs lib n_left n_right (e # es) =
     (case (get_idx lib (json_field e ''left_id''), get_idx lib (json_field e ''right_id'')) of
        (Some l, Some r) \<Rightarrow> (if l < n_left \<and> r < n_right then [(l, r)] else []) @ read_pairs lib n_left n_right es
      | _ \<Rightarrow> [])"

definition matched_pairs :: "'d json_lib \<Rightarrow> nat \<Rightarrow> nat \<Rightarrow> 'd json \<Rightarrow> (nat \<times> nat) list result" where
  "matched_pairs lib n_left n_right completion =
     (if json_contains completion ''error'' then Inr []
      else result_bind (extract_content completion) (\<lambda>llm_out.
        Inr (if llm_out = [] then []
             else (case answer_json lib llm_out of
                     None \<Rightarrow> []
                   | Some response \<Rightarrow>
                       (case json_field response ''matching_pairs'' of
                          Some (JArray es) \<Rightarrow> read_pairs lib n_left n_right es
                        | _ \<Rightarrow> [])))))"

text \<open>A column that is not boolean is NULL for a match too: \<^verbatim>\<open>Value(output_type)\<close> is the NULL of the type.\<close>

definition match_value :: "predict_info \<Rightarrow> bool \<Rightarrow> nat \<Rightarrow> 'd val result" where
  "match_value info is_match j =
     result_bind (vector_at (pi_result_set_types info) j) (\<lambda>output_type.
       Inr (if output_type = BOOLEAN then BooleanValue is_match else NullValue))"

definition write_match :: "predict_info \<Rightarrow> bool \<Rightarrow> nat \<Rightarrow> 'd val data_chunk \<Rightarrow> 'd val data_chunk result" where
  "write_match info is_match row output =
     result_fold (\<lambda>j out. result_bind (match_value info is_match j) (\<lambda>v. set_value j row v out))
       [0..<length (pi_result_set_names info)] output"

definition predict_join ::
  "'d json_lib \<Rightarrow> (llm_request \<Rightarrow> 'd json) \<Rightarrow> ('d val \<Rightarrow> string) \<Rightarrow> llm_predictor \<Rightarrow> 'd val data_chunk \<Rightarrow> nat \<Rightarrow> nat \<Rightarrow> predict_info \<Rightarrow>
   predict_stats \<times> 'd val data_chunk \<Rightarrow> (predict_stats \<times> 'd val data_chunk) result" where
  "predict_join lib post to_sql pr input rows n_left_cols info = (\<lambda>(stats, output).
     let none = \<lparr>us_map = Map.empty, us_items = []\<rparr> in
     result_bind (result_fold (join_row to_sql input n_left_cols info) [0..<rows] (none, none, [])) (\<lambda>(left, right, row_ids).
     let completion = post (join_request pr (us_items left) (us_items right)) in
     result_bind (matched_pairs lib (length (us_items left)) (length (us_items right)) completion) (\<lambda>pairs.
     result_bind (result_fold (\<lambda>i out. write_match info (row_ids ! i \<in> set pairs) i out) [0..<rows] output) (\<lambda>out.
     let add = (\<lambda>tokens in_tokens out_tokens. stats\<lparr>ps_llm_calls := ps_llm_calls stats + 1, ps_inputs_used := ps_inputs_used stats + in_tokens,
           ps_outputs_used := ps_outputs_used stats + out_tokens, ps_tokens_used := ps_tokens_used stats + tokens\<rparr>) in
     if json_contains completion ''usage''
     then with_usage lib completion (\<lambda>tokens in_tokens out_tokens. Inr (add tokens in_tokens out_tokens, out))
     else Inr (add 0 0 0, out)))))"

section \<open>Order of prompts\<close>

text \<open>\<^verbatim>\<open>ApplyOrderStrat\<close>: the longest prompts first, then a rotation after each insertion.\<close>

definition rotate_back :: "'a list \<Rightarrow> 'a list" where
  "rotate_back xs = (if xs = [] then [] else last xs # butlast xs)"

definition apply_order_strat :: "((nat \<Rightarrow> nat) \<Rightarrow> nat list \<Rightarrow> nat list) \<Rightarrow> string list \<Rightarrow> string list \<times> nat list" where
  "apply_order_strat sorter rows =
     (let indices = sorter (\<lambda>i. length (rows ! i)) [0..<length rows];
          reordered_indices = foldl (\<lambda>acc i. rotate_back (acc @ [i])) [] indices in
      (map (\<lambda>i. rows ! i) reordered_indices, reordered_indices))"

section \<open>Numbering of the sides\<close>

definition side_ok :: "unique_side \<Rightarrow> bool" where
  "side_ok u \<longleftrightarrow> (\<forall>r i. us_map u r = Some i \<longleftrightarrow> i < length (us_items u) \<and> us_items u ! i = r)"

lemma unique_id_ok:
  assumes "side_ok u" and "unique_id r u = (i, u')"
  shows "side_ok u' \<and> i < length (us_items u') \<and> us_items u' ! i = r \<and>
    us_items u' = (if r \<in> set (us_items u) then us_items u else us_items u @ [r])"
proof (cases "us_map u r")
  case None
  then have new: "i = length (us_items u)" "us_items u' = us_items u @ [r]" "us_map u' = (us_map u)(r \<mapsto> length (us_items u))"
    using assms(2) by (auto simp: unique_id_def)
  have "us_items u ! k \<noteq> r" if "k < length (us_items u)" for k
    using assms(1) None that by (metis option.distinct(1) side_ok_def)
  moreover have "us_map u r' = Some k \<longleftrightarrow> k < length (us_items u) \<and> us_items u ! k = r'" for r' k
    using assms(1) by (simp add: side_ok_def)
  ultimately show ?thesis using new by (auto simp: side_ok_def nth_append less_Suc_eq in_set_conv_nth)
next
  case (Some k)
  then have "k < length (us_items u)" "us_items u ! k = r" using assms(1) by (auto simp: side_ok_def)
  then show ?thesis using Some assms by (auto simp: unique_id_def)
qed

text \<open>The distinct elements of a list in the order of their first occurrences.\<close>

definition distinct_items :: "'a list \<Rightarrow> 'a list" where
  "distinct_items xs = rev (remdups (rev xs))"

lemma distinct_items_snoc: "distinct_items (xs @ [x]) = (if x \<in> set xs then distinct_items xs else distinct_items xs @ [x])"
  by (simp add: distinct_items_def)

lemma distinct_items_set: "set (distinct_items xs) = set xs"
  by (simp add: distinct_items_def)

lemma distinct_items_length: "length (distinct_items xs) \<le> length xs"
  using length_remdups_leq [of "rev xs"] by (simp add: distinct_items_def)

text \<open>The numbers \<open>ids\<close> of the rows point at the representations of the rows.\<close>

definition numbered :: "(nat \<Rightarrow> string) \<Rightarrow> (nat \<Rightarrow> string) \<Rightarrow> nat \<Rightarrow> unique_side \<times> unique_side \<times> (nat \<times> nat) list \<Rightarrow> bool" where
  "numbered l r n = (\<lambda>(left, right, ids). side_ok left \<and> side_ok right \<and> length ids = n \<and>
     us_items left = distinct_items (map l [0..<n]) \<and> us_items right = distinct_items (map r [0..<n]) \<and>
     (\<forall>i < n. fst (ids ! i) < length (us_items left) \<and> us_items left ! fst (ids ! i) = l i \<and>
              snd (ids ! i) < length (us_items right) \<and> us_items right ! snd (ids ! i) = r i))"

lemma join_row_ok:
  assumes "numbered l r i st" and "build_join_repr to_sql input i n_left_cols info = Inr (l i, r i)"
  shows "\<exists>st'. join_row to_sql input n_left_cols info i st = Inr st' \<and> numbered l r (Suc i) st'"
proof -
  obtain left right ids where st: "st = (left, right, ids)" by (cases st)
  obtain a left' where a: "unique_id (l i) left = (a, left')" by (cases "unique_id (l i) left")
  obtain b right' where b: "unique_id (r i) right = (b, right')" by (cases "unique_id (r i) right")
  have ok: "side_ok left" "side_ok right" using assms(1) by (auto simp: numbered_def st)
  have items: "us_items left = distinct_items (map l [0..<i])" "us_items right = distinct_items (map r [0..<i])"
    using assms(1) by (auto simp: numbered_def st)
  note A = unique_id_ok [OF ok(1) a] and B = unique_id_ok [OF ok(2) b]
  have next_items: "us_items left' = distinct_items (map l [0..<Suc i])" "us_items right' = distinct_items (map r [0..<Suc i])"
    using A B by (simp_all add: items distinct_items_snoc distinct_items_set)
  have "\<exists>ml mr. us_items left' = us_items left @ ml \<and> us_items right' = us_items right @ mr" using A B by auto
  then obtain ml mr where "us_items left' = us_items left @ ml" "us_items right' = us_items right @ mr" by blast
  then have "fst ((ids @ [(a, b)]) ! k) < length (us_items left') \<and> us_items left' ! fst ((ids @ [(a, b)]) ! k) = l k \<and>
      snd ((ids @ [(a, b)]) ! k) < length (us_items right') \<and> us_items right' ! snd ((ids @ [(a, b)]) ! k) = r k" if "k < Suc i" for k
    using A B assms(1) that by (auto simp: numbered_def st nth_append less_Suc_eq)
  with A B assms(1) next_items have "numbered l r (Suc i) (left', right', ids @ [(a, b)])"
    unfolding numbered_def st by simp
  with assms(2) a b show ?thesis by (simp add: join_row_def st)
qed

lemma join_rows_ok:
  assumes "\<forall>i < rows. build_join_repr to_sql input i n_left_cols info = Inr (l i, r i)"
  shows "\<exists>st. result_fold (join_row to_sql input n_left_cols info) [0..<rows]
      (\<lparr>us_map = Map.empty, us_items = []\<rparr>, \<lparr>us_map = Map.empty, us_items = []\<rparr>, []) = Inr st \<and> numbered l r rows st"
  using assms
proof (induction rows)
  case 0
  then show ?case by (simp add: numbered_def side_ok_def distinct_items_def)
next
  case (Suc rows)
  then obtain st where st: "result_fold (join_row to_sql input n_left_cols info) [0..<rows]
      (\<lparr>us_map = Map.empty, us_items = []\<rparr>, \<lparr>us_map = Map.empty, us_items = []\<rparr>, []) = Inr st" "numbered l r rows st"
    by (metis less_SucI)
  from join_row_ok [OF st(2)] Suc.prems obtain st' where
    "join_row to_sql input n_left_cols info rows st = Inr st'" "numbered l r (Suc rows) st'" by (metis lessI)
  with st(1) show ?case by (auto simp: result_fold_append)
qed

section \<open>A model that matches\<close>

text \<open>The entry of the answer for one pair.\<close>

definition pair_entry :: "nat \<times> nat \<Rightarrow> 'd json" where
  "pair_entry p = JObject [(''left_id'', JInt (int (fst p))), (''right_id'', JInt (int (snd p)))]"

text \<open>A response that lists the pairs of items for which \<open>M\<close> holds.\<close>

definition lists_pairs :: "'d json_lib \<Rightarrow> (string \<Rightarrow> string \<Rightarrow> bool) \<Rightarrow> string list \<Rightarrow> string list \<Rightarrow> 'd json \<Rightarrow> bool" where
  "lists_pairs lib M ls rs c \<longleftrightarrow> \<not> json_contains c ''error'' \<and> (json_contains c ''usage'' \<longrightarrow> usage_ok lib c) \<and>
     (\<exists>s j ps. extract_content c = Inr s \<and> s \<noteq> [] \<and> answer_json lib s = Some j \<and>
        json_field j ''matching_pairs'' = Some (JArray (map pair_entry ps)) \<and>
        set ps = {(a, b). a < length ls \<and> b < length rs \<and> M (ls ! a) (rs ! b)})"

lemma read_pairs_entries:
  assumes "\<forall>(a, b) \<in> set ps. a < n_left \<and> b < n_right" and "n_left \<le> 2 ^ 64" and "n_right \<le> 2 ^ 64"
  shows "read_pairs lib n_left n_right (map pair_entry ps) = ps"
  using assms(1)
proof (induction ps)
  case (Cons p ps)
  obtain a b where p: "p = (a, b)" by (cases p)
  have "a < n_left" "b < n_right" using Cons.prems p by auto
  then have "int a mod 2 ^ 64 = int a" "int b mod 2 ^ 64 = int b" using assms(2,3) by simp_all
  then show ?case using Cons p by (simp add: pair_entry_def)
qed simp

lemma write_match_wrote:
  assumes "length (pi_result_set_names info) \<le> length (pi_result_set_types info)" and "output_ok info rows c" and "row < rows"
  shows "\<exists>c'. write_match info is_match row c = Inr c' \<and> wrote info rows {row}
    (map (\<lambda>t. if t = BOOLEAN then BooleanValue is_match else NullValue) (pi_result_set_types info)) c c'"
  unfolding write_match_def using assms
  by (intro write_row_wrote) (auto simp: match_value_def vector_at_def get_value_def)

lemma write_matches:
  assumes "length (pi_result_set_names info) \<le> length (pi_result_set_types info)" and "output_ok info rows c" and "k \<le> rows"
  shows "\<exists>c'. result_fold (\<lambda>i out. write_match info (m i) i out) [0..<k] c = Inr c' \<and> output_ok info rows c' \<and>
    (\<forall>j r. cell c' j r = (if r < k \<and> j < length (pi_result_set_names info)
       then if pi_result_set_types info ! j = BOOLEAN then BooleanValue (m r) else NullValue else cell c j r))"
  using assms(3)
proof (induction k)
  case (Suc k)
  then obtain c1 where c1: "result_fold (\<lambda>i out. write_match info (m i) i out) [0..<k] c = Inr c1" "output_ok info rows c1"
    "\<forall>j r. cell c1 j r = (if r < k \<and> j < length (pi_result_set_names info)
       then if pi_result_set_types info ! j = BOOLEAN then BooleanValue (m r) else NullValue else cell c j r)" by auto
  from write_match_wrote [OF assms(1) c1(2), of k "m k"] Suc.prems obtain c2 where
    c2: "write_match info (m k) k c1 = Inr c2" "wrote info rows {k}
      (map (\<lambda>t. if t = BOOLEAN then BooleanValue (m k) else NullValue) (pi_result_set_types info)) c1 c2" by auto
  have "result_fold (\<lambda>i out. write_match info (m i) i out) [0..<Suc k] c = Inr c2"
    using c1(1) c2(1) by (simp add: result_fold_append)
  moreover have "cell c2 j r = (if r < Suc k \<and> j < length (pi_result_set_names info)
       then if pi_result_set_types info ! j = BOOLEAN then BooleanValue (m r) else NullValue else cell c j r)" for j r
    using c2(2) c1(3) assms(1) by (auto simp: wrote_def less_Suc_eq)
  ultimately show ?case using c2(2) wrote_output_ok by blast
qed (use assms(2) in simp)

text \<open>
  C31. The semantic join asks about the distinct items of each side only and still answers every row of the
  candidate pairs: when the model lists the pairs of items that match, a boolean result
  column of each row says whether the two sides of that row match, and the rows beyond stay as
  they were.
\<close>

theorem predict_join_correct:
  fixes lib :: "'d json_lib"
  assumes "lists_pairs lib M ls rs (post (join_request pr ls rs))"
    and "ls = distinct_items (map l [0..<rows])" and "rs = distinct_items (map r [0..<rows])"
    and "\<forall>i < rows. build_join_repr to_sql input i n_left_cols info = Inr (l i, r i)"
    and "length (pi_result_set_names info) \<le> length (pi_result_set_types info)" and "output_ok info rows output" and "rows \<le> 2 ^ 64"
  shows "\<exists>stats' output'. predict_join lib post to_sql pr input rows n_left_cols info (stats, output) = Inr (stats', output') \<and>
    ps_llm_calls stats' = ps_llm_calls stats + 1 \<and>
    (\<forall>i < rows. \<forall>j < length (pi_result_set_names info).
       cell output' j i = (if pi_result_set_types info ! j = BOOLEAN then BooleanValue (M (l i) (r i)) else NullValue)) \<and>
    (\<forall>i j. rows \<le> i \<longrightarrow> cell output' j i = cell output j i)"
proof -
  obtain left right ids where fold: "result_fold (join_row to_sql input n_left_cols info) [0..<rows]
      (\<lparr>us_map = Map.empty, us_items = []\<rparr>, \<lparr>us_map = Map.empty, us_items = []\<rparr>, []) = Inr (left, right, ids)"
    and ids: "numbered l r rows (left, right, ids)"
    using join_rows_ok [OF assms(4)] by (metis prod_cases3)
  let ?ls = "us_items left" and ?rs = "us_items right"
  let ?c = "post (join_request pr ?ls ?rs)"
  obtain s j ps where c: "\<not> json_contains ?c ''error''" "json_contains ?c ''usage'' \<longrightarrow> usage_ok lib ?c" "extract_content ?c = Inr s" "s \<noteq> []"
    "answer_json lib s = Some j" "json_field j ''matching_pairs'' = Some (JArray (map pair_entry ps))"
    and ps: "set ps = {(a, b). a < length ?ls \<and> b < length ?rs \<and> M (?ls ! a) (?rs ! b)}"
    using assms(1-3) ids unfolding lists_pairs_def by (auto simp: numbered_def)
  have "\<forall>(a, b) \<in> set ps. a < length ?ls \<and> b < length ?rs" using ps by auto
  moreover have "length ?ls \<le> 2 ^ 64" "length ?rs \<le> 2 ^ 64" using ids assms(7) distinct_items_length [of "map l [0..<rows]"] distinct_items_length [of "map r [0..<rows]"]
    by (auto simp: numbered_def)
  ultimately have pairs: "matched_pairs lib (length ?ls) (length ?rs) ?c = Inr ps"
    using c read_pairs_entries [of ps "length ?ls" "length ?rs" lib] by (simp add: matched_pairs_def)
  have m: "ids ! i \<in> set ps \<longleftrightarrow> M (l i) (r i)" if "i < rows" for i
    using ids that by (cases "ids ! i") (auto simp: numbered_def ps)
  from write_matches [OF assms(5,6) order_refl, of "\<lambda>i. ids ! i \<in> set ps"] obtain out where
    out: "result_fold (\<lambda>i out. write_match info (ids ! i \<in> set ps) i out) [0..<rows] output = Inr out"
    "\<forall>j r. cell out j r = (if r < rows \<and> j < length (pi_result_set_names info)
       then if pi_result_set_types info ! j = BOOLEAN then BooleanValue (ids ! r \<in> set ps) else NullValue else cell output j r)" by blast
  have "\<exists>stats'. predict_join lib post to_sql pr input rows n_left_cols info (stats, output) = Inr (stats', out) \<and>
      ps_llm_calls stats' = ps_llm_calls stats + 1"
  proof (cases "json_contains ?c ''usage''")
    case True
    then obtain a b d where "\<And>f :: int \<Rightarrow> int \<Rightarrow> int \<Rightarrow> (predict_stats \<times> 'd val data_chunk) result. with_usage lib ?c f = f a b d"
      using with_usage_ok c(2) by blast
    with True fold pairs out(1) show ?thesis by (simp add: predict_join_def Let_def)
  next
    case False
    with fold pairs out(1) show ?thesis by (simp add: predict_join_def Let_def)
  qed
  then show ?thesis using out(2) m by auto
qed

section \<open>Order of prompts\<close>

lemma rotate_back_permutes: "set (rotate_back xs) = set xs" "distinct (rotate_back xs) \<longleftrightarrow> distinct xs"
  by (cases xs rule: rev_cases; auto simp: rotate_back_def)+

lemma rotations_permute:
  "set (foldl (\<lambda>acc i. rotate_back (acc @ [i])) acc is) = set acc \<union> set is \<and>
   (distinct (foldl (\<lambda>acc i. rotate_back (acc @ [i])) acc is) \<longleftrightarrow> distinct (acc @ is))"
  by (induction "is" arbitrary: acc) (auto simp: rotate_back_permutes)

text \<open>The reordered prompts are the prompts of distinct rows, all rows have one, and the positions lead back
  to the rows.\<close>

lemma apply_order_strat_reorders:
  assumes "\<And>key n. distinct (sorter key [0..<n]) \<and> set (sorter key [0..<n]) = {..<n}"
    and "apply_order_strat sorter rows = (reordered, orig_order)"
  shows "distinct orig_order \<and> set orig_order = {..<length rows} \<and> reordered = map (\<lambda>i. rows ! i) orig_order"
  using assms by (auto simp: apply_order_strat_def Let_def rotations_permute)

section \<open>No threads\<close>

lemma strided_loop_stuck:
  assumes "strided_loop body stride bound i s = Some y"
  shows "\<not> (stride = 0 \<and> i < bound \<and> (\<forall>s. body i s = Inr s))"
  using assms
proof (rule strided_loop.raw_induct [rotated])
  fix loop :: "(nat \<Rightarrow> 'a \<Rightarrow> 'a result) \<Rightarrow> nat \<Rightarrow> nat \<Rightarrow> nat \<Rightarrow> 'a \<Rightarrow> 'a result option" and body stride bound i s y
  assume IH: "\<And>body stride bound i s y. loop body stride bound i s = Some y \<Longrightarrow> \<not> (stride = 0 \<and> i < bound \<and> (\<forall>s. body i s = Inr s))"
    and step: "(if i < bound then case body i s of Inl e \<Rightarrow> Some (Inl e) | Inr s' \<Rightarrow> loop body stride bound (i + stride) s' else Some (Inr s)) = Some y"
  show "\<not> (stride = 0 \<and> i < bound \<and> (\<forall>s. body i s = Inr s))"
  proof
    assume stuck: "stride = 0 \<and> i < bound \<and> (\<forall>s. body i s = Inr s)"
    then have "loop body stride bound i s = Some y" using step by simp
    then show False using IH stuck by blast
  qed
qed

text \<open>The prompts that are left after the grouping: none exactly when the cache has an answer for every row.\<close>

lemma map_push_nonempty: "map_push key i m \<noteq> []"
  by (cases "(key, i, m)" rule: map_push.cases) auto

lemma grouping_left:
  assumes "\<forall>i < n. embed_prompt to_sql i input info True = Inr (key i)"
    and "result_fold (group_row lib to_sql pr input info) [0..<n] ([], [], output) = Inr (m, texts, out)"
  shows "(m \<noteq> [] \<or> texts \<noteq> [] \<longleftrightarrow> (\<exists>i < n. \<not> lp_use_cache pr \<or> lp_cache pr (key i) = None)) \<and> (lp_use_cache pr \<or> m = [])"
  using assms
proof (induction n arbitrary: m texts out)
  case (Suc n)
  obtain m1 texts1 out1 where one: "result_fold (group_row lib to_sql pr input info) [0..<n] ([], [], output) = Inr (m1, texts1, out1)"
    and row: "group_row lib to_sql pr input info n (m1, texts1, out1) = Inr (m, texts, out)"
    using Suc.prems(2) by (auto simp: result_fold_append result_bind_eq_Inr)
  have IH: "(m1 \<noteq> [] \<or> texts1 \<noteq> [] \<longleftrightarrow> (\<exists>i < n. \<not> lp_use_cache pr \<or> lp_cache pr (key i) = None)) \<and> (lp_use_cache pr \<or> m1 = [])"
    using Suc.IH [OF _ one] Suc.prems(1) by simp
  have "embed_prompt to_sql n input info True = Inr (key n)" using Suc.prems(1) by simp
  with row have "if lp_use_cache pr then (if lp_cache pr (key n) = None then m \<noteq> [] else m = m1 \<and> texts = texts1) else m = m1 \<and> texts \<noteq> []"
    by (auto simp: group_row_def result_bind_eq_Inr map_push_nonempty split: option.splits if_splits)
  then show ?case using IH by (auto simp: less_Suc_eq split: if_splits)
qed simp

text \<open>
  C40. A predictor that is configured with zero threads, which the setting accepts, never returns from a chunk exactly when the chunk has a row
  to ask the model about: every row when the cache is off, a row whose prompt the cache does not have when it is on. The loop over the
  rounds does not advance. The prompts of the rows can be built, and the answers of the cache can be written into the output.
\<close>

theorem predict_chunk_no_threads:
  assumes "lp_n_threads pr = 0" and "0 < lp_batch_size pr" and "readable lib info answer vals" and "cache_ok lib answer (lp_cache pr)"
    and "output_ok info rows output" and "\<forall>i < rows. embed_prompt to_sql i input info True = Inr (key i)"
  shows "predict_chunk lib post to_sql input rows info (pr, stats, output) = None \<longleftrightarrow> (\<exists>i < rows. \<not> lp_use_cache pr \<or> lp_cache pr (key i) = None)"
proof -
  obtain m texts out where g: "result_fold (group_row lib to_sql pr input info) [0..<rows] ([], [], output) = Inr (m, texts, out)"
    using grouping_ok [OF assms(3-6)] by (metis prod_cases3)
  define left where "left = (if lp_use_cache pr then texts @ map fst m else texts)"
  have some: "left \<noteq> [] \<longleftrightarrow> (\<exists>i < rows. \<not> lp_use_cache pr \<or> lp_cache pr (key i) = None)"
    using grouping_left [OF assms(6) g] by (auto simp: left_def)
  let ?bsize = "lp_batch_size pr"
  have bsize: "imp_batch_size (lp_batch_size pr) (lp_n_threads pr) (length left) = ?bsize" using assms(1) by (simp add: imp_batch_size_def)
  let ?loop = "\<lambda>st. strided_loop (run_batches lib post pr info m left ?bsize) (lp_n_threads pr) (count_rounds (length left) ?bsize) 0 st"
  have chunk: "predict_chunk lib post to_sql input rows info (pr, stats, output) = None" if "\<forall>st. ?loop st = None"
    using that g bsize assms(2) by (simp add: predict_chunk_def Let_def left_def)
  show ?thesis
  proof (cases "left = []")
    case True
    then have "count_rounds (length left) ?bsize = 0" by (simp add: count_rounds_def)
    then have "?loop st = Some (Inr st)" for st by (simp add: strided_loop.simps)
    then have "predict_chunk lib post to_sql input rows info (pr, stats, output) \<noteq> None"
      using g bsize assms(2) by (simp add: predict_chunk_def Let_def left_def strided_loop.simps)
    then show ?thesis using some True by blast
  next
    case False
    have "length left \<le> count_rounds (length left) ?bsize * ?bsize" using rounds_cover assms(2) by simp
    then have rounds: "0 < count_rounds (length left) ?bsize" using False by (metis gr0I length_greater_0_conv mult_0 not_less)
    have "?loop st = None" for st
    proof (rule ccontr)
      assume "?loop st \<noteq> None"
      then obtain y where "?loop st = Some y" by blast
      then have "\<not> (lp_n_threads pr = 0 \<and> 0 < count_rounds (length left) ?bsize \<and> (\<forall>s. run_batches lib post pr info m left ?bsize 0 s = Inr s))"
        by (rule strided_loop_stuck)
      then show False using assms(1) rounds by (simp add: run_batches_def)
    qed
    then show ?thesis using chunk some False by blast
  qed
qed

text \<open>With the cache on, as it is by default, and empty.\<close>

theorem predict_chunk_no_threads_witness:
  "lp_use_cache demo_predictor \<and>
   predict_chunk demo_lib demo_post demo_sql (demo_chunk [''7'']) 1 demo_info
     (demo_predictor\<lparr>lp_n_threads := 0\<rparr>,
      \<lparr>ps_llm_calls = 0, ps_inputs_used = 0, ps_outputs_used = 0, ps_tokens_used = 0\<rparr>, demo_chunk [[]]) = None"
proof -
  let ?pr = "demo_predictor\<lparr>lp_n_threads := 0\<rparr>"
  have "lp_n_threads ?pr = 0" "0 < lp_batch_size ?pr" "lp_use_cache demo_predictor" by (simp_all add: demo_predictor_def)
  moreover have c: "lp_cache ?pr = Map.empty" by (simp add: demo_predictor_def)
  moreover have "cache_ok demo_lib demo_answer (lp_cache ?pr)" by (simp add: cache_ok_def c)
  moreover have "output_ok demo_info 1 (demo_chunk [[]])" by (simp add: output_ok_def demo_info_def demo_chunk_def column_count_def)
  moreover have "\<forall>i < 1. embed_prompt demo_sql i (demo_chunk [''7'']) demo_info True = Inr ''x = `7`, ''"
    by (simp add: embed_prompt_def embed_column_def demo_info_def demo_chunk_def vector_at_def get_value_def)
  ultimately show ?thesis using predict_chunk_no_threads [of ?pr demo_lib demo_info demo_answer _ 1 "demo_chunk [[]]" demo_sql "demo_chunk [''7'']" "\<lambda>_. ''x = `7`, ''"] demo_readable
    by simp
qed

definition demo_join_info :: predict_info where
  "demo_join_info = demo_info\<lparr>pi_input_mask := [0, 1], pi_input_set_names := [''x'', ''y''], pi_result_set_names := [''same''],
     pi_result_set_types := [BOOLEAN]\<rparr>"

definition demo_join_lib :: "int json_lib" where
  "demo_join_lib = demo_lib\<lparr>parse := (\<lambda>_. Some (JObject [(''matching_pairs'', JArray [pair_entry (0, 0)])]))\<rparr>"

definition demo_join_post :: "llm_request \<Rightarrow> int json" where
  "demo_join_post rq = JObject [(''choices'', JArray [JObject [(''message'', JObject [(''content'', JString ''{pairs}'')])]])]"

theorem predict_join_correct_witness:
  "\<exists>stats' output'. predict_join demo_join_lib demo_join_post demo_sql demo_predictor
      \<lparr>chunk_data = [map VarcharValue [''a'', ''b'', ''a''], map VarcharValue [''1'', ''1'', ''1'']], chunk_count = 3, chunk_capacity = 3\<rparr> 3 1 demo_join_info
      (\<lparr>ps_llm_calls = 0, ps_inputs_used = 0, ps_outputs_used = 0, ps_tokens_used = 0\<rparr>, demo_chunk [[], [], []]) = Inr (stats', output') \<and>
    ps_llm_calls stats' = 1 \<and> cell output' 0 0 = BooleanValue True \<and> cell output' 0 1 = BooleanValue False \<and> cell output' 0 2 = BooleanValue True"
proof -
  let ?input = "\<lparr>chunk_data = [map VarcharValue [''a'', ''b'', ''a''], map VarcharValue [''1'', ''1'', ''1'']], chunk_count = 3, chunk_capacity = 3\<rparr>"
  let ?l = "\<lambda>i. ''x = `'' @ [''a'', ''b'', ''a''] ! i @ ''`, ''" and ?r = "\<lambda>i :: nat. ''y = `1`, ''"
  let ?M = "\<lambda>a b :: string. CHR ''a'' \<in> set a"
  have three: "[0..<3] = [0, 1, 2]" by (simp add: upt_rec)
  have ls: "distinct_items (map ?l [0..<3]) = [''x = `a`, '', ''x = `b`, '']" and rs: "distinct_items (map ?r [0..<3]) = [''y = `1`, '']"
    by (simp_all add: distinct_items_def three)
  have pairs: "lists_pairs demo_join_lib ?M [''x = `a`, '', ''x = `b`, ''] [''y = `1`, '']
      (demo_join_post (join_request demo_predictor [''x = `a`, '', ''x = `b`, ''] [''y = `1`, '']))"
    unfolding lists_pairs_def
  proof (intro conjI exI [of _ "''{pairs}''"] exI [of _ "JObject [(''matching_pairs'', JArray [pair_entry (0, 0)])]"] exI [of _ "[(0, 0)]"])
    show "set [(0 :: nat, 0 :: nat)] = {(a, b). a < length [''x = `a`, '', ''x = `b`, ''] \<and> b < length [''y = `1`, ''] \<and>
        ?M ([''x = `a`, '', ''x = `b`, ''] ! a) ([''y = `1`, ''] ! b)}"
      by (auto simp: less_Suc_eq)
  qed (simp_all add: demo_join_post_def json_contains_def extract_content_def message_content_def answer_json_def extract_json_def
      demo_join_lib_def demo_lib_def)
  have repr: "\<forall>i < 3. build_join_repr demo_sql ?input i 1 demo_join_info = Inr (?l i, ?r i)"
    by (simp add: build_join_repr_def join_column_def demo_join_info_def demo_info_def vector_at_def get_value_def less_Suc_eq numeral_3_eq_3)
  have types: "length (pi_result_set_names demo_join_info) \<le> length (pi_result_set_types demo_join_info)"
    and out: "output_ok demo_join_info 3 (demo_chunk [[], [], []])" and small: "(3 :: nat) \<le> 2 ^ 64"
    by (simp_all add: demo_join_info_def output_ok_def demo_chunk_def)
  from predict_join_correct [where post = demo_join_post and l = ?l and r = ?r and M = ?M and
      stats = "\<lparr>ps_llm_calls = 0, ps_inputs_used = 0, ps_outputs_used = 0, ps_tokens_used = 0\<rparr>", OF pairs ls [symmetric] rs [symmetric] repr types out small] obtain stats' output' where
    r: "predict_join demo_join_lib demo_join_post demo_sql demo_predictor ?input 3 1 demo_join_info
      (\<lparr>ps_llm_calls = 0, ps_inputs_used = 0, ps_outputs_used = 0, ps_tokens_used = 0\<rparr>, demo_chunk [[], [], []]) = Inr (stats', output')"
    "ps_llm_calls stats' = 1" and c: "\<forall>i < 3. \<forall>j < length (pi_result_set_names demo_join_info).
       cell output' j i = (if pi_result_set_types demo_join_info ! j = BOOLEAN then BooleanValue (CHR ''a'' \<in> set (?l i)) else NullValue)" by auto
  have n: "length (pi_result_set_names demo_join_info) = 1" "pi_result_set_types demo_join_info ! 0 = BOOLEAN" by (simp_all add: demo_join_info_def)
  have "cell output' 0 0 = BooleanValue True" using c [rule_format, of 0 0] n by simp
  moreover have "cell output' 0 1 = BooleanValue False" using c [rule_format, of 1 0] n by simp
  moreover have "cell output' 0 2 = BooleanValue True" using c [rule_format, of 2 0] n by simp
  ultimately show ?thesis using r by blast
qed

end
