(* ===== verification/PredictOperator.thy ===== *)
theory PredictOperator
  imports LlmTasks LogicalPlan
begin

text \<open>
  The operators that run inference: the choice of a predictor with its key (\<^verbatim>\<open>InitPredictor\<close>), the
  state of an operator, \<^verbatim>\<open>PhysicalPredict::Execute\<close> and the scan (\<^verbatim>\<open>execution/operator/projection/physical_predict.cpp\<close>,
  \<^verbatim>\<open>execution/operator/scan/physical_predict_scan.cpp\<close>), predict expressions (\<^verbatim>\<open>execution/expression_executor/execute_predict.cpp\<close>)
  and the physical plan of a predict (\<^verbatim>\<open>execution/physical_plan/plan_predict.cpp\<close>).

  The class \<^verbatim>\<open>Predictor\<close> is an interface, and what the operators need from it is the locale
  \<open>row_predictor\<close>. The predictor for language models behind an API is the one of \<^verbatim>\<open>LlmPredict\<close>; the sessions of
  other libraries are the argument \<open>external\<close>. The options of the build are a record.
\<close>

section \<open>Choice of a predictor\<close>

record predictor_build =
  pb_enable_predict :: bool
  pb_predictor_impl :: nat
  pb_enable_llm_api :: bool

datatype predictor_kind = TorchPredictor | ONNXPredictor | LlamaCppPredictor

datatype predictor = LlmApiPredictor llm_predictor string string | ExternalPredictor predictor_kind

definition new_llm_predictor :: "string \<Rightarrow> llm_predictor" where
  "new_llm_predictor prompt =
     \<lparr>lp_prompt = prompt, lp_model_path = [], lp_grammar = [], lp_batch_size = 0, lp_use_cache = True, lp_use_batch = True,
      lp_n_threads = 0, lp_cache = Map.empty\<rparr>"

fun contains_text :: "string \<Rightarrow> string \<Rightarrow> bool" where
  "contains_text w [] = (w = [])"
| "contains_text w (c # cs) = (take (length w) (c # cs) = w \<or> contains_text w cs)"

definition init_language_predictor :: "predictor_build \<Rightarrow> predict_info \<Rightarrow> string \<Rightarrow> predictor option result" where
  "init_language_predictor build info api_key =
     (if pb_enable_predict build \<and> (pb_predictor_impl build = 3 \<or> pb_enable_llm_api build)
      then
        (if \<not> contains_text ''.gguf'' (pi_model_path info)
         then (if pb_enable_llm_api build
               then Inr (Some (LlmApiPredictor (new_llm_predictor (pi_prompt info)) (pi_base_api info) api_key))
               else Inl (InternalException ''Unable to infer LLM API model without `ENABLE_LLM_API` build option.''))
         else (if pb_predictor_impl build = 3 then Inr (Some (ExternalPredictor LlamaCppPredictor))
               else Inl (InternalException ''Unable to infer local LLMs without `PREDICTOR_IMPL='llama_cpp'` build option.'')))
      else Inr None)"

definition init_predictor :: "predictor_build \<Rightarrow> predict_info \<Rightarrow> string \<Rightarrow> predictor option result" where
  "init_predictor build info api_key =
     (if pb_enable_predict build \<and> pb_predictor_impl build = 1 then Inr (Some (ExternalPredictor TorchPredictor))
      else if pb_enable_predict build \<and> pb_predictor_impl build = 2 then Inr (Some (ExternalPredictor ONNXPredictor))
      else init_language_predictor build info api_key)"

text \<open>Secrets by their names. A value that a secret does not have prints as NULL.\<close>

datatype secret = KeyValueSecret "string \<rightharpoonup> string" | OtherSecret

definition secret_token :: "string \<Rightarrow> (string \<rightharpoonup> secret) \<Rightarrow> string \<Rightarrow> string result" where
  "secret_token prefix secrets name =
     (if name = [] then Inr []
      else
        (case secrets name of
           None \<Rightarrow> Inl (CatalogException (prefix @ ''Secret '' @ name @ '' for the API is not found in the catalogs!''))
         | Some OtherSecret \<Rightarrow> Inl (StdException ''std::bad_cast'')
         | Some (KeyValueSecret kv) \<Rightarrow> Inr (case kv ''bearer_token'' of None \<Rightarrow> ''NULL'' | Some v \<Rightarrow> v)))"

definition get_api_key :: "(string \<rightharpoonup> secret) \<Rightarrow> string \<Rightarrow> string result" where
  "get_api_key secrets name = secret_token [] secrets name"

section \<open>The state of an operator\<close>

text \<open>The task of a predictor is the type of its model. Loading connects to the server, which is part of the network.\<close>

definition llm_load :: "model_type \<Rightarrow> string \<Rightarrow> llm_predictor \<Rightarrow> llm_predictor result" where
  "llm_load task path pr =
     (let pr1 = pr\<lparr>lp_model_path := path\<rparr> in
      if task = LLM then result_bind (generate_grammar (lp_prompt pr1)) (\<lambda>g. Inr (pr1\<lparr>lp_grammar := g\<rparr>)) else Inr pr1)"

fun configure :: "llm_client_config \<Rightarrow> (string \<rightharpoonup> option_value) \<Rightarrow> model_type \<Rightarrow> predict_info \<Rightarrow> predictor \<Rightarrow> predictor result" where
  "configure config options task info (LlmApiPredictor pr base_api api_key) =
     result_bind (llm_config config options pr) (\<lambda>pr1.
     result_bind (llm_load task (pi_model_path info) pr1) (\<lambda>pr2. Inr (LlmApiPredictor pr2 base_api api_key)))"
| "configure config options task info (ExternalPredictor k) = Inr (ExternalPredictor k)"

definition new_stats :: predict_stats where
  "new_stats = \<lparr>ps_llm_calls = 0, ps_inputs_used = 0, ps_outputs_used = 0, ps_tokens_used = 0\<rparr>"

definition started :: "llm_client_config \<Rightarrow> (string \<rightharpoonup> option_value) \<Rightarrow> model_type \<Rightarrow> predict_info \<Rightarrow> predictor option \<Rightarrow> (predictor \<times> predict_stats) result" where
  "started config options task info p =
     (case p of
        None \<Rightarrow> Inl (UndefinedBehavior ''access through a null predictor'')
      | Some p \<Rightarrow> result_bind (configure config options task info p) (\<lambda>p1. Inr (p1, new_stats)))"

definition get_operator_state ::
  "predictor_build \<Rightarrow> (string \<rightharpoonup> secret) \<Rightarrow> llm_client_config \<Rightarrow> (string \<rightharpoonup> option_value) \<Rightarrow> model_type \<Rightarrow> predict_info \<Rightarrow> (predictor \<times> predict_stats) result" where
  "get_operator_state build secrets config options model_type info =
     result_bind (get_api_key secrets (pi_secret info)) (\<lambda>api_key.
     result_bind (init_predictor build info api_key) (started config options model_type info))"

definition get_global_source_state ::
  "predictor_build \<Rightarrow> (string \<rightharpoonup> secret) \<Rightarrow> llm_client_config \<Rightarrow> (string \<rightharpoonup> option_value) \<Rightarrow> model_type \<Rightarrow> predict_info \<Rightarrow> (predictor \<times> predict_stats) result" where
  "get_global_source_state build secrets config options model_type info =
     result_bind (get_api_key secrets (pi_secret info)) (\<lambda>api_key.
     result_bind (init_language_predictor build info api_key) (started config options model_type info))"

section \<open>Execution\<close>

text \<open>The method \<^verbatim>\<open>PredictChunk\<close> of a predictor for the language model task. \<open>network\<close> is the connection to a server with a key.\<close>

type_synonym ('s, 'v) predict_method = "'v data_chunk \<Rightarrow> nat \<Rightarrow> 's \<times> 'v data_chunk \<Rightarrow> ('s \<times> 'v data_chunk) result option"

fun predictor_chunk ::
  "'d json_lib \<Rightarrow> (string \<Rightarrow> string \<Rightarrow> llm_request \<Rightarrow> 'd json) \<Rightarrow> ('d val \<Rightarrow> string) \<Rightarrow> (predictor_kind \<Rightarrow> (predict_stats, 'd val) predict_method) \<Rightarrow>
   predict_info \<Rightarrow> (predictor \<times> predict_stats, 'd val) predict_method" where
  "predictor_chunk lib network to_sql external info input rows ((LlmApiPredictor pr base_api api_key, stats), output) =
     (case predict_chunk lib (network base_api api_key) to_sql input rows info (pr, stats, output) of
        None \<Rightarrow> None
      | Some (Inl e) \<Rightarrow> Some (Inl e)
      | Some (Inr (pr1, stats1, output1)) \<Rightarrow> Some (Inr ((LlmApiPredictor pr1 base_api api_key, stats1), output1)))"
| "predictor_chunk lib network to_sql external info input rows ((ExternalPredictor k, stats), output) =
     (case external k input rows (stats, output) of
        None \<Rightarrow> None
      | Some (Inl e) \<Rightarrow> Some (Inl e)
      | Some (Inr (stats1, output1)) \<Rightarrow> Some (Inr ((ExternalPredictor k, stats1), output1)))"

text \<open>\<^verbatim>\<open>PhysicalPredict::Execute\<close>: \<open>chunk\<close> is the empty output chunk.\<close>

definition physical_predict_execute :: "('s, 'v) predict_method \<Rightarrow> 'v data_chunk \<Rightarrow> 's \<times> 'v data_chunk \<Rightarrow> ('s \<times> 'v data_chunk) result option" where
  "physical_predict_execute predict input = (\<lambda>(st, chunk).
     let (chunk1, predictions) = chunk_split chunk (column_count input);
         chunk2 = chunk_copy input chunk1 0;
         predictions1 = set_cardinality (chunk_count input) predictions in
     case predict input (chunk_count input) (st, predictions1) of
       None \<Rightarrow> None
     | Some (Inl e) \<Rightarrow> Some (Inl e)
     | Some (Inr (st1, predictions2)) \<Rightarrow> Some (Inr (st1, chunk_fuse chunk2 predictions2)))"

text \<open>The operator over the chunks of its input. Every call gets an empty output chunk.\<close>

fun predict_run :: "('s, 'v) predict_method \<Rightarrow> 'v data_chunk \<Rightarrow> 's \<Rightarrow> 'v data_chunk list \<Rightarrow> ('s \<times> 'v data_chunk list) result option" where
  "predict_run predict chunk st [] = Some (Inr (st, []))"
| "predict_run predict chunk st (c # cs) =
     (case physical_predict_execute predict c (st, chunk) of
        None \<Rightarrow> None
      | Some (Inl e) \<Rightarrow> Some (Inl e)
      | Some (Inr (st1, out)) \<Rightarrow>
          (case predict_run predict chunk st1 cs of
             None \<Rightarrow> None
           | Some (Inl e) \<Rightarrow> Some (Inl e)
           | Some (Inr (st2, outs)) \<Rightarrow> Some (Inr (st2, out # outs))))"

text \<open>\<^verbatim>\<open>PhysicalPredictScan::GetData\<close>. The scan is finished after its first chunk.\<close>

datatype source_result = HAVE_MORE_OUTPUT | FINISHED

fun predict_scan_get_data ::
  "'d json_lib \<Rightarrow> (string \<Rightarrow> string \<Rightarrow> llm_request \<Rightarrow> 'd json) \<Rightarrow>
   (predictor_kind \<Rightarrow> predict_stats \<times> 'd val data_chunk \<Rightarrow> (predict_stats \<times> 'd val data_chunk) result) \<Rightarrow>
   predict_info \<Rightarrow> (predictor \<times> predict_stats) \<times> 'd val data_chunk \<Rightarrow> (source_result \<times> (predictor \<times> predict_stats) \<times> 'd val data_chunk) result" where
  "predict_scan_get_data lib network external_scan info ((LlmApiPredictor pr base_api api_key, stats), chunk) =
     result_bind (scan_chunk lib (network base_api api_key) pr info (stats, chunk))
       (\<lambda>(stats1, chunk1). Inr (FINISHED, (LlmApiPredictor pr base_api api_key, stats1), chunk1))"
| "predict_scan_get_data lib network external_scan info ((ExternalPredictor k, stats), chunk) =
     result_bind (external_scan k (stats, chunk)) (\<lambda>(stats1, chunk1). Inr (FINISHED, (ExternalPredictor k, stats1), chunk1))"

section \<open>Predict expressions\<close>

text \<open>The bound information has its types by the names that they print; \<open>bound_type\<close> is the type of a name.\<close>

definition bound_type :: "string \<Rightarrow> logical_type_id" where
  "bound_type name =
     (if name = ''VARCHAR'' then VARCHAR
      else if name = ''INTEGER'' then INTEGER
      else if name = ''BOOLEAN'' then BOOLEAN
      else if name = ''DOUBLE'' then DOUBLE
      else OTHER_TYPE name)"

text \<open>\<^verbatim>\<open>PredictInfo::PredictInfo\<close>\<close>

definition predict_info_of :: "bound_predict_info \<Rightarrow> predict_info" where
  "predict_info_of b =
     \<lparr>pi_model_path = bp_model_path b, pi_prompt = bp_prompt b, pi_base_api = bp_base_api b, pi_secret = bp_secret b,
      pi_input_mask = bp_input_mask b, pi_input_set_names = bp_input_set_names b, pi_result_set_names = bp_result_set_names b,
      pi_result_set_types = map bound_type (bp_result_set_types b)\<rparr>"

record predict_expression_state =
  xs_info :: predict_info
  xs_embeddings :: nat
  xs_predictor :: predictor
  xs_stats :: predict_stats
  xs_is_loaded :: bool

definition initialize_predict_state :: "predictor_build \<Rightarrow> bound_predict_info \<Rightarrow> nat \<Rightarrow> predict_expression_state result" where
  "initialize_predict_state build bound n_children =
     (let info0 = predict_info_of bound;
          info = info0\<lparr>pi_input_mask := pi_input_mask info0 @ [0..<n_children]\<rparr> in
      result_bind (init_predictor build info (pi_secret info)) (\<lambda>p.
        case p of
          None \<Rightarrow> Inl (UndefinedBehavior ''access through a null predictor'')
        | Some p \<Rightarrow> Inr \<lparr>xs_info = info, xs_embeddings = length (bp_embedding_column_map bound), xs_predictor = p, xs_stats = new_stats, xs_is_loaded = False\<rparr>))"

definition is_join :: "nat \<Rightarrow> predict_expression_state \<Rightarrow> bool result" where
  "is_join n_children st =
     (if 1 < idx_sub n_children (xs_embeddings st)
      then result_bind (vector_at (pi_result_set_types (xs_info st)) 0) (\<lambda>t. Inr (t = BOOLEAN))
      else Inr False)"

fun predictor_join ::
  "'d json_lib \<Rightarrow> (string \<Rightarrow> string \<Rightarrow> llm_request \<Rightarrow> 'd json) \<Rightarrow> ('d val \<Rightarrow> string) \<Rightarrow> (predictor_kind \<Rightarrow> (predict_stats, 'd val) predict_method) \<Rightarrow>
   nat \<Rightarrow> predict_info \<Rightarrow> (predictor \<times> predict_stats, 'd val) predict_method" where
  "predictor_join lib network to_sql external_join n_left info input rows ((LlmApiPredictor pr base_api api_key, stats), output) =
     Some (result_bind (predict_join lib (network base_api api_key) to_sql pr input rows n_left info (stats, output))
       (\<lambda>(stats1, output1). Inr ((LlmApiPredictor pr base_api api_key, stats1), output1)))"
| "predictor_join lib network to_sql external_join n_left info input rows ((ExternalPredictor k, stats), output) =
     (case external_join k input rows (stats, output) of
        None \<Rightarrow> None
      | Some (Inl e) \<Rightarrow> Some (Inl e)
      | Some (Inr (stats1, output1)) \<Rightarrow> Some (Inr ((ExternalPredictor k, stats1), output1)))"

text \<open>\<^verbatim>\<open>ExpressionExecutor::Execute\<close> on the vectors of the arguments. With a callback the statistics are handed
  over, which the last component returns, and start again from zero.\<close>

definition execute_predict ::
  "'d json_lib \<Rightarrow> (string \<Rightarrow> string \<Rightarrow> llm_request \<Rightarrow> 'd json) \<Rightarrow> ('d val \<Rightarrow> string) \<Rightarrow> (predictor_kind \<Rightarrow> (predict_stats, 'd val) predict_method) \<Rightarrow>
   (predictor_kind \<Rightarrow> (predict_stats, 'd val) predict_method) \<Rightarrow> llm_client_config \<Rightarrow> (string \<rightharpoonup> option_value) \<Rightarrow> bool \<Rightarrow>
   'd val vector list \<Rightarrow> nat \<Rightarrow> predict_expression_state \<times> 'd val vector \<Rightarrow>
   (predict_expression_state \<times> 'd val vector \<times> predict_stats option) result option" where
  "execute_predict lib network to_sql external external_join config options callback arguments count = (\<lambda>(st, result).
     let input = \<lparr>chunk_data = arguments, chunk_count = count, chunk_capacity = standard_vector_size\<rparr>;
         predictions = \<lparr>chunk_data = [result], chunk_count = count, chunk_capacity = standard_vector_size\<rparr> in
     case result_bind (is_join (length arguments) st) (\<lambda>join.
            result_bind (if xs_is_loaded st then Inr (xs_predictor st) else configure config options LLM (xs_info st) (xs_predictor st))
              (\<lambda>p. Inr (join, p))) of
       Inl e \<Rightarrow> Some (Inl e)
     | Inr (join, p) \<Rightarrow>
         (case (if join then predictor_join lib network to_sql external_join 1 (xs_info st) input count ((p, xs_stats st), predictions)
                else predictor_chunk lib network to_sql external (xs_info st) input count ((p, xs_stats st), predictions)) of
            None \<Rightarrow> None
          | Some (Inl e) \<Rightarrow> Some (Inl e)
          | Some (Inr ((p1, stats1), predictions1)) \<Rightarrow>
              Some (Inr (st\<lparr>xs_predictor := p1, xs_is_loaded := True, xs_stats := (if callback then new_stats else stats1)\<rparr>,
                chunk_data predictions1 ! 0, if callback then Some stats1 else None))))"

text \<open>\<^verbatim>\<open>BoundPredictExpression::Copy\<close>, the information of the copy.\<close>

definition bound_predict_copy :: "bound_predict_info \<Rightarrow> bound_predict_info" where
  "bound_predict_copy b =
     (new_predict_info (bp_model_type b))
       \<lparr>bp_model_name := bp_model_name b, bp_model_path := bp_model_path b, bp_base_api := bp_base_api b, bp_secret := bp_secret b,
        bp_prompt := bp_prompt b, bp_input_set_names := bp_input_set_names b, bp_result_set_names := bp_result_set_names b,
        bp_input_set_types := bp_input_set_types b, bp_result_set_types := bp_result_set_types b\<rparr>"

section \<open>The physical plan\<close>

datatype 'p physical_predict_plan = PhysicalPredict 'p bound_predict_info | PhysicalPredictScan bound_predict_info

fun model_type_name :: "model_type \<Rightarrow> string" where
  "model_type_name TABULAR = ''TABULAR''"
| "model_type_name LM = ''LM''"
| "model_type_name GNN = ''GNN''"
| "model_type_name LLM = ''LLM''"
| "model_type_name EMBED = ''EMBED''"

definition create_predict_plan :: "('l \<Rightarrow> 'p result) \<Rightarrow> bound_predict_info \<Rightarrow> 'l list \<Rightarrow> 'p physical_predict_plan result" where
  "create_predict_plan create_plan bound children =
     (let unary = result_bind (vector_at children 0) (\<lambda>child. result_bind (create_plan child) (\<lambda>plan. Inr (PhysicalPredict plan bound))) in
      case bp_model_type bound of
        GNN \<Rightarrow> Inl (InternalException (''Plan Error: Unknown model type `'' @ model_type_name GNN))
      | LLM \<Rightarrow>
          (if length children = 0 then Inr (PhysicalPredictScan bound)
           else if length children = 1 then unary
           else Inl (InternalException ''Plan Error: Invalid number of child plans''))
      | _ \<Rightarrow> unary)"

section \<open>Operators over a predictor\<close>

text \<open>The promise of a predictor for one model: in every good state it answers the rows that it can read, each by
  the values that belong to the row alone, into an output with \<open>width\<close> columns whose shape stays.\<close>

definition has_room :: "nat \<Rightarrow> nat \<Rightarrow> 'v data_chunk \<Rightarrow> bool" where
  "has_room width rows c \<longleftrightarrow> column_count c = width \<and> (\<forall>col \<in> set (chunk_data c). rows \<le> length col)"

locale row_predictor =
  fixes predict :: "('s, 'v) predict_method" and good :: "'s \<Rightarrow> bool" and readable_row :: "'v list \<Rightarrow> bool"
    and values_of :: "'v list \<Rightarrow> 'v list" and width :: nat
  assumes predict_answers: "good st \<Longrightarrow> wf_chunk input \<Longrightarrow> \<forall>row \<in> set (chunk_rows input). readable_row row \<Longrightarrow>
      has_room width (chunk_count input) output \<Longrightarrow>
      \<exists>st' output'. predict input (chunk_count input) (st, output) = Some (Inr (st', output')) \<and> good st' \<and> same_shape output output' \<and>
        (\<forall>i < chunk_count input. \<forall>j < width. cell output' j i = values_of (chunk_row input i) ! j)"
    and values_width: "good st \<Longrightarrow> length (values_of row) = width"
begin

lemma predicted_rows:
  assumes "good st" and "wf_chunk input" and "\<forall>row \<in> set (chunk_rows input). readable_row row" and "has_room width (chunk_count input) output"
  shows "\<exists>st' output'. predict input (chunk_count input) (st, output) = Some (Inr (st', output')) \<and> good st' \<and> same_shape output output' \<and>
    (\<forall>i < chunk_count input. chunk_row output' i = values_of (chunk_row input i))"
proof -
  obtain st' output' where p: "predict input (chunk_count input) (st, output) = Some (Inr (st', output'))" "good st'" "same_shape output output'"
    "\<forall>i < chunk_count input. \<forall>j < width. cell output' j i = values_of (chunk_row input i) ! j"
    using predict_answers [OF assms] by blast
  have "length (chunk_data output') = width"
    using p(3) assms(4) by (auto simp: same_shape_def has_room_def column_count_def dest: map_eq_imp_length_eq)
  then have "chunk_row output' i = values_of (chunk_row input i)" if "i < chunk_count input" for i
    using p(4) values_width [OF assms(1)] that by (intro nth_equalityI) (simp_all add: chunk_row_def cell_def)
  then show ?thesis using p by blast
qed

lemma execute_rows:
  assumes "good st" and "wf_chunk input" and "\<forall>row \<in> set (chunk_rows input). readable_row row"
    and "has_room (column_count input + width) (chunk_count input) chunk"
  shows "\<exists>st' out. physical_predict_execute predict input (st, chunk) = Some (Inr (st', out)) \<and> good st' \<and> wf_chunk out \<and>
    column_count out = column_count input + width \<and> chunk_rows out = map (\<lambda>row. row @ values_of row) (chunk_rows input)"
proof -
  let ?n = "column_count input" and ?k = "chunk_count input"
  define chunk1 where "chunk1 = chunk\<lparr>chunk_data := take ?n (chunk_data chunk)\<rparr>"
  define preds where "preds = \<lparr>chunk_data = drop ?n (chunk_data chunk), chunk_count = ?k, chunk_capacity = chunk_capacity chunk\<rparr>"
  have room: "has_room width ?k preds" using assms(4) by (auto simp: has_room_def preds_def column_count_def dest: in_set_dropD)
  obtain st' preds' where p: "predict input ?k (st, preds) = Some (Inr (st', preds'))" "good st'" "same_shape preds preds'"
    "\<forall>i < ?k. chunk_row preds' i = values_of (chunk_row input i)"
    using predicted_rows [OF assms(1-3) room] by blast
  define chunk2 where "chunk2 = chunk_copy input chunk1 0"
  have ex: "physical_predict_execute predict input (st, chunk) = Some (Inr (st', chunk_fuse chunk2 preds'))"
    using p(1) by (simp add: physical_predict_execute_def chunk_split_def set_cardinality_def chunk2_def chunk1_def preds_def)
  have len: "length (chunk_data chunk1) = ?n" using assms(4) by (simp add: chunk1_def has_room_def column_count_def)
  have copied: "chunk_row chunk2 i = chunk_row input i" if "i < ?k" for i
    using len wf_chunkD [OF assms(2)] that
    by (intro nth_equalityI) (auto simp: chunk_row_def chunk2_def chunk_copy_def column_count_def nth_write_at min_absorb2)
  have count: "chunk_count chunk2 = ?k" by (simp add: chunk2_def chunk_copy_def)
  have row: "chunk_row (chunk_fuse chunk2 preds') i = chunk_row input i @ values_of (chunk_row input i)" if "i < ?k" for i
    using copied [OF that] p(4) that by (simp add: chunk_row_def chunk_fuse_def)
  have rows: "chunk_rows (chunk_fuse chunk2 preds') = map (\<lambda>row. row @ values_of row) (chunk_rows input)"
    using row count by (auto simp: chunk_rows_def chunk_fuse_def comp_def)
  have "?k \<le> length col" if "col \<in> set (chunk_data preds')" for col
  proof -
    have "length col \<in> set (map length (chunk_data preds))" using p(3) that by (metis image_eqI list.set_map same_shape_def)
    then show ?thesis using room by (auto simp: has_room_def)
  qed
  moreover have "?k \<le> length col" if col: "col \<in> set (chunk_data chunk2)" for col
  proof -
    obtain sd where sd: "sd \<in> set (zip (chunk_data input) (chunk_data chunk1))" "col = write_at 0 (take ?k (fst sd)) (snd sd)"
      using col by (auto simp: chunk2_def chunk_copy_def case_prod_beta)
    then have "fst sd \<in> set (chunk_data input)" by (metis prod.collapse set_zip_leftD)
    then show ?thesis using sd(2) assms(2) by (auto simp: wf_chunk_def write_at_def)
  qed
  ultimately have wf: "wf_chunk (chunk_fuse chunk2 preds')" using count by (auto simp: wf_chunk_def chunk_fuse_def)
  have "length (chunk_data preds') = width"
    using p(3) room by (auto simp: same_shape_def has_room_def column_count_def dest: map_eq_imp_length_eq)
  then have "column_count (chunk_fuse chunk2 preds') = ?n + width"
    using len by (simp add: column_count_def chunk_fuse_def chunk2_def chunk_copy_def)
  then show ?thesis using ex p(2) rows wf by blast
qed

lemma run_rows:
  assumes "good st" and "\<forall>c \<in> set cs. wf_chunk c \<and> column_count c = n \<and> chunk_count c \<le> capacity \<and> (\<forall>row \<in> set (chunk_rows c). readable_row row)"
    and "has_room (n + width) capacity chunk"
  shows "\<exists>st' outs. predict_run predict chunk st cs = Some (Inr (st', outs)) \<and> good st' \<and> (\<forall>c \<in> set outs. wf_chunk c \<and> column_count c = n + width) \<and>
    map chunk_rows outs = map (\<lambda>c. map (\<lambda>row. row @ values_of row) (chunk_rows c)) cs"
  using assms(1,2)
proof (induction cs arbitrary: st)
  case (Cons c cs)
  have c: "wf_chunk c" "\<forall>row \<in> set (chunk_rows c). readable_row row" "column_count c = n" "chunk_count c \<le> capacity" using Cons.prems(2) by auto
  have "has_room (column_count c + width) (chunk_count c) chunk" using assms(3) c(3,4) by (auto simp: has_room_def)
  from execute_rows [OF Cons.prems(1) c(1,2) this] obtain st1 out where
    one: "physical_predict_execute predict c (st, chunk) = Some (Inr (st1, out))" "good st1" "wf_chunk out" "column_count out = n + width"
    "chunk_rows out = map (\<lambda>row. row @ values_of row) (chunk_rows c)"
    using c(3) by blast
  from Cons.IH [OF one(2)] Cons.prems(2) obtain st2 outs where
    "predict_run predict chunk st1 cs = Some (Inr (st2, outs))" "good st2" "\<forall>c \<in> set outs. wf_chunk c \<and> column_count c = n + width"
    "map chunk_rows outs = map (\<lambda>c. map (\<lambda>row. row @ values_of row) (chunk_rows c)) cs" by auto
  then show ?case using one by (intro exI [of _ st2] exI [of _ "out # outs"]) simp
qed simp

end

section \<open>The language model as a predictor of rows\<close>

text \<open>The prompt of a row.\<close>

definition row_prompt :: "('v \<Rightarrow> string) \<Rightarrow> predict_info \<Rightarrow> 'v list \<Rightarrow> string" where
  "row_prompt to_sql info row =
     concat (map (\<lambda>i. pi_input_set_names info ! i @ '' = `'' @ to_sql (row ! (pi_input_mask info ! i)) @ ''`, '') [0..<length (pi_input_mask info)])"

definition row_complete :: "predict_info \<Rightarrow> 'v list \<Rightarrow> bool" where
  "row_complete info row \<longleftrightarrow> length (pi_input_mask info) \<le> length (pi_input_set_names info) \<and> (\<forall>m \<in> set (pi_input_mask info). m < length row)"

lemma traverse_all: "\<forall>x \<in> set xs. f x = Inr (g x) \<Longrightarrow> traverse f xs = Inr (map g xs)"
  by (induction xs) auto

lemma embed_prompt_row:
  assumes "wf_chunk c" and "i < chunk_count c" and "row_complete info (chunk_row c i)"
  shows "embed_prompt to_sql i c info True = Inr (row_prompt to_sql info (chunk_row c i))"
proof -
  have "embed_column to_sql i c info True k =
      Inr (pi_input_set_names info ! k @ '' = `'' @ to_sql (chunk_row c i ! (pi_input_mask info ! k)) @ ''`, '')" if "k < length (pi_input_mask info)" for k
  proof -
    have "pi_input_mask info ! k < length (chunk_data c)" "k < length (pi_input_set_names info)"
      using assms(3) that by (auto simp: row_complete_def chunk_row_def)
    moreover from this have "i < length (chunk_data c ! (pi_input_mask info ! k))"
      using wf_chunkD [OF assms(1)] assms(2) by (metis column_count_def less_le_trans)
    ultimately show ?thesis by (simp add: embed_column_def vector_at_def get_value_def chunk_row_def)
  qed
  then have "traverse (embed_column to_sql i c info True) [0..<length (pi_input_mask info)] =
      Inr (map (\<lambda>k. pi_input_set_names info ! k @ '' = `'' @ to_sql (chunk_row c i ! (pi_input_mask info ! k)) @ ''`, '') [0..<length (pi_input_mask info)])"
    by (intro traverse_all) simp
  then show ?thesis by (simp add: embed_prompt_def row_prompt_def)
qed

text \<open>A state in which the answers are right: the predictor is \<open>loaded\<close> with a cache of its own, the server answers as
  \<open>answer\<close> says, and so does the cache.\<close>

definition answers_well ::
  "'d json_lib \<Rightarrow> (string \<Rightarrow> string \<Rightarrow> llm_request \<Rightarrow> 'd json) \<Rightarrow> predict_info \<Rightarrow> (string \<Rightarrow> 'd json) \<Rightarrow> (string \<Rightarrow> 'd val list) \<Rightarrow>
   llm_predictor \<times> string \<times> string \<Rightarrow> predictor \<times> predict_stats \<Rightarrow> bool" where
  "answers_well lib network info answer vals = (\<lambda>(pr, base_api, api_key) st. readable lib info answer vals \<and>
     (\<exists>m. fst st = LlmApiPredictor (pr\<lparr>lp_cache := m\<rparr>) base_api api_key \<and> cache_ok lib answer m) \<and> faithful_single lib (network base_api api_key) pr answer \<and>
       faithful_batch lib (network base_api api_key) pr answer \<and> 0 < lp_batch_size pr \<and> 0 < lp_n_threads pr)"

lemma requests_ignore_cache:
  "single_request (pr\<lparr>lp_cache := m\<rparr>) = single_request pr" "batch_request (pr\<lparr>lp_cache := m\<rparr>) = batch_request pr"
  by (auto simp: single_request_def batch_request_def generate_system_message_def build_single_response_format_def build_array_response_format_def)

lemma readable_width: "readable lib info answer vals \<Longrightarrow> length (vals x) = length (pi_result_set_names info)"
  by (metis diff_zero length_upt readable_def row_values_def traverse_length)

interpretation llm: row_predictor "predictor_chunk lib network to_sql external info" "answers_well lib network info answer vals loaded"
  "row_complete info" "\<lambda>row. vals (row_prompt to_sql info row)" "length (pi_result_set_names info)"
  for lib network to_sql external info answer vals loaded
proof
  fix st :: "predictor \<times> predict_stats" and input out :: "'a val data_chunk"
  assume st: "answers_well lib network info answer vals loaded st" and wf: "wf_chunk input" and rows: "\<forall>row \<in> set (chunk_rows input). row_complete info row"
    and room: "has_room (length (pi_result_set_names info)) (chunk_count input) out"
  obtain pr0 base_api api_key where l: "loaded = (pr0, base_api, api_key)" by (cases loaded)
  obtain m stats where m: "st = (LlmApiPredictor (pr0\<lparr>lp_cache := m\<rparr>) base_api api_key, stats)" "cache_ok lib answer m"
    and good: "readable lib info answer vals" "faithful_single lib (network base_api api_key) pr0 answer" "faithful_batch lib (network base_api api_key) pr0 answer"
      "0 < lp_batch_size pr0" "0 < lp_n_threads pr0"
    using st by (cases st) (auto simp: answers_well_def l)
  define pr where "pr = pr0\<lparr>lp_cache := m\<rparr>"
  have pr: "st = (LlmApiPredictor pr base_api api_key, stats)" "readable lib info answer vals"
    "faithful_single lib (network base_api api_key) pr answer" "faithful_batch lib (network base_api api_key) pr answer"
    "cache_ok lib answer (lp_cache pr)" "0 < lp_batch_size pr" "0 < lp_n_threads pr"
    using m good by (simp_all add: pr_def faithful_single_def faithful_batch_def requests_ignore_cache)
  have prompts: "\<forall>i < chunk_count input. embed_prompt to_sql i input info True = Inr (row_prompt to_sql info (chunk_row input i))"
    using rows by (auto simp: chunk_rows_def intro!: embed_prompt_row [OF wf])
  have o: "output_ok info (chunk_count input) out" using room by (auto simp: output_ok_def has_room_def column_count_def)
  from predict_chunk_rows [OF pr(2-5) o prompts pr(6,7), of stats] obtain pr' stats' output' where
    r: "predict_chunk lib (network base_api api_key) to_sql input (chunk_count input) info (pr, stats, out) = Some (Inr (pr', stats', output'))"
    "\<forall>i < chunk_count input. \<forall>j < length (pi_result_set_names info). cell output' j i = vals (row_prompt to_sql info (chunk_row input i)) ! j"
    "same_shape out output'" "\<exists>m. pr' = pr\<lparr>lp_cache := m\<rparr>" "cache_ok lib answer (lp_cache pr')" by blast
  then have "answers_well lib network info answer vals loaded (LlmApiPredictor pr' base_api api_key, stats')"
    using good by (auto simp: answers_well_def l pr_def)
  then show "\<exists>st' output'. predictor_chunk lib network to_sql external info input (chunk_count input) (st, out) = Some (Inr (st', output')) \<and>
      answers_well lib network info answer vals loaded st' \<and> same_shape out output' \<and>
      (\<forall>i < chunk_count input. \<forall>j < length (pi_result_set_names info). cell output' j i = vals (row_prompt to_sql info (chunk_row input i)) ! j)"
    using r pr(1) by auto
next
  fix st :: "predictor \<times> predict_stats" and row
  show "answers_well lib network info answer vals loaded st \<Longrightarrow> length (vals (row_prompt to_sql info row)) = length (pi_result_set_names info)"
    by (auto simp: answers_well_def dest: readable_width)
qed

section \<open>Properties of the operators\<close>

lemma init_predictor_new:
  "init_predictor build info api_key = Inr (Some (LlmApiPredictor pr b k)) \<Longrightarrow> pr = new_llm_predictor (pi_prompt info) \<and> b = pi_base_api info \<and> k = api_key"
  by (auto simp: init_predictor_def init_language_predictor_def split: if_splits)

lemma configure_keeps:
  assumes "configure config options task info p = Inr (LlmApiPredictor pr b k)"
  shows "\<exists>pr0. p = LlmApiPredictor pr0 b k \<and> lp_cache pr = lp_cache pr0 \<and> lp_prompt pr = lp_prompt pr0 \<and> lp_model_path pr = pi_model_path info"
  using assms by (cases p) (auto simp: result_bind_eq_Inr llm_config_def llm_load_def Let_def split: if_splits)

lemma operator_state_new:
  assumes "get_operator_state build secrets config options task info = Inr (LlmApiPredictor pr b k, stats)"
  shows "get_api_key secrets (pi_secret info) = Inr k" "b = pi_base_api info" "lp_cache pr = Map.empty" "lp_prompt pr = pi_prompt info"
    "lp_model_path pr = pi_model_path info" "stats = new_stats"
proof -
  obtain api_key p where p: "get_api_key secrets (pi_secret info) = Inr api_key" "init_predictor build info api_key = Inr (Some p)"
    "configure config options task info p = Inr (LlmApiPredictor pr b k)" "stats = new_stats"
    using assms by (auto simp: get_operator_state_def result_bind_eq_Inr started_def split: option.splits)
  obtain pr0 where pr0: "p = LlmApiPredictor pr0 b k" "lp_cache pr = lp_cache pr0" "lp_prompt pr = lp_prompt pr0" "lp_model_path pr = pi_model_path info"
    using configure_keeps [OF p(3)] by blast
  have "pr0 = new_llm_predictor (pi_prompt info)" "b = pi_base_api info" "k = api_key"
    using init_predictor_new p(2) pr0(1) by blast+
  then show "get_api_key secrets (pi_secret info) = Inr k" "b = pi_base_api info" "lp_cache pr = Map.empty" "lp_prompt pr = pi_prompt info"
    "lp_model_path pr = pi_model_path info" "stats = new_stats"
    using p pr0 by (simp_all add: new_llm_predictor_def)
qed

text \<open>
  C10. The predict operator of a language model, from the creation of its state over any sequence of input
  chunks: when the server reached with the key of the secret answers, the operator returns on every
  chunk, and its output has the rows of the input in their order, each followed by the values of
  the answer to its own prompt. The cache that the calls share does not change a row.
\<close>

theorem predict_operator_rows:
  assumes "get_operator_state build secrets config options LLM info = Inr (LlmApiPredictor pr base_api api_key, stats)"
    and "readable lib info answer vals" and "faithful_single lib (network base_api api_key) pr answer" and "faithful_batch lib (network base_api api_key) pr answer"
    and "0 < lp_batch_size pr" and "0 < lp_n_threads pr"
    and "\<forall>c \<in> set cs. wf_chunk c \<and> column_count c = n \<and> chunk_count c \<le> capacity \<and> (\<forall>row \<in> set (chunk_rows c). row_complete info row)"
    and "has_room (n + length (pi_result_set_names info)) capacity chunk"
  shows "base_api = pi_base_api info \<and> get_api_key secrets (pi_secret info) = Inr api_key \<and>
    (\<exists>st' outs. predict_run (predictor_chunk lib network to_sql external info) chunk (LlmApiPredictor pr base_api api_key, stats) cs = Some (Inr (st', outs)) \<and>
      map chunk_rows outs = map (\<lambda>c. map (\<lambda>row. row @ vals (row_prompt to_sql info row)) (chunk_rows c)) cs)"
proof -
  note fresh = operator_state_new [OF assms(1)]
  have "answers_well lib network info answer vals (pr, base_api, api_key) (LlmApiPredictor pr base_api api_key, stats)"
    using assms(2-6) fresh(3) by (auto simp: answers_well_def cache_ok_def intro!: exI [of _ Map.empty])
  from llm.run_rows [OF this assms(7,8), of to_sql external] fresh(1,2) show ?thesis by blast
qed

definition demo_build :: predictor_build where
  "demo_build = \<lparr>pb_enable_predict = True, pb_predictor_impl = 0, pb_enable_llm_api = True\<rparr>"

definition demo_config :: llm_client_config where
  "demo_config = \<lparr>cc_ml_batch_size = 2, cc_llm_use_cache = True, cc_llm_use_batch = True, cc_llm_no_threads = 2\<rparr>"

definition demo_secrets :: "string \<rightharpoonup> secret" where
  "demo_secrets = [''s'' \<mapsto> KeyValueSecret [''bearer_token'' \<mapsto> ''k'']]"

lemma demo_grammar: "\<exists>g. generate_grammar ''p'' = Inr g"
proof -
  have "out_matches ''p'' = []" by code_simp
  then show ?thesis by (simp add: generate_grammar_def prompt_attributes_def)
qed

lemma demo_operator:
  "\<exists>pr. get_operator_state demo_build demo_secrets demo_config Map.empty LLM (demo_info\<lparr>pi_secret := ''s''\<rparr>) =
      Inr (LlmApiPredictor pr [] ''k'', new_stats) \<and> lp_prompt pr = ''p'' \<and> lp_batch_size pr = 2 \<and> lp_n_threads pr = 2"
proof -
  obtain g where "generate_grammar ''p'' = Inr g" using demo_grammar by blast
  then show ?thesis
    by (simp add: get_operator_state_def get_api_key_def secret_token_def demo_secrets_def demo_info_def demo_build_def demo_config_def init_predictor_def
        init_language_predictor_def started_def new_llm_predictor_def llm_config_def llm_load_def)
qed

theorem predict_operator_rows_witness:
  "\<exists>pr st' outs. get_operator_state demo_build demo_secrets demo_config Map.empty LLM (demo_info\<lparr>pi_secret := ''s''\<rparr>) = Inr (LlmApiPredictor pr [] ''k'', new_stats) \<and>
    predict_run (predictor_chunk demo_lib (\<lambda>base_api api_key. demo_post) demo_sql (\<lambda>k input rows s. None) (demo_info\<lparr>pi_secret := ''s''\<rparr>)) (chunk_of_rows 2 (replicate 3 [NullValue, NullValue]))
      (LlmApiPredictor pr [] ''k'', new_stats) [demo_chunk [''7'', ''8'', ''7''], demo_chunk [''9'']] = Some (Inr (st', outs)) \<and>
    map chunk_rows outs = [[[VarcharValue ''7'', IntegerValue 1], [VarcharValue ''8'', IntegerValue 0], [VarcharValue ''7'', IntegerValue 1]],
      [[VarcharValue ''9'', IntegerValue 0]]]"
proof -
  let ?info = "demo_info\<lparr>pi_secret := ''s''\<rparr>"
  let ?vals = "\<lambda>x. [IntegerValue (if CHR ''7'' \<in> set x then 1 else 0)]"
  let ?cs = "[demo_chunk [''7'', ''8'', ''7''], demo_chunk [''9'']]"
  let ?chunk = "chunk_of_rows 2 (replicate 3 [NullValue, NullValue]) :: int val data_chunk"
  obtain pr where pr: "get_operator_state demo_build demo_secrets demo_config Map.empty LLM ?info = Inr (LlmApiPredictor pr [] ''k'', new_stats)"
    "lp_prompt pr = ''p''" "lp_batch_size pr = 2" "lp_n_threads pr = 2" using demo_operator by blast
  have r: "readable demo_lib ?info demo_answer ?vals"
    using demo_readable by (simp add: readable_def row_values_def field_result_def demo_info_def)
  have s: "faithful_single demo_lib demo_post pr demo_answer" by (rule demo_single) (simp add: pr(2))
  have rows: "chunk_rows (demo_chunk ss) = map (\<lambda>s. [VarcharValue s]) ss" for ss
    by (intro nth_equalityI) (simp_all add: chunk_rows_def chunk_row_def demo_chunk_def)
  have cs: "\<forall>c \<in> set ?cs. wf_chunk c \<and> column_count c = 1 \<and> chunk_count c \<le> 3 \<and> (\<forall>row \<in> set (chunk_rows c). row_complete ?info row)"
    unfolding rows list.set ball_simps by (simp add: demo_chunk_def wf_chunk_def column_count_def row_complete_def demo_info_def rows [unfolded demo_chunk_def])
  have room: "has_room (1 + length (pi_result_set_names ?info)) 3 ?chunk" by (simp add: has_room_def column_count_def demo_info_def chunk_of_rows_def)
  from predict_operator_rows [where network = "\<lambda>base_api api_key. demo_post" and to_sql = demo_sql and external = "\<lambda>k input rows s. None", OF pr(1) r s demo_batch _ _ cs room]
  obtain st' outs where "predict_run (predictor_chunk demo_lib (\<lambda>base_api api_key. demo_post) demo_sql (\<lambda>k input rows s. None) ?info) ?chunk
      (LlmApiPredictor pr [] ''k'', new_stats) ?cs = Some (Inr (st', outs))"
    "map chunk_rows outs = map (\<lambda>c. map (\<lambda>row. row @ ?vals (row_prompt demo_sql ?info row)) (chunk_rows c)) ?cs"
    using pr(3,4) by auto
  then show ?thesis using pr(1) by (auto simp: rows row_prompt_def demo_info_def)
qed

section \<open>Properties of predict expressions\<close>

text \<open>A state of an expression whose predictor answers, at once or after it is loaded.\<close>

definition expression_good ::
  "'d json_lib \<Rightarrow> (string \<Rightarrow> string \<Rightarrow> llm_request \<Rightarrow> 'd json) \<Rightarrow> llm_client_config \<Rightarrow> (string \<rightharpoonup> option_value) \<Rightarrow> (string \<Rightarrow> 'd json) \<Rightarrow> (string \<Rightarrow> 'd val list) \<Rightarrow>
   llm_predictor \<times> string \<times> string \<Rightarrow> predict_expression_state \<Rightarrow> bool" where
  "expression_good lib network config options answer vals loaded st \<longleftrightarrow>
     (\<exists>p. (if xs_is_loaded st then Inr (xs_predictor st) else configure config options LLM (xs_info st) (xs_predictor st)) = Inr p \<and>
       answers_well lib network (xs_info st) answer vals loaded (p, xs_stats st))"

text \<open>A call: the vectors of the arguments, the number of rows and the vector of the result.\<close>

type_synonym 'v predict_call = "'v vector list \<times> nat \<times> 'v vector"

definition call_ok :: "predict_expression_state \<Rightarrow> 'v predict_call \<Rightarrow> bool" where
  "call_ok st = (\<lambda>(arguments, count, result). is_join (length arguments) st = Inr False \<and> (\<forall>col \<in> set arguments. count \<le> length col) \<and>
     count \<le> length result \<and> (\<forall>i < count. row_complete (xs_info st) (map (\<lambda>col. col ! i) arguments)))"

lemma call_ok_same: "xs_info st' = xs_info st \<Longrightarrow> xs_embeddings st' = xs_embeddings st \<Longrightarrow> call_ok st' = call_ok st"
  unfolding call_ok_def is_join_def by (simp only:)

lemma execute_predict_step:
  assumes "expression_good lib network config options answer vals loaded st" and "call_ok st (arguments, count, result)"
    and "length (pi_result_set_names (xs_info st)) = 1"
  shows "\<exists>p stats result'. execute_predict lib network to_sql external external_join config options callback arguments count (st, result) =
      Some (Inr (st\<lparr>xs_predictor := p, xs_is_loaded := True, xs_stats := (if callback then new_stats else stats)\<rparr>, result', if callback then Some stats else None)) \<and>
    answers_well lib network (xs_info st) answer vals loaded (p, stats) \<and> length result' = length result \<and>
    (\<forall>i < count. [result' ! i] = vals (row_prompt to_sql (xs_info st) (map (\<lambda>col. col ! i) arguments)))"
proof -
  let ?input = "\<lparr>chunk_data = arguments, chunk_count = count, chunk_capacity = standard_vector_size\<rparr>"
  let ?preds = "\<lparr>chunk_data = [result], chunk_count = count, chunk_capacity = standard_vector_size\<rparr>"
  obtain p where p: "(if xs_is_loaded st then Inr (xs_predictor st) else configure config options LLM (xs_info st) (xs_predictor st)) = Inr p"
    "answers_well lib network (xs_info st) answer vals loaded (p, xs_stats st)"
    using assms(1) unfolding expression_good_def by blast
  have call: "is_join (length arguments) st = Inr False" "\<forall>col \<in> set arguments. count \<le> length col" "count \<le> length result"
    "\<forall>i < count. row_complete (xs_info st) (map (\<lambda>col. col ! i) arguments)"
    using assms(2) by (auto simp: call_ok_def)
  have wf: "wf_chunk ?input" and rows: "\<forall>row \<in> set (chunk_rows ?input). row_complete (xs_info st) row"
    and room: "has_room (length (pi_result_set_names (xs_info st))) (chunk_count ?input) ?preds"
    using call assms(3) by (auto simp: wf_chunk_def chunk_rows_def chunk_row_def has_room_def column_count_def)
  from llm.predicted_rows [OF p(2) wf rows room, of to_sql external] obtain p1 stats1 preds1 where
    r: "predictor_chunk lib network to_sql external (xs_info st) ?input count ((p, xs_stats st), ?preds) = Some (Inr ((p1, stats1), preds1))"
    "answers_well lib network (xs_info st) answer vals loaded (p1, stats1)" "same_shape ?preds preds1"
    "\<forall>i < count. chunk_row preds1 i = vals (row_prompt to_sql (xs_info st) (chunk_row ?input i))" by auto
  obtain result' where res: "chunk_data preds1 = [result']" "length result' = length result"
    using r(3) by (auto simp: same_shape_def)
  have "\<forall>i < count. [result' ! i] = vals (row_prompt to_sql (xs_info st) (map (\<lambda>col. col ! i) arguments))"
    using r(4) res(1) by (simp add: chunk_row_def)
  moreover have "execute_predict lib network to_sql external external_join config options callback arguments count (st, result) =
      Some (Inr (st\<lparr>xs_predictor := p1, xs_is_loaded := True, xs_stats := (if callback then new_stats else stats1)\<rparr>, result', if callback then Some stats1 else None))"
    using call(1) p(1) r(1) res(1) by (simp add: execute_predict_def Let_def)
  ultimately show ?thesis using r(2) res(2) by blast
qed

text \<open>A sequence of calls of one expression.\<close>

fun expression_run ::
  "('v predict_call \<Rightarrow> predict_expression_state \<Rightarrow> (predict_expression_state \<times> 'v vector \<times> predict_stats option) result option) \<Rightarrow>
   predict_expression_state \<Rightarrow> 'v predict_call list \<Rightarrow> (predict_expression_state \<times> 'v vector list) result option" where
  "expression_run execute st [] = Some (Inr (st, []))"
| "expression_run execute st (call # calls) =
     (case execute call st of
        None \<Rightarrow> None
      | Some (Inl e) \<Rightarrow> Some (Inl e)
      | Some (Inr (st1, result, reported)) \<Rightarrow>
          (case expression_run execute st1 calls of
             None \<Rightarrow> None
           | Some (Inl e) \<Rightarrow> Some (Inl e)
           | Some (Inr (st2, answers)) \<Rightarrow> Some (Inr (st2, result # answers))))"

lemma expression_run_rows:
  assumes "expression_good lib network config options answer vals loaded st" and "\<forall>call \<in> set calls. call_ok st call" and "length (pi_result_set_names (xs_info st)) = 1"
  shows "\<exists>st' answers. expression_run (\<lambda>(arguments, count, result) st. execute_predict lib network to_sql external external_join config options callback arguments count (st, result))
      st calls = Some (Inr (st', answers)) \<and> (if calls = [] then st' = st else xs_is_loaded st' \<and>
      answers_well lib network (xs_info st) answer vals loaded (xs_predictor st', xs_stats st')) \<and>
    list_all2 (\<lambda>(arguments, count, result) result'. \<forall>i < count. [result' ! i] = vals (row_prompt to_sql (xs_info st) (map (\<lambda>col. col ! i) arguments))) calls answers"
  using assms
proof (induction calls arbitrary: st)
  case (Cons call calls)
  obtain arguments count result where call: "call = (arguments, count, result)" by (cases call)
  have ok: "call_ok st (arguments, count, result)" using Cons.prems(2) call by simp
  obtain p stats result' where one: "execute_predict lib network to_sql external external_join config options callback arguments count (st, result) =
      Some (Inr (st\<lparr>xs_predictor := p, xs_is_loaded := True, xs_stats := (if callback then new_stats else stats)\<rparr>, result', if callback then Some stats else None))"
    "answers_well lib network (xs_info st) answer vals loaded (p, stats)"
    "\<forall>i < count. [result' ! i] = vals (row_prompt to_sql (xs_info st) (map (\<lambda>col. col ! i) arguments))"
    using execute_predict_step [OF Cons.prems(1) ok Cons.prems(3)] by blast
  let ?st = "st\<lparr>xs_predictor := p, xs_is_loaded := True, xs_stats := (if callback then new_stats else stats)\<rparr>"
  have good: "expression_good lib network config options answer vals loaded ?st" using one(2) by (auto simp: expression_good_def answers_well_def)
  have "call_ok ?st = (call_ok st :: 'a val predict_call \<Rightarrow> bool)" by (rule call_ok_same) simp_all
  then have "\<forall>call \<in> set calls. call_ok ?st call" using Cons.prems(2) by simp
  from Cons.IH [OF good this] Cons.prems(3) obtain st2 answers where
    rest: "expression_run (\<lambda>(arguments, count, result) st. execute_predict lib network to_sql external external_join config options callback arguments count (st, result))
      ?st calls = Some (Inr (st2, answers))"
    "if calls = [] then st2 = ?st else xs_is_loaded st2 \<and> answers_well lib network (xs_info st) answer vals loaded (xs_predictor st2, xs_stats st2)"
    "list_all2 (\<lambda>(arguments, count, result) result'. \<forall>i < count. [result' ! i] = vals (row_prompt to_sql (xs_info st) (map (\<lambda>col. col ! i) arguments))) calls answers"
    by (auto split: if_splits)
  have "xs_is_loaded st2 \<and> answers_well lib network (xs_info st) answer vals loaded (xs_predictor st2, xs_stats st2)"
    using rest(2) one(2) by (auto simp: answers_well_def split: if_splits)
  then show ?case using one(1,3) rest(1,3) by (intro exI [of _ st2] exI [of _ "result' # answers"]) (simp add: call)
qed simp

text \<open>
  C32. A predict expression with one result column over a sequence of calls that are not semantic joins (one argument besides the
  embeddings, or a result that is not BOOLEAN), when the server answers: every row of every call gets the value of the answer to
  the prompt of its own arguments, with and without a callback for the statistics. After the first call the state is marked as loaded,
  and its predictor is the one that \<^verbatim>\<open>Config\<close> and \<^verbatim>\<open>Load\<close> made of the new one, up to the cache.
\<close>

theorem predict_expression_rows:
  assumes "initialize_predict_state build bound n = Inr st" and "configure config options LLM (xs_info st) (xs_predictor st) = Inr (LlmApiPredictor pr base_api api_key)"
    and "readable lib (xs_info st) answer vals" and "faithful_single lib (network base_api api_key) pr answer" and "faithful_batch lib (network base_api api_key) pr answer"
    and "0 < lp_batch_size pr" and "0 < lp_n_threads pr" and "length (bp_result_set_names bound) = 1" and "\<forall>call \<in> set calls. call_ok st call"
  shows "\<exists>st' answers. expression_run (\<lambda>(arguments, count, result) st. execute_predict lib network to_sql external external_join config options callback arguments count (st, result))
      st calls = Some (Inr (st', answers)) \<and>
    list_all2 (\<lambda>(arguments, count, result) result'. \<forall>i < count. [result' ! i] = vals (row_prompt to_sql (xs_info st) (map (\<lambda>col. col ! i) arguments))) calls answers \<and>
    \<not> xs_is_loaded st \<and> (if calls = [] then st' = st else xs_is_loaded st' \<and> (\<exists>m. xs_predictor st' = LlmApiPredictor (pr\<lparr>lp_cache := m\<rparr>) base_api api_key))"
proof -
  obtain info0 p where init: "predict_info_of bound = info0" "init_predictor build (xs_info st) (pi_secret (xs_info st)) = Inr (Some p)" "xs_predictor st = p"
    "xs_info st = info0\<lparr>pi_input_mask := pi_input_mask info0 @ [0..<n]\<rparr>" "\<not> xs_is_loaded st"
    using assms(1) by (auto simp: initialize_predict_state_def result_bind_eq_Inr Let_def split: option.splits)
  have one: "length (pi_result_set_names (xs_info st)) = 1" using init(1,4) assms(8) by (auto simp: predict_info_of_def)
  obtain pr0 where "p = LlmApiPredictor pr0 base_api api_key" "lp_cache pr = lp_cache pr0" using configure_keeps [OF assms(2)] init(3) by auto
  then have "lp_cache pr = Map.empty" using init_predictor_new init(2) by (fastforce simp: new_llm_predictor_def)
  then have "answers_well lib network (xs_info st) answer vals (pr, base_api, api_key) (LlmApiPredictor pr base_api api_key, xs_stats st)"
    using assms(3-7) by (auto simp: answers_well_def cache_ok_def intro!: exI [of _ Map.empty])
  then have "expression_good lib network config options answer vals (pr, base_api, api_key) st" using assms(2) init(5) by (simp add: expression_good_def)
  from expression_run_rows [OF this assms(9) one, of to_sql external external_join callback] obtain st' answers where
    run: "expression_run (\<lambda>(arguments, count, result) st. execute_predict lib network to_sql external external_join config options callback arguments count (st, result))
      st calls = Some (Inr (st', answers))"
    "if calls = [] then st' = st else xs_is_loaded st' \<and> answers_well lib network (xs_info st) answer vals (pr, base_api, api_key) (xs_predictor st', xs_stats st')"
    "list_all2 (\<lambda>(arguments, count, result) result'. \<forall>i < count. [result' ! i] = vals (row_prompt to_sql (xs_info st) (map (\<lambda>col. col ! i) arguments))) calls answers"
    by blast
  have "if calls = [] then st' = st else xs_is_loaded st' \<and> (\<exists>m. xs_predictor st' = LlmApiPredictor (pr\<lparr>lp_cache := m\<rparr>) base_api api_key)"
    using run(2) by (auto simp: answers_well_def split: if_splits)
  with run(1,3) init(5) show ?thesis by blast
qed

definition demo_bound :: bound_predict_info where
  "demo_bound = (new_predict_info LLM)
     \<lparr>bp_model_path := ''m'', bp_prompt := ''p'', bp_input_set_names := [''x''], bp_result_set_names := [''n''], bp_result_set_types := [''INTEGER'']\<rparr>"

theorem predict_expression_rows_witness:
  "\<exists>st st' r1 r2. initialize_predict_state demo_build demo_bound 1 = Inr st \<and>
    expression_run (\<lambda>(arguments, count, result) st. execute_predict demo_lib (\<lambda>base_api api_key. demo_post) demo_sql (\<lambda>k input rows s. None) (\<lambda>k input rows s. None)
        demo_config Map.empty True arguments count (st, result)) st
      [([[VarcharValue ''7'', VarcharValue ''8'']], 2, [NullValue, NullValue]), ([[VarcharValue ''9'']], 1, [NullValue])] = Some (Inr (st', [r1, r2])) \<and>
    r1 ! 0 = IntegerValue 1 \<and> r1 ! 1 = IntegerValue 0 \<and> r2 ! 0 = IntegerValue 0 \<and> \<not> xs_is_loaded st \<and> xs_is_loaded st'"
proof -
  let ?vals = "\<lambda>x. [IntegerValue (if CHR ''7'' \<in> set x then 1 else 0)]"
  let ?calls = "[([[VarcharValue ''7'', VarcharValue ''8'']], 2, [NullValue, NullValue]), ([[VarcharValue ''9'']], 1, [NullValue])] :: int val predict_call list"
  have types: "bound_type ''INTEGER'' = INTEGER" by (simp add: bound_type_def)
  obtain st where st: "initialize_predict_state demo_build demo_bound 1 = Inr st" "xs_info st = demo_info" "xs_embeddings st = 0"
    "xs_predictor st = LlmApiPredictor (new_llm_predictor ''p'') [] []"
    by (simp add: initialize_predict_state_def predict_info_of_def demo_bound_def new_predict_info_def types demo_build_def init_predictor_def
        init_language_predictor_def demo_info_def)
  obtain g where g: "generate_grammar ''p'' = Inr g" using demo_grammar by blast
  obtain pr where pr: "configure demo_config Map.empty LLM (xs_info st) (xs_predictor st) = Inr (LlmApiPredictor pr [] [])" "lp_prompt pr = ''p''" "lp_batch_size pr = 2" "lp_n_threads pr = 2"
    using g st(2,4) by (simp add: llm_config_def demo_config_def llm_load_def new_llm_predictor_def)
  have r: "readable demo_lib (xs_info st) demo_answer ?vals" unfolding st(2) by (rule demo_readable)
  have s: "faithful_single demo_lib demo_post pr demo_answer" by (rule demo_single) (simp add: pr(2))
  have calls: "\<forall>call \<in> set ?calls. call_ok st call"
    by (simp add: call_ok_def is_join_def st(2,3) row_complete_def demo_info_def)
  have names: "length (bp_result_set_names demo_bound) = 1" by (simp add: demo_bound_def)
  from predict_expression_rows [where network = "\<lambda>base_api api_key. demo_post" and to_sql = demo_sql and external = "\<lambda>k input rows s. None" and
      external_join = "\<lambda>k input rows s. None" and callback = True, OF st(1) pr(1) r s demo_batch _ _ names calls]
  obtain st' answers where run: "expression_run (\<lambda>(arguments, count, result) st. execute_predict demo_lib (\<lambda>base_api api_key. demo_post) demo_sql (\<lambda>k input rows s. None) (\<lambda>k input rows s. None)
        demo_config Map.empty True arguments count (st, result)) st ?calls = Some (Inr (st', answers))"
    "list_all2 (\<lambda>(arguments, count, result) result'. \<forall>i < count. [result' ! i] = ?vals (row_prompt demo_sql (xs_info st) (map (\<lambda>col. col ! i) arguments))) ?calls answers"
    "\<not> xs_is_loaded st" "xs_is_loaded st'"
    using pr(3,4) by auto
  obtain r1 r2 where "answers = [r1, r2]" "\<forall>i < 2. [r1 ! i] = ?vals (row_prompt demo_sql (xs_info st) [[VarcharValue ''7'', VarcharValue ''8''] ! i])"
    "[r2 ! 0] = ?vals (row_prompt demo_sql (xs_info st) [VarcharValue ''9''])"
    using run(2) by (auto simp: list_all2_Cons1)
  moreover from this(2) have "[r1 ! 0] = ?vals (row_prompt demo_sql (xs_info st) [VarcharValue ''7''])" "[r1 ! 1] = ?vals (row_prompt demo_sql (xs_info st) [VarcharValue ''8''])"
    by (auto dest: spec [of _ 0] spec [of _ 1])
  ultimately show ?thesis using st(1) run(1,3,4) by (auto simp: row_prompt_def st(2) demo_info_def)
qed

lemma initialized_state:
  assumes "initialize_predict_state build bound n = Inr st"
  shows "xs_embeddings st = length (bp_embedding_column_map bound)" "pi_result_set_types (xs_info st) = map bound_type (bp_result_set_types bound)"
proof -
  obtain q where q: "(case q of None \<Rightarrow> Inl (UndefinedBehavior ''access through a null predictor'')
      | Some p \<Rightarrow> Inr \<lparr>xs_info = predict_info_of bound\<lparr>pi_input_mask := pi_input_mask (predict_info_of bound) @ [0..<n]\<rparr>,
          xs_embeddings = length (bp_embedding_column_map bound), xs_predictor = p, xs_stats = new_stats, xs_is_loaded = False\<rparr>) = Inr st"
    using assms unfolding initialize_predict_state_def Let_def result_bind_eq_Inr by (elim exE conjE)
  then obtain p where "q = Some p" by (cases q) simp_all
  with q show "xs_embeddings st = length (bp_embedding_column_map bound)" "pi_result_set_types (xs_info st) = map bound_type (bp_result_set_types bound)"
    by (auto simp: predict_info_of_def)
qed

text \<open>The copy of a predicate with one input that has an embedding takes the path of a semantic join: the copy does not have the map of
  the embedding columns.\<close>

theorem copied_predicate_joins:
  assumes "initialize_predict_state build bound n = Inr st" and "initialize_predict_state build (bound_predict_copy bound) n = Inr st'"
    and "n = Suc (length (bp_embedding_column_map bound))" and "1 < n" and "hd (bp_result_set_types bound) = ''BOOLEAN''" and "bp_result_set_types bound \<noteq> []"
  shows "is_join n st = Inr False \<and> is_join n st' = Inr True"
proof -
  obtain ts where "bp_result_set_types bound = ''BOOLEAN'' # ts" using assms(5,6) by (cases "bp_result_set_types bound") auto
  then have "bp_result_set_types (bound_predict_copy bound) = ''BOOLEAN'' # ts" "bp_embedding_column_map (bound_predict_copy bound) = []"
    by (simp_all add: bound_predict_copy_def new_predict_info_def)
  then have "xs_embeddings st' = 0 \<and> pi_result_set_types (xs_info st') = BOOLEAN # map bound_type ts"
    using initialized_state [OF assms(2)] by (simp add: bound_type_def)
  then have "is_join n st' = Inr True" using assms(4) by (simp add: is_join_def vector_at_def)
  moreover have "xs_embeddings st = n - 1" using initialized_state(1) [OF assms(1)] assms(3) by simp
  ultimately show ?thesis using assms(4) by (simp add: is_join_def)
qed

text \<open>A build without predictors fails on the null predictor that it gets, after the key was found.\<close>

theorem operator_without_predictors:
  assumes "\<not> pb_enable_predict build" and "get_api_key secrets (pi_secret info) = Inr api_key"
  shows "get_operator_state build secrets config options task info = Inl (UndefinedBehavior ''access through a null predictor'')"
  using assms by (simp add: get_operator_state_def init_predictor_def init_language_predictor_def started_def)

end
