(* ===== verification/LlmAggregate.thy ===== *)
theory LlmAggregate
  imports PredictOperator PredictBinder
begin

text \<open>
  The aggregate \<^verbatim>\<open>llm_agg\<close> (\<^verbatim>\<open>function/aggregate/distributive/llm_agg.cpp\<close>): a state collects the text of the rows of a
  group, states of several threads are combined, and at the end the model is asked once for every group. States are
  named by numbers, and the rows of a vector come with the number of their state. The values are strings, and None
  is NULL. The binding of such an aggregate is \<^verbatim>\<open>BaseSelectBinder::BindAggregate\<close> (\<^verbatim>\<open>bind_aggregate_expression.cpp\<close>).
\<close>

section \<open>The functions of the aggregate\<close>

type_synonym llm_agg_states = "nat \<Rightarrow> string"

text \<open>\<^verbatim>\<open>Initialize\<close> builds the state with the empty string and destroys it again. \<open>destroyed\<close> is what a destroyed string reads as
  afterwards, which the language leaves open.\<close>

definition llm_agg_initialize :: "(string \<Rightarrow> string) \<Rightarrow> string" where
  "llm_agg_initialize destroyed = destroyed []"

definition llm_agg_combine :: "string \<Rightarrow> string \<Rightarrow> string" where
  "llm_agg_combine source target = target @ source"

definition agg_entry :: "string \<Rightarrow> string \<Rightarrow> string" where
  "agg_entry input_name value = newline @ ''{'' @ input_name @ ''=`'' @ value @ ''`}''"

definition llm_agg_update :: "string \<Rightarrow> string option list \<Rightarrow> string \<Rightarrow> string" where
  "llm_agg_update input_name inputs state =
     fold (\<lambda>v result. case v of None \<Rightarrow> result | Some value \<Rightarrow> result @ agg_entry input_name value) inputs state"

definition llm_agg_scatter_update :: "bool \<Rightarrow> bool \<Rightarrow> string \<Rightarrow> (nat \<times> string option) list \<Rightarrow> llm_agg_states \<Rightarrow> llm_agg_states" where
  "llm_agg_scatter_update input_is_flat states_are_flat input_name rows states =
     (if input_is_flat \<and> states_are_flat
      then fold (\<lambda>(g, v) states. case v of None \<Rightarrow> states | Some value \<Rightarrow> states(g := states g @ agg_entry input_name value)) rows states
      else states)"

fun predictor_strings ::
  "'d json_lib \<Rightarrow> (string \<Rightarrow> string \<Rightarrow> llm_request \<Rightarrow> 'd json) \<Rightarrow> (predictor_kind \<Rightarrow> string list \<Rightarrow> string list result) \<Rightarrow> predictor \<Rightarrow> string list \<Rightarrow> string list result" where
  "predictor_strings lib network external_strings (LlmApiPredictor pr base_api api_key) inputs = predict_string lib (network base_api api_key) pr inputs"
| "predictor_strings lib network external_strings (ExternalPredictor k) inputs = external_strings k inputs"

definition llm_agg_finalize ::
  "'d json_lib \<Rightarrow> (string \<Rightarrow> string \<Rightarrow> llm_request \<Rightarrow> 'd json) \<Rightarrow> (predictor_kind \<Rightarrow> string list \<Rightarrow> string list result) \<Rightarrow> predictor_build \<Rightarrow> llm_client_config \<Rightarrow>
   (string \<rightharpoonup> option_value) \<Rightarrow> predict_info \<Rightarrow> string \<Rightarrow> string list \<Rightarrow> string list result" where
  "llm_agg_finalize lib network external_strings build config options info api_key states =
     result_bind (init_predictor build info api_key) (\<lambda>p.
     result_bind (started config options LLM info p) (\<lambda>(p1, stats).
     result_bind (predictor_strings lib network external_strings p1 states) (\<lambda>outputs.
       traverse (vector_at outputs) [0..<length states])))"

section \<open>Binding\<close>

text \<open>\<open>bind_child\<close> gives the type of an argument or its error. \<open>find_function\<close> is the lookup of the aggregate
  function and the choice of an overload by the types of the result. The result is what the aggregate keeps: the
  information and the key.\<close>

definition bind_aggregate_predict ::
  "model_catalog_entry list \<Rightarrow> (string list \<Rightarrow> string result) \<Rightarrow> (string \<Rightarrow> string list \<Rightarrow> unit result) \<Rightarrow> (string \<rightharpoonup> secret) \<Rightarrow> string \<Rightarrow>
   predict_expression \<Rightarrow> (bound_predict_info \<times> string) result" where
  "bind_aggregate_predict entries bind_child find_function secrets agg_func expr =
     result_bind (traverse bind_child (pe_children expr)) (\<lambda>child_types.
     let result_types = [case pe_out_col_type expr of Some t \<Rightarrow> type_name t | None \<Rightarrow> ''INVALID''];
         named = filter (\<lambda>entry. me_name entry = pe_model_name expr) entries in
     if named = []
     then Inl (BinderException (''Model with name '' @ [CHR 0x22] @ pe_model_name expr @ [CHR 0x22] @ '' does not exist in calatog!''))
     else
       (let data = me_data (hd named);
            info = (new_predict_info (md_model_type data))
              \<lparr>bp_model_name := pe_model_name expr, bp_prompt := pe_prompt expr, bp_input_set_names := pe_input_col_names expr,
               bp_input_set_types := child_types, bp_result_set_names := [pe_out_col_name expr], bp_result_set_types := result_types,
               bp_model_path := md_model_path data, bp_base_api := md_base_api data, bp_secret := md_secret data\<rparr> in
        result_bind (find_function agg_func result_types) (\<lambda>_.
        result_bind (secret_token ''LLM_AGG: '' secrets (bp_secret info)) (\<lambda>api_key. Inr (info, api_key)))))"

text \<open>Of two models of one name the first one is used, and the options of a model do not reach an aggregate.\<close>

lemma bind_aggregate_predict_info:
  assumes "bind_aggregate_predict entries bind_child find_function secrets agg_func expr = Inr (info, api_key)"
  shows "\<exists>entry \<in> set entries. me_name entry = pe_model_name expr \<and> bp_model_path info = md_model_path (me_data entry) \<and>
      bp_base_api info = md_base_api (me_data entry) \<and> secret_token ''LLM_AGG: '' secrets (md_secret (me_data entry)) = Inr api_key"
    and "bp_options info = []" and "bp_embedding_column_map info = []" and "bp_input_mask info = []"
proof -
  let ?named = "filter (\<lambda>entry. me_name entry = pe_model_name expr) entries"
  have ne: "?named \<noteq> []" and info: "bp_model_path info = md_model_path (me_data (hd ?named))" "bp_base_api info = md_base_api (me_data (hd ?named))"
    "secret_token ''LLM_AGG: '' secrets (md_secret (me_data (hd ?named))) = Inr api_key" "bp_options info = []" "bp_embedding_column_map info = []" "bp_input_mask info = []"
    using assms by (auto simp: bind_aggregate_predict_def result_bind_eq_Inr Let_def new_predict_info_def split: if_splits)
  have "hd ?named \<in> set ?named" using ne by (rule hd_in_set)
  then show "\<exists>entry \<in> set entries. me_name entry = pe_model_name expr \<and> bp_model_path info = md_model_path (me_data entry) \<and>
      bp_base_api info = md_base_api (me_data entry) \<and> secret_token ''LLM_AGG: '' secrets (md_secret (me_data entry)) = Inr api_key"
    using info by auto
  show "bp_options info = []" "bp_embedding_column_map info = []" "bp_input_mask info = []" using info by blast+
qed

section \<open>The text of a group\<close>

definition group_text :: "string \<Rightarrow> nat \<Rightarrow> (nat \<times> string option) list \<Rightarrow> string" where
  "group_text input_name g rows = concat (map (agg_entry input_name) (List.map_filter (\<lambda>(h, v). if h = g then v else None) rows))"

lemma group_text_append: "group_text input_name g (xs @ ys) = group_text input_name g xs @ group_text input_name g ys"
  by (induction xs) (auto simp: group_text_def List.map_filter_simps split: option.splits)

lemma group_text_Nil [simp]: "group_text input_name g [] = []"
  by (simp add: group_text_def List.map_filter_simps)

lemma scatter_text: "llm_agg_scatter_update True True input_name rows states g = states g @ group_text input_name g rows"
proof (induction rows arbitrary: states)
  case (Cons row rows)
  obtain h v where row: "row = (h, v)" by (cases row)
  show ?case using Cons.IH by (cases v) (auto simp: llm_agg_scatter_update_def group_text_def List.map_filter_simps row)
qed (simp add: llm_agg_scatter_update_def)

lemma update_text: "llm_agg_update input_name inputs state = state @ group_text input_name 0 (map (Pair 0) inputs)"
proof (induction inputs arbitrary: state)
  case (Cons v inputs)
  then show ?case by (cases v) (simp_all add: llm_agg_update_def group_text_def List.map_filter_simps)
qed (simp add: llm_agg_update_def)

text \<open>A vector of rows with the kinds of its two vectors: whether the values are flat and whether the states are. The states of a
  thread after its vectors, and the states of all threads combined.\<close>

type_synonym agg_vector = "bool \<times> bool \<times> (nat \<times> string option) list"

definition thread_states :: "(string \<Rightarrow> string) \<Rightarrow> string \<Rightarrow> agg_vector list \<Rightarrow> llm_agg_states" where
  "thread_states destroyed input_name vectors =
     fold (\<lambda>(input_is_flat, states_are_flat, rows). llm_agg_scatter_update input_is_flat states_are_flat input_name rows) vectors
       (\<lambda>g. llm_agg_initialize destroyed)"

definition combined_states :: "(string \<Rightarrow> string) \<Rightarrow> string \<Rightarrow> agg_vector list list \<Rightarrow> llm_agg_states" where
  "combined_states destroyed input_name threads =
     fold (\<lambda>vectors target g. llm_agg_combine (thread_states destroyed input_name vectors g) (target g)) threads (\<lambda>g. llm_agg_initialize destroyed)"

text \<open>The rows that count: those of the vectors that are flat on both sides.\<close>

fun flat_rows :: "agg_vector \<Rightarrow> (nat \<times> string option) list" where
  "flat_rows (input_is_flat, states_are_flat, rows) = (if input_is_flat \<and> states_are_flat then rows else [])"

text \<open>Rows of vectors that are not flat are not aggregated.\<close>

lemma scatter_update_loses_rows:
  "\<not> (input_is_flat \<and> states_are_flat) \<Longrightarrow> llm_agg_scatter_update input_is_flat states_are_flat input_name rows states = states"
  by (auto simp: llm_agg_scatter_update_def)

lemma vectors_text:
  "fold (\<lambda>(input_is_flat, states_are_flat, rows). llm_agg_scatter_update input_is_flat states_are_flat input_name rows) vectors states g =
    states g @ group_text input_name g (concat (map flat_rows vectors))"
proof (induction vectors arbitrary: states)
  case (Cons v vectors)
  obtain a b rows where v: "v = (a, b, rows)" by (cases v)
  show ?case
  proof (cases "a \<and> b")
    case True
    then show ?thesis using Cons.IH by (simp add: v group_text_append scatter_text)
  next
    case False
    then show ?thesis using Cons.IH by (auto simp: v scatter_update_loses_rows)
  qed
qed simp

lemma thread_text: "destroyed [] = [] \<Longrightarrow> thread_states destroyed input_name vectors g = group_text input_name g (concat (map flat_rows vectors))"
  by (simp add: thread_states_def llm_agg_initialize_def vectors_text)

lemma combined_text:
  assumes "destroyed [] = []"
  shows "combined_states destroyed input_name threads g = group_text input_name g (concat (map flat_rows (concat threads)))"
proof -
  have "fold (\<lambda>vectors target g. llm_agg_combine (thread_states destroyed input_name vectors g) (target g)) threads states g =
      states g @ group_text input_name g (concat (map flat_rows (concat threads)))" for states
    by (induction threads arbitrary: states) (simp_all add: group_text_append thread_text [of destroyed, OF assms] llm_agg_combine_def)
  then show ?thesis using assms by (simp add: combined_states_def llm_agg_initialize_def)
qed

section \<open>Properties\<close>

text \<open>What the aggregate relies on: the model answers every request for an aggregate.\<close>

definition replies :: "'d json_lib \<Rightarrow> (llm_request \<Rightarrow> 'd json) \<Rightarrow> llm_predictor \<Rightarrow> (string \<Rightarrow> string) \<Rightarrow> bool" where
  "replies lib post pr reply \<longleftrightarrow> (\<forall>x. extract_content (post (agg_request pr x)) = Inr (reply x) \<and> usage_ok lib (post (agg_request pr x)))"

lemma predict_string_replies:
  assumes "replies lib post pr reply"
  shows "predict_string lib post pr texts = Inr (map reply texts)"
proof -
  have "result_bind (predict_agg lib post pr x) (\<lambda>r. outputs_at r 0) = Inr (reply x)" for x
  proof -
    have c: "extract_content (post (agg_request pr x)) = Inr (reply x)" "usage_ok lib (post (agg_request pr x))" using assms by (auto simp: replies_def)
    obtain a b d where "\<And>f. with_usage lib (post (agg_request pr x)) f = (f a b d :: batch_result result)" using with_usage_ok [OF c(2)] by blast
    then show ?thesis using c(1) by (simp add: predict_agg_def outputs_at_def vector_at_def new_batch_result_def Let_def)
  qed
  then show ?thesis unfolding predict_string_def by (intro traverse_all) simp
qed

lemma traverse_vector_at: "traverse (vector_at xs) [0..<length xs] = Inr xs"
proof -
  have "traverse (vector_at xs) [0..<length xs] = Inr (map ((!) xs) [0..<length xs])" by (intro traverse_all) (simp add: vector_at_def)
  then show ?thesis by (simp only: map_nth)
qed

text \<open>
  C33. A grouped aggregate, when the model answers: it asks the model once for every group and returns the reply. The question has the values of
  the rows of the group that are not NULL and came in vectors that are flat, values and states alike, in the order in which the threads
  are combined, however the rows were split into threads and vectors; the rows of other vectors are lost. The states are
  empty at first because a destroyed empty string is taken to read as empty, which is the hypothesis on
  \<open>destroyed\<close>.
\<close>

theorem llm_agg_answers:
  assumes "init_predictor build info api_key = Inr (Some p)"
    and "configure config options LLM info p = Inr (LlmApiPredictor pr base_api key)" and "replies lib (network base_api key) pr reply"
    and "destroyed [] = []"
  shows "llm_agg_finalize lib network external_strings build config options info api_key (map (combined_states destroyed input_name threads) groups) =
    Inr (map (\<lambda>g. reply (group_text input_name g (concat (map flat_rows (concat threads))))) groups)"
proof -
  let ?states = "map (combined_states destroyed input_name threads) groups"
  have "traverse (vector_at (map reply ?states)) [0..<length ?states] = Inr (map reply ?states)"
    using traverse_vector_at [of "map reply ?states"] by simp
  then show ?thesis
    using assms(1,2) predict_string_replies [OF assms(3)] by (simp add: llm_agg_finalize_def started_def combined_text [of destroyed, OF assms(4)] comp_def)
qed

definition demo_agg_post :: "llm_request \<Rightarrow> int json" where
  "demo_agg_post rq =
     JObject [(''choices'', JArray [JObject [(''message'', JObject [(''content'', JString (demo_text (rq_user rq)))])]]),
       (''usage'', JObject [(''total_tokens'', JInt 3), (''prompt_tokens'', JInt 2), (''completion_tokens'', JInt 1)])]"

theorem llm_agg_answers_witness:
  "llm_agg_finalize demo_lib (\<lambda>base_api api_key. demo_agg_post) (\<lambda>k xs. Inr []) demo_build demo_config Map.empty demo_info ''k''
     (map (combined_states (\<lambda>s. s) ''x'' [[(True, True, [(0, Some ''7''), (1, None)]), (True, True, [(1, Some ''8'')])], [(True, True, [(0, Some ''9'')]), (False, True, [(1, Some ''7'')])]]) [0, 1])
    = Inr [''{yes}'', ''{no}'']"
proof -
  obtain g where "generate_grammar ''p'' = Inr g" using demo_grammar by blast
  then obtain pr where pr: "configure demo_config Map.empty LLM demo_info (LlmApiPredictor (new_llm_predictor ''p'') [] ''k'') = Inr (LlmApiPredictor pr [] ''k'')" "lp_prompt pr = ''p''"
    by (simp add: llm_config_def demo_config_def llm_load_def new_llm_predictor_def demo_info_def)
  have init: "init_predictor demo_build demo_info ''k'' = Inr (Some (LlmApiPredictor (new_llm_predictor ''p'') [] ''k''))"
    by (simp add: init_predictor_def init_language_predictor_def demo_build_def demo_info_def)
  have "demo_text (rq_user (agg_request pr x)) = demo_text x" for x using pr(2) by (simp add: demo_text_def agg_request_def)
  then have "replies demo_lib demo_agg_post pr demo_text"
    by (simp add: replies_def demo_agg_post_def json_contains_def usage_ok_def usage_tokens_def extract_content_def message_content_def)
  note r = llm_agg_answers [where network = "\<lambda>base_api api_key. demo_agg_post" and external_strings = "\<lambda>k xs. Inr []" and input_name = "''x''" and
      threads = "[[(True, True, [(0, Some ''7''), (1, None)]), (True, True, [(1, Some ''8'')])], [(True, True, [(0, Some ''9'')]), (False, True, [(1, Some ''7'')])]]" and
      groups = "[0, 1]" and destroyed = "\<lambda>s. s", OF init pr(1) this refl]
  show ?thesis unfolding r by (simp add: group_text_def List.map_filter_simps agg_entry_def demo_text_def)
qed

end
