(* ===== verification/CatalogSet.thy ===== *)
theory CatalogSet
  imports ModelCatalog ChunkInfo
begin

text \<open>
  Catalog sets (\<^verbatim>\<open>src/catalog/catalog_set.cpp\<close>): the entries of one kind in a schema, such as its tables or models,
  each with a chain of versions that concurrent transactions created. A chain is a list
  with the newest version first, under the name in lower case. A version has an address, by which the undo buffer
  refers to it; the timestamp of a version is the transaction that made it or the number of its commit.

  An operation takes and returns the set together with the entries that it wrote to the undo buffer, also when it
  throws. Locks are not modelled: an operation runs under the write lock of the catalog. The dependency
  manager is left out, and the alteration of an entry is an argument.
\<close>

section \<open>Versions and lookups\<close>

datatype 'e version_content = INVALID_VERSION | DELETED_VERSION | RENAMED_VERSION | EntryVersion 'e

record 'e catalog_version =
  ver_address :: nat
  ver_name :: string
  ver_timestamp :: transaction_t
  ver_deleted :: bool
  ver_internal :: bool
  ver_content :: "'e version_content"

record 'e catalog_set =
  cs_chains :: "string \<rightharpoonup> 'e catalog_version list"
  cs_fresh :: nat
  cs_defaults :: "(string \<Rightarrow> (bool \<times> 'e) option) option"
  cs_created_all :: bool

abbreviation quote :: "string \<Rightarrow> string" where
  "quote s \<equiv> [CHR 0x22] @ s @ [CHR 0x22]"

abbreviation name_key :: "string \<Rightarrow> string" where
  "name_key name \<equiv> map to_lower name"

definition created_by_other_active :: "transaction_data \<Rightarrow> transaction_t \<Rightarrow> bool" where
  "created_by_other_active t timestamp \<longleftrightarrow> transaction_id_start \<le> timestamp \<and> timestamp \<noteq> td_transaction_id t"

definition committed_after_starting :: "transaction_data \<Rightarrow> transaction_t \<Rightarrow> bool" where
  "committed_after_starting t timestamp \<longleftrightarrow> timestamp < transaction_id_start \<and> td_start_time t < timestamp"

definition has_conflict :: "transaction_data \<Rightarrow> transaction_t \<Rightarrow> bool" where
  "has_conflict t timestamp \<longleftrightarrow> created_by_other_active t timestamp \<or> committed_after_starting t timestamp"

definition use_timestamp :: "transaction_data \<Rightarrow> transaction_t \<Rightarrow> bool" where
  "use_timestamp t timestamp \<longleftrightarrow> timestamp = td_transaction_id t \<or> timestamp < td_start_time t"

text \<open>\<^verbatim>\<open>GetEntryForTransaction\<close>, with the flag \<^verbatim>\<open>visible\<close>. The last version of a chain is taken without a look at its timestamp.\<close>

fun get_entry_for_transaction :: "transaction_data \<Rightarrow> 'e catalog_version list \<Rightarrow> (bool \<times> 'e catalog_version) option" where
  "get_entry_for_transaction t [] = None"
| "get_entry_for_transaction t [v] = Some (False, v)"
| "get_entry_for_transaction t (v # w # vs) =
     (if use_timestamp t (ver_timestamp v) then Some (True, v) else get_entry_for_transaction t (w # vs))"

fun get_committed_entry :: "'e catalog_version list \<Rightarrow> 'e catalog_version option" where
  "get_committed_entry [] = None"
| "get_committed_entry [v] = Some v"
| "get_committed_entry (v # w # vs) = (if ver_timestamp v < transaction_id_start then Some v else get_committed_entry (w # vs))"

datatype failure_reason = LOOKUP_SUCCESS | LOOKUP_DELETED | LOOKUP_NOT_PRESENT | LOOKUP_INVISIBLE

definition make_version :: "string \<Rightarrow> transaction_t \<Rightarrow> bool \<Rightarrow> bool \<Rightarrow> 'e version_content \<Rightarrow> 'e catalog_set \<Rightarrow> 'e catalog_version \<times> 'e catalog_set" where
  "make_version name timestamp is_deleted internal content s =
     (\<lparr>ver_address = cs_fresh s, ver_name = name, ver_timestamp = timestamp, ver_deleted = is_deleted, ver_internal = internal, ver_content = content\<rparr>,
      s\<lparr>cs_fresh := Suc (cs_fresh s)\<rparr>)"

text \<open>\<^verbatim>\<open>CreateDefaultEntry\<close>, for a name without a chain. The entry is committed from the start.\<close>

definition create_default_entry :: "string \<Rightarrow> 'e catalog_set \<Rightarrow> 'e catalog_version option \<times> 'e catalog_set" where
  "create_default_entry name s =
     (case cs_defaults s of
        None \<Rightarrow> (None, s)
      | Some generate \<Rightarrow>
          (if cs_created_all s then (None, s)
           else
             (case generate name of
                None \<Rightarrow> (None, s)
              | Some (internal, e) \<Rightarrow>
                  (case make_version name 0 False internal (EntryVersion e) s of
                     (v, s1) \<Rightarrow> (Some v, s1\<lparr>cs_chains := (cs_chains s1)(name_key name \<mapsto> [v])\<rparr>)))))"

definition get_entry_detailed :: "transaction_data \<Rightarrow> string \<Rightarrow> 'e catalog_set \<Rightarrow> ('e catalog_version option \<times> failure_reason) \<times> 'e catalog_set" where
  "get_entry_detailed t name s =
     (case Option.bind (cs_chains s (name_key name)) (get_entry_for_transaction t) of
        Some (visible, current) \<Rightarrow>
          (if ver_deleted current then (None, if \<not> visible then LOOKUP_INVISIBLE else LOOKUP_DELETED) else (Some current, LOOKUP_SUCCESS), s)
      | None \<Rightarrow>
          (case create_default_entry name s of
             (None, s1) \<Rightarrow> ((None, LOOKUP_NOT_PRESENT), s1)
           | (Some v, s1) \<Rightarrow> ((Some v, LOOKUP_SUCCESS), s1)))"

definition get_entry :: "transaction_data \<Rightarrow> string \<Rightarrow> 'e catalog_set \<Rightarrow> 'e catalog_version option \<times> 'e catalog_set" where
  "get_entry t name s = (case get_entry_detailed t name s of ((v, reason), s1) \<Rightarrow> (v, s1))"

section \<open>Writing\<close>

type_synonym 'e catalog_state = "'e catalog_set \<times> (string \<times> nat) list"

text \<open>\<^verbatim>\<open>CatalogEntryMap::UpdateEntry\<close> with the push to the undo buffer: the version that was the newest one is noted.\<close>

definition update_entry :: "'e catalog_version \<Rightarrow> 'e catalog_state \<Rightarrow> unit result \<times> 'e catalog_state" where
  "update_entry v = (\<lambda>(s, log).
     case cs_chains s (name_key (ver_name v)) of
       Some (old # rest) \<Rightarrow>
         (Inr (), s\<lparr>cs_chains := (cs_chains s)(name_key (ver_name v) \<mapsto> v # old # rest)\<rparr>, log @ [(name_key (ver_name v), ver_address old)])
     | _ \<Rightarrow> (Inl (InternalException (''Entry with name '' @ quote (ver_name v) @ '' does not exist'')), s, log))"

definition push_new ::
  "string \<Rightarrow> transaction_t \<Rightarrow> bool \<Rightarrow> bool \<Rightarrow> 'e version_content \<Rightarrow> 'e catalog_state \<Rightarrow> unit result \<times> 'e catalog_state" where
  "push_new name timestamp is_deleted internal content = (\<lambda>(s, log).
     case make_version name timestamp is_deleted internal content s of (v, s1) \<Rightarrow> update_entry v (s1, log))"

definition start_chain :: "string \<Rightarrow> 'e catalog_set \<Rightarrow> bool \<times> 'e catalog_set" where
  "start_chain name s =
     (case create_default_entry name s of
        (Some v, s1) \<Rightarrow> (False, s1)
      | (None, s1) \<Rightarrow>
          (case make_version name 0 True False INVALID_VERSION s1 of
             (dummy, s2) \<Rightarrow> (True, s2\<lparr>cs_chains := (cs_chains s2)(name_key name \<mapsto> [dummy])\<rparr>)))"

definition conflict_message :: "string \<Rightarrow> string \<Rightarrow> duck_error" where
  "conflict_message operation name =
     TransactionException (''Catalog write-write conflict on '' @ operation @ '' with '' @ quote name)"

definition verify_vacancy :: "transaction_data \<Rightarrow> 'e catalog_version \<Rightarrow> bool result" where
  "verify_vacancy t v = (if has_conflict t (ver_timestamp v) then Inl (conflict_message ''create'' (ver_name v)) else Inr (ver_deleted v))"

definition vacate :: "transaction_data \<Rightarrow> string \<Rightarrow> bool \<Rightarrow> 'e catalog_set \<Rightarrow> bool result \<times> 'e catalog_set" where
  "vacate t name should_be_empty s =
     (case cs_chains s (name_key name) of
        Some (v # vs) \<Rightarrow> (if should_be_empty then verify_vacancy t v else Inr True, s)
      | _ \<Rightarrow> (case start_chain name s of (started, s1) \<Rightarrow> (Inr started, s1)))"

definition create_entry_internal ::
  "transaction_data \<Rightarrow> string \<Rightarrow> bool \<Rightarrow> 'e version_content \<Rightarrow> bool \<Rightarrow> 'e catalog_state \<Rightarrow> bool result \<times> 'e catalog_state" where
  "create_entry_internal t name internal content should_be_empty = (\<lambda>(s, log).
     case vacate t name should_be_empty s of
       (Inl e, s1) \<Rightarrow> (Inl e, s1, log)
     | (Inr False, s1) \<Rightarrow> (Inr False, s1, log)
     | (Inr True, s1) \<Rightarrow>
         (case push_new name (td_transaction_id t) False internal content (s1, log) of
            (Inl e, st) \<Rightarrow> (Inl e, st)
          | (Inr _, st) \<Rightarrow> (Inr True, st)))"

text \<open>\<^verbatim>\<open>CheckCatalogEntryInvariants\<close>, for the kinds of catalogs.\<close>

datatype catalog_kind = NORMAL_CATALOG | SYSTEM_CATALOG | TEMPORARY_CATALOG

definition check_catalog_entry_invariants :: "catalog_kind \<Rightarrow> bool \<Rightarrow> bool \<Rightarrow> bool \<Rightarrow> string \<Rightarrow> unit result" where
  "check_catalog_entry_invariants kind internal temporary is_dependency name =
     (if internal \<and> kind \<noteq> SYSTEM_CATALOG \<and> name \<noteq> ''main''
      then Inl (InternalException (''Attempting to create internal entry '' @ quote name @
        '' in non-system catalog - internal entries can only be created in the system catalog''))
      else if \<not> internal \<and> \<not> temporary \<and> kind = SYSTEM_CATALOG \<and> \<not> is_dependency
      then Inl (InternalException (''Attempting to create non-internal entry '' @ quote name @
        '' in system catalog - the system catalog can only contain internal entries''))
      else if \<not> internal \<and> temporary \<and> kind \<noteq> TEMPORARY_CATALOG
      then Inl (InternalException (''Attempting to create temporary entry '' @ quote name @ '' in non-temporary catalog''))
      else if \<not> internal \<and> \<not> temporary \<and> kind = TEMPORARY_CATALOG \<and> name \<noteq> ''main''
      then Inl (InvalidInputException (''Cannot create non-temporary entry '' @ quote name @ '' in temporary catalog''))
      else Inr ())"

definition create_catalog_entry ::
  "catalog_kind \<Rightarrow> transaction_data \<Rightarrow> string \<Rightarrow> bool \<Rightarrow> bool \<Rightarrow> bool \<Rightarrow> 'e \<Rightarrow> 'e catalog_state \<Rightarrow> bool result \<times> 'e catalog_state" where
  "create_catalog_entry kind t name internal temporary is_dependency e st =
     (case check_catalog_entry_invariants kind internal temporary is_dependency name of
        Inl err \<Rightarrow> (Inl err, st)
      | Inr _ \<Rightarrow> create_entry_internal t name internal (EntryVersion e) True st)"

definition get_entry_internal :: "transaction_data \<Rightarrow> string \<Rightarrow> 'e catalog_set \<Rightarrow> 'e catalog_version option result" where
  "get_entry_internal t name s =
     (case cs_chains s (name_key name) of
        Some (v # vs) \<Rightarrow>
          (if has_conflict t (ver_timestamp v) then Inl (conflict_message ''alter'' (ver_name v))
           else if ver_deleted v then Inr None else Inr (Some v))
      | _ \<Rightarrow> Inr None)"

definition internal_error :: "string \<Rightarrow> string \<Rightarrow> duck_error" where
  "internal_error operation name =
     CatalogException (''Cannot '' @ operation @ '' entry '' @ quote name @ '' because it is an internal system entry'')"

definition drop_entry_internal :: "transaction_data \<Rightarrow> string \<Rightarrow> bool \<Rightarrow> 'e catalog_state \<Rightarrow> bool result \<times> 'e catalog_state" where
  "drop_entry_internal t name allow_drop_internal = (\<lambda>(s, log).
     case get_entry_internal t name s of
       Inl e \<Rightarrow> (Inl e, s, log)
     | Inr None \<Rightarrow> (Inr False, s, log)
     | Inr (Some v) \<Rightarrow>
         (if ver_internal v \<and> \<not> allow_drop_internal then (Inl (internal_error ''drop'' (ver_name v)), s, log)
          else
            (case push_new (ver_name v) (td_transaction_id t) True False DELETED_VERSION (s, log) of
               (Inl e, st) \<Rightarrow> (Inl e, st)
             | (Inr _, st) \<Rightarrow> (Inr True, st))))"

definition drop_entry :: "transaction_data \<Rightarrow> string \<Rightarrow> bool \<Rightarrow> 'e catalog_state \<Rightarrow> bool result \<times> 'e catalog_state" where
  "drop_entry t name allow_drop_internal = (\<lambda>(s, log).
     case get_entry t name s of
       (None, s1) \<Rightarrow> (Inr False, s1, log)
     | (Some v, s1) \<Rightarrow>
         (if ver_internal v \<and> \<not> allow_drop_internal then (Inl (internal_error ''drop'' (ver_name v)), s1, log)
          else drop_entry_internal t name allow_drop_internal (s1, log)))"

definition if_done :: "bool result \<times> 'e catalog_state \<Rightarrow> ('e catalog_state \<Rightarrow> bool result \<times> 'e catalog_state) \<Rightarrow> bool result \<times> 'e catalog_state" where
  "if_done r f = (case r of (Inr True, st) \<Rightarrow> f st | other \<Rightarrow> other)"

definition rename_entry_internal :: "transaction_data \<Rightarrow> string \<Rightarrow> string \<Rightarrow> 'e catalog_state \<Rightarrow> bool result \<times> 'e catalog_state" where
  "rename_entry_internal t original_name new_name = (\<lambda>(s, log).
     if (case Option.bind (cs_chains s (name_key new_name)) (get_entry_for_transaction t) of Some (_, v) \<Rightarrow> \<not> ver_deleted v | None \<Rightarrow> False)
     then (Inl (CatalogException (''Could not rename '' @ quote original_name @ '' to '' @ quote new_name @
        '': another entry with this name already exists!'')), s, log)
     else
       if_done (create_entry_internal t original_name False RENAMED_VERSION False (s, log)) (\<lambda>st1.
       if_done (drop_entry_internal t original_name False st1) (\<lambda>st2.
       create_entry_internal t new_name False RENAMED_VERSION True st2)))"

text \<open>\<^verbatim>\<open>AlterEntry\<close>. The alteration returns the new name, flag and content, or nothing when there is nothing to do.\<close>

definition alter_entry ::
  "transaction_data \<Rightarrow> string \<Rightarrow> bool \<Rightarrow> ('e \<Rightarrow> (string \<times> bool \<times> 'e) option result) \<Rightarrow> 'e catalog_state \<Rightarrow> bool result \<times> 'e catalog_state" where
  "alter_entry t name allow_internal alter = (\<lambda>(s, log).
     case get_entry t name s of
       (None, s1) \<Rightarrow> (Inr False, s1, log)
     | (Some v, s1) \<Rightarrow>
         (if \<not> allow_internal \<and> ver_internal v then (Inl (internal_error ''alter'' (ver_name v)), s1, log)
          else
            (case (case ver_content v of EntryVersion e \<Rightarrow> alter e | _ \<Rightarrow> Inl (InternalException ''Unsupported alter type for catalog entry!'')) of
               Inl e \<Rightarrow> (Inl e, s1, log)
             | Inr None \<Rightarrow> (Inr True, s1, log)
             | Inr (Some (new_name, internal, e)) \<Rightarrow>
                 (case get_entry_internal t name s1 of
                    Inl err \<Rightarrow> (Inl err, s1, log)
                  | Inr None \<Rightarrow> (Inl (UndefinedBehavior ''access through a null entry''), s1, log)
                  | Inr (Some old) \<Rightarrow>
                      if_done (if name_key new_name \<noteq> name_key (ver_name old) then rename_entry_internal t (ver_name old) new_name (s1, log) else (Inr True, s1, log))
                        (\<lambda>st.
                         case push_new new_name (td_transaction_id t) False internal (EntryVersion e) st of
                           (Inl err, st1) \<Rightarrow> (Inl err, st1)
                         | (Inr _, st1) \<Rightarrow> (Inr True, st1))))))"

section \<open>Commit, rollback and cleanup\<close>

text \<open>An undo entry names a version by its chain and address; its parent is the version above it.\<close>

fun map_parent :: "nat \<Rightarrow> ('e catalog_version \<Rightarrow> 'e catalog_version) \<Rightarrow> 'e catalog_version list \<Rightarrow> 'e catalog_version list" where
  "map_parent a f (p # v # vs) = (if ver_address v = a then f p # v # vs else p # map_parent a f (v # vs))"
| "map_parent a f vs = vs"

fun drop_parent :: "nat \<Rightarrow> 'e catalog_version list \<Rightarrow> 'e catalog_version list" where
  "drop_parent a (p # v # vs) = (if ver_address v = a then v # vs else p # drop_parent a (v # vs))"
| "drop_parent a vs = vs"

definition set_chain :: "string \<Rightarrow> 'e catalog_version list \<Rightarrow> 'e catalog_set \<Rightarrow> 'e catalog_set" where
  "set_chain key vs s = s\<lparr>cs_chains := (cs_chains s)(key := (if vs = [] then None else Some vs))\<rparr>"

definition with_chain :: "(string \<times> nat) \<Rightarrow> (nat \<Rightarrow> 'e catalog_version list \<Rightarrow> 'e catalog_version list) \<Rightarrow> 'e catalog_set \<Rightarrow> 'e catalog_set" where
  "with_chain ka f s = (case cs_chains s (fst ka) of None \<Rightarrow> s | Some vs \<Rightarrow> set_chain (fst ka) (f (snd ka) vs) s)"

definition commit_catalog :: "transaction_t \<Rightarrow> string \<times> nat \<Rightarrow> 'e catalog_set \<Rightarrow> 'e catalog_set" where
  "commit_catalog commit_id ka = with_chain ka (\<lambda>a. map_parent a (\<lambda>p. p\<lparr>ver_timestamp := commit_id\<rparr>))"

text \<open>\<^verbatim>\<open>CommitState::RevertCommit\<close> for a catalog entry: the old version is written too when its name differs from the name of the new one.\<close>

fun revert_chain :: "transaction_t \<Rightarrow> nat \<Rightarrow> 'e catalog_version list \<Rightarrow> 'e catalog_version list" where
  "revert_chain transaction_id a (p # v # vs) =
     (if ver_address v = a
      then p\<lparr>ver_timestamp := transaction_id\<rparr> # (if ver_name v \<noteq> ver_name p then v\<lparr>ver_timestamp := transaction_id\<rparr> else v) # vs
      else p # revert_chain transaction_id a (v # vs))"
| "revert_chain transaction_id a vs = vs"

definition revert_catalog :: "transaction_t \<Rightarrow> string \<times> nat \<Rightarrow> 'e catalog_set \<Rightarrow> 'e catalog_set" where
  "revert_catalog transaction_id ka = with_chain ka (revert_chain transaction_id)"

definition undo_chain :: "nat \<Rightarrow> 'e catalog_version list \<Rightarrow> 'e catalog_version list" where
  "undo_chain a vs = filter (\<lambda>v. \<not> (ver_address v = a \<and> ver_content v = INVALID_VERSION)) (drop_parent a vs)"

definition undo_catalog :: "string \<times> nat \<Rightarrow> 'e catalog_set \<Rightarrow> 'e catalog_set" where
  "undo_catalog ka = with_chain ka undo_chain"

definition cleanup_chain :: "nat \<Rightarrow> 'e catalog_version list \<Rightarrow> 'e catalog_version list" where
  "cleanup_chain a vs =
     (let vs1 = filter (\<lambda>v. ver_address v \<noteq> a) vs in
      if length vs1 = 1 \<and> ver_deleted (hd vs1) \<and> vs1 \<noteq> vs then [] else vs1)"

definition cleanup_catalog :: "string \<times> nat \<Rightarrow> 'e catalog_set \<Rightarrow> 'e catalog_set" where
  "cleanup_catalog ka = with_chain ka cleanup_chain"

section \<open>The writes of a transaction\<close>

definition chain_ok :: "nat \<Rightarrow> string \<Rightarrow> 'e catalog_version list \<Rightarrow> bool" where
  "chain_ok fresh key vs \<longleftrightarrow> vs \<noteq> [] \<and> ver_content (hd vs) \<noteq> INVALID_VERSION \<and> distinct (map ver_address vs) \<and>
     (\<forall>v \<in> set vs. ver_address v < fresh \<and> name_key (ver_name v) = key)"

definition set_ok :: "'e catalog_set \<Rightarrow> bool" where
  "set_ok s \<longleftrightarrow> (\<forall>key vs. cs_chains s key = Some vs \<longrightarrow> chain_ok (cs_fresh s) key vs)"

lemma chain_ok_mono: "chain_ok m key vs \<Longrightarrow> m \<le> n \<Longrightarrow> chain_ok n key vs"
  unfolding chain_ok_def by (meson less_le_trans)

lemma set_ok_upd:
  assumes "set_ok s" and "cs_fresh s \<le> n" and "chain_ok n key ws"
  shows "set_ok (s\<lparr>cs_fresh := n, cs_chains := (cs_chains s)(key \<mapsto> ws)\<rparr>)"
  using assms by (auto simp: set_ok_def intro: chain_ok_mono)

definition no_defaults :: "'e catalog_set \<Rightarrow> bool" where
  "no_defaults s \<longleftrightarrow> cs_defaults s = None \<or> cs_created_all s"

text \<open>What an operation may do to a set, whether it throws or not: put versions of the transaction on top of chains, start
  chains, and note each version that it covers.\<close>

inductive writes :: "transaction_t \<Rightarrow> 'e catalog_state \<Rightarrow> 'e catalog_state \<Rightarrow> bool" for tid where
  writes_refl: "writes tid st st"
| writes_fresh: "writes tid st (s, log) \<Longrightarrow> cs_fresh s \<le> n \<Longrightarrow> writes tid st (s\<lparr>cs_fresh := n\<rparr>, log)"
| writes_push: "writes tid st (s, log) \<Longrightarrow> cs_chains s key = Some vs \<Longrightarrow> vs \<noteq> [] \<Longrightarrow> ver_timestamp v = tid \<Longrightarrow> ver_content v \<noteq> INVALID_VERSION \<Longrightarrow>
    name_key (ver_name v) = key \<Longrightarrow> cs_fresh s = ver_address v \<Longrightarrow>
    writes tid st (s\<lparr>cs_fresh := Suc (ver_address v), cs_chains := (cs_chains s)(key \<mapsto> v # vs)\<rparr>, log @ [(key, ver_address (hd vs))])"
| writes_start: "writes tid st (s, log) \<Longrightarrow> cs_chains s key = None \<Longrightarrow> ver_timestamp v = tid \<Longrightarrow> ver_content v \<noteq> INVALID_VERSION \<Longrightarrow>
    name_key (ver_name v) = key \<Longrightarrow> ver_address v = Suc (cs_fresh s) \<Longrightarrow>
    ver_address d = cs_fresh s \<Longrightarrow> name_key (ver_name d) = key \<Longrightarrow> ver_deleted d \<Longrightarrow> ver_content d = INVALID_VERSION \<Longrightarrow>
    writes tid st (s\<lparr>cs_fresh := Suc (ver_address v), cs_chains := (cs_chains s)(key \<mapsto> [v, d])\<rparr>, log @ [(key, ver_address d)])"

lemma writes_trans:
  assumes "writes tid b c" and "writes tid a b"
  shows "writes tid a c"
  using assms
proof (induction rule: writes.induct)
  case (writes_fresh st s log n)
  then show ?case by (intro writes.writes_fresh) simp_all
next
  case (writes_push st s log key vs v)
  then show ?case by (intro writes.writes_push) simp_all
next
  case (writes_start st s log key v d)
  then show ?case by (intro writes.writes_start) simp_all
qed

lemma writes_ok:
  assumes "writes tid st st'" and "set_ok (fst st)"
  shows "set_ok (fst st') \<and> cs_defaults (fst st') = cs_defaults (fst st) \<and> cs_created_all (fst st') = cs_created_all (fst st)"
  using assms
proof (induction rule: writes.induct)
  case (writes_fresh st s log n)
  have "chain_ok n key vs" if "cs_chains s key = Some vs" for key vs
  proof (rule chain_ok_mono [OF _ writes_fresh.hyps(2)])
    show "chain_ok (cs_fresh s) key vs" using writes_fresh.IH [OF writes_fresh.prems] that by (simp add: set_ok_def)
  qed
  then show ?case using writes_fresh by (simp add: set_ok_def)
next
  case (writes_push st s log key vs v)
  then have ok: "set_ok s" by simp
  then have vs: "chain_ok (cs_fresh s) key vs" using writes_push.hyps(2) by (simp add: set_ok_def)
  then have "ver_address v \<notin> ver_address ` set vs" using writes_push.hyps(7) by (auto simp: chain_ok_def)
  then have "chain_ok (Suc (ver_address v)) key (v # vs)"
    using chain_ok_mono [OF vs, of "Suc (ver_address v)"] writes_push.hyps by (simp add: chain_ok_def)
  then show ?case using writes_push set_ok_upd [OF ok, of "Suc (ver_address v)"] by simp
next
  case (writes_start st s log key v d)
  then have ok: "set_ok s" by simp
  have "chain_ok (Suc (ver_address v)) key [v, d]" using writes_start.hyps by (simp add: chain_ok_def)
  then show ?case using writes_start set_ok_upd [OF ok, of "Suc (ver_address v)"] by simp
qed simp

section \<open>Operations only write\<close>

lemma create_default_none: "no_defaults s \<Longrightarrow> create_default_entry name s = (None, s)"
  by (auto simp: create_default_entry_def no_defaults_def split: option.splits)

lemma get_entry_no_change: "no_defaults s \<Longrightarrow> snd (get_entry t name s) = s"
  by (auto simp: get_entry_def get_entry_detailed_def create_default_none split: option.splits)

lemma push_new_writes:
  assumes "set_ok s" and "content \<noteq> INVALID_VERSION"
  shows "writes tid (s, log) (snd (push_new name tid del internal content (s, log)))"
proof (cases "cs_chains s (name_key name)")
  case None
  then show ?thesis
    using writes_fresh [OF writes_refl, of s "Suc (cs_fresh s)" tid log] by (simp add: push_new_def make_version_def update_entry_def)
next
  case (Some vs)
  then obtain old rest where vs: "vs = old # rest" using assms(1) by (cases vs) (auto simp: set_ok_def chain_ok_def)
  let ?v = "\<lparr>ver_address = cs_fresh s, ver_name = name, ver_timestamp = tid, ver_deleted = del, ver_internal = internal, ver_content = content\<rparr>"
  have "writes tid (s, log) (s\<lparr>cs_fresh := Suc (ver_address ?v), cs_chains := (cs_chains s)(name_key name \<mapsto> ?v # vs)\<rparr>, log @ [(name_key name, ver_address (hd vs))])"
    by (rule writes_push [OF writes_refl Some]) (use assms(2) vs in simp_all)
  then show ?thesis using Some vs by (simp add: push_new_def make_version_def update_entry_def)
qed

lemma create_internal_writes:
  fixes s :: "'e catalog_set"
  assumes "set_ok s" and "no_defaults s" and "content \<noteq> INVALID_VERSION"
  shows "writes (td_transaction_id t) (s, log) (snd (create_entry_internal t name internal content should_be_empty (s, log)))"
proof (cases "cs_chains s (name_key name)")
  case None
  let ?d = "\<lparr>ver_address = cs_fresh s, ver_name = name, ver_timestamp = 0, ver_deleted = True, ver_internal = False, ver_content = INVALID_VERSION :: 'e version_content\<rparr>"
  let ?v = "\<lparr>ver_address = Suc (cs_fresh s), ver_name = name, ver_timestamp = td_transaction_id t, ver_deleted = False, ver_internal = internal, ver_content = content\<rparr>"
  have "writes (td_transaction_id t) (s, log) (s\<lparr>cs_fresh := Suc (ver_address ?v), cs_chains := (cs_chains s)(name_key name \<mapsto> [?v, ?d])\<rparr>, log @ [(name_key name, ver_address ?d)])"
    by (rule writes_start [OF writes_refl None, where v = ?v and d = ?d]) (use assms(3) in simp_all)
  then show ?thesis
    using None by (simp add: create_entry_internal_def vacate_def start_chain_def create_default_none [OF assms(2)] make_version_def push_new_def update_entry_def)
next
  case (Some vs)
  then obtain old rest where vs: "vs = old # rest" using assms(1) by (cases vs) (auto simp: set_ok_def chain_ok_def)
  have w: "writes (td_transaction_id t) (s, log) (snd (push_new name (td_transaction_id t) False internal content (s, log)))"
    using assms(1,3) by (rule push_new_writes)
  show ?thesis using Some vs w
    by (auto simp: create_entry_internal_def vacate_def writes_refl split: if_splits sum.splits bool.splits prod.splits)
qed

lemma drop_internal_writes:
  assumes "set_ok s"
  shows "writes (td_transaction_id t) (s, log) (snd (drop_entry_internal t name allow (s, log)))"
proof -
  have "writes (td_transaction_id t) (s, log) (snd (push_new n (td_transaction_id t) True False DELETED_VERSION (s, log)))" for n
    using assms by (rule push_new_writes) simp
  then show ?thesis by (auto simp: drop_entry_internal_def writes_refl split: sum.splits option.splits prod.splits) (metis snd_conv)+
qed

abbreviation state_ok :: "'e catalog_state \<Rightarrow> bool" where
  "state_ok st \<equiv> set_ok (fst st) \<and> no_defaults (fst st)"

lemma writes_state_ok: "writes tid st st' \<Longrightarrow> state_ok st \<Longrightarrow> state_ok st'"
  using writes_ok [of tid st st'] by (auto simp: no_defaults_def)

lemma if_done_writes:
  assumes "state_ok st" and "writes tid st (snd r)" and "\<And>st1. state_ok st1 \<Longrightarrow> writes tid st1 (snd (f st1))"
  shows "writes tid st (snd (if_done r f))"
proof -
  obtain res st1 where r: "r = (res, st1)" by (cases r)
  have "writes tid st (snd (f st1))" using assms r writes_trans [OF assms(3)] writes_state_ok by (metis snd_conv)
  then show ?thesis using assms(2) r by (cases res) (auto simp: if_done_def split: bool.splits)
qed

lemma create_internal_writes': "state_ok st \<Longrightarrow> content \<noteq> INVALID_VERSION \<Longrightarrow>
  writes (td_transaction_id t) st (snd (create_entry_internal t name internal content should_be_empty st))"
  using create_internal_writes [of "fst st" content t "snd st"] by simp

lemma drop_internal_writes': "state_ok st \<Longrightarrow> writes (td_transaction_id t) st (snd (drop_entry_internal t name allow st))"
  using drop_internal_writes [of "fst st" t "snd st"] by simp

lemma rename_writes:
  assumes "state_ok st"
  shows "writes (td_transaction_id t) st (snd (rename_entry_internal t original_name new_name st))"
proof -
  obtain s log where st: "st = (s, log)" by (cases st)
  have "writes (td_transaction_id t) st (snd (if_done (create_entry_internal t original_name False RENAMED_VERSION False st) (\<lambda>st1.
       if_done (drop_entry_internal t original_name False st1) (\<lambda>st2. create_entry_internal t new_name False RENAMED_VERSION True st2))))"
    by (intro if_done_writes assms create_internal_writes' drop_internal_writes') simp_all
  then show ?thesis by (simp add: rename_entry_internal_def st writes_refl)
qed

lemma alter_writes:
  fixes st :: "'e catalog_state"
  assumes "state_ok st"
  shows "writes (td_transaction_id t) st (snd (alter_entry t name allow_internal alter st))"
proof -
  obtain s log where st: "st = (s, log)" by (cases st)
  have g: "get_entry t name s = (v, s1) \<Longrightarrow> s1 = s" for v s1 using get_entry_no_change [of s t name] assms st by auto
  let ?push = "\<lambda>new_name internal e st. case push_new new_name (td_transaction_id t) False internal (EntryVersion e) st of
      (Inl err, st1) \<Rightarrow> (Inl err, st1) | (Inr _, st1) \<Rightarrow> (Inr True, st1)"
  have "writes (td_transaction_id t) st1 (snd (?push new_name internal e st1))" if "state_ok st1" for new_name internal and e :: 'e and st1
    using push_new_writes [of "fst st1" "EntryVersion e" "td_transaction_id t" "snd st1" new_name False internal] that by (auto split: prod.splits sum.splits)
  then have "writes (td_transaction_id t) (s, log) (snd (if_done r (?push new_name internal e)))" if "writes (td_transaction_id t) (s, log) (snd r)"
    for r new_name internal and e :: 'e
    using assms that st by (intro if_done_writes) (auto simp del: split_paired_All)
  from this [OF rename_writes [OF assms, of t, unfolded st]] this [of "(Inr True, s, log)"] show ?thesis using g
    by (auto simp: alter_entry_def st writes_refl split: prod.splits option.splits sum.splits version_content.splits)
qed

lemma drop_writes:
  assumes "state_ok st"
  shows "writes (td_transaction_id t) st (snd (drop_entry t name allow st))"
proof -
  obtain s log where st: "st = (s, log)" by (cases st)
  have g: "get_entry t name s = (v, s1) \<Longrightarrow> s1 = s" for v s1 using get_entry_no_change [of s t name] assms st by auto
  then show ?thesis using drop_internal_writes' [OF assms, of t name allow]
    by (auto simp: drop_entry_def st writes_refl split: prod.splits option.splits)
qed

text \<open>The statements of a transaction, one after the other. A statement that throws may have written.\<close>

datatype 'e catalog_op = CreateOp string bool bool bool 'e | DropOp string bool | AlterOp string bool "'e \<Rightarrow> (string \<times> bool \<times> 'e) option result"

fun run_op :: "catalog_kind \<Rightarrow> transaction_data \<Rightarrow> 'e catalog_op \<Rightarrow> 'e catalog_state \<Rightarrow> bool result \<times> 'e catalog_state" where
  "run_op kind t (CreateOp name internal temporary is_dependency e) st = create_catalog_entry kind t name internal temporary is_dependency e st"
| "run_op kind t (DropOp name allow) st = drop_entry t name allow st"
| "run_op kind t (AlterOp name allow alter) st = alter_entry t name allow alter st"

definition run_ops :: "catalog_kind \<Rightarrow> transaction_data \<Rightarrow> 'e catalog_op list \<Rightarrow> 'e catalog_state \<Rightarrow> 'e catalog_state" where
  "run_ops kind t ops st = fold (\<lambda>op st. snd (run_op kind t op st)) ops st"

lemma run_op_writes: "state_ok st \<Longrightarrow> writes (td_transaction_id t) st (snd (run_op kind t op st))"
  by (cases op) (auto simp: create_catalog_entry_def writes_refl intro: create_internal_writes' drop_writes alter_writes split: sum.splits)

lemma run_ops_writes: "state_ok st \<Longrightarrow> writes (td_transaction_id t) st (run_ops kind t ops st)"
proof (induction ops arbitrary: st)
  case (Cons op ops)
  have one: "writes (td_transaction_id t) st (snd (run_op kind t op st))" using Cons.prems by (rule run_op_writes)
  from writes_trans [OF Cons.IH [OF writes_state_ok [OF one Cons.prems]] one] show ?case by (simp add: run_ops_def)
qed (simp add: run_ops_def writes_refl)

section \<open>What transactions see\<close>

text \<open>The name and content that a transaction finds under a name, as \<^verbatim>\<open>GetEntry\<close> returns them when there are no default entries.\<close>

definition catalog_view :: "transaction_data \<Rightarrow> 'e catalog_set \<Rightarrow> string \<Rightarrow> (string \<times> 'e version_content) option" where
  "catalog_view t s key =
     (case Option.bind (cs_chains s key) (get_entry_for_transaction t) of
        Some (visible, v) \<Rightarrow> if ver_deleted v then None else Some (ver_name v, ver_content v)
      | None \<Rightarrow> None)"

lemma get_entry_view:
  assumes "no_defaults s"
  shows "map_option (\<lambda>v. (ver_name v, ver_content v)) (fst (get_entry t name s)) = catalog_view t s (name_key name)"
  using assms by (auto simp: get_entry_def get_entry_detailed_def catalog_view_def create_default_none split: option.splits)

lemma lookup_skip:
  assumes "\<forall>v \<in> set ns. \<not> use_timestamp u (ver_timestamp v)" and "base \<noteq> []"
  shows "get_entry_for_transaction u (ns @ base) = get_entry_for_transaction u base"
  using assms(1)
proof (induction ns)
  case (Cons v ns)
  obtain w ws where "ns @ base = w # ws" using assms(2) by (cases "ns @ base") auto
  then show ?case using Cons by simp
qed simp

lemma lookup_own:
  assumes "use_timestamp u (ver_timestamp (hd ns))" and "ns \<noteq> []" and "base \<noteq> []"
  shows "get_entry_for_transaction u (ns @ base) = Some (True, hd ns)"
proof -
  obtain w ws where "tl ns @ base = w # ws" using assms(3) by (cases "tl ns @ base") auto
  then show ?thesis using assms(1,2) by (cases ns) simp_all
qed

text \<open>The chain of a name after the writes of a transaction: new versions on top of what was there, or of a deleted one.\<close>

definition grown :: "transaction_t \<Rightarrow> (string \<times> nat) list \<Rightarrow> 'e catalog_version list option \<Rightarrow> 'e catalog_version list option \<Rightarrow> string \<Rightarrow> bool" where
  "grown tid log old_chain chain key \<longleftrightarrow>
     (chain = old_chain \<and> (\<forall>a. (key, a) \<notin> set log)) \<or>
     (\<exists>ns base. chain = Some (ns @ base) \<and> ns \<noteq> [] \<and> base \<noteq> [] \<and> (\<forall>v \<in> set ns. ver_timestamp v = tid) \<and>
        (old_chain = Some base \<or> old_chain = None \<and> (\<exists>d. base = [d] \<and> ver_deleted d)) \<and>
        {a. (key, a) \<in> set log} = ver_address ` set (tl (ns @ [hd base])))"

lemma grownI:
  assumes "ns \<noteq> []" and "base \<noteq> []" and "\<forall>v \<in> set ns. ver_timestamp v = tid"
    and "old_chain = Some base \<or> old_chain = None \<and> (\<exists>d. base = [d] \<and> ver_deleted d)"
    and "{a. (key, a) \<in> set log} = ver_address ` set (tl (ns @ [hd base]))"
  shows "grown tid log old_chain (Some (ns @ base)) key"
  unfolding grown_def using assms by blast

lemma log_snoc: "{a. (key, a) \<in> set (log @ [(key, b)])} = insert b {a. (key, a) \<in> set log}"
  by auto

lemma grown_push:
  assumes "grown tid log old_chain (Some vs) key" and "vs \<noteq> []" and "ver_timestamp v = tid"
  shows "grown tid (log @ [(key, ver_address (hd vs))]) old_chain (Some (v # vs)) key"
proof -
  consider (same) "old_chain = Some vs" "\<forall>a. (key, a) \<notin> set log"
    | (more) ns base where "vs = ns @ base" "ns \<noteq> []" "base \<noteq> []" "\<forall>v \<in> set ns. ver_timestamp v = tid"
      "old_chain = Some base \<or> old_chain = None \<and> (\<exists>d. base = [d] \<and> ver_deleted d)" "{a. (key, a) \<in> set log} = ver_address ` set (tl (ns @ [hd base]))"
    using assms(1) unfolding grown_def by blast
  then show ?thesis
  proof cases
    case same
    have "grown tid (log @ [(key, ver_address (hd vs))]) old_chain (Some ([v] @ vs)) key"
      by (rule grownI) (use same assms(2,3) in \<open>simp_all add: log_snoc\<close>)
    then show ?thesis by simp
  next
    case more
    have "grown tid (log @ [(key, ver_address (hd vs))]) old_chain (Some ((v # ns) @ base)) key"
    proof (rule grownI)
      show "{a. (key, a) \<in> set (log @ [(key, ver_address (hd vs))])} = ver_address ` set (tl ((v # ns) @ [hd base]))"
        unfolding log_snoc more(6) using more(1,2) by (cases ns) simp_all
    qed (use more assms(3) in simp_all)
    then show ?thesis using more(1) by simp
  qed
qed

lemma grown_start:
  assumes "grown tid log old_chain None key" and "ver_timestamp v = tid" and "ver_deleted d"
  shows "grown tid (log @ [(key, ver_address d)]) old_chain (Some [v, d]) key"
proof -
  have old: "old_chain = None" "\<forall>a. (key, a) \<notin> set log" using assms(1) unfolding grown_def by blast+
  have "grown tid (log @ [(key, ver_address d)]) old_chain (Some ([v] @ [d])) key"
    by (rule grownI) (use old assms(2,3) in \<open>simp_all add: log_snoc\<close>)
  then show ?thesis by simp
qed

lemma grown_other: "grown tid log old_chain chain key \<Longrightarrow> k \<noteq> key \<Longrightarrow> grown tid (log @ [(k, a)]) old_chain chain key"
  by (simp add: grown_def)

lemma writes_grown:
  assumes "writes tid st0 st"
  shows "\<exists>log. snd st = snd st0 @ log \<and> (\<forall>key. grown tid log (cs_chains (fst st0) key) (cs_chains (fst st) key) key)"
  using assms
proof (induction rule: writes.induct)
  case (writes_refl st)
  show ?case by (intro exI [of _ "[]"]) (simp add: grown_def)
next
  case (writes_fresh st s l n)
  then show ?case by simp
next
  case (writes_push st s l k vs v)
  then obtain log where log: "l = snd st @ log" "\<forall>key. grown tid log (cs_chains (fst st) key) (cs_chains s key) key" by auto
  have "grown tid (log @ [(k, ver_address (hd vs))]) (cs_chains (fst st) key) (((cs_chains s)(k \<mapsto> v # vs)) key) key" for key
  proof (cases "key = k")
    case True
    have "grown tid log (cs_chains (fst st) k) (Some vs) k" using log(2) writes_push.hyps(2) by metis
    from grown_push [OF this writes_push.hyps(3,4)] show ?thesis using True by simp
  next
    case False
    then show ?thesis using grown_other [OF log(2) [rule_format, of key], of k] by simp
  qed
  then show ?case using log(1) by (intro exI [of _ "log @ [(k, ver_address (hd vs))]"]) simp
next
  case (writes_start st s l k v d)
  then obtain log where log: "l = snd st @ log" "\<forall>key. grown tid log (cs_chains (fst st) key) (cs_chains s key) key" by auto
  have "grown tid (log @ [(k, ver_address d)]) (cs_chains (fst st) key) (((cs_chains s)(k \<mapsto> [v, d])) key) key" for key
  proof (cases "key = k")
    case True
    have "grown tid log (cs_chains (fst st) k) None k" using log(2) writes_start.hyps(2) by metis
    from grown_start [OF this writes_start.hyps(3,9)] show ?thesis using True by simp
  next
    case False
    then show ?thesis using grown_other [OF log(2) [rule_format, of key], of k] by simp
  qed
  then show ?case using log(1) by (intro exI [of _ "log @ [(k, ver_address d)]"]) simp
qed

section \<open>Rollback\<close>

lemma with_chain_chains: "cs_chains (with_chain ka f s) key =
    (if key = fst ka then Option.bind (cs_chains s key) (\<lambda>vs. if f (snd ka) vs = [] then None else Some (f (snd ka) vs)) else cs_chains s key)"
  by (cases "cs_chains s (fst ka)") (auto simp: with_chain_def set_chain_def)

lemma fold_undo_cong: "cs_chains s1 = cs_chains s2 \<Longrightarrow> cs_chains (fold undo_catalog xs s1) = cs_chains (fold undo_catalog xs s2)"
proof (induction xs arbitrary: s1 s2)
  case (Cons x xs)
  have "cs_chains (undo_catalog x s1) = cs_chains (undo_catalog x s2)"
    using Cons.prems by (intro ext) (simp add: undo_catalog_def with_chain_chains)
  from Cons.IH [OF this] show ?case by simp
qed simp

lemma undo_push:
  assumes "chain_ok n key vs"
  shows "undo_chain (ver_address (hd vs)) (v # vs) = vs"
proof -
  obtain w ws where vs: "vs = w # ws" using assms by (cases vs) (auto simp: chain_ok_def)
  have "distinct (map ver_address (w # ws))" and w: "ver_content w \<noteq> INVALID_VERSION" using assms vs by (simp_all add: chain_ok_def)
  then have "x \<in> set ws \<Longrightarrow> ver_address x \<noteq> ver_address w" for x by (metis distinct.simps(2) image_eqI list.set_map list.simps(9))
  then have "filter (\<lambda>x. \<not> (ver_address x = ver_address w \<and> ver_content x = INVALID_VERSION)) ws = ws" by (intro filter_True) simp
  then show ?thesis using w by (simp add: undo_chain_def vs)
qed

lemma writes_undo:
  assumes "writes tid st0 st" and "set_ok (fst st0)"
  shows "\<exists>log. snd st = snd st0 @ log \<and> cs_chains (fold undo_catalog (rev log) (fst st)) = cs_chains (fst st0)"
  using assms
proof (induction rule: writes.induct)
  case (writes_refl st)
  show ?case by (intro exI [of _ "[]"]) simp
next
  case (writes_fresh st s l n)
  then show ?case using fold_undo_cong [of "s\<lparr>cs_fresh := n\<rparr>" s] by auto
next
  case (writes_push st s l k vs v)
  then obtain log where log: "l = snd st @ log" "cs_chains (fold undo_catalog (rev log) s) = cs_chains (fst st)" by auto
  have "set_ok s" using writes_ok [OF writes_push.hyps(1) writes_push.prems] by simp
  then have ok: "chain_ok (cs_fresh s) k vs" using writes_push.hyps(2) by (simp add: set_ok_def)
  let ?s = "s\<lparr>cs_fresh := Suc (ver_address v), cs_chains := (cs_chains s)(k \<mapsto> v # vs)\<rparr>"
  have "cs_chains (undo_catalog (k, ver_address (hd vs)) ?s) = cs_chains s"
    using undo_push [OF ok] writes_push.hyps(2,3) by (intro ext) (simp add: undo_catalog_def with_chain_chains)
  from fold_undo_cong [OF this, of "rev log"] log show ?case
    by (intro exI [of _ "log @ [(k, ver_address (hd vs))]"]) simp
next
  case (writes_start st s l k v d)
  then obtain log where log: "l = snd st @ log" "cs_chains (fold undo_catalog (rev log) s) = cs_chains (fst st)" by auto
  let ?s = "s\<lparr>cs_fresh := Suc (ver_address v), cs_chains := (cs_chains s)(k \<mapsto> [v, d])\<rparr>"
  have "cs_chains (undo_catalog (k, ver_address d) ?s) = cs_chains s"
    using writes_start.hyps by (intro ext) (simp add: undo_catalog_def with_chain_chains undo_chain_def)
  from fold_undo_cong [OF this, of "rev log"] log show ?case
    by (intro exI [of _ "log @ [(k, ver_address d)]"]) simp
qed

text \<open>
  C20. A rollback restores the catalog: after any statements of a transaction, creations, drops, alterations and
  renames, that succeed or throw, undoing the noted versions from the last one on gives every chain of
  versions back as it was.
\<close>

theorem catalog_rollback_restores:
  assumes "set_ok s" and "no_defaults s" and "run_ops kind t ops (s, []) = (s', log)"
  shows "cs_chains (fold undo_catalog (rev log) s') = cs_chains s"
  using writes_undo [OF run_ops_writes [of "(s, [])" t kind ops]] assms by simp

section \<open>Commit\<close>

fun commit_where :: "nat set \<Rightarrow> transaction_t \<Rightarrow> 'e catalog_version list \<Rightarrow> 'e catalog_version list" where
  "commit_where A c (p # v # vs) = (if ver_address v \<in> A then p\<lparr>ver_timestamp := c\<rparr> else p) # commit_where A c (v # vs)"
| "commit_where A c vs = vs"

abbreviation stamp :: "transaction_t \<Rightarrow> 'e catalog_version \<Rightarrow> 'e catalog_version" where
  "stamp c \<equiv> (\<lambda>p. p\<lparr>ver_timestamp := c\<rparr>)"

lemma commit_where_shape: "map ver_address (commit_where A c vs) = map ver_address vs" "commit_where A c vs = [] \<longleftrightarrow> vs = []"
  by (induction A c vs rule: commit_where.induct) auto

lemma commit_where_new: "a \<notin> ver_address ` set (tl vs) \<Longrightarrow> commit_where (insert a A) c vs = commit_where A c vs"
  by (induction A c vs rule: commit_where.induct) auto

lemma commit_where_hd: "vs \<noteq> [] \<Longrightarrow> ver_address (hd (commit_where A c vs)) = ver_address (hd vs)"
  using commit_where_shape(1) [of A c vs] by (metis commit_where_shape(2) hd_map)

lemma map_parent_where:
  assumes "distinct (map ver_address vs)"
  shows "map_parent a (stamp c) (commit_where A c vs) = commit_where (insert a A) c vs"
  using assms
proof (induction A c vs rule: commit_where.induct)
  case (1 A c p v vs)
  obtain w ws where w: "commit_where A c (v # vs) = w # ws" using commit_where_shape(2) [of A c "v # vs"] by (cases "commit_where A c (v # vs)") auto
  have wa: "ver_address w = ver_address v" using commit_where_hd [of "v # vs" A c] w by simp
  show ?case
  proof (cases "ver_address v = a")
    case True
    have "commit_where (insert a A) c (v # vs) = commit_where A c (v # vs)" by (rule commit_where_new) (use 1 True in auto)
    then show ?thesis using True w wa by simp
  next
    case False
    then show ?thesis using 1 w wa by auto
  qed
qed simp_all

lemma commit_where_grown:
  assumes "distinct (map ver_address (ns @ base))" and "base \<noteq> []" and "ns \<noteq> []"
  shows "commit_where (ver_address ` set (tl (ns @ [hd base]))) c (ns @ base) = map (stamp c) ns @ base"
proof -
  have base: "commit_where A c base = base" if "A \<inter> ver_address ` set (tl base) = {}" for A
    using that by (induction A c base rule: commit_where.induct) auto
  have "commit_where A c (ns @ base) = map (stamp c) ns @ base" if "ver_address ` set (tl (ns @ [hd base])) \<subseteq> A" "A \<inter> ver_address ` set (tl base) = {}" for A
    using that(1)
  proof (induction ns)
    case Nil
    then show ?case using base [OF that(2)] by simp
  next
    case (Cons n ns)
    obtain v vs where v: "ns @ base = v # vs" "ver_address v \<in> A" using Cons.prems assms(2) by (cases ns; cases base) auto
    have "ver_address ` set (tl (ns @ [hd base])) \<subseteq> A" using Cons.prems by (cases ns) auto
    then show ?case using Cons.IH v by simp
  qed
  moreover have "ver_address ` set (tl (ns @ [hd base])) \<inter> ver_address ` set (tl base) = {}"
  proof -
    obtain b bs where b: "base = b # bs" using assms(2) by (cases base) auto
    have "set (tl (ns @ [hd base])) \<subseteq> insert b (set ns)" using b by (cases ns) auto
    then show ?thesis using assms(1) b by fastforce
  qed
  ultimately show ?thesis by blast
qed

lemma committed_chain:
  assumes "distinct (map ver_address (the (cs_chains s key)))" and "cs_chains s key \<noteq> Some []"
  shows "cs_chains (fold (commit_catalog c) log s) key = map_option (commit_where {a. (key, a) \<in> set log} c) (cs_chains s key)"
proof (induction log rule: rev_induct)
  case Nil
  have "commit_where {} c vs = vs" for vs :: "'a catalog_version list" by (induction "{} :: nat set" c vs rule: commit_where.induct) auto
  then show ?case by (cases "cs_chains s key") simp_all
next
  case (snoc x log)
  obtain k a where x: "x = (k, a)" by (cases x)
  show ?case
  proof (cases "cs_chains s key")
    case None
    then show ?thesis using snoc by (auto simp: commit_catalog_def with_chain_chains)
  next
    case (Some vs)
    have ne: "vs \<noteq> []" "distinct (map ver_address vs)" using assms Some by auto
    have set: "{b. (key, b) \<in> set (log @ [x])} = (if k = key then insert a {b. (key, b) \<in> set log} else {b. (key, b) \<in> set log})" using x by auto
    have "commit_where B c vs \<noteq> []" for B using ne(1) commit_where_shape(2) by blast
    then show ?thesis using snoc Some map_parent_where [OF ne(2), of a c "{b. (key, b) \<in> set log}"] unfolding set
      by (cases "k = key") (auto simp: commit_catalog_def with_chain_chains x)
  qed
qed

section \<open>Snapshots of the catalog\<close>

definition proper :: "transaction_data \<Rightarrow> bool" where
  "proper t \<longleftrightarrow> td_start_time t < transaction_id_start \<and> transaction_id_start \<le> td_transaction_id t"

lemma grown_view_skip:
  assumes "grown tid log (cs_chains s key) (cs_chains s' key) key" and "\<not> use_timestamp u tid"
  shows "catalog_view u s' key = catalog_view u s key"
proof -
  consider "cs_chains s' key = cs_chains s key"
    | ns base where "cs_chains s' key = Some (ns @ base)" "base \<noteq> []" "\<forall>v \<in> set ns. ver_timestamp v = tid"
      "cs_chains s key = Some base \<or> cs_chains s key = None \<and> (\<exists>d. base = [d] \<and> ver_deleted d)"
    using assms(1) unfolding grown_def by blast
  then show ?thesis
  proof cases
    case 2
    have "get_entry_for_transaction u (ns @ base) = get_entry_for_transaction u base" by (rule lookup_skip) (use 2 assms(2) in auto)
    then show ?thesis using 2(1,4) by (auto simp: catalog_view_def)
  qed (simp add: catalog_view_def)
qed

lemma grown_view_own:
  assumes "grown tid log (cs_chains s key) (cs_chains s' key) key" and "key \<in> fst ` set log" and "use_timestamp u tid" and "use_timestamp w tid"
  shows "catalog_view u s' key = catalog_view w s' key"
proof -
  obtain ns base where ns: "cs_chains s' key = Some (ns @ base)" "ns \<noteq> []" "base \<noteq> []" "\<forall>v \<in> set ns. ver_timestamp v = tid"
    using assms(1,2) unfolding grown_def by fastforce
  have "get_entry_for_transaction x (ns @ base) = Some (True, hd ns)" if "use_timestamp x tid" for x
    by (rule lookup_own) (use ns that in auto)
  then show ?thesis using assms(3,4) ns(1) by (simp add: catalog_view_def)
qed

lemma grown_same:
  assumes "grown tid log old_chain chain key" and "key \<notin> fst ` set log"
  shows "chain = old_chain"
proof -
  have "{a. (key, a) \<in> set log} = {}" using assms(2) by force
  moreover have "ver_address ` set (tl (ns @ [hd base])) \<noteq> {}" if "ns \<noteq> []" for ns base :: "'a catalog_version list" using that by (cases ns) auto
  ultimately show ?thesis using assms(1) unfolding grown_def by metis
qed

text \<open>A commit turns the chains that a transaction has grown into chains grown by the commit number, with the same entries on top.\<close>

lemma committed_grown:
  assumes "grown tid log (cs_chains s key) (cs_chains s' key) key" and "set_ok s'"
  shows "grown c log (cs_chains s key) (cs_chains (fold (commit_catalog c) log s') key) key"
    and "key \<in> fst ` set log \<Longrightarrow> use_timestamp t tid \<Longrightarrow> use_timestamp w c \<Longrightarrow>
      catalog_view w (fold (commit_catalog c) log s') key = catalog_view t s' key"
proof -
  have d: "distinct (map ver_address (the (cs_chains s' key)))" if "cs_chains s' key \<noteq> None" using assms(2) that by (auto simp: set_ok_def chain_ok_def)
  have ne: "cs_chains s' key \<noteq> Some []" using assms(2) by (auto simp: set_ok_def chain_ok_def)
  consider (same) "cs_chains s' key = cs_chains s key" "\<forall>a. (key, a) \<notin> set log"
    | (more) ns base where "cs_chains s' key = Some (ns @ base)" "ns \<noteq> []" "base \<noteq> []" "\<forall>v \<in> set ns. ver_timestamp v = tid"
      "cs_chains s key = Some base \<or> cs_chains s key = None \<and> (\<exists>d. base = [d] \<and> ver_deleted d)" "{a. (key, a) \<in> set log} = ver_address ` set (tl (ns @ [hd base]))"
    using assms(1) unfolding grown_def by blast
  then have "grown c log (cs_chains s key) (cs_chains (fold (commit_catalog c) log s') key) key \<and>
      (key \<in> fst ` set log \<longrightarrow> use_timestamp t tid \<longrightarrow> use_timestamp w c \<longrightarrow> catalog_view w (fold (commit_catalog c) log s') key = catalog_view t s' key)"
  proof cases
    case same
    have "commit_where {} c vs = vs" for vs :: "'a catalog_version list" by (induction "{} :: nat set" c vs rule: commit_where.induct) auto
    moreover have "{a. (key, a) \<in> set log} = {}" "key \<notin> fst ` set log" using same(2) by auto
    ultimately have "cs_chains (fold (commit_catalog c) log s') key = cs_chains s key"
    proof (cases "cs_chains s' key")
      case None
      have "cs_chains (fold (commit_catalog c) l s') key = None" for l
        using None by (induction l rule: rev_induct) (auto simp: commit_catalog_def with_chain_chains)
      then show ?thesis using None same(1) by simp
    next
      case (Some vs)
      then show ?thesis using committed_chain [OF d ne, of c log] same(1) \<open>{a. (key, a) \<in> set log} = {}\<close> \<open>\<And>vs. commit_where {} c vs = vs\<close> by simp
    qed
    then show ?thesis using same(2) \<open>key \<notin> fst ` set log\<close> by (simp add: grown_def)
  next
    case more
    have "cs_chains (fold (commit_catalog c) log s') key = Some (map (stamp c) ns @ base)"
      using committed_chain [OF d ne, of c log] commit_where_grown [OF _ more(3,2), of c] d more(1,6) by simp
    moreover have "grown c log (cs_chains s key) (Some (map (stamp c) ns @ base)) key"
    proof (rule grownI)
      show "{a. (key, a) \<in> set log} = ver_address ` set (tl (map (stamp c) ns @ [hd base]))"
        unfolding more(6) using more(2) by (cases ns) (simp_all add: image_image)
    qed (use more in auto)
    moreover have "get_entry_for_transaction t (ns @ base) = Some (True, hd ns)" if "use_timestamp t tid"
      by (rule lookup_own) (use more that in auto)
    moreover have "get_entry_for_transaction w (map (stamp c) ns @ base) = Some (True, stamp c (hd ns))" if "use_timestamp w c"
      using lookup_own [of w "map (stamp c) ns" base] more(2,3) that by (cases ns) auto
    ultimately show ?thesis using more(1) by (simp add: catalog_view_def)
  qed
  then show "grown c log (cs_chains s key) (cs_chains (fold (commit_catalog c) log s') key) key"
    "key \<in> fst ` set log \<Longrightarrow> use_timestamp t tid \<Longrightarrow> use_timestamp w c \<Longrightarrow> catalog_view w (fold (commit_catalog c) log s') key = catalog_view t s' key"
    by blast+
qed

text \<open>
  C4. Snapshot isolation of the catalog. While a transaction runs its statements, all others see what they saw before. Its commit
  changes nothing for the transactions that began before it; a transaction that begins afterwards sees the names that the
  transaction wrote as that one saw them, and all other names as before.
\<close>

theorem catalog_snapshot_isolation:
  assumes "set_ok s" and "no_defaults s" and "run_ops kind t ops (s, []) = (s', log)" and "proper t" and "proper u" and "td_transaction_id u \<noteq> td_transaction_id t"
    and "c < transaction_id_start"
  shows "catalog_view u s' key = catalog_view u s key \<and>
    catalog_view u (fold (commit_catalog c) log s') key =
      (if c < td_start_time u \<and> key \<in> fst ` set log then catalog_view t s' key else catalog_view u s key)"
proof -
  let ?t = "td_transaction_id t"
  have w: "writes ?t (s, []) (s', log)" using run_ops_writes [of "(s, [])" t kind ops] assms(1-3) by simp
  then have g: "grown ?t log (cs_chains s key) (cs_chains s' key) key" using writes_grown [OF w] by simp
  have ok: "set_ok s'" using writes_ok [OF w] assms(1) by simp
  have no: "\<not> use_timestamp u ?t" using assms(4-6) by (simp add: use_timestamp_def proper_def)
  have own: "use_timestamp t ?t" by (simp add: use_timestamp_def)
  note com = committed_grown [OF g ok, where c = c]
  show ?thesis
  proof (cases "c < td_start_time u \<and> key \<in> fst ` set log")
    case True
    then show ?thesis using grown_view_skip [OF g no] com(2) [OF _ own, of u] by (simp add: use_timestamp_def)
  next
    case False
    have "catalog_view u (fold (commit_catalog c) log s') key = catalog_view u s key"
    proof (cases "key \<in> fst ` set log")
      case True
      then have "\<not> use_timestamp u c" using False assms(5,7) by (auto simp: use_timestamp_def proper_def)
      then show ?thesis by (rule grown_view_skip [OF com(1)])
    next
      case False
      have "cs_chains (fold (commit_catalog c) log s') key = cs_chains s key"
        using grown_same [OF com(1) False] .
      then show ?thesis by (simp add: catalog_view_def)
    qed
    then show ?thesis using grown_view_skip [OF g no] False by auto
  qed
qed

definition demo_set :: "nat catalog_set" where
  "demo_set = \<lparr>cs_chains = Map.empty, cs_fresh = 0, cs_defaults = None, cs_created_all = False\<rparr>"

definition demo_writer :: transaction_data where
  "demo_writer = \<lparr>td_transaction_id = 4611686018427388001, td_start_time = 5\<rparr>"

definition demo_reader :: transaction_data where
  "demo_reader = \<lparr>td_transaction_id = 4611686018427388002, td_start_time = 9\<rparr>"

definition demo_ops :: "nat catalog_op list" where
  "demo_ops = [CreateOp ''m'' False False False 1, DropOp ''m'' False, CreateOp ''m'' False False False 3]"

lemmas catalog_create_eval = create_catalog_entry_def check_catalog_entry_invariants_def create_entry_internal_def vacate_def start_chain_def create_default_entry_def
  make_version_def push_new_def update_entry_def verify_vacancy_def has_conflict_def created_by_other_active_def committed_after_starting_def

lemmas catalog_drop_eval = drop_entry_def get_entry_def get_entry_detailed_def use_timestamp_def get_entry_internal_def drop_entry_internal_def

lemma demo_lower: "to_lower CHR ''m'' = CHR ''m''"
  by code_simp

abbreviation demo_version :: "nat \<Rightarrow> bool \<Rightarrow> nat version_content \<Rightarrow> nat catalog_version" where
  "demo_version a d c \<equiv> \<lparr>ver_address = a, ver_name = ''m'', ver_timestamp = (if a = 0 then 0 else 4611686018427388001), ver_deleted = d, ver_internal = False, ver_content = c\<rparr>"

lemma demo_step1: "create_catalog_entry NORMAL_CATALOG demo_writer ''m'' False False False 1 (demo_set, []) =
    (Inr True, \<lparr>cs_chains = [''m'' \<mapsto> [demo_version 1 False (EntryVersion 1), demo_version 0 True INVALID_VERSION]], cs_fresh = 2, cs_defaults = None, cs_created_all = False\<rparr>, [(''m'', 0)])"
  by (simp add: demo_set_def demo_writer_def catalog_create_eval demo_lower)

lemma demo_step2: "drop_entry demo_writer ''m'' False
    (\<lparr>cs_chains = [''m'' \<mapsto> [demo_version 1 False (EntryVersion 1), demo_version 0 True INVALID_VERSION]], cs_fresh = 2, cs_defaults = None, cs_created_all = False\<rparr>, [(''m'', 0)]) =
    (Inr True, \<lparr>cs_chains = [''m'' \<mapsto> [demo_version 2 True DELETED_VERSION, demo_version 1 False (EntryVersion 1), demo_version 0 True INVALID_VERSION]],
      cs_fresh = 3, cs_defaults = None, cs_created_all = False\<rparr>, [(''m'', 0), (''m'', 1)])"
  by (simp add: demo_writer_def catalog_create_eval catalog_drop_eval demo_lower transaction_id_start_def)

lemma demo_step3: "create_catalog_entry NORMAL_CATALOG demo_writer ''m'' False False False 3
    (\<lparr>cs_chains = [''m'' \<mapsto> [demo_version 2 True DELETED_VERSION, demo_version 1 False (EntryVersion 1), demo_version 0 True INVALID_VERSION]],
      cs_fresh = 3, cs_defaults = None, cs_created_all = False\<rparr>, [(''m'', 0), (''m'', 1)]) =
    (Inr True, \<lparr>cs_chains = [''m'' \<mapsto> [demo_version 3 False (EntryVersion 3), demo_version 2 True DELETED_VERSION, demo_version 1 False (EntryVersion 1), demo_version 0 True INVALID_VERSION]],
      cs_fresh = 4, cs_defaults = None, cs_created_all = False\<rparr>, [(''m'', 0), (''m'', 1), (''m'', 2)])"
  by (simp add: demo_writer_def catalog_create_eval demo_lower transaction_id_start_def)

lemma demo_run: "run_ops NORMAL_CATALOG demo_writer demo_ops (demo_set, []) =
    (\<lparr>cs_chains = [''m'' \<mapsto> [demo_version 3 False (EntryVersion 3), demo_version 2 True DELETED_VERSION, demo_version 1 False (EntryVersion 1), demo_version 0 True INVALID_VERSION]],
      cs_fresh = 4, cs_defaults = None, cs_created_all = False\<rparr>, [(''m'', 0), (''m'', 1), (''m'', 2)])"
  unfolding run_ops_def demo_ops_def fold.simps comp_def id_apply run_op.simps demo_step1 demo_step2 demo_step3 snd_conv ..

theorem catalog_snapshot_isolation_witness:
  "\<exists>s' log. run_ops NORMAL_CATALOG demo_writer demo_ops (demo_set, []) = (s', log) \<and> catalog_view demo_reader s' ''m'' = None \<and>
    catalog_view demo_reader (fold (commit_catalog 7) log s') ''m'' = Some (''m'', EntryVersion 3)"
proof -
  have ok: "set_ok demo_set" "no_defaults demo_set" by (simp_all add: set_ok_def no_defaults_def demo_set_def)
  have p: "proper demo_writer" "proper demo_reader" "td_transaction_id demo_reader \<noteq> td_transaction_id demo_writer" "7 < transaction_id_start"
    by (simp_all add: proper_def demo_writer_def demo_reader_def transaction_id_start_def)
  have "7 < td_start_time demo_reader" by (simp add: demo_reader_def)
  then show ?thesis using catalog_snapshot_isolation [OF ok demo_run p, of "''m''"]
    by (simp add: demo_run) (simp add: catalog_view_def demo_set_def demo_writer_def use_timestamp_def)
qed

theorem catalog_rollback_restores_witness:
  "\<exists>s' log. run_ops NORMAL_CATALOG demo_writer demo_ops (demo_set, []) = (s', log) \<and> length log = 3 \<and> cs_chains (fold undo_catalog (rev log) s') = Map.empty"
proof -
  have ok: "set_ok demo_set" "no_defaults demo_set" by (simp_all add: set_ok_def no_defaults_def demo_set_def)
  have e: "cs_chains demo_set = Map.empty" by (simp add: demo_set_def)
  show ?thesis unfolding demo_run using catalog_rollback_restores [OF ok demo_run] unfolding e by auto
qed

section \<open>Conflicts and cleanup\<close>

text \<open>A name whose newest version another transaction wrote, or committed after this one began, cannot be written: the statement throws and nothing changes.\<close>

lemma write_conflict:
  assumes "cs_chains s (name_key name) = Some (v # vs)" and "has_conflict t (ver_timestamp v)"
  shows "create_entry_internal t name internal content True (s, log) = (Inl (conflict_message ''create'' (ver_name v)), s, log)"
    and "drop_entry_internal t name allow (s, log) = (Inl (conflict_message ''alter'' (ver_name v)), s, log)"
  using assms by (simp_all add: create_entry_internal_def vacate_def verify_vacancy_def drop_entry_internal_def get_entry_internal_def)

text \<open>The cleanup of a version is invisible to every transaction that sees the version above it.\<close>

lemma cleanup_invisible:
  assumes "cs_chains s key = Some (pre @ p # old # post)" and "distinct (map ver_address (pre @ p # old # post))" and "use_timestamp u (ver_timestamp p)"
  shows "catalog_view u (cleanup_catalog (key, ver_address old) s) key = catalog_view u s key"
proof -
  let ?vs = "pre @ p # old # post"
  have a: "ver_address old \<notin> ver_address ` set (pre @ p # post)" using assms(2) by auto
  then have "filter (\<lambda>v. ver_address v \<noteq> ver_address old) pre = pre" "filter (\<lambda>v. ver_address v \<noteq> ver_address old) post = post"
    "ver_address p \<noteq> ver_address old"
    by (auto intro!: filter_True simp: image_iff) (metis UnI1, metis UnI2)
  then have f: "filter (\<lambda>v. ver_address v \<noteq> ver_address old) ?vs = pre @ p # post" by simp
  have top: "\<exists>b b' x. get_entry_for_transaction u (xs @ p # post) = Some (b, x) \<and> get_entry_for_transaction u (xs @ p # old # post) = Some (b', x)" for xs
  proof (induction xs)
    case Nil
    show ?case using assms(3) by (cases post) auto
  next
    case (Cons x xs)
    obtain w ws where w: "xs @ p # post = w # ws" by (cases "xs @ p # post") auto
    obtain w' ws' where w': "xs @ p # old # post = w' # ws'" by (cases "xs @ p # old # post") auto
    show ?case using Cons w w' by auto
  qed
  obtain b b' x where x: "get_entry_for_transaction u (pre @ p # post) = Some (b, x)" "get_entry_for_transaction u ?vs = Some (b', x)" using top by blast
  have c: "cleanup_chain (ver_address old) ?vs = (if pre = [] \<and> post = [] \<and> ver_deleted p then [] else pre @ p # post)"
    unfolding cleanup_chain_def Let_def f by (cases pre) auto
  show ?thesis
  proof (cases "pre = [] \<and> post = [] \<and> ver_deleted p")
    case True
    then show ?thesis using x assms(1) c by (simp add: catalog_view_def cleanup_catalog_def with_chain_chains)
  next
    case False
    then have "cleanup_chain (ver_address old) ?vs = pre @ p # post" using c by argo
    then show ?thesis using x assms(1) by (simp add: catalog_view_def cleanup_catalog_def with_chain_chains)
  qed
qed

text \<open>When the commit of a change of upper and lower case in a name fails, the reversal writes the old version too. After the rollback
  the entry is gone for all other transactions.\<close>

theorem case_change_hides_entry:
  assumes "td_start_time u < transaction_id_start" and "transaction_id_start \<le> tid" and "tid \<noteq> td_transaction_id u" and "c < td_start_time u"
    and "ver_name new \<noteq> ver_name old" and "ver_timestamp old = c" and "ver_content old = EntryVersion e" and "\<not> ver_deleted old" and "ver_deleted d"
    and "distinct (map ver_address [new, old, d])" and "cs_chains s key = Some [old, d]" and "ver_timestamp new = tid"
  shows "catalog_view u s key = Some (ver_name old, EntryVersion e) \<and>
    catalog_view u (undo_catalog (key, ver_address old) (revert_catalog tid (key, ver_address old) (s\<lparr>cs_chains := (cs_chains s)(key \<mapsto> [new, old, d])\<rparr>))) key = None"
  using assms by (auto simp: catalog_view_def undo_catalog_def revert_catalog_def with_chain_chains undo_chain_def use_timestamp_def)

end
