(* ===== verification/Spec2Isabelle.thy ===== *)
theory Spec2Isabelle
  imports PowerOfTwo PhysicalFilter BatchLimit LimitOptimizer SplitPredict EmptyResultPullup ExpressionTypes
    Prompt ModelCatalog PredictBinder TransactionManager UpdateHistory UndoCommit LlmAggregate CatalogSet
begin

text \<open>
  \<^bold>\<open>The program.\<close> The repository is a fork of the DuckDB database engine, extended with
  inference by machine-learning and language models inside SQL (iPDB): models are catalog entries, a
  query may contain PREDICT operators and semantic predicates whose prompts name input and
  output columns, and the optimizer moves limits and filters around these expensive
  operators. Below that sits the engine: operators that push chunks of rows, and tables whose
  rows carry versions for concurrent transactions. The development models these two layers.
  Paths without \<^verbatim>\<open>src/\<close> in front are under \<^verbatim>\<open>src/src/\<close>.

  \<^bold>\<open>From the statement to the plan.\<close>
  \<^item> \<^verbatim>\<open>Prompt\<close>: the prompt language of a predict clause, that is the search for input and output
    placeholders, the types of the outputs, and the checks of the transformer
    (\<^verbatim>\<open>include/duckdb/common/prompt.hpp\<close>, \<^verbatim>\<open>parser/transform/expression/transform_predict.cpp\<close>).
  \<^item> \<^verbatim>\<open>ModelCatalog\<close>: CREATE MODEL from the parse tree to the catalog entry, its copies and its SQL,
    and the choice of a model for a clause.
  \<^item> \<^verbatim>\<open>PredictBinder\<close>: the binding of a clause to a model, with the output columns and the masks
    that say which source columns the model reads.
  \<^item> \<^verbatim>\<open>ExpressionTypes\<close>: the expression types, their names, negation and flipping.

  \<^bold>\<open>Plans and the optimizer.\<close>
  \<^item> \<^verbatim>\<open>LogicalPlan\<close>: the operators as a datatype, column bindings as the code computes them, and
    a relational meaning: a plan denotes the list of its possible results, where a limit without an
    order may pick any rows, and operators outside the model take their meaning from a
    parameter. The passes are compared through this meaning.
  \<^item> \<^verbatim>\<open>LimitOptimizer\<close>: limit pushdown (\<^verbatim>\<open>optimizer/limit_pushdown.cpp\<close>) and the propagation of a limit
    into a semantic filter, with refinement of results, termination, and the cases where the
    code throws or loses rows. Limits that are expressions right above a predictor are left out of the refinement.
  \<^item> \<^verbatim>\<open>SplitPredict\<close>: the decomposition of a semantic join predicate into extractions and a
    comparison. The language model is a parameter, and so is its decomposition. The other conditions of a filter
    that is split are dropped by the code; the theorem compares with the filter that has the predicate alone.
  \<^item> \<^verbatim>\<open>EmptyResultPullup\<close>: the propagation of empty inputs. The interface of a bottom-up
    pass is a locale; the pass is an interpretation of it.

  \<^bold>\<open>Execution.\<close>
  \<^item> \<^verbatim>\<open>DataChunk\<close>: columns of values with a row count and the operations that the operators call.
  \<^item> \<^verbatim>\<open>PowerOfTwo\<close>: the rounding of capacities on 64-bit words.
  \<^item> \<^verbatim>\<open>StreamingLimit\<close>, \<^verbatim>\<open>PhysicalFilter\<close>: the streaming limit and the filter with a propagated limit,
    run over any sequence of chunks. The loop of the filter is a partial function into option,
    and the theorems prove that it returns.
  \<^item> \<^verbatim>\<open>BatchLimit\<close>: the parallel limit over batches that several threads sink in any order, with the
    batched data collection it keeps them in.

  \<^bold>\<open>Inference by a language model.\<close> (\<^verbatim>\<open>src/third_party/predictors/common\<close> and \<^verbatim>\<open>llm_api\<close>)
  \<^item> \<^verbatim>\<open>LlmJson\<close>: the prompt text of a row, the JSON document inside of an answer, and the conversion of its
    fields into the values of the result columns.
  \<^item> \<^verbatim>\<open>LlmPredict\<close>: requests and responses, single and batched calls, and \<^verbatim>\<open>PredictChunk\<close> with its
    cache, its grouping of equal prompts, its rounds of threads and its retries. The network
    is an argument; for a model that answers, the rows are those of asking row by row.
  \<^item> \<^verbatim>\<open>LlmTasks\<close>: configuration, aggregates, scans and the semantic join over distinct items.
  \<^item> \<^verbatim>\<open>PredictOperator\<close>: the operators that run inference, from the key of the secret and the choice of a
    predictor to the rows of the output, predict expressions, and the physical plan. What the
    operators need from the class \<^verbatim>\<open>Predictor\<close> is the locale \<^verbatim>\<open>row_predictor\<close>, interpreted on the predictor of
    \<^verbatim>\<open>LlmPredict\<close>.
  \<^item> \<^verbatim>\<open>LlmAggregate\<close>: the aggregate that asks a model about the rows of a group, and its binding. Vectors come with their kind, since
    the code drops the rows of vectors that are not flat, and what a destroyed string reads as is an argument, since the code
    destroys a state when it initializes it.

  \<^bold>\<open>Storage and transactions.\<close>
  \<^item> \<^verbatim>\<open>ChunkInfo\<close> (\<^verbatim>\<open>storage/table/chunk_info.cpp\<close>): the insert and delete marks of a vector of rows. The
    promises that scans and fetches rest on are the locale \<^verbatim>\<open>chunk_versions\<close>, interpreted on the
    constant and on the vector representation.
  \<^item> \<^verbatim>\<open>RowVersion\<close> (\<^verbatim>\<open>storage/table/row_version_manager.cpp\<close>): the version information of a row group:
    append, delete, commit, cleanup, checkpoint and reload, each described by its effect on the
    pair of marks of every row. The entry of a delete in the undo buffer is made here, in its two forms, a list of rows or
    the first rows of a vector.
  \<^item> \<^verbatim>\<open>UpdateSegment\<close> (\<^verbatim>\<open>storage/table/update_segment.cpp\<close>): in-place updates of a column. Memory is a map from
    addresses to update infos that are linked both ways; the meaning of a chain is a list of versions,
    and \<open>view\<close> says what a transaction reads through it. \<^verbatim>\<open>UpdateChains\<close> refines the operations on memory
    to operations on versions, and \<^verbatim>\<open>UpdateHistory\<close> runs them in histories of concurrent
    transactions: snapshot isolation, own updates, conflicts, commit and rollback.
  \<^item> \<^verbatim>\<open>UndoBuffer\<close> (\<^verbatim>\<open>transaction/undo_buffer.cpp\<close>, \<^verbatim>\<open>undo_buffer_allocator.cpp\<close>): the memory of the entries that a
    transaction writes, and the walks over them. Writing an entry destroys the entries whose bytes it overlaps, and none ever
    does; \<^verbatim>\<open>UndoCommit\<close> (\<^verbatim>\<open>duck_transaction.cpp\<close>, \<^verbatim>\<open>commit_state.cpp\<close>,
    \<^verbatim>\<open>rollback_state.cpp\<close>, \<^verbatim>\<open>cleanup_state.cpp\<close>): what commit, its reversal, rollback and cleanup do with an
    entry. What the commit needs from the version information of rows and from update segments is the locale
    \<^verbatim>\<open>marked_store\<close>, interpreted on both. Appends and catalog entries act there on a rest of the state whose operations are
    arguments; appends to version information are covered by \<^verbatim>\<open>RowVersion\<close>.
  \<^item> \<^verbatim>\<open>CatalogSet\<close> (\<^verbatim>\<open>catalog/catalog_set.cpp\<close>): chains of versions of catalog entries under a name, their lookups, and
    creation, drop, alteration and renaming as writes that a transaction notes for its undo buffer; commit, its
    reversal, rollback and cleanup of what was noted. Shown are snapshot isolation for lookups and that a rollback gives
    every chain back.
  \<^item> \<^verbatim>\<open>StorageLock\<close> (\<^verbatim>\<open>storage/storage_lock.cpp\<close>): shared and exclusive keys as a step relation over threads.
  \<^item> \<^verbatim>\<open>TransactionManager\<close> (\<^verbatim>\<open>transaction/duck_transaction_manager.cpp\<close>): timestamps, the lists of
    transactions, commit, rollback, checkpoint decisions and the cleanup queue, as a step
    relation with an invariant of the reachable states.

  \<^bold>\<open>Across components\<close>, in this theory: the streaming limit above a filter with a propagated
  limit; snapshot isolation of an append, from the timestamps that the manager hands out to
  the rows that a fetch accepts; and the cleanup queue of the manager applied to version
  information.

  \<^bold>\<open>Conventions.\<close> An exception is the left value of a sum with the class of the code and its
  message (\<^verbatim>\<open>DuckPrelude\<close>); a state is a record that each operation returns updated. 64-bit indexes are
  natural numbers with the wrap-around written out where a value can reach it, words where
  bits matter; the transaction counters are natural numbers, and a theorem bounds them below
  64 bits. A thread interleaving is a sequence of steps, each a section that the code
  runs under a lock. No loop has fuel: recursion follows the data or has a termination
  proof, or the function is partial and returns None where the code would not return.

  \<^bold>\<open>Not modelled.\<close> The operator for graph models, which no plan uses, the inference sessions of external libraries
  (ONNX, TorchScript, llama.cpp), the HTTP client, the embedding task and the clustering of
  rows, which is switched off. The log, the block manager, the dependencies between catalog entries, indexes and the
  local storage of a transaction: their outcomes are arguments of the commit. Of the engine, the
  parser, the function library, joins, aggregates, sorting, compression, the remaining optimizer
  passes, the file formats and the client interfaces; vendored libraries, extensions and tools.
  D_ASSERT is not modelled: it is not compiled into release builds.
\<close>

section \<open>A limit above a filter\<close>

lemma take_drop_prefix: "take n xs = take n ys \<Longrightarrow> off + l \<le> n \<Longrightarrow> take l (drop off xs) = take l (drop off ys)"
proof -
  assume same: "take n xs = take n ys" and le: "off + l \<le> n"
  have "take l (drop off zs) = drop off (take (off + l) (take n zs))" for zs :: "'a list"
    using le by (simp add: take_drop min_absorb1 add.commute)
  with same show ?thesis by metis
qed

text \<open>
  C24. A streaming limit above a filter into which a limit was propagated returns exactly the
  window of the qualifying rows, for every split of the input into chunks, whenever the
  propagated limit is at least the offset plus the limit of the query. The filter returns on
  every input.
\<close>

theorem limit_over_filter:
  assumes "\<forall>c \<in> set cs. wf_chunk c \<and> chunk_count c \<le> standard_vector_size"
    and "initial_limit lv = Some l" and "initial_offset ov = Some off" and "l < 2 ^ 63" and "off < 2 ^ 63"
    and "limit = -1 \<or> int (off + l) \<le> limit"
    and "length (concat (map chunk_rows cs)) < idx_mod"
  shows "\<exists>outs. filter_run p limit \<lparr>limit_reached = False\<rparr> cs = Some (Inr outs) \<and>
    streaming_limit_run ev lv ov (streaming_limit_init lv ov) outs
      = Inr (take l (drop off (filter p (concat (map chunk_rows cs)))))"
proof -
  have lim: "limit = -1 \<or> 0 \<le> limit" using assms(6) by auto
  obtain outs rest where run: "filter_run p limit \<lparr>limit_reached = False\<rparr> cs = Some (Inr outs)"
    and rows: "filter p (concat (map chunk_rows cs)) = concat (map chunk_rows outs) @ rest"
    and wf: "\<forall>c \<in> set outs. wf_chunk c"
    and stop: "rest = [] \<or> (0 \<le> limit \<and> nat limit \<le> length (concat (map chunk_rows outs)))"
    using filter_run_prefix [OF assms(1) lim, of "\<lparr>limit_reached = False\<rparr>" p] by auto
  have "sum_list (map chunk_count outs) = length (concat (map chunk_rows outs))"
    by (simp add: length_concat chunk_rows_def comp_def)
  also have "\<dots> \<le> length (filter p (concat (map chunk_rows cs)))" by (simp add: rows)
  also have "\<dots> \<le> length (concat (map chunk_rows cs))" by (rule length_filter_le)
  finally have small: "0 + sum_list (map chunk_count outs) < idx_mod" using assms(7) by simp
  have "off + l < idx_mod" "l \<noteq> invalid_index" using assms(4,5) by (simp_all add: invalid_index_def)
  from streaming_limit_run_window [OF wf this small, of ev lv ov]
  have "streaming_limit_run ev lv ov (streaming_limit_init lv ov) outs = Inr (take l (drop off (concat (map chunk_rows outs))))"
    using assms(2,3) by (simp add: streaming_limit_init_def set_initial_limits_def window_rows_start)
  moreover have "take l (drop off (concat (map chunk_rows outs))) = take l (drop off (filter p (concat (map chunk_rows cs))))"
    using stop assms(6) unfolding rows by (intro take_drop_prefix [of "off + l"]) auto
  ultimately show ?thesis using run by metis
qed

theorem limit_over_filter_witness:
  "\<exists>outs. filter_run (\<lambda>r. hd r > (15 :: nat)) 2 \<lparr>limit_reached = False\<rparr>
       [chunk_of_rows 1 [[10], [20], [30]], chunk_of_rows 1 [[40]]] = Some (Inr outs) \<and>
     streaming_limit_run (\<lambda>_ _. None) (CONSTANT_VALUE 1) (CONSTANT_VALUE 1 :: nat bound_limit_node)
       (streaming_limit_init (CONSTANT_VALUE 1) (CONSTANT_VALUE 1 :: nat bound_limit_node)) outs = Inr [[30]]"
proof -
  let ?cs = "[chunk_of_rows 1 [[10], [20], [30]], chunk_of_rows 1 [[40 :: nat]]]"
  have "\<exists>outs. filter_run (\<lambda>r. hd r > (15 :: nat)) 2 \<lparr>limit_reached = False\<rparr> ?cs = Some (Inr outs) \<and>
     streaming_limit_run (\<lambda>_ _. None) (CONSTANT_VALUE 1) (CONSTANT_VALUE 1 :: nat bound_limit_node)
       (streaming_limit_init (CONSTANT_VALUE 1) (CONSTANT_VALUE 1 :: nat bound_limit_node)) outs
     = Inr (take 1 (drop 1 (filter (\<lambda>r. hd r > 15) (concat (map chunk_rows ?cs)))))"
    by (rule limit_over_filter) (simp_all add: standard_vector_size_def rows_chunk_of_rows)
  moreover have "take 1 (drop 1 (filter (\<lambda>r. hd r > 15) (concat (map chunk_rows ?cs)))) = [[30]]"
    by (simp add: rows_chunk_of_rows)
  ultimately show ?thesis by metis
qed

section \<open>Snapshots of running transactions\<close>

text \<open>What a transaction passes to the version information.\<close>

definition transaction_data_of :: "duck_transaction \<Rightarrow> transaction_data" where
  "transaction_data_of t = \<lparr>td_transaction_id = tx_id t, td_start_time = tx_start_time t\<rparr>"

lemma active_running:
  assumes "tm_reachable m" and "t \<in> set (active_transactions m)"
  shows "running (transaction_data_of t)" "tx_start_time t < transaction_id_start" "transaction_id_start \<le> tx_id t"
proof -
  have inv: "active_ok m" "counters_ok m" using reachable_invs [OF assms(1)] by auto
  then show "tx_start_time t < transaction_id_start" "transaction_id_start \<le> tx_id t"
    using assms(2) by (auto simp: active_ok_def)
  have "tx_id t < current_transaction_id m" "0 < tx_start_time t" using inv assms(2) by (auto simp: active_ok_def)
  moreover have "current_transaction_id m \<le> 2 * transaction_id_start" using inv by (simp add: counters_ok_def)
  moreover have "2 * transaction_id_start < not_deleted_id" by (simp add: transaction_id_start_def not_deleted_id_def)
  ultimately show "running (transaction_data_of t)"
    using \<open>tx_start_time t < transaction_id_start\<close> by (simp add: running_def valid_transaction_def transaction_data_of_def)
qed

text \<open>
  C1. Snapshot isolation of an append from the start of its transaction to its commit: while the
  transaction runs, it is the only active one that sees the rows; its commit, with the commit
  id that the manager gives, returns; no transaction that is still active then sees the rows,
  every transaction that starts afterwards does, and no other row changes for any of them.
\<close>

theorem append_snapshot_isolation:
  assumes "tm_reachable m" and "t \<in> set (active_transactions m)" and "current_start_timestamp m < transaction_id_start"
    and "rv_append_version_info (transaction_data_of t) count a b rv = Inr rv1" and "a < b" and "b < idx_mod" and "undeleted a b rv"
    and "commit_finish q undo wal_error storage_error rollback_error t m = Inr (None, t', m')"
  shows "\<exists>rv2. rv_commit_append (tx_commit_id t') a (b - a) rv1 = Inr rv2 \<and>
    (\<forall>u \<in> set (active_transactions m). \<forall>r. rv_fetch (transaction_data_of u) r rv1 =
       (if a \<le> r \<and> r < b then tx_id u = tx_id t else rv_fetch (transaction_data_of u) r rv)) \<and>
    (\<forall>u \<in> set (active_transactions m'). \<forall>r. rv_fetch (transaction_data_of u) r rv2 =
       (\<not> (a \<le> r \<and> r < b) \<and> rv_fetch (transaction_data_of u) r rv)) \<and>
    (\<forall>u m''. start_transaction m' = Inr (u, m'') \<longrightarrow> (\<forall>r. rv_fetch (transaction_data_of u) r rv2 =
       (a \<le> r \<and> r < b \<or> rv_fetch (transaction_data_of u) r rv)))"
proof -
  have reach': "tm_reachable m'" using assms(1) tm_step.commit [OF assms(2,8)] by (rule tm_reachable.step)
  note order = commit_order [OF assms(1,2,8)]
  have c: "tx_commit_id t' < transaction_id_start" by (rule commit_removes [OF assms(8)]) (use assms(3) in simp)
  have t: "transaction_id_start \<le> td_transaction_id (transaction_data_of t)"
    using active_running(3) [OF assms(1,2)] by (simp add: transaction_data_of_def)
  from append_commit_seen [OF assms(4-7) t c] obtain rv2 where
    rv2: "rv_commit_append (tx_commit_id t') a (b - a) rv1 = Inr rv2" and
    vis: "\<And>u r. running u \<Longrightarrow> td_start_time u < transaction_id_start \<Longrightarrow> transaction_id_start \<le> td_transaction_id u \<Longrightarrow>
       rv_fetch u r rv1 = (if a \<le> r \<and> r < b then td_transaction_id u = tx_id t else rv_fetch u r rv) \<and>
       rv_fetch u r rv2 = (if a \<le> r \<and> r < b then tx_commit_id t' < td_start_time u else rv_fetch u r rv)"
    by (auto simp: transaction_data_of_def)
  have seen: "rv_fetch (transaction_data_of u) r rv1 = (if a \<le> r \<and> r < b then tx_id u = tx_id t else rv_fetch (transaction_data_of u) r rv) \<and>
       rv_fetch (transaction_data_of u) r rv2 = (if a \<le> r \<and> r < b then tx_commit_id t' < tx_start_time u else rv_fetch (transaction_data_of u) r rv)"
    if "tm_reachable m0" "u \<in> set (active_transactions m0)" for m0 u r
    using vis [of "transaction_data_of u" r] active_running [OF that] by (simp add: transaction_data_of_def)
  have later: "u \<in> set (active_transactions m'')" "tm_reachable m''" if "start_transaction m' = Inr (u, m'')" for u m''
    using that tm_reachable.step [OF reach' tm_step.start] start_active by blast+
  have "rv_fetch (transaction_data_of u) r rv2 = (\<not> (a \<le> r \<and> r < b) \<and> rv_fetch (transaction_data_of u) r rv)"
    if "u \<in> set (active_transactions m')" for u r
    using seen [OF reach' that, of r] order that by (auto dest: less_asym)
  moreover have "rv_fetch (transaction_data_of u) r rv2 = (a \<le> r \<and> r < b \<or> rv_fetch (transaction_data_of u) r rv)"
    if "start_transaction m' = Inr (u, m'')" for u m'' r
    using seen [OF later(2,1) [OF that], of r] order that by auto
  moreover note seen [OF assms(1)]
  ultimately show ?thesis using rv2 by blast
qed

theorem append_snapshot_isolation_witness:
  "\<exists>rv1 rv2 t' m' u m''.
     rv_append_version_info (transaction_data_of (fst one_active)) 5 0 5 (new_row_version_manager 0) = Inr rv1 \<and>
     commit_finish 1 appends_only None None None (fst one_active) (snd one_active) = Inr (None, t', m') \<and>
     rv_commit_append (tx_commit_id t') 0 5 rv1 = Inr rv2 \<and> start_transaction m' = Inr (u, m'') \<and>
     rv_fetch (transaction_data_of u) 2 rv2"
proof -
  obtain rv1 where rv1: "rv_append_version_info (transaction_data_of (fst one_active)) 5 0 5 (new_row_version_manager 0) = Inr rv1"
    by (simp add: rv_append_version_info_def new_row_version_manager_def touched_def append_vector_def vector_range_def
        standard_vector_size_def fill_vector_info_def)
  have un: "undeleted 0 5 (new_row_version_manager 0)"
    by (simp add: undeleted_def rv_version_def rv_get_chunk_info_def new_row_version_manager_def)
  obtain t' m' where c: "commit_finish 1 appends_only None None None (fst one_active) (snd one_active) = Inr (None, t', m')"
    using commit_returns_ok by blast
  have mem: "fst one_active \<in> set (active_transactions (snd one_active))" and early: "current_start_timestamp (snd one_active) < transaction_id_start"
    by (simp_all add: one_active_fields transaction_id_start_def)
  have "current_start_timestamp m' = 4"
    by (rule commit_removes [OF c]) (simp add: one_active_fields)
  then obtain u m'' where u: "start_transaction m' = Inr (u, m'')"
    by (simp add: start_transaction_def Let_def transaction_id_start_def)
  obtain rv2 where "rv_commit_append (tx_commit_id t') 0 5 rv1 = Inr rv2"
    and "\<forall>u m''. start_transaction m' = Inr (u, m'') \<longrightarrow> (\<forall>r. rv_fetch (transaction_data_of u) r rv2 =
       (0 \<le> r \<and> r < 5 \<or> rv_fetch (transaction_data_of u) r (new_row_version_manager 0)))"
    using append_snapshot_isolation [OF one_active_reachable mem early rv1 _ _ un c] by auto
  with rv1 c u show ?thesis by fastforce
qed

text \<open>
  C13. A queued cleanup is invisible: when the cleanup of a transaction that appended the rows from \<open>a\<close> on runs, however late, dropping
  version information changes nothing for any active transaction. In the vectors that it may drop, each row before \<open>a\<close> is
  older, or its transaction was active at the commit; and the first row is older, which the
  code does not check.
\<close>

theorem queued_cleanup_invisible:
  assumes "tm_reachable m" and "(w, lowest) \<in> set (fst (run_cleanup m))" and "u \<in> set (active_transactions m)"
    and "\<forall>x info. a < (x + 1) * standard_vector_size \<and> (x + 1) * standard_vector_size \<le> a + count \<and> rv_get_chunk_info x rv = Some info \<longrightarrow>
      appended_vector (tx_commit_id w) lowest a x info"
  shows "rv_fetch (transaction_data_of u) row (rv_cleanup_append lowest a count rv) = rv_fetch (transaction_data_of u) row rv"
proof (rule cleanup_append_fetch, rule ballI)
  fix x
  assume "x \<in> set (touched a (a + count))"
  then have "a div standard_vector_size < x + 1" by (simp add: touched_iff)
  then have x: "a < (x + 1) * standard_vector_size" using standard_vector_size_pos by (simp add: div_less_iff_less_mult)
  note run = active_running(1) [OF assms(1,3)]
  have "info_fetch (transaction_data_of u) (Some info) i"
    if "(x + 1) * standard_vector_size \<le> a + count" "rv_get_chunk_info x rv = Some info" "chunk_info_cleanup lowest info"
      "i < standard_vector_size" for info i
  proof -
    have info: "appended_vector (tx_commit_id w) lowest a x info" using assms(4) x that(1,2) by blast
    have "tx_commit_id w < tx_start_time u" using cleanup_older [OF assms(1,2)] assms(3) cleanup_appended(1) [OF that(3) info x] by blast
    then show ?thesis using cleanup_appended(2) [OF that(3) info x _ run that(4)] by (simp add: transaction_data_of_def)
  qed
  then show "droppable (transaction_data_of u) lowest (a + count) rv x" by (simp add: droppable_def)
qed

text \<open>A vector of which one transaction filled ten rows and the next one the rest.\<close>

definition demo_full :: chunk_vector_info where
  "demo_full = vector_commit_append 3 10 standard_vector_size (vector_append 10 standard_vector_size (transaction_id_start + 1)
     (vector_commit_append 1 0 10 (vector_append 0 10 transaction_id_start (new_vector_info 0))))"

lemma demo_full_fields:
  "\<not> same_inserted_id demo_full" "\<not> any_deleted demo_full" "deleted demo_full i = not_deleted_id"
  "inserted demo_full i = (if i < 10 then 1 else if i < standard_vector_size then 3 else 0)"
  by (auto simp: demo_full_def vector_commit_append_def vector_append_def new_vector_info_def Let_def fold_upd_upt transaction_id_start_def)

theorem queued_cleanup_invisible_witness:
  "\<exists>m u w lowest. tm_reachable m \<and> u \<in> set (active_transactions m) \<and> (w, lowest) \<in> set (fst (run_cleanup m)) \<and>
     (let rv = (new_row_version_manager 0)\<lparr>vector_info := [Some (VectorInfo demo_full)]\<rparr> in
      rv_get_chunk_info 0 (rv_cleanup_append lowest 10 (standard_vector_size - 10) rv) = None \<and>
      rv_fetch (transaction_data_of u) 5 (rv_cleanup_append lowest 10 (standard_vector_size - 10) rv) = rv_fetch (transaction_data_of u) 5 rv)"
proof -
  let ?rv = "(new_row_version_manager 0)\<lparr>vector_info := [Some (VectorInfo demo_full)]\<rparr>"
  let ?w = "fst one_active\<lparr>tx_changes_made := True, tx_commit_id := 3, tx_awaiting_cleanup := True\<rparr>"
  obtain u m' where u: "u \<in> set (active_transactions m')" and q: "(?w, transaction_id_start) \<in> set (fst (run_cleanup m'))"
    and reach: "tm_reachable m'"
    by (rule started_after_commit)
  have v: "appended_vector 3 transaction_id_start 10 0 (VectorInfo demo_full)"
    by (simp add: appended_vector_def vector_wf_def demo_full_fields standard_vector_size_def)
  have "rv_fetch (transaction_data_of u) 5 (rv_cleanup_append transaction_id_start 10 (standard_vector_size - 10) ?rv) = rv_fetch (transaction_data_of u) 5 ?rv"
  proof (rule queued_cleanup_invisible [OF reach q u], intro allI impI)
    fix x info
    assume "10 < (x + 1) * standard_vector_size \<and> (x + 1) * standard_vector_size \<le> 10 + (standard_vector_size - 10) \<and> rv_get_chunk_info x ?rv = Some info"
    then have get: "rv_get_chunk_info x ?rv = Some info" by blast
    have "x = 0" using get by (cases x) (simp_all add: rv_get_chunk_info_def)
    then show "appended_vector (tx_commit_id ?w) transaction_id_start 10 x info" using v get by (simp add: rv_get_chunk_info_def)
  qed
  moreover have "vector_cleanup transaction_id_start demo_full"
    by (simp add: vector_cleanup_def demo_full_fields list_ex_iff transaction_id_start_def)
  then have "rv_get_chunk_info 0 (rv_cleanup_append transaction_id_start 10 (standard_vector_size - 10) ?rv) = None"
    by (simp add: rv_cleanup_append_def touched_def cleanup_vector_def rv_get_chunk_info_def standard_vector_size_def)
  ultimately show ?thesis using reach u q
    by (intro exI [of _ m'] exI [of _ u] exI [of _ ?w] exI [of _ transaction_id_start]) (simp add: Let_def)
qed

end
